(* ===== verification/Prelude.thy ===== *)
theory Prelude
  imports Main "HOL-Library.Word"
begin

unbundle bit_operations_syntax

text \<open>
  The vocabulary shared by every component of the development.

  C types: \<open>uint\<close>, \<open>ushort\<close> and \<open>uchar\<close> are words of the width of types.h, so their
  arithmetic wraps as the C arithmetic does. A C \<open>int\<close> is an \<open>int\<close>.

  Kernel programs: a kernel function is a \<open>('s, 'a) kM\<close>, a function from the machine
  state to an outcome. \<open>Ok a s\<close> is a normal return; \<open>Fail f\<close> is a fault from which the
  kernel does not continue (a call of panic(), a processor exception in the kernel, an access
  out of the bounds of an object, a spin that no other step of the same CPU can end);
  \<open>Switch s k\<close> is a context switch (swtch.S): the thread has left the CPU in state \<open>s\<close>
  and \<open>k\<close> is its saved context, which runs on from the state it is resumed in. A function
  that sleeps is therefore modelled whole, with what it does after it is woken.

  Contracts: \<open>hoare G R E P m Q\<close> says that \<open>m\<close>, started where \<open>P\<close> holds, returns only
  where \<open>Q\<close> holds, faults only with a fault allowed by \<open>E\<close>, leaves the CPU only in states
  satisfying the guarantee \<open>G\<close>, and does so under the rely \<open>R\<close> between the state it left
  and the state it is resumed in.
\<close>

section \<open>C types and identities of kernel objects\<close>

type_synonym uint = "32 word"
type_synonym ushort = "16 word"
type_synonym uchar = "8 word"

text \<open>
  The sleep-locks and the spin-locks of the kernel by the object that contains them: distinct
  objects have distinct addresses, so an address comparison such as \<open>lk != &ptable.lock\<close> is
  a comparison of identities.
\<close>

datatype sleepid = SlBuf nat | SlInode nat

datatype lockid =
    LkPtable
  | LkKmem
  | LkTicks
  | LkBcache
  | LkLog
  | LkIcache
  | LkFtable
  | LkCons
  | LkIde
  | LkPipe uint
  | LkSleep sleepid

text \<open>The addresses the kernel sleeps on; \<open>chan == 0\<close> is \<open>None\<close>.\<close>

datatype chan =
    ChTicks
  | ChLog
  | ChProc nat
  | ChNread uint
  | ChNwrite uint
  | ChBuf nat
  | ChSleep sleepid
  | ChInput

section \<open>Outcomes and kernel programs\<close>

datatype fault =
    Panic string
  | DivideError
  | OutOfBounds string
  | NullPointer string
  | Spin lockid
  | NoFuel

datatype (dead 's, 'a) kres =
    Ok 'a 's
  | Fail fault
  | Switch 's "'s \<Rightarrow> ('s, 'a) kres"

type_synonym ('s, 'a) kM = "'s \<Rightarrow> ('s, 'a) kres"

primrec kres_bind :: "('s, 'a) kres \<Rightarrow> ('a \<Rightarrow> ('s, 'b) kM) \<Rightarrow> ('s, 'b) kres" where
  "kres_bind (Ok a s) f = f a s"
| "kres_bind (Fail e) f = Fail e"
| "kres_bind (Switch s k) f = Switch s (\<lambda>s'. kres_bind (k s') f)"

definition ret :: "'a \<Rightarrow> ('s, 'a) kM" where
  "ret a s = Ok a s"

definition kfail :: "fault \<Rightarrow> ('s, 'a) kM" where
  "kfail e s = Fail e"

definition kbind :: "('s, 'a) kM \<Rightarrow> ('a \<Rightarrow> ('s, 'b) kM) \<Rightarrow> ('s, 'b) kM" where
  "kbind m f s = kres_bind (m s) f"

definition kthen :: "('s, 'a) kM \<Rightarrow> ('s, 'b) kM \<Rightarrow> ('s, 'b) kM" where
  "kthen m n = kbind m (\<lambda>_. n)"

definition kgets :: "('s \<Rightarrow> 'a) \<Rightarrow> ('s, 'a) kM" where
  "kgets f s = Ok (f s) s"

definition kmodify :: "('s \<Rightarrow> 's) \<Rightarrow> ('s, unit) kM" where
  "kmodify f s = Ok () (f s)"

definition kwhen :: "bool \<Rightarrow> ('s, unit) kM \<Rightarrow> ('s, unit) kM" where
  "kwhen b m = (if b then m else ret ())"

definition kassert :: "bool \<Rightarrow> fault \<Rightarrow> ('s, unit) kM" where
  "kassert b e = (if b then ret () else kfail e)"

definition kswitch :: "('s, unit) kM" where
  "kswitch s = Switch s (\<lambda>s'. Ok () s')"

text \<open>A counted \<open>for\<close> loop over the given indices.\<close>

primrec kfor :: "'i list \<Rightarrow> ('i \<Rightarrow> ('s, unit) kM) \<Rightarrow> ('s, unit) kM" where
  "kfor [] f = ret ()"
| "kfor (i # is) f = kthen (f i) (kfor is f)"

text \<open>
  \<open>resume_with ts r\<close> runs on from the outcome \<open>r\<close>: the n-th time the thread has left the CPU it is
  resumed in the n-th state of \<open>ts\<close>.
\<close>

primrec resume_with :: "'s list \<Rightarrow> ('s, 'a) kres \<Rightarrow> ('s, 'a) kres" where
  "resume_with [] r = r"
| "resume_with (t # ts) r = (case r of Switch s k \<Rightarrow> resume_with ts (k t) | _ \<Rightarrow> r)"

text \<open>The first index of an array at which a test holds, the way a scanning loop finds it.\<close>

primrec find_idx :: "('a \<Rightarrow> bool) \<Rightarrow> 'a list \<Rightarrow> nat option" where
  "find_idx P [] = None"
| "find_idx P (x # xs) = (if P x then Some 0 else map_option Suc (find_idx P xs))"

section \<open>Equations of kernel programs\<close>

named_theorems kmonad \<open>equations that run a kernel program step by step\<close>

lemma kbind_Ok [kmonad]: "m s = Ok a s' \<Longrightarrow> kbind m f s = f a s'"
  by (simp add: kbind_def)

lemma kbind_Fail [kmonad]: "m s = Fail e \<Longrightarrow> kbind m f s = Fail e"
  by (simp add: kbind_def)

lemma kbind_Switch: "m s = Switch t k \<Longrightarrow> kbind m f s = Switch t (\<lambda>s'. kres_bind (k s') f)"
  by (simp add: kbind_def)

lemma kthen_Ok [kmonad]: "m s = Ok a s' \<Longrightarrow> kthen m n s = n s'"
  by (simp add: kthen_def kbind_def)

lemma kthen_Fail [kmonad]: "m s = Fail e \<Longrightarrow> kthen m n s = Fail e"
  by (simp add: kthen_def kbind_def)

lemma kthen_Switch: "m s = Switch t k \<Longrightarrow> kthen m n s = Switch t (\<lambda>s'. kres_bind (k s') (\<lambda>_. n))"
  by (simp add: kthen_def kbind_def)

lemma ret_run [simp, kmonad]: "ret a s = Ok a s"
  by (simp add: ret_def)

lemma kfail_run [simp, kmonad]: "kfail e s = Fail e"
  by (simp add: kfail_def)

lemma kgets_run [simp, kmonad]: "kgets f s = Ok (f s) s"
  by (simp add: kgets_def)

lemma kmodify_run [simp, kmonad]: "kmodify f s = Ok () (f s)"
  by (simp add: kmodify_def)

lemma kbind_gets [simp, kmonad]: "kbind (kgets g) f s = f (g s) s"
  by (simp add: kbind_def)

lemma kthen_modify [simp, kmonad]: "kthen (kmodify g) n s = n (g s)"
  by (simp add: kthen_def kbind_def)

lemma kbind_ret [simp, kmonad]: "kbind (ret a) f = f a"
  by (simp add: kbind_def fun_eq_iff)

lemma kthen_ret [simp, kmonad]: "kthen (ret a) n = n"
  by (simp add: kthen_def)

lemma kthen_fail [simp, kmonad]: "kthen (kfail e) n s = Fail e"
  by (simp add: kthen_def kbind_def)

lemma kwhen_True [simp, kmonad]: "kwhen True m = m"
  by (simp add: kwhen_def)

lemma kwhen_False [simp, kmonad]: "kwhen False m = ret ()"
  by (simp add: kwhen_def)

lemma kassert_True [simp, kmonad]: "kassert True e = ret ()"
  by (simp add: kassert_def)

lemma kassert_False [simp, kmonad]: "kassert False e = kfail e"
  by (simp add: kassert_def)

lemma kres_bind_assoc: "kres_bind (kres_bind r f) g = kres_bind r (\<lambda>a. kbind (f a) g)"
  by (induction r) (simp_all add: kbind_def)

lemma kres_bind_Ok [simp]: "kres_bind r (\<lambda>a s. Ok a s) = r"
  by (induction r) simp_all

lemma kbind_assoc: "kbind (kbind m f) g = kbind m (\<lambda>a. kbind (f a) g)"
  by (simp add: kbind_def fun_eq_iff kres_bind_assoc)

lemma kthen_assoc: "kthen (kthen m n) p = kthen m (kthen n p)"
  by (simp add: kthen_def kbind_assoc)

lemma kbind_kthen: "kbind (kthen m n) f = kthen m (kbind n f)"
  by (simp add: kthen_def kbind_assoc)

lemma kthen_kbind: "kthen (kbind m f) n = kbind m (\<lambda>a. kthen (f a) n)"
  by (simp add: kthen_def kbind_assoc)

lemma ret_eta: "kthen (\<lambda>s. Ok a s) n = n"
  by (simp add: kthen_def kbind_def fun_eq_iff)

lemma kfor_append: "kfor (xs @ ys) f = kthen (kfor xs f) (kfor ys f)"
  by (induction xs) (simp_all add: kthen_assoc ret_eta)

section \<open>Contracts of kernel programs\<close>

primrec sat ::
  "('s \<Rightarrow> bool) \<Rightarrow> ('s \<Rightarrow> 's \<Rightarrow> bool) \<Rightarrow> (fault \<Rightarrow> bool) \<Rightarrow> ('a \<Rightarrow> 's \<Rightarrow> bool) \<Rightarrow> ('s, 'a) kres \<Rightarrow> bool" where
  "sat G R E Q (Ok a s) = Q a s"
| "sat G R E Q (Fail e) = E e"
| "sat G R E Q (Switch s k) = (G s \<and> (\<forall>s'. R s s' \<longrightarrow> sat G R E Q (k s')))"

definition hoare ::
  "('s \<Rightarrow> bool) \<Rightarrow> ('s \<Rightarrow> 's \<Rightarrow> bool) \<Rightarrow> (fault \<Rightarrow> bool) \<Rightarrow> ('s \<Rightarrow> bool) \<Rightarrow> ('s, 'a) kM \<Rightarrow> ('a \<Rightarrow> 's \<Rightarrow> bool) \<Rightarrow> bool" where
  "hoare G R E P m Q \<longleftrightarrow> (\<forall>s. P s \<longrightarrow> sat G R E Q (m s))"

lemma sat_mono:
  assumes "sat G R E Q r" and "\<And>a s. Q a s \<Longrightarrow> Q' a s"
  shows "sat G R E Q' r"
  using assms by (induction r) auto

lemma sat_bind:
  assumes "sat G R E Q r" and "\<And>a s. Q a s \<Longrightarrow> sat G R E Q' (f a s)"
  shows "sat G R E Q' (kres_bind r f)"
  using assms by (induction r) auto

lemma hoareI: "(\<And>s. P s \<Longrightarrow> sat G R E Q (m s)) \<Longrightarrow> hoare G R E P m Q"
  by (simp add: hoare_def)

lemma hoareD: "hoare G R E P m Q \<Longrightarrow> P s \<Longrightarrow> sat G R E Q (m s)"
  by (simp add: hoare_def)

lemma hoare_ret: "(\<And>s. P s \<Longrightarrow> Q a s) \<Longrightarrow> hoare G R E P (ret a) Q"
  by (simp add: hoare_def)

lemma hoare_bind:
  assumes "hoare G R E P m Q1" and "\<And>a. hoare G R E (Q1 a) (f a) Q"
  shows "hoare G R E P (kbind m f) Q"
  using assms by (auto simp: hoare_def kbind_def intro: sat_bind)

lemma hoare_then:
  assumes "hoare G R E P m (\<lambda>_. Q1)" and "hoare G R E Q1 n Q"
  shows "hoare G R E P (kthen m n) Q"
  unfolding kthen_def using assms by (rule hoare_bind)

lemma hoare_weaken:
  assumes "hoare G R E P' m Q'" and "\<And>s. P s \<Longrightarrow> P' s" and "\<And>a s. Q' a s \<Longrightarrow> Q a s"
  shows "hoare G R E P m Q"
  using assms unfolding hoare_def by (blast intro: sat_mono)

lemma hoare_kfor:
  assumes "\<And>i. i \<in> set is \<Longrightarrow> hoare G R E P (f i) (\<lambda>_. P)"
  shows "hoare G R E P (kfor is f) (\<lambda>_. P)"
  using assms
proof (induction "is")
  case Nil
  then show ?case by (simp add: hoare_def)
next
  case (Cons i "is")
  then show ?case by (auto intro: hoare_then)
qed

section \<open>Scanning an array\<close>

lemma find_idx_None: "find_idx P xs = None \<longleftrightarrow> (\<forall>x \<in> set xs. \<not> P x)"
  by (induction xs) auto

lemma find_idx_SomeD:
  assumes "find_idx P xs = Some i"
  shows "i < length xs" and "P (xs ! i)" and "j < i \<Longrightarrow> \<not> P (xs ! j)"
proof -
  have *: "i < length xs \<and> P (xs ! i) \<and> (\<forall>j < i. \<not> P (xs ! j))"
    using assms
  proof (induction xs arbitrary: i)
    case (Cons x xs)
    show ?case
    proof (cases "P x")
      case False
      with Cons.prems obtain k where "find_idx P xs = Some k" and i: "i = Suc k" by auto
      with Cons.IH have "k < length xs \<and> P (xs ! k) \<and> (\<forall>j < k. \<not> P (xs ! j))" by blast
      with False i show ?thesis by (auto simp: nth_Cons split: nat.splits)
    qed (use Cons.prems in auto)
  qed simp
  then show "i < length xs" "P (xs ! i)" "j < i \<Longrightarrow> \<not> P (xs ! j)" by auto
qed

lemma find_idx_SomeI:
  assumes "i < length xs" and "P (xs ! i)" and "\<And>j. j < i \<Longrightarrow> \<not> P (xs ! j)"
  shows "find_idx P xs = Some i"
proof (cases "find_idx P xs")
  case None
  with assms show ?thesis by (simp add: find_idx_None)
next
  case (Some k)
  with assms find_idx_SomeD [OF Some] have "\<not> k < i" and "\<not> i < k" by blast+
  with Some show ?thesis by simp
qed

lemma find_idx_cong: "(\<And>x. x \<in> set xs \<Longrightarrow> P x = Q x) \<Longrightarrow> find_idx P xs = find_idx Q xs"
  by (induction xs) auto

lemma find_idx_map: "find_idx P (map f xs) = find_idx (P \<circ> f) xs"
  by (induction xs) auto

lemma list_all_update: "list_all P xs \<Longrightarrow> P x \<Longrightarrow> list_all P (xs[i := x])"
  using set_update_subset_insert [of xs i x] by (auto simp: list_all_iff)

lemma nth_update_same_field: "g x = g (xs ! i) \<Longrightarrow> g (xs[i := x] ! j) = g (xs ! j)"
  by (cases "i = j"; cases "i < length xs") (auto simp: list_update_beyond)

end
