(* ===== verification/Machine.thy ===== *)
theory Machine
  imports Prelude
begin

text \<open>
  The machine the kernel runs on, as the headers describe it: the limits of param.h, the memory
  layout of memlayout.h, the paging and segmentation macros of mmu.h, the special instructions
  of x86.h, the per-CPU record of proc.h and the lock record of spinlock.h.

  \<open>machine\<close> is the root of the kernel state. Every later theory extends this record with the
  data of its own component, and the operations here are polymorphic in the extension, so a
  function of a lower component is called on the whole kernel state as it stands.

  The CPU that executes is the one whose APIC identifier is \<open>lapic_id\<close>. Its interrupt flag,
  page-table base and task register are indexed by that identifier, because they are registers
  of the hardware and not fields of the kernel's array \<open>cpus\<close>.
\<close>

section \<open>Limits (param.h)\<close>

definition NPROC :: nat where "NPROC = 64"
definition KSTACKSIZE :: uint where "KSTACKSIZE = 4096"
definition NCPU :: nat where "NCPU = 8"
definition NOFILE :: nat where "NOFILE = 16"
definition NFILE :: nat where "NFILE = 100"
definition NINODE :: nat where "NINODE = 50"
definition NDEV :: nat where "NDEV = 10"
definition ROOTDEV :: uint where "ROOTDEV = 1"
definition MAXARG :: nat where "MAXARG = 32"
definition MAXOPBLOCKS :: nat where "MAXOPBLOCKS = 10"
definition LOGSIZE :: nat where "LOGSIZE = MAXOPBLOCKS * 3"
definition NBUF :: nat where "NBUF = MAXOPBLOCKS * 3"
definition FSSIZE :: nat where "FSSIZE = 1000"

section \<open>Memory layout and paging macros (memlayout.h, mmu.h)\<close>

definition EXTMEM :: uint where "EXTMEM = 0x100000"
definition PHYSTOP :: uint where "PHYSTOP = 0xE000000"
definition DEVSPACE :: uint where "DEVSPACE = 0xFE000000"
definition KERNBASE :: uint where "KERNBASE = 0x80000000"
definition KERNLINK :: uint where "KERNLINK = KERNBASE + EXTMEM"

definition V2P :: "uint \<Rightarrow> uint" where "V2P a = a - KERNBASE"
definition P2V :: "uint \<Rightarrow> uint" where "P2V a = a + KERNBASE"

definition PGSIZE :: uint where "PGSIZE = 4096"
definition PTXSHIFT :: nat where "PTXSHIFT = 12"
definition PDXSHIFT :: nat where "PDXSHIFT = 22"
definition NPDENTRIES :: nat where "NPDENTRIES = 1024"
definition NPTENTRIES :: nat where "NPTENTRIES = 1024"

definition PDX :: "uint \<Rightarrow> uint" where "PDX va = drop_bit PDXSHIFT va AND 0x3FF"
definition PTX :: "uint \<Rightarrow> uint" where "PTX va = drop_bit PTXSHIFT va AND 0x3FF"

definition PGADDR :: "uint \<Rightarrow> uint \<Rightarrow> uint \<Rightarrow> uint" where
  "PGADDR d t ofs = push_bit PDXSHIFT d OR push_bit PTXSHIFT t OR ofs"

definition PGROUNDUP :: "uint \<Rightarrow> uint" where
  "PGROUNDUP sz = (sz + PGSIZE - 1) AND NOT (PGSIZE - 1)"

definition PGROUNDDOWN :: "uint \<Rightarrow> uint" where
  "PGROUNDDOWN a = a AND NOT (PGSIZE - 1)"

definition PTE_P :: uint where "PTE_P = 1"
definition PTE_W :: uint where "PTE_W = 2"
definition PTE_U :: uint where "PTE_U = 4"
definition PTE_PS :: uint where "PTE_PS = 0x80"

definition PTE_ADDR :: "uint \<Rightarrow> uint" where "PTE_ADDR pte = pte AND NOT 0xFFF"
definition PTE_FLAGS :: "uint \<Rightarrow> uint" where "PTE_FLAGS pte = pte AND 0xFFF"

section \<open>Segment descriptors (mmu.h)\<close>

definition SEG_KCODE :: nat where "SEG_KCODE = 1"
definition SEG_KDATA :: nat where "SEG_KDATA = 2"
definition SEG_UCODE :: nat where "SEG_UCODE = 3"
definition SEG_UDATA :: nat where "SEG_UDATA = 4"
definition SEG_TSS :: nat where "SEG_TSS = 5"
definition NSEGS :: nat where "NSEGS = 6"
definition DPL_USER :: uint where "DPL_USER = 3"
definition FL_IF :: uint where "FL_IF = 0x200"
definition STA_X :: "4 word" where "STA_X = 8"
definition STA_W :: "4 word" where "STA_W = 2"
definition STA_R :: "4 word" where "STA_R = 2"
definition STS_T32A :: "4 word" where "STS_T32A = 9"
definition STS_IG32 :: "4 word" where "STS_IG32 = 0xE"
definition STS_TG32 :: "4 word" where "STS_TG32 = 0xF"

record segdesc =
  lim_15_0 :: ushort
  base_15_0 :: ushort
  base_23_16 :: uchar
  seg_type :: "4 word"
  seg_s :: "1 word"
  seg_dpl :: "2 word"
  seg_p :: "1 word"
  lim_19_16 :: "4 word"
  seg_avl :: "1 word"
  seg_rsv1 :: "1 word"
  seg_db :: "1 word"
  seg_g :: "1 word"
  base_31_24 :: uchar

definition SEG :: "4 word \<Rightarrow> uint \<Rightarrow> uint \<Rightarrow> uint \<Rightarrow> segdesc" where
  "SEG type base lim dpl =
     \<lparr>lim_15_0 = ucast (drop_bit 12 lim AND 0xffff), base_15_0 = ucast (base AND 0xffff),
      base_23_16 = ucast (drop_bit 16 base AND 0xff), seg_type = type, seg_s = 1,
      seg_dpl = ucast dpl, seg_p = 1, lim_19_16 = ucast (drop_bit 28 lim), seg_avl = 0,
      seg_rsv1 = 0, seg_db = 1, seg_g = 1, base_31_24 = ucast (drop_bit 24 base)\<rparr>"

definition SEG16 :: "4 word \<Rightarrow> uint \<Rightarrow> uint \<Rightarrow> uint \<Rightarrow> segdesc" where
  "SEG16 type base lim dpl =
     \<lparr>lim_15_0 = ucast (lim AND 0xffff), base_15_0 = ucast (base AND 0xffff),
      base_23_16 = ucast (drop_bit 16 base AND 0xff), seg_type = type, seg_s = 1,
      seg_dpl = ucast dpl, seg_p = 1, lim_19_16 = ucast (drop_bit 16 lim), seg_avl = 0,
      seg_rsv1 = 0, seg_db = 1, seg_g = 0, base_31_24 = ucast (drop_bit 24 base)\<rparr>"

record gatedesc =
  off_15_0 :: ushort
  gate_cs :: ushort
  gate_args :: "5 word"
  gate_rsv1 :: "3 word"
  gate_type :: "4 word"
  gate_s :: "1 word"
  gate_dpl :: "2 word"
  gate_p :: "1 word"
  off_31_16 :: ushort

definition SETGATE :: "bool \<Rightarrow> ushort \<Rightarrow> uint \<Rightarrow> uint \<Rightarrow> gatedesc" where
  "SETGATE istrap sel off d =
     \<lparr>off_15_0 = ucast (off AND 0xffff), gate_cs = sel, gate_args = 0, gate_rsv1 = 0,
      gate_type = (if istrap then STS_TG32 else STS_IG32), gate_s = 0, gate_dpl = ucast d,
      gate_p = 1, off_31_16 = ucast (drop_bit 16 off)\<rparr>"

text \<open>Of the task state segment the kernel writes these three fields only.\<close>

record taskstate =
  esp0 :: uint
  ss0 :: ushort
  iomb :: ushort

section \<open>The machine record (proc.h, spinlock.h, trap.c)\<close>

record cpu =
  apicid :: uchar
  cpu_ts :: taskstate
  gdt :: "segdesc list"
  started :: bool
  ncli :: int
  intena :: bool
  cpu_proc :: "nat option"

text \<open>
  The debugging fields \<open>name\<close> and \<open>pcs\<close> of a lock are written by the kernel and read by
  none of its functions; the lock record keeps the name and leaves \<open>pcs\<close> out.
\<close>

record spinlock =
  locked :: bool
  lk_name :: string
  lk_cpu :: "nat option"

text \<open>
  The devices behind the I/O ports are a parameter: \<open>port_in n p\<close> is what the \<open>n\<close>-th input
  instruction reads when it addresses port \<open>p\<close>, and \<open>port_out\<close> is the sequence of the output
  instructions so far. \<open>patience\<close> bounds how often a loop that waits for another party (a wake-up,
  a device that is busy) goes round before the model gives up with \<open>NoFuel\<close>.
\<close>

record machine =
  cpus :: "cpu list"
  ncpu :: nat
  lapic_id :: uchar
  eflags_IF :: "uchar \<Rightarrow> bool"
  cr3 :: "uchar \<Rightarrow> uint"
  tr :: "uchar \<Rightarrow> ushort"
  gdt_loaded :: "uchar \<Rightarrow> nat option"
  locks :: "lockid \<Rightarrow> spinlock"
  mem :: "uint \<Rightarrow> uchar"
  ticks :: uint
  rtc_dev :: "nat \<Rightarrow> uint \<Rightarrow> uchar"
  rtc_now :: nat
  port_in :: "nat \<Rightarrow> ushort \<Rightarrow> uint"
  port_now :: nat
  port_out :: "(ushort \<times> uint) list"
  patience :: nat

section \<open>Special instructions (x86.h)\<close>

definition readeflags :: "('z machine_scheme, bool) kM" where
  "readeflags = kgets (\<lambda>s. eflags_IF s (lapic_id s))"

definition cli :: "('z machine_scheme, unit) kM" where
  "cli = kmodify (\<lambda>s. s\<lparr>eflags_IF := (eflags_IF s)(lapic_id s := False)\<rparr>)"

definition sti :: "('z machine_scheme, unit) kM" where
  "sti = kmodify (\<lambda>s. s\<lparr>eflags_IF := (eflags_IF s)(lapic_id s := True)\<rparr>)"

definition lcr3 :: "uint \<Rightarrow> ('z machine_scheme, unit) kM" where
  "lcr3 v = kmodify (\<lambda>s. s\<lparr>cr3 := (cr3 s)(lapic_id s := v)\<rparr>)"

definition ltr :: "ushort \<Rightarrow> ('z machine_scheme, unit) kM" where
  "ltr sel = kmodify (\<lambda>s. s\<lparr>tr := (tr s)(lapic_id s := sel)\<rparr>)"

text \<open>\<open>xchg(&lk->locked, 1)\<close>: the old value comes back and the flag is set, in one step.\<close>

definition xchg_locked :: "lockid \<Rightarrow> ('z machine_scheme, bool) kM" where
  "xchg_locked l s = Ok (locked (locks s l)) (s\<lparr>locks := (locks s)(l := (locks s l)\<lparr>locked := True\<rparr>)\<rparr>)"

text \<open>Port input and output; \<open>insl\<close> and \<open>outsl\<close> transfer a sequence of 32-bit words.\<close>

definition in_port :: "ushort \<Rightarrow> ('z machine_scheme, uint) kM" where
  "in_port p s = Ok (port_in s (port_now s) p) (s\<lparr>port_now := port_now s + 1\<rparr>)"

definition out_port :: "ushort \<Rightarrow> uint \<Rightarrow> ('z machine_scheme, unit) kM" where
  "out_port p v = kmodify (\<lambda>s. s\<lparr>port_out := port_out s @ [(p, v)]\<rparr>)"

definition inb :: "ushort \<Rightarrow> ('z machine_scheme, uchar) kM" where
  "inb p = kbind (in_port p) (\<lambda>v. ret (ucast v))"

definition outb :: "ushort \<Rightarrow> uchar \<Rightarrow> ('z machine_scheme, unit) kM" where
  "outb p v = out_port p (ucast v)"

primrec insl :: "ushort \<Rightarrow> nat \<Rightarrow> ('z machine_scheme, uint list) kM" where
  "insl p 0 = ret []"
| "insl p (Suc n) = kbind (in_port p) (\<lambda>v. kbind (insl p n) (\<lambda>vs. ret (v # vs)))"

definition outsl :: "ushort \<Rightarrow> uint list \<Rightarrow> ('z machine_scheme, unit) kM" where
  "outsl p vs = kfor vs (out_port p)"

section \<open>Little-endian words in byte memory\<close>

definition load32 :: "(uint \<Rightarrow> uchar) \<Rightarrow> uint \<Rightarrow> uint" where
  "load32 m a = ucast (m a) OR push_bit 8 (ucast (m (a + 1)))
     OR push_bit 16 (ucast (m (a + 2))) OR push_bit 24 (ucast (m (a + 3)))"

definition store32 :: "(uint \<Rightarrow> uchar) \<Rightarrow> uint \<Rightarrow> uint \<Rightarrow> (uint \<Rightarrow> uchar)" where
  "store32 m a w = m(a := ucast w, a + 1 := ucast (drop_bit 8 w),
     a + 2 := ucast (drop_bit 16 w), a + 3 := ucast (drop_bit 24 w))"

section \<open>Facts about words in memory and about rounding to pages\<close>

lemma word32_of_bytes [simp]:
  "ucast (ucast w :: uchar) OR push_bit 8 (ucast (ucast (drop_bit 8 w) :: uchar))
    OR push_bit 16 (ucast (ucast (drop_bit 16 w) :: uchar))
    OR push_bit 24 (ucast (ucast (drop_bit 24 w) :: uchar)) = (w :: uint)"
proof (rule bit_word_eqI)
  fix n assume "n < LENGTH(32)"
  then consider "n < 8" | "8 \<le> n" "n < 16" | "16 \<le> n" "n < 24" | "24 \<le> n" "n < 32"
    by fastforce
  then show "bit (ucast (ucast w :: uchar) OR push_bit 8 (ucast (ucast (drop_bit 8 w) :: uchar))
    OR push_bit 16 (ucast (ucast (drop_bit 16 w) :: uchar))
    OR push_bit 24 (ucast (ucast (drop_bit 24 w) :: uchar)) :: uint) n = bit w n"
    by cases (auto simp: bit_simps)
qed

lemma word16_of_bytes [simp]:
  "ucast (ucast w :: uchar) OR push_bit 8 (ucast (ucast (drop_bit 8 w) :: uchar)) = (w :: ushort)"
proof (rule bit_word_eqI)
  fix n assume "n < LENGTH(16)"
  then consider "n < 8" | "8 \<le> n" "n < 16" by fastforce
  then show "bit (ucast (ucast w :: uchar) OR push_bit 8 (ucast (ucast (drop_bit 8 w) :: uchar)) :: ushort) n = bit w n"
    by cases (auto simp: bit_simps)
qed

lemma load32_store32_same [simp]: "load32 (store32 m a w) a = w"
proof -
  have "a + 3 \<noteq> a" "a + 2 \<noteq> a" "a + 1 \<noteq> a" "a + 3 \<noteq> a + 1" "a + 2 \<noteq> a + 1" "a + 3 \<noteq> a + 2"
    by simp_all
  then show ?thesis by (simp add: load32_def store32_def)
qed

lemma store32_other:
  assumes "b \<noteq> a" "b \<noteq> a + 1" "b \<noteq> a + 2" "b \<noteq> a + 3"
  shows "store32 m a w b = m b"
  using assms by (simp add: store32_def)

lemma bit_mask12: "bit (NOT 0xFFF :: uint) n \<longleftrightarrow> 12 \<le> n \<and> n < 32"
proof -
  have m: "(0xFFF :: uint) = mask 12" by (simp add: mask_eq_exp_minus_1)
  show ?thesis by (subst m) (auto simp: bit_simps)
qed

lemma PGROUNDDOWN_bit: "bit (PGROUNDDOWN a) n \<longleftrightarrow> bit a n \<and> 12 \<le> n"
  using bit_mask12 [of n] by (auto simp: PGROUNDDOWN_def PGSIZE_def bit_simps dest: bit_imp_le_length)

lemma PGROUNDDOWN_idem [simp]: "PGROUNDDOWN (PGROUNDDOWN a) = PGROUNDDOWN a"
  by (rule bit_word_eqI) (simp add: PGROUNDDOWN_bit)

end
