(* ===== verification/Spinlock.thy ===== *)
theory Spinlock
  imports Machine
begin

text \<open>
  spinlock.c with the CPU lookup of proc.c it rests on: \<open>mycpu\<close>, \<open>pushcli\<close>, \<open>popcli\<close>,
  \<open>holding\<close>, \<open>acquire\<close> and \<open>release\<close>, as programs over the machine record, and the walk of
  the call stack \<open>getcallerpcs\<close>.

  \<open>acquire\<close> spins while another CPU holds the lock. On the CPU that spins nothing else can
  happen (interrupts are off), so within one CPU's program that outcome is the fault \<open>Spin\<close>.
  What several CPUs do to one lock is the step relation \<open>lock_step\<close> at the end, whose
  steps are the memory accesses of acquire(), release() and holding() one at a time; run alone on
  one CPU they give what the programs give.

  Shown here: pushcli/popcli nest, in any depth; acquire and release in closed form on every
  branch; a critical section leaves the machine as it found it; mutual exclusion, also when the
  functions are called out of turn, and that holding() answers yes exactly on the owner.
\<close>

section \<open>Finding the executing CPU (proc.c)\<close>

definition cpu_at :: "'z machine_scheme \<Rightarrow> nat option" where
  "cpu_at s = find_idx (\<lambda>c. apicid c = lapic_id s) (take (ncpu s) (cpus s))"

definition mycpu :: "('z machine_scheme, nat) kM" where
  "mycpu =
     kbind readeflags (\<lambda>fl.
     if fl then kfail (Panic ''mycpu called with interrupts enabled'')
     else kbind (kgets cpu_at) (\<lambda>r.
       case r of None \<Rightarrow> kfail (Panic ''unknown apicid'') | Some i \<Rightarrow> ret i))"

definition cpuid :: "('z machine_scheme, nat) kM" where
  "cpuid = mycpu"

definition upd_cpu :: "nat \<Rightarrow> (cpu \<Rightarrow> cpu) \<Rightarrow> 'z machine_scheme \<Rightarrow> 'z machine_scheme" where
  "upd_cpu i f s = s\<lparr>cpus := (cpus s)[i := f (cpus s ! i)]\<rparr>"

section \<open>Interrupt nesting and locks (spinlock.c)\<close>

definition pushcli :: "('z machine_scheme, unit) kM" where
  "pushcli =
     kbind readeflags (\<lambda>fl.
     kthen cli (
     kbind mycpu (\<lambda>i.
     kbind (kgets (\<lambda>s. ncli (cpus s ! i))) (\<lambda>n.
     kthen (kwhen (n = 0) (kmodify (upd_cpu i (\<lambda>c. c\<lparr>intena := fl\<rparr>)))) (
     kmodify (upd_cpu i (\<lambda>c. c\<lparr>ncli := ncli c + 1\<rparr>)))))))"

definition popcli :: "('z machine_scheme, unit) kM" where
  "popcli =
     kbind readeflags (\<lambda>fl.
     if fl then kfail (Panic ''popcli - interruptible'')
     else kbind mycpu (\<lambda>i.
     kthen (kmodify (upd_cpu i (\<lambda>c. c\<lparr>ncli := ncli c - 1\<rparr>))) (
     kbind (kgets (\<lambda>s. cpus s ! i)) (\<lambda>c.
     if ncli c < 0 then kfail (Panic ''popcli'')
     else kwhen (ncli c = 0 \<and> intena c) sti))))"

definition holding :: "lockid \<Rightarrow> ('z machine_scheme, bool) kM" where
  "holding l =
     kthen pushcli (
     kbind (kgets (\<lambda>s. locks s l)) (\<lambda>lk.
     kbind (if locked lk then kbind mycpu (\<lambda>i. ret (lk_cpu lk = Some i)) else ret False) (\<lambda>r.
     kthen popcli (ret r))))"

definition initlock :: "lockid \<Rightarrow> string \<Rightarrow> ('z machine_scheme, unit) kM" where
  "initlock l nm =
     kmodify (\<lambda>s. s\<lparr>locks := (locks s)(l := \<lparr>locked = False, lk_name = nm, lk_cpu = None\<rparr>)\<rparr>)"

definition set_lk_cpu :: "lockid \<Rightarrow> nat option \<Rightarrow> 'z machine_scheme \<Rightarrow> 'z machine_scheme" where
  "set_lk_cpu l c s = s\<lparr>locks := (locks s)(l := (locks s l)\<lparr>lk_cpu := c\<rparr>)\<rparr>"

definition acquire :: "lockid \<Rightarrow> ('z machine_scheme, unit) kM" where
  "acquire l =
     kthen pushcli (
     kbind (holding l) (\<lambda>h.
     if h then kfail (Panic ''acquire'')
     else kbind (xchg_locked l) (\<lambda>old.
       if old then kfail (Spin l)
       else kbind mycpu (\<lambda>i. kmodify (set_lk_cpu l (Some i))))))"

definition release :: "lockid \<Rightarrow> ('z machine_scheme, unit) kM" where
  "release l =
     kbind (holding l) (\<lambda>h.
     if \<not> h then kfail (Panic ''release'')
     else kthen (kmodify (set_lk_cpu l None)) (
       kthen (kmodify (\<lambda>s. s\<lparr>locks := (locks s)(l := (locks s l)\<lparr>locked := False\<rparr>)\<rparr>))
         popcli))"

text \<open>
  The call stack by the chain of saved frame pointers: \<open>getcallerpcs mem v\<close> are the ten
  entries of \<open>pcs\<close>, the return addresses found, then zeros.
\<close>

primrec pcs_walk :: "(uint \<Rightarrow> uchar) \<Rightarrow> nat \<Rightarrow> uint \<Rightarrow> uint list" where
  "pcs_walk m 0 ebp = []"
| "pcs_walk m (Suc n) ebp =
     (if ebp = 0 \<or> ebp < KERNBASE \<or> ebp = 0xffffffff then replicate (Suc n) 0
      else load32 m (ebp + 4) # pcs_walk m n (load32 m ebp))"

definition getcallerpcs :: "(uint \<Rightarrow> uchar) \<Rightarrow> uint \<Rightarrow> uint list" where
  "getcallerpcs m v = pcs_walk m 10 (v - 8)"

section \<open>Several CPUs and one lock\<close>

text \<open>
  One lock and the CPUs that use it, at the granularity of the accesses to \<open>lk->locked\<close> and
  \<open>lk->cpu\<close>. A CPU runs its lock functions to the end, since their callers have interrupts off
  (acquire() by its pushcli(), release() by the one of the acquire() before). Its place in them is
  an \<open>lpc\<close>: holding() before its load of \<open>lk->locked\<close> and before its load of \<open>lk->cpu\<close>, for the
  function that called it; the exchange of acquire(); the store of \<open>lk->cpu\<close> behind it; the
  two stores of release(); and the three ends, a return, an answer of holding() and a panic.
  Memory is sequentially consistent, which __sync_synchronize() and the locked exchange provide.
\<close>

datatype lcaller = ByAcquire | ByRelease | ByOther

datatype lpc =
    LIdle
  | LHold1 lcaller
  | LHold2 lcaller
  | LSpin
  | LGot
  | LRel1
  | LRel2
  | LAnswer bool
  | LPanic lcaller

text \<open>\<open>l_own\<close> records who won the exchange and has not yet stored 0 to \<open>lk->locked\<close>.\<close>

record lock_sys =
  l_locked :: bool
  l_cpu :: "nat option"
  l_pc :: "nat \<Rightarrow> lpc"
  l_own :: "nat \<Rightarrow> bool"

fun after_holding :: "lcaller \<Rightarrow> bool \<Rightarrow> lpc" where
  "after_holding ByAcquire r = (if r then LPanic ByAcquire else LSpin)"
| "after_holding ByRelease r = (if r then LRel1 else LPanic ByRelease)"
| "after_holding ByOther r = LAnswer r"

definition lock_goto :: "nat \<Rightarrow> lpc \<Rightarrow> lock_sys \<Rightarrow> lock_sys" where
  "lock_goto i p s = s\<lparr>l_pc := (l_pc s)(i := p)\<rparr>"

text \<open>The next access of CPU \<open>i\<close>.\<close>

definition lock_next :: "nat \<Rightarrow> lock_sys \<Rightarrow> lock_sys" where
  "lock_next i s =
     (case l_pc s i of
        LHold1 c \<Rightarrow> lock_goto i (if l_locked s then LHold2 c else after_holding c False) s
      | LHold2 c \<Rightarrow> lock_goto i (after_holding c (l_cpu s = Some i)) s
      | LSpin \<Rightarrow>
          if l_locked s then s\<lparr>l_locked := True\<rparr>
          else lock_goto i LGot (s\<lparr>l_locked := True, l_own := (l_own s)(i := True)\<rparr>)
      | LGot \<Rightarrow> lock_goto i LIdle (s\<lparr>l_cpu := Some i\<rparr>)
      | LRel1 \<Rightarrow> lock_goto i LRel2 (s\<lparr>l_cpu := None\<rparr>)
      | LRel2 \<Rightarrow> lock_goto i LIdle (s\<lparr>l_locked := False, l_own := (l_own s)(i := False)\<rparr>)
      | _ \<Rightarrow> s)"

text \<open>
  Any CPU that is in none of the functions may call any of them, whether or not it holds the lock,
  and any CPU may make its next access.
\<close>

inductive lock_step :: "lock_sys \<Rightarrow> lock_sys \<Rightarrow> bool" where
  lock_call: "l_pc s i = LIdle \<or> l_pc s i = LAnswer r \<Longrightarrow> lock_step s (lock_goto i (LHold1 c) s)"
| lock_access: "lock_step s (lock_next i s)"

definition lock_init :: lock_sys where
  "lock_init = \<lparr>l_locked = False, l_cpu = None, l_pc = (\<lambda>_. LIdle), l_own = (\<lambda>_. False)\<rparr>"

inductive lock_reach :: "lock_sys \<Rightarrow> bool" where
  lr_init: "lock_reach lock_init"
| lr_step: "lock_reach s \<Longrightarrow> lock_step s t \<Longrightarrow> lock_reach t"

text \<open>What a place in the code says about the CPU that is there.\<close>

fun pc_owner :: "lpc \<Rightarrow> bool \<Rightarrow> bool" where
  "pc_owner LSpin w = (\<not> w)"
| "pc_owner LGot w = w"
| "pc_owner LRel1 w = w"
| "pc_owner LRel2 w = w"
| "pc_owner (LAnswer r) w = (r = w)"
| "pc_owner (LPanic ByAcquire) w = w"
| "pc_owner (LPanic ByRelease) w = (\<not> w)"
| "pc_owner (LPanic ByOther) w = False"
| "pc_owner _ w = True"

definition lock_inv :: "lock_sys \<Rightarrow> bool" where
  "lock_inv s \<longleftrightarrow>
     (l_locked s \<longleftrightarrow> (\<exists>i. l_own s i)) \<and>
     (\<forall>i j. l_own s i \<and> l_own s j \<longrightarrow> i = j) \<and>
     (\<forall>i. l_cpu s = Some i \<longleftrightarrow> l_own s i \<and> l_pc s i \<noteq> LGot \<and> l_pc s i \<noteq> LRel2) \<and>
     (\<forall>i. pc_owner (l_pc s i) (l_own s i))"

text \<open>A lock of the machine record as such a system, with the places and owners of its CPUs.\<close>

definition lock_view :: "lockid \<Rightarrow> (nat \<Rightarrow> lpc) \<Rightarrow> (nat \<Rightarrow> bool) \<Rightarrow> 'z machine_scheme \<Rightarrow> lock_sys" where
  "lock_view l pc own s = \<lparr>l_locked = locked (locks s l), l_cpu = lk_cpu (locks s l), l_pc = pc, l_own = own\<rparr>"

section \<open>The state of one CPU\<close>

text \<open>
  \<open>cpu_ok\<close>: the executing CPU is in the table, its nesting depth is not negative, and its
  interrupts are off inside a pushcli section.
\<close>

definition me :: "'z machine_scheme \<Rightarrow> nat" where
  "me s = the (cpu_at s)"

definition depth :: "'z machine_scheme \<Rightarrow> int" where
  "depth s = ncli (cpus s ! me s)"

definition cur_IF :: "'z machine_scheme \<Rightarrow> bool" where
  "cur_IF s = eflags_IF s (lapic_id s)"

definition cpu_ok :: "'z machine_scheme \<Rightarrow> bool" where
  "cpu_ok s \<longleftrightarrow> cpu_at s \<noteq> None \<and> 0 \<le> depth s \<and> (0 < depth s \<longrightarrow> \<not> cur_IF s)"

definition lock_free :: "'z machine_scheme \<Rightarrow> lockid \<Rightarrow> bool" where
  "lock_free s l \<longleftrightarrow> \<not> locked (locks s l) \<and> lk_cpu (locks s l) = None"

definition lock_mine :: "'z machine_scheme \<Rightarrow> lockid \<Rightarrow> bool" where
  "lock_mine s l \<longleftrightarrow> locked (locks s l) \<and> lk_cpu (locks s l) = Some (me s)"

text \<open>What pushcli, acquire and release do to a machine in which they succeed.\<close>

definition pushed :: "'z machine_scheme \<Rightarrow> 'z machine_scheme" where
  "pushed s = s\<lparr>eflags_IF := (eflags_IF s)(lapic_id s := False),
     cpus := (cpus s)[me s := (cpus s ! me s)\<lparr>
       intena := (if depth s = 0 then cur_IF s else intena (cpus s ! me s)), ncli := depth s + 1\<rparr>]\<rparr>"

definition popped :: "'z machine_scheme \<Rightarrow> 'z machine_scheme" where
  "popped s = s\<lparr>eflags_IF := (eflags_IF s)(lapic_id s := (depth s = 1 \<and> intena (cpus s ! me s))),
     cpus := (cpus s)[me s := (cpus s ! me s)\<lparr>ncli := depth s - 1\<rparr>]\<rparr>"

definition taken :: "lockid \<Rightarrow> 'z machine_scheme \<Rightarrow> 'z machine_scheme" where
  "taken l s = s\<lparr>locks := (locks s)(l := (locks s l)\<lparr>locked := True, lk_cpu := Some (me s)\<rparr>)\<rparr>"

definition dropped :: "lockid \<Rightarrow> 'z machine_scheme \<Rightarrow> 'z machine_scheme" where
  "dropped l s = s\<lparr>locks := (locks s)(l := (locks s l)\<lparr>lk_cpu := None, locked := False\<rparr>)\<rparr>"

definition enter :: "lockid \<Rightarrow> 'z machine_scheme \<Rightarrow> 'z machine_scheme" where
  "enter l s = taken l (pushed s)"

definition leave :: "lockid \<Rightarrow> 'z machine_scheme \<Rightarrow> 'z machine_scheme" where
  "leave l s = popped (dropped l s)"

text \<open>What a balanced critical section leaves behind: only a refreshed \<open>intena\<close>.\<close>

definition touched :: "'z machine_scheme \<Rightarrow> 'z machine_scheme" where
  "touched s = (if depth s = 0 then upd_cpu (me s) (\<lambda>c. c\<lparr>intena := cur_IF s\<rparr>) s else s)"

section \<open>Running pushcli and popcli\<close>

lemma cpu_at_apicids:
  "cpu_at s = find_idx (\<lambda>a. a = lapic_id s) (take (ncpu s) (map apicid (cpus s)))"
  by (simp add: cpu_at_def take_map find_idx_map comp_def)

lemma me_less: "cpu_at s \<noteq> None \<Longrightarrow> me s < length (cpus s)"
  using find_idx_SomeD(1) [of "\<lambda>c. apicid c = lapic_id s" "take (ncpu s) (cpus s)" "me s"]
  by (auto simp: me_def cpu_at_def)

lemma map_apicid_update [simp]:
  "apicid c = apicid (cs ! i) \<Longrightarrow> map apicid (cs[i := c]) = map apicid cs"
  by (metis list_update_id map_update)

lemma cpu_at_pushed [simp]: "cpu_at (pushed s) = cpu_at s"
  by (simp add: cpu_at_apicids pushed_def)

lemma cpu_at_popped [simp]: "cpu_at (popped s) = cpu_at s"
  by (simp add: cpu_at_apicids popped_def)

lemma cpu_at_taken [simp]: "cpu_at (taken l s) = cpu_at s"
  by (simp add: cpu_at_apicids taken_def)

lemma cpu_at_dropped [simp]: "cpu_at (dropped l s) = cpu_at s"
  by (simp add: cpu_at_apicids dropped_def)

lemma me_steps [simp]:
  "me (pushed s) = me s" "me (popped s) = me s" "me (taken l s) = me s" "me (dropped l s) = me s"
  by (simp_all add: me_def)

lemma depth_steps [simp]:
  "cpu_at s \<noteq> None \<Longrightarrow> depth (pushed s) = depth s + 1"
  "cpu_at s \<noteq> None \<Longrightarrow> depth (popped s) = depth s - 1"
  "depth (taken l s) = depth s" "depth (dropped l s) = depth s"
  using me_less [of s] by (simp_all add: depth_def) (simp_all add: pushed_def popped_def taken_def dropped_def depth_def)

lemma cur_IF_steps [simp]:
  "cur_IF (pushed s) = False"
  "cur_IF (popped s) = (depth s = 1 \<and> intena (cpus s ! me s))"
  "cur_IF (taken l s) = cur_IF s" "cur_IF (dropped l s) = cur_IF s"
  by (simp_all add: cur_IF_def pushed_def popped_def taken_def dropped_def)

lemma mycpu_run:
  "mycpu s = (if cur_IF s then Fail (Panic ''mycpu called with interrupts enabled'')
     else case cpu_at s of None \<Rightarrow> Fail (Panic ''unknown apicid'') | Some i \<Rightarrow> Ok i s)"
  by (simp add: mycpu_def readeflags_def cur_IF_def split: option.splits)

lemma pushcli_ok:
  assumes "cpu_at s \<noteq> None"
  shows "pushcli s = Ok () (pushed s)"
proof -
  obtain i where i: "cpu_at s = Some i" and "i < length (cpus s)"
    using assms me_less [of s] by (auto simp: me_def)
  let ?s = "s\<lparr>eflags_IF := (eflags_IF s)(lapic_id s := False)\<rparr>"
  have "mycpu ?s = Ok i ?s"
    using i by (simp add: mycpu_run cur_IF_def cpu_at_apicids)
  with i \<open>i < length (cpus s)\<close> show ?thesis
    by (simp add: pushcli_def readeflags_def cli_def kwhen_def kbind_Ok upd_cpu_def pushed_def
      depth_def me_def cur_IF_def)
qed

lemma popcli_ok:
  assumes "cpu_ok s" and "0 < depth s"
  shows "popcli s = Ok () (popped s)"
proof -
  from assms obtain i where i: "cpu_at s = Some i" and "\<not> cur_IF s" and "i < length (cpus s)"
    using me_less [of s] by (auto simp: me_def cpu_ok_def)
  with assms(2) have "mycpu s = Ok i s" by (simp add: mycpu_run)
  moreover have "eflags_IF s = (eflags_IF s)(lapic_id s := False)"
    using \<open>\<not> cur_IF s\<close> by (auto simp: cur_IF_def fun_eq_iff)
  ultimately show ?thesis
    using i \<open>i < length (cpus s)\<close> \<open>\<not> cur_IF s\<close> assms(2)
    by (auto simp: popcli_def readeflags_def cur_IF_def kbind_Ok upd_cpu_def popped_def
      depth_def me_def sti_def kwhen_def)
qed


section \<open>Locks in closed form\<close>

lemma cpu_ok_pushed [simp]: "cpu_ok s \<Longrightarrow> cpu_ok (pushed s)"
  by (simp add: cpu_ok_def)

lemma set_ncli_same: "ncli c = n \<Longrightarrow> c\<lparr>intena := b, ncli := n\<rparr> = c\<lparr>intena := b\<rparr>"
  by (cases c) simp

lemma popped_pushed: "cpu_ok s \<Longrightarrow> popped (pushed s) = touched s"
  using me_less [of s]
  by (intro machine.equality)
     (auto simp: cpu_ok_def popped_def touched_def upd_cpu_def pushed_def cur_IF_def depth_def
       fun_eq_iff set_ncli_same cpu_at_apicids me_def)

lemma holding_run:
  assumes "cpu_ok s"
  shows "holding l s = Ok (lock_mine s l) (touched s)"
proof -
  from assms have at: "cpu_at s \<noteq> None" by (simp add: cpu_ok_def)
  then obtain i where i: "cpu_at (pushed s) = Some i" "me s = i" by (auto simp: me_def)
  have "mycpu (pushed s) = Ok i (pushed s)" using i by (simp add: mycpu_run)
  moreover have "locks (pushed s) = locks s" by (simp add: pushed_def)
  moreover have "popcli (pushed s) = Ok () (touched s)"
    using assms at by (subst popcli_ok) (auto simp: cpu_ok_def popped_pushed)
  ultimately show ?thesis
    using i by (auto simp: holding_def pushcli_ok [OF at] kthen_Ok kbind_Ok lock_mine_def kbind_def
      kthen_def)
qed

lemma touched_deep [simp]: "0 < depth s \<Longrightarrow> touched s = s"
  by (simp add: touched_def)

lemma locks_pushed [simp]: "locks (pushed s) = locks s"
  by (simp add: pushed_def)

lemma lock_mine_pushed [simp]: "lock_mine (pushed s) l = lock_mine s l"
  by (simp add: lock_mine_def)

lemma acquire_run:
  assumes "cpu_ok s"
  shows "acquire l s =
    (if lock_mine s l then Fail (Panic ''acquire'')
     else if locked (locks s l) then Fail (Spin l)
     else Ok () (enter l s))"
proof -
  from assms have at: "cpu_at s \<noteq> None" by (simp add: cpu_ok_def)
  have d: "0 < depth (pushed s)" using assms at by (simp add: cpu_ok_def)
  have h: "holding l (pushed s) = Ok (lock_mine s l) (pushed s)"
    using assms d by (simp add: holding_run)
  let ?t = "(pushed s)\<lparr>locks := (locks s)(l := (locks s l)\<lparr>locked := True\<rparr>)\<rparr>"
  have "mycpu ?t = Ok (me s) ?t"
    using at by (auto simp: mycpu_run cur_IF_def cpu_at_apicids me_def pushed_def)
  then show ?thesis
    by (auto simp: acquire_def pushcli_ok [OF at] kthen_Ok kbind_Ok h xchg_locked_def kbind_Fail
      enter_def taken_def set_lk_cpu_def kbind_def kthen_def)
qed

lemma release_run:
  assumes "cpu_ok s" and "0 < depth s"
  shows "release l s = (if lock_mine s l then Ok () (leave l s) else Fail (Panic ''release''))"
proof -
  have h: "holding l s = Ok (lock_mine s l) s" using assms by (simp add: holding_run)
  have "cpu_ok (dropped l s)" "0 < depth (dropped l s)"
    using assms by (simp_all add: cpu_ok_def)
  then have "popcli (dropped l s) = Ok () (leave l s)"
    by (simp add: popcli_ok leave_def)
  moreover have "(set_lk_cpu l None s)\<lparr>locks := (locks (set_lk_cpu l None s))(l :=
      (locks (set_lk_cpu l None s) l)\<lparr>locked := False\<rparr>)\<rparr> = dropped l s"
    by (simp add: set_lk_cpu_def dropped_def)
  ultimately show ?thesis
    by (simp add: release_def kbind_Ok h)
qed

section \<open>Entering and leaving critical sections\<close>

lemma cpu_at_enter [simp]: "cpu_at (enter l s) = cpu_at s"
  by (simp add: enter_def)

lemma cpu_at_leave [simp]: "cpu_at (leave l s) = cpu_at s"
  by (simp add: leave_def)

lemma cpu_at_touched [simp]: "cpu_at (touched s) = cpu_at s"
  by (simp add: cpu_at_apicids touched_def upd_cpu_def)

lemma me_crit [simp]: "me (enter l s) = me s" "me (leave l s) = me s" "me (touched s) = me s"
  by (simp_all add: me_def)

lemma locks_touched [simp]: "locks (touched s) = locks s"
  by (simp add: touched_def upd_cpu_def)

lemma locks_enter: "locks (enter l s) = (locks s)(l := (locks s l)\<lparr>locked := True, lk_cpu := Some (me s)\<rparr>)"
  by (simp add: enter_def taken_def)

lemma locks_leave: "locks (leave l s) = (locks s)(l := (locks s l)\<lparr>lk_cpu := None, locked := False\<rparr>)"
  by (simp add: leave_def dropped_def popped_def)

lemma lock_mine_crit [simp]:
  "lock_mine (enter l s) l' = (l' = l \<or> lock_mine s l')"
  "lock_mine (leave l s) l' = (l' \<noteq> l \<and> lock_mine s l')"
  "lock_mine (touched s) l' = lock_mine s l'"
  by (auto simp: lock_mine_def locks_enter locks_leave)

lemma lock_free_crit [simp]:
  "lock_free (enter l s) l' = (l' \<noteq> l \<and> lock_free s l')"
  "lock_free (leave l s) l' = (l' = l \<or> lock_free s l')"
  "lock_free (touched s) l' = lock_free s l'"
  by (auto simp: lock_free_def locks_enter locks_leave)

lemma depth_crit [simp]:
  "cpu_ok s \<Longrightarrow> depth (enter l s) = depth s + 1"
  "cpu_ok s \<Longrightarrow> depth (leave l s) = depth s - 1"
  by (simp_all add: enter_def leave_def cpu_ok_def)

lemma depth_touched [simp]: "depth (touched s) = depth s"
proof -
  have "ncli ((cpus s)[i := (cpus s ! i)\<lparr>intena := b\<rparr>] ! i) = ncli (cpus s ! i)" for i b
    by (cases "i < length (cpus s)") (simp_all add: list_update_beyond)
  then show ?thesis by (simp add: depth_def) (simp add: touched_def upd_cpu_def)
qed

lemma cur_IF_touched [simp]: "cur_IF (touched s) = cur_IF s"
  by (simp add: cur_IF_def touched_def upd_cpu_def)

lemma cur_IF_crit [simp]:
  "cur_IF (enter l s) = False"
  "cur_IF (leave l s) = (depth s = 1 \<and> intena (cpus s ! me s))"
  by (simp_all add: enter_def leave_def) (simp add: dropped_def)

lemma cpu_ok_crit [simp]:
  "cpu_ok s \<Longrightarrow> cpu_ok (enter l s)"
  "cpu_ok (touched s) = cpu_ok s"
  "cpu_ok s \<Longrightarrow> 0 < depth s \<Longrightarrow> cpu_ok (leave l s)"
  by (auto simp: cpu_ok_def enter_def leave_def)

lemma depth_nonneg [simp]: "cpu_ok s \<Longrightarrow> 0 \<le> depth s"
  by (simp add: cpu_ok_def)

lemma depth_enter_pos [simp]: "cpu_ok s \<Longrightarrow> 0 < depth (enter l s)"
  using depth_nonneg [of s] by simp

lemma not_mine_if_free: "lock_free s l \<Longrightarrow> \<not> lock_mine s l \<and> \<not> locked (locks s l)"
  by (simp add: lock_free_def lock_mine_def)

lemma acquire_ok [simp]: "cpu_ok s \<Longrightarrow> lock_free s l \<Longrightarrow> acquire l s = Ok () (enter l s)"
  by (simp add: acquire_run not_mine_if_free)

lemma release_ok [simp]:
  "cpu_ok s \<Longrightarrow> 0 < depth s \<Longrightarrow> lock_mine s l \<Longrightarrow> release l s = Ok () (leave l s)"
  by (simp add: release_run)

lemma leave_enter [simp]:
  assumes "cpu_ok s" and "lock_free s l"
  shows "leave l (enter l s) = touched s"
proof -
  have "dropped l (taken l (pushed s)) = pushed s"
    using assms(2) by (cases "locks s l")
      (auto simp: dropped_def taken_def lock_free_def fun_eq_iff intro!: machine.equality)
  with assms show ?thesis by (simp add: leave_def enter_def popped_pushed)
qed

lemma touched_enter [simp]: "cpu_ok s \<Longrightarrow> touched (enter l s) = enter l s"
  by (rule touched_deep) simp

lemma touched_touched [simp]: "touched (touched s) = touched s"
proof -
  have "(xs[i := x\<lparr>intena := b\<rparr>])[i := (xs[i := x\<lparr>intena := b\<rparr>] ! i)\<lparr>intena := b\<rparr>] = xs[i := x\<lparr>intena := b\<rparr>]"
    for xs :: "cpu list" and i x b
    by (cases "i < length xs") (simp_all add: list_update_beyond)
  then show ?thesis by (simp add: touched_def [of "touched s"]) (simp add: touched_def upd_cpu_def)
qed

lemma enter_touched [simp]:
  assumes "cpu_ok s"
  shows "enter l (touched s) = enter l s"
proof -
  have "me s < length (cpus s)" using assms by (auto simp: cpu_ok_def intro: me_less)
  then have "pushed (touched s) = pushed s"
    by (simp add: pushed_def [of "touched s"]) (auto simp: touched_def upd_cpu_def pushed_def)
  then show ?thesis by (simp add: enter_def)
qed

lemma leave_enter_swap [simp]:
  assumes "cpu_ok s" and "lock_free s l" and "l' \<noteq> l"
  shows "leave l (enter l' (enter l s)) = enter l' s"
proof -
  have "me s < length (cpus s)" using assms(1) by (auto simp: cpu_ok_def intro: me_less)
  moreover have "0 \<le> depth s" "0 < depth s \<longrightarrow> \<not> cur_IF s" using assms(1) by (simp_all add: cpu_ok_def)
  moreover have "(locks s l)\<lparr>locked := True, lk_cpu := c, lk_cpu := None, locked := False\<rparr> = locks s l" for c
    using assms(2) by (cases "locks s l") (auto simp: lock_free_def)
  ultimately show ?thesis
    using assms(3) by (intro machine.equality)
     (auto simp: leave_def enter_def popped_def dropped_def taken_def pushed_def depth_def me_def
       cpu_at_apicids cur_IF_def fun_eq_iff add.commute)
qed

lemmas frame_defs = enter_def leave_def touched_def taken_def dropped_def pushed_def popped_def
  upd_cpu_def cpu_ok_def depth_def me_def cpu_at_def cur_IF_def lock_free_def lock_mine_def

lemma mem_frame [simp]:
  "mem (enter l s) = mem s" "mem (leave l s) = mem s" "mem (touched s) = mem s"
  "enter l (mem_update f s) = mem_update f (enter l s)" "leave l (mem_update f s) = mem_update f (leave l s)" "touched (mem_update f s) = mem_update f (touched s)"
  "cpu_at (mem_update f s) = cpu_at s" "me (mem_update f s) = me s" "depth (mem_update f s) = depth s"
  "cur_IF (mem_update f s) = cur_IF s" "cpu_ok (mem_update f s) = cpu_ok s" "lock_free (mem_update f s) l = lock_free s l"
  "lock_mine (mem_update f s) l = lock_mine s l"
  by (auto simp: frame_defs intro!: machine.equality)

lemma ticks_frame [simp]:
  "ticks (enter l s) = ticks s" "ticks (leave l s) = ticks s" "ticks (touched s) = ticks s"
  "enter l (ticks_update f s) = ticks_update f (enter l s)" "leave l (ticks_update f s) = ticks_update f (leave l s)" "touched (ticks_update f s) = ticks_update f (touched s)"
  "cpu_at (ticks_update f s) = cpu_at s" "me (ticks_update f s) = me s" "depth (ticks_update f s) = depth s"
  "cur_IF (ticks_update f s) = cur_IF s" "cpu_ok (ticks_update f s) = cpu_ok s" "lock_free (ticks_update f s) l = lock_free s l"
  "lock_mine (ticks_update f s) l = lock_mine s l"
  by (auto simp: frame_defs intro!: machine.equality)

lemma rtc_now_frame [simp]:
  "rtc_now (enter l s) = rtc_now s" "rtc_now (leave l s) = rtc_now s" "rtc_now (touched s) = rtc_now s"
  "enter l (rtc_now_update f s) = rtc_now_update f (enter l s)" "leave l (rtc_now_update f s) = rtc_now_update f (leave l s)" "touched (rtc_now_update f s) = rtc_now_update f (touched s)"
  "cpu_at (rtc_now_update f s) = cpu_at s" "me (rtc_now_update f s) = me s" "depth (rtc_now_update f s) = depth s"
  "cur_IF (rtc_now_update f s) = cur_IF s" "cpu_ok (rtc_now_update f s) = cpu_ok s" "lock_free (rtc_now_update f s) l = lock_free s l"
  "lock_mine (rtc_now_update f s) l = lock_mine s l"
  by (auto simp: frame_defs intro!: machine.equality)

lemma cr3_frame [simp]:
  "cr3 (enter l s) = cr3 s" "cr3 (leave l s) = cr3 s" "cr3 (touched s) = cr3 s"
  "enter l (cr3_update f s) = cr3_update f (enter l s)" "leave l (cr3_update f s) = cr3_update f (leave l s)" "touched (cr3_update f s) = cr3_update f (touched s)"
  "cpu_at (cr3_update f s) = cpu_at s" "me (cr3_update f s) = me s" "depth (cr3_update f s) = depth s"
  "cur_IF (cr3_update f s) = cur_IF s" "cpu_ok (cr3_update f s) = cpu_ok s" "lock_free (cr3_update f s) l = lock_free s l"
  "lock_mine (cr3_update f s) l = lock_mine s l"
  by (auto simp: frame_defs intro!: machine.equality)

lemma tr_frame [simp]:
  "tr (enter l s) = tr s" "tr (leave l s) = tr s" "tr (touched s) = tr s"
  "enter l (tr_update f s) = tr_update f (enter l s)" "leave l (tr_update f s) = tr_update f (leave l s)" "touched (tr_update f s) = tr_update f (touched s)"
  "cpu_at (tr_update f s) = cpu_at s" "me (tr_update f s) = me s" "depth (tr_update f s) = depth s"
  "cur_IF (tr_update f s) = cur_IF s" "cpu_ok (tr_update f s) = cpu_ok s" "lock_free (tr_update f s) l = lock_free s l"
  "lock_mine (tr_update f s) l = lock_mine s l"
  by (auto simp: frame_defs intro!: machine.equality)

lemma port_now_frame [simp]:
  "port_now (enter l s) = port_now s" "port_now (leave l s) = port_now s" "port_now (touched s) = port_now s"
  "enter l (port_now_update f s) = port_now_update f (enter l s)" "leave l (port_now_update f s) = port_now_update f (leave l s)" "touched (port_now_update f s) = port_now_update f (touched s)"
  "cpu_at (port_now_update f s) = cpu_at s" "me (port_now_update f s) = me s" "depth (port_now_update f s) = depth s"
  "cur_IF (port_now_update f s) = cur_IF s" "cpu_ok (port_now_update f s) = cpu_ok s" "lock_free (port_now_update f s) l = lock_free s l"
  "lock_mine (port_now_update f s) l = lock_mine s l"
  by (auto simp: frame_defs intro!: machine.equality)

lemma port_out_frame [simp]:
  "port_out (enter l s) = port_out s" "port_out (leave l s) = port_out s" "port_out (touched s) = port_out s"
  "enter l (port_out_update f s) = port_out_update f (enter l s)" "leave l (port_out_update f s) = port_out_update f (leave l s)" "touched (port_out_update f s) = port_out_update f (touched s)"
  "cpu_at (port_out_update f s) = cpu_at s" "me (port_out_update f s) = me s" "depth (port_out_update f s) = depth s"
  "cur_IF (port_out_update f s) = cur_IF s" "cpu_ok (port_out_update f s) = cpu_ok s" "lock_free (port_out_update f s) l = lock_free s l"
  "lock_mine (port_out_update f s) l = lock_mine s l"
  by (auto simp: frame_defs intro!: machine.equality)

lemma machine_params_crit [simp]:
  "rtc_dev (enter l s) = rtc_dev s" "rtc_dev (touched s) = rtc_dev s" "rtc_dev (leave l s) = rtc_dev s"
  "port_in (enter l s) = port_in s" "port_in (touched s) = port_in s" "port_in (leave l s) = port_in s"
  "patience (enter l s) = patience s" "patience (touched s) = patience s" "patience (leave l s) = patience s"
  by (simp_all add: enter_def leave_def touched_def upd_cpu_def taken_def dropped_def pushed_def popped_def)

section \<open>Properties of interrupt nesting and locks\<close>

lemma push_run:
  assumes "cpu_ok s"
  shows "\<exists>t. kfor [0..<n] (\<lambda>_. pushcli) s = Ok () t \<and> cpu_ok t \<and> depth t = depth s + int n \<and>
    cur_IF t = (n = 0 \<and> cur_IF s) \<and> (0 < n \<longrightarrow> intena (cpus t ! me t) = (if depth s = 0 then cur_IF s else intena (cpus s ! me s)))
    \<and> (n = 0 \<longrightarrow> t = s)"
proof (induction n)
  case 0
  then show ?case using assms by simp
next
  case (Suc n)
  then obtain t where t: "kfor [0..<n] (\<lambda>_. pushcli) s = Ok () t" "cpu_ok t"
    "depth t = depth s + int n"
    "0 < n \<longrightarrow> intena (cpus t ! me t) = (if depth s = 0 then cur_IF s else intena (cpus s ! me s))"
    "n = 0 \<longrightarrow> t = s" by blast
  from t(2) have at: "cpu_at t \<noteq> None" by (simp add: cpu_ok_def)
  have "intena (cpus (pushed t) ! me (pushed t)) = (if depth t = 0 then cur_IF t else intena (cpus t ! me t))"
    using me_less [OF at] by (simp only: me_steps) (simp add: pushed_def)
  with t at show ?case
    using depth_nonneg [OF assms] by (auto simp: kfor_append kthen_Ok pushcli_ok)
qed

lemma pop_run:
  assumes "cpu_ok s" and "int k \<le> depth s"
  shows "\<exists>t. kfor [0..<k] (\<lambda>_. popcli) s = Ok () t \<and> cpu_ok t \<and> depth t = depth s - int k \<and>
    me t = me s \<and> intena (cpus t ! me t) = intena (cpus s ! me s) \<and>
    cur_IF t = (if k = 0 then cur_IF s else depth s = int k \<and> intena (cpus s ! me s))"
  using assms(2)
proof (induction k)
  case 0
  then show ?case using assms by simp
next
  case (Suc k)
  then obtain t where t: "kfor [0..<k] (\<lambda>_. popcli) s = Ok () t" "cpu_ok t"
    "depth t = depth s - int k" "me t = me s" "intena (cpus t ! me t) = intena (cpus s ! me s)" by auto
  from t(2) have at: "cpu_at t \<noteq> None" by (simp add: cpu_ok_def)
  have d: "0 < depth t" using Suc.prems t(3) by simp
  have "intena (cpus (popped t) ! me (popped t)) = intena (cpus t ! me t)"
    using me_less [OF at] by (simp only: me_steps) (simp add: popped_def)
  moreover have "cpu_ok (popped t)" using t(2) d at by (auto simp: cpu_ok_def)
  ultimately show ?case
    using t d at by (auto simp: kfor_append kthen_Ok popcli_ok)
qed

text \<open>
  pushcli and popcli are matched: after \<open>n\<close> pushes and \<open>k \<le> n\<close> pops the nesting depth has
  grown by \<open>n - k\<close>, none of the calls panics, and the interrupt flag is back to what it was
  exactly when \<open>k = n\<close> and off otherwise; so it takes as many pops as pushes to undo them, and
  if interrupts were off they stay off.
\<close>

theorem pushcli_popcli_nest:
  assumes "cpu_ok s" and "k \<le> n"
  shows "\<exists>t. kthen (kfor [0..<n] (\<lambda>_. pushcli)) (kfor [0..<k] (\<lambda>_. popcli)) s = Ok () t \<and>
    depth t = depth s + int (n - k) \<and> cur_IF t = (k = n \<and> cur_IF s)"
proof -
  obtain t where t: "kfor [0..<n] (\<lambda>_. pushcli) s = Ok () t" "cpu_ok t"
    "depth t = depth s + int n" "cur_IF t = (n = 0 \<and> cur_IF s)"
    "0 < n \<longrightarrow> intena (cpus t ! me t) = (if depth s = 0 then cur_IF s else intena (cpus s ! me s))"
    using push_run [OF assms(1), of n] by blast
  have le: "int k \<le> depth t" using t(3) assms(2) depth_nonneg [OF assms(1)] by linarith
  obtain u where "kfor [0..<k] (\<lambda>_. popcli) t = Ok () u" "depth u = depth t - int k"
    "cur_IF u = (if k = 0 then cur_IF t else depth t = int k \<and> intena (cpus t ! me t))"
    using pop_run [OF t(2) le] by blast
  moreover have "0 \<le> depth s" "0 < depth s \<longrightarrow> \<not> cur_IF s" using assms(1) by (simp_all add: cpu_ok_def)
  ultimately show ?thesis
    using t assms(2) by (auto simp: kthen_Ok split: if_splits)
qed

text \<open>
  A spin-lock critical section is balanced: on a CPU in a sound state, acquire of a free lock
  returns with the lock held by this CPU and interrupts off, and the release that follows
  returns with every lock, the nesting depth and the interrupt flag as they were before.
\<close>

theorem acquire_release_balanced:
  assumes "cpu_ok s" and "lock_free s l"
  shows "\<exists>t u. acquire l s = Ok () t \<and> lock_mine t l \<and> \<not> cur_IF t \<and> depth t = depth s + 1 \<and>
    release l t = Ok () u \<and> locks u = locks s \<and> depth u = depth s \<and> cur_IF u = cur_IF s \<and> mem u = mem s"
  using assms by simp

text \<open>
  The error branches of the lock: a second acquire by the CPU that holds the lock panics
  instead of deadlocking, an acquire of a lock another CPU holds does not return, and a release
  of a lock this CPU does not hold panics.
\<close>

theorem acquire_release_errors:
  assumes "cpu_ok s"
  shows "(lock_mine s l \<longrightarrow> acquire l s = Fail (Panic ''acquire'')) \<and>
    (locked (locks s l) \<and> lk_cpu (locks s l) \<noteq> Some (me s) \<longrightarrow> acquire l s = Fail (Spin l)) \<and>
    (\<not> lock_mine s l \<longrightarrow> release l s = Fail (Panic ''release''))"
  using assms by (auto simp: acquire_run lock_mine_def release_def holding_run kbind_Ok)

lemma lock_inv_init: "lock_inv lock_init"
  by (simp add: lock_inv_def lock_init_def)

lemma lock_goto_sel [simp]:
  "l_locked (lock_goto i p s) = l_locked s" "l_cpu (lock_goto i p s) = l_cpu s"
  "l_own (lock_goto i p s) = l_own s" "l_pc (lock_goto i p s) = (l_pc s)(i := p)"
  by (simp_all add: lock_goto_def)

lemma lock_inv_goto:
  assumes "lock_inv s" and "pc_owner p (l_own s i)" and "p \<noteq> LGot" "p \<noteq> LRel2" "l_pc s i \<noteq> LGot" "l_pc s i \<noteq> LRel2"
  shows "lock_inv (lock_goto i p s)"
  using assms by (auto simp: lock_inv_def)

lemma lock_inv_D:
  assumes "lock_inv s"
  shows "\<not> l_locked s \<Longrightarrow> \<not> l_own s i" and "l_own s i \<Longrightarrow> l_own s j \<Longrightarrow> j = i"
    and "l_cpu s = Some i \<longleftrightarrow> l_own s i \<and> l_pc s i \<noteq> LGot \<and> l_pc s i \<noteq> LRel2" and "pc_owner (l_pc s i) (l_own s i)"
  using assms by (auto simp: lock_inv_def)

lemma lock_inv_others:
  assumes "lock_inv s" and "l_own s i"
  shows "l_own s j \<longleftrightarrow> j = i" and "j \<noteq> i \<Longrightarrow> pc_owner (l_pc s j) False"
  using lock_inv_D(2) [OF assms, of j] lock_inv_D(4) [OF assms(1), of j] assms(2) by (cases "l_own s j"; auto)+

lemma after_holding_owner:
  "pc_owner (after_holding c r) r" "after_holding c r \<noteq> LGot" "after_holding c r \<noteq> LRel2"
  by (cases c; simp)+

lemma lock_inv_next:
  assumes "lock_inv s"
  shows "lock_inv (lock_next i s)"
proof (cases "l_pc s i")
  case (LHold1 c)
  have "pc_owner (after_holding c False) (l_own s i)" if "\<not> l_locked s"
    using lock_inv_D(1) [OF assms that, of i] after_holding_owner(1) [of c False] by simp
  with LHold1 show ?thesis
    by (auto simp: lock_next_def intro!: lock_inv_goto [OF assms] simp: after_holding_owner)
next
  case (LHold2 c)
  with lock_inv_D(3) [OF assms, of i] have "(l_cpu s = Some i) = l_own s i" by simp
  then have "pc_owner (after_holding c (l_cpu s = Some i)) (l_own s i)" using after_holding_owner(1) [of c "l_own s i"] by simp
  with LHold2 show ?thesis
    by (auto simp: lock_next_def intro!: lock_inv_goto [OF assms] simp: after_holding_owner)
next
  case LSpin
  show ?thesis
  proof (cases "l_locked s")
    case True
    with LSpin show ?thesis using assms by (simp add: lock_next_def lock_inv_def)
  next
    case False
    note n = lock_inv_D(1) [OF assms False]
    with LSpin False assms show ?thesis by (auto simp: lock_next_def lock_inv_def)
  qed
next
  case LGot
  then have "l_own s i" using lock_inv_D(4) [OF assms, of i] by simp
  note others = lock_inv_others [OF assms this]
  from LGot others assms show ?thesis by (auto simp: lock_next_def lock_inv_def)
next
  case LRel1
  then have "l_own s i" using lock_inv_D(4) [OF assms, of i] by simp
  note others = lock_inv_others [OF assms this]
  from LRel1 others assms show ?thesis by (auto simp: lock_next_def lock_inv_def)
next
  case LRel2
  then have "l_own s i" using lock_inv_D(4) [OF assms, of i] by simp
  note others = lock_inv_others [OF assms this]
  from LRel2 others assms show ?thesis by (auto simp: lock_next_def lock_inv_def)
qed (use assms in \<open>simp_all add: lock_next_def\<close>)

lemma lock_reach_inv: "lock_reach s \<Longrightarrow> lock_inv s"
proof (induction rule: lock_reach.induct)
  case (lr_step s t)
  from lr_step.hyps(2) lr_step.IH show ?case
    by (induction rule: lock_step.induct) (auto intro: lock_inv_next lock_inv_goto)
qed (rule lock_inv_init)

text \<open>
  C32. Mutual exclusion under every interleaving of the loads, the exchange and the stores of
  acquire(), release() and holding() on any number of CPUs, called in any order, correctly or not:
  at most one CPU owns the lock (from its successful exchange to its clearing store); a CPU that owns it never spins on it;
  holding() answers yes exactly on the owner, although its two loads may see the lock change
  hands in between; acquire() panics only on a CPU that owns the lock already and release() only on
  one that does not own it, so a wrong call cannot break the exclusion.
\<close>

theorem spinlock_mutual_exclusion:
  assumes "lock_reach s"
  shows "(l_own s i \<and> l_own s j \<longrightarrow> i = j) \<and> (l_pc s i = LSpin \<longrightarrow> \<not> l_own s i) \<and>
    (l_pc s i = LAnswer r \<longrightarrow> r = l_own s i) \<and>
    (l_pc s i = LPanic ByAcquire \<longrightarrow> l_own s i) \<and> (l_pc s i = LPanic ByRelease \<longrightarrow> \<not> l_own s i)"
  using lock_inv_D(2) [OF lock_reach_inv [OF assms], of j i] lock_inv_D(4) [OF lock_reach_inv [OF assms], of i] by auto

lemma lock_next_4: "(f ^^ 4) s = f (f (f (f s)))"
  by (simp add: eval_nat_numeral)

text \<open>
  C33. The accesses are those of the functions: a CPU (interrupts off if it holds the lock) that runs alone from the call of acquire(),
  release() or holding() gets, after at most four accesses, where the function gets: to a return with the
  lock as the function leaves it, to the panic, to the spinning, or to the same answer.
\<close>

theorem lock_next_refines:
  fixes s :: "'z machine_scheme"
  assumes "cpu_ok s" and "lock_mine s l \<Longrightarrow> 0 < depth s"
  shows "(lock_next (me s) ^^ 4) (lock_view l (pc(me s := LHold1 ByAcquire)) own s) =
      (case acquire l s of
         Ok _ t \<Rightarrow> lock_view l (pc(me s := LIdle)) (own(me s := True)) t
       | Fail (Spin _) \<Rightarrow> lock_view l (pc(me s := LSpin)) own s
       | _ \<Rightarrow> lock_view l (pc(me s := LPanic ByAcquire)) own s) \<and>
    (lock_next (me s) ^^ 4) (lock_view l (pc(me s := LHold1 ByRelease)) own s) =
      (case release l s of
         Ok _ t \<Rightarrow> lock_view l (pc(me s := LIdle)) (own(me s := False)) t
       | _ \<Rightarrow> lock_view l (pc(me s := LPanic ByRelease)) own s) \<and>
    (lock_next (me s) ^^ 4) (lock_view l (pc(me s := LHold1 ByOther)) own s) =
      (case holding l s of
         Ok r t \<Rightarrow> lock_view l (pc(me s := LAnswer r)) own t
       | _ \<Rightarrow> lock_view l (pc(me s := LPanic ByOther)) own s)"
proof (cases "lock_mine s l")
  case True
  with assms show ?thesis
    by (simp add: acquire_run release_run holding_run lock_mine_def lock_next_4 lock_next_def lock_goto_def
        lock_view_def locks_leave)
next
  case False
  then have "release l s = Fail (Panic ''release'')" using assms(1) by (simp add: release_def holding_run kbind_Ok)
  with False assms(1) show ?thesis
    by (cases "locked (locks s l)")
      (simp_all add: acquire_run holding_run lock_mine_def lock_next_4 lock_next_def lock_goto_def
        lock_view_def locks_enter)
qed

end
