(* ===== verification/Strings.thy ===== *)
theory Strings
  imports Machine
begin

text \<open>
  string.c, the kernel's memory and string routines, on byte memory with 32-bit addresses: each
  loop of the source is one recursive function that reads and writes the memory in the order of
  the C loop, so overlapping arguments behave as they do there.

  Shown here: both paths of memset fill the same bytes; memmove copies the original contents
  whether or not the regions overlap; memcmp and strncmp are equality tests; strncpy and
  safestrcpy write only inside the destination and terminate it as documented; strlen returns
  the offset of the first NUL and does return when there is one.
\<close>

section \<open>Loops of string.c\<close>

primrec stosb :: "(uint \<Rightarrow> uchar) \<Rightarrow> uint \<Rightarrow> uchar \<Rightarrow> nat \<Rightarrow> (uint \<Rightarrow> uchar)" where
  "stosb m a c 0 = m"
| "stosb m a c (Suc n) = stosb (m(a := c)) (a + 1) c n"

primrec stosl :: "(uint \<Rightarrow> uchar) \<Rightarrow> uint \<Rightarrow> uint \<Rightarrow> nat \<Rightarrow> (uint \<Rightarrow> uchar)" where
  "stosl m a w 0 = m"
| "stosl m a w (Suc n) = stosl (store32 m a w) (a + 4) w n"

definition memset :: "(uint \<Rightarrow> uchar) \<Rightarrow> uint \<Rightarrow> uint \<Rightarrow> uint \<Rightarrow> (uint \<Rightarrow> uchar)" where
  "memset m dst c n =
     (if dst mod 4 = 0 \<and> n mod 4 = 0
      then let c = c AND 0xFF
           in stosl m dst (push_bit 24 c OR push_bit 16 c OR push_bit 8 c OR c) (unat (n div 4))
      else stosb m dst (ucast c) (unat n))"

primrec memcmp :: "(uint \<Rightarrow> uchar) \<Rightarrow> uint \<Rightarrow> uint \<Rightarrow> nat \<Rightarrow> int" where
  "memcmp m s1 s2 0 = 0"
| "memcmp m s1 s2 (Suc n) =
     (if m s1 \<noteq> m s2 then uint (m s1) - uint (m s2) else memcmp m (s1 + 1) (s2 + 1) n)"

primrec copy_up :: "(uint \<Rightarrow> uchar) \<Rightarrow> uint \<Rightarrow> uint \<Rightarrow> nat \<Rightarrow> (uint \<Rightarrow> uchar)" where
  "copy_up m d s 0 = m"
| "copy_up m d s (Suc n) = copy_up (m(d := m s)) (d + 1) (s + 1) n"

primrec copy_down :: "(uint \<Rightarrow> uchar) \<Rightarrow> uint \<Rightarrow> uint \<Rightarrow> nat \<Rightarrow> (uint \<Rightarrow> uchar)" where
  "copy_down m d s 0 = m"
| "copy_down m d s (Suc n) = copy_down (m(d - 1 := m (s - 1))) (d - 1) (s - 1) n"

definition memmove :: "(uint \<Rightarrow> uchar) \<Rightarrow> uint \<Rightarrow> uint \<Rightarrow> uint \<Rightarrow> (uint \<Rightarrow> uchar)" where
  "memmove m dst src n =
     (if src < dst \<and> dst < src + n then copy_down m (dst + n) (src + n) (unat n)
      else copy_up m dst src (unat n))"

definition memcpy :: "(uint \<Rightarrow> uchar) \<Rightarrow> uint \<Rightarrow> uint \<Rightarrow> uint \<Rightarrow> (uint \<Rightarrow> uchar)" where
  "memcpy m dst src n = memmove m dst src n"

primrec strncmp :: "(uint \<Rightarrow> uchar) \<Rightarrow> uint \<Rightarrow> uint \<Rightarrow> nat \<Rightarrow> int" where
  "strncmp m p q 0 = 0"
| "strncmp m p q (Suc n) =
     (if m p \<noteq> 0 \<and> m p = m q then strncmp m (p + 1) (q + 1) n else uint (m p) - uint (m q))"

primrec strncpy :: "(uint \<Rightarrow> uchar) \<Rightarrow> uint \<Rightarrow> uint \<Rightarrow> nat \<Rightarrow> (uint \<Rightarrow> uchar)" where
  "strncpy m s t 0 = m"
| "strncpy m s t (Suc n) =
     (let m' = m(s := m t)
      in if m t \<noteq> 0 then strncpy m' (s + 1) (t + 1) n else stosb m' (s + 1) 0 n)"

text \<open>\<open>safestrcpy_loop m s t k\<close> runs the copy loop with \<open>k\<close> iterations left, then terminates.\<close>

primrec safestrcpy_loop :: "(uint \<Rightarrow> uchar) \<Rightarrow> uint \<Rightarrow> uint \<Rightarrow> nat \<Rightarrow> (uint \<Rightarrow> uchar)" where
  "safestrcpy_loop m s t 0 = m(s := 0)"
| "safestrcpy_loop m s t (Suc k) =
     (let m' = m(s := m t)
      in if m t \<noteq> 0 then safestrcpy_loop m' (s + 1) (t + 1) k else m'(s + 1 := 0))"

definition safestrcpy :: "(uint \<Rightarrow> uchar) \<Rightarrow> uint \<Rightarrow> uint \<Rightarrow> int \<Rightarrow> (uint \<Rightarrow> uchar)" where
  "safestrcpy m s t n = (if n \<le> 0 then m else safestrcpy_loop m s t (nat n - 1))"

text \<open>A string with no NUL anywhere in memory is the case in which strlen does not return.\<close>

partial_function (option) strlen_from :: "(uint \<Rightarrow> uchar) \<Rightarrow> uint \<Rightarrow> nat \<Rightarrow> nat option" where
  "strlen_from m s n = (if m (s + of_nat n) = 0 then Some n else strlen_from m s (Suc n))"

definition strlen :: "(uint \<Rightarrow> uchar) \<Rightarrow> uint \<Rightarrow> nat option" where
  "strlen m s = strlen_from m s 0"

text \<open>The bytes of the region of \<open>n\<close> bytes at \<open>a\<close>, wherever it lies in the address space.\<close>

definition in_region :: "uint \<Rightarrow> nat \<Rightarrow> uint \<Rightarrow> bool" where
  "in_region a n x \<longleftrightarrow> unat (x - a) < n"

section \<open>Regions\<close>

lemma unat_offset_Suc:
  assumes "x \<noteq> (a :: uint)"
  shows "unat (x - a) = Suc (unat (x - (a + 1)))"
proof -
  have "x - a \<noteq> 0" using assms by simp
  then have "unat (x - a - 1) = unat (x - a) - 1" and "unat (x - a) \<noteq> 0"
    by (simp_all add: unat_minus_one unat_eq_0)
  moreover have "x - (a + 1) = x - a - 1" by simp
  ultimately show ?thesis by (simp only:)
qed

lemma in_region_0 [simp]: "\<not> in_region a 0 x"
  by (simp add: in_region_def)

lemma in_region_Suc: "in_region a (Suc n) x \<longleftrightarrow> x = a \<or> in_region (a + 1) n x"
  by (cases "x = a") (simp_all add: in_region_def unat_offset_Suc)

lemma in_region_add: "i < n \<Longrightarrow> n \<le> 2 ^ 32 \<Longrightarrow> in_region a n (a + of_nat i)"
  by (simp add: in_region_def unat_of_nat)

lemma stosb_eq: "stosb m a c n = (\<lambda>x. if in_region a n x then c else m x)"
  by (induction n arbitrary: m a) (auto simp: in_region_Suc fun_eq_iff)

lemma stosb_add: "stosb m a c (i + j) = stosb (stosb m a c i) (a + of_nat i) c j"
  by (induction i arbitrary: m a) (simp_all add: add.assoc)

lemma splat_bytes:
  fixes c :: uint
  defines "d \<equiv> c AND 0xFF"
  defines "w \<equiv> push_bit 24 d OR push_bit 16 d OR push_bit 8 d OR d"
  shows "(ucast w :: uchar) = ucast c" "(ucast (drop_bit 8 w) :: uchar) = ucast c"
    "(ucast (drop_bit 16 w) :: uchar) = ucast c" "(ucast (drop_bit 24 w) :: uchar) = ucast c"
proof -
  have m: "(0xFF :: uint) = mask 8" by (simp add: mask_eq_exp_minus_1)
  show "(ucast w :: uchar) = ucast c" "(ucast (drop_bit 8 w) :: uchar) = ucast c"
    "(ucast (drop_bit 16 w) :: uchar) = ucast c" "(ucast (drop_bit 24 w) :: uchar) = ucast c"
    unfolding w_def d_def m by (rule bit_word_eqI; auto simp: bit_simps)+
qed

lemma store32_splat:
  "store32 m a (push_bit 24 (c AND 0xFF) OR push_bit 16 (c AND 0xFF) OR push_bit 8 (c AND 0xFF) OR (c AND 0xFF))
   = stosb m a (ucast c) 4"
  by (simp only: store32_def splat_bytes) (simp add: numeral_eq_Suc add.assoc)

lemma stosl_splat:
  "stosl m a (push_bit 24 (c AND 0xFF) OR push_bit 16 (c AND 0xFF) OR push_bit 8 (c AND 0xFF) OR (c AND 0xFF)) n
   = stosb m a (ucast c) (4 * n)"
proof (induction n arbitrary: m a)
  case (Suc n)
  have "stosb m a (ucast c) (4 * Suc n) = stosb (stosb m a (ucast c) 4) (a + 4) (ucast c) (4 * n)"
    using stosb_add [of m a "ucast c" 4 "4 * n"] by simp
  with Suc show ?case by (simp only: stosl.simps store32_splat)
qed simp

lemma unat_uint_less: "unat (a :: uint) < 2 ^ 32"
  using unsigned_less [of a] by simp

lemma unat_add_of_nat: "unat (a :: uint) + i < 2 ^ 32 \<Longrightarrow> unat (a + of_nat i) = unat a + i"
  by (simp add: unat_word_ariths unat_of_nat)

lemma region_not_base: "n < 2 ^ 32 \<Longrightarrow> \<not> in_region (a + 1) n a"
proof -
  have "a - (a + 1) = (- 1 :: uint)" by simp
  then have "unat (a - (a + 1)) = unat (- 1 :: uint)" by (simp only:)
  then have "unat (a - (a + 1)) = 2 ^ 32 - 1" by (simp add: unsigned_minus_1_eq_mask mask_eq_exp_minus_1)
  then show "n < 2 ^ 32 \<Longrightarrow> \<not> in_region (a + 1) n a" by (simp only: in_region_def)
qed

lemma unat_mod_4: "unat (n mod 4 :: uint) = unat n mod 4"
  by (simp add: unat_mod)

lemma copy_up_eq:
  assumes "n < 2 ^ 32" and "\<And>i j. i < j \<Longrightarrow> j < n \<Longrightarrow> d + of_nat i \<noteq> s + of_nat j"
  shows "copy_up m d s n = (\<lambda>x. if in_region d n x then m (s + (x - d)) else m x)"
  using assms
proof (induction n arbitrary: m d s)
  case (Suc n)
  let ?m = "m(d := m s)"
  have IH: "copy_up ?m (d + 1) (s + 1) n
      = (\<lambda>x. if in_region (d + 1) n x then ?m (s + 1 + (x - (d + 1))) else ?m x)"
  proof (rule Suc.IH)
    show "n < 2 ^ 32" using Suc.prems(1) by simp
    show "d + 1 + of_nat i \<noteq> s + 1 + of_nat j" if "i < j" "j < n" for i j
      using Suc.prems(2) [of i j] that by (simp add: add.commute add.left_commute)
  qed
  have clean: "s + (x - d) \<noteq> d" if "in_region (d + 1) n x" for x
  proof -
    have "x \<noteq> d" using that region_not_base [of n d] Suc.prems(1) by auto
    then have "unat (x - d) < Suc n" "0 < unat (x - d)"
      using that by (auto simp: in_region_def unat_offset_Suc)
    then show ?thesis using Suc.prems(2) [of 0 "unat (x - d)"] by auto
  qed
  have "s + 1 + (x - (d + 1)) = s + (x - d)" for x by simp
  then show ?case
    using IH clean region_not_base [of n d] Suc.prems(1) by (auto simp: fun_eq_iff in_region_Suc)
qed simp

lemma in_region_snoc:
  assumes "n < 2 ^ 32"
  shows "in_region a (Suc n) x \<longleftrightarrow> x = a + of_nat n \<or> in_region a n x"
proof -
  have "x = a + of_nat n \<longleftrightarrow> unat (x - a) = n"
    using assms by (auto simp: unat_of_nat)
  then show ?thesis by (auto simp: in_region_def)
qed

lemma copy_down_eq:
  assumes "n < 2 ^ 32" and "\<And>i j. j < i \<Longrightarrow> i < n \<Longrightarrow> d + of_nat i \<noteq> s + of_nat j"
  shows "copy_down m (d + of_nat n) (s + of_nat n) n
     = (\<lambda>x. if in_region d n x then m (s + (x - d)) else m x)"
  using assms
proof (induction n arbitrary: m)
  case (Suc n)
  let ?m = "m(d + of_nat n := m (s + of_nat n))"
  have IH: "copy_down ?m (d + of_nat n) (s + of_nat n) n
      = (\<lambda>x. if in_region d n x then ?m (s + (x - d)) else ?m x)"
    using Suc.prems by (intro Suc.IH) auto
  have "s + (x - d) \<noteq> d + of_nat n" if "in_region d n x" for x
    using Suc.prems(2) [of "unat (x - d)" n] that by (auto simp: in_region_def)
  moreover have "\<not> in_region d n (d + of_nat n)"
    using Suc.prems(1) by (simp add: in_region_def unat_of_nat)
  ultimately show ?case
    using IH Suc.prems(1) by (auto simp: fun_eq_iff in_region_snoc)
qed simp

section \<open>Properties of the routines\<close>

lemma memset_fill: "memset m dst c n = (\<lambda>x. if in_region dst (unat n) x then ucast c else m x)"
proof (cases "dst mod 4 = 0 \<and> n mod 4 = 0")
  case True
  then have "unat n mod 4 = 0" by (simp add: unat_eq_0 flip: unat_mod_4)
  then have "4 * unat (n div 4) = unat n" by (simp add: unat_div) presburger
  with True show ?thesis by (simp only: memset_def Let_def stosl_splat stosb_eq if_P)
next
  case False
  then show ?thesis by (auto simp: memset_def stosb_eq)
qed

text \<open>
  memset by 32-bit stores and memset by byte stores fill the same bytes: whichever path the
  alignment test takes, the bytes of the region hold the low byte of \<open>c\<close> and no other byte
  changes.
\<close>

theorem memset_eq: "memset m dst c n = (\<lambda>x. if in_region dst (unat n) x then ucast c else m x)"
  by (rule memset_fill)

text \<open>
  memmove copies what the source held at the start, also when source and destination
  overlap in either direction, and changes no byte outside the destination, for regions that do
  not run over the end of the address space.
\<close>

theorem memmove_eq:
  assumes "unat src + unat n < 2 ^ 32" and "unat dst + unat n \<le> 2 ^ 32"
  shows "memmove m dst src n = (\<lambda>x. if in_region dst (unat n) x then m (src + (x - dst)) else m x)"
proof -
  have n: "unat n < 2 ^ 32" by (rule unat_uint_less)
  have end_src: "unat (src + n) = unat src + unat n"
    using assms(1) unat_add_of_nat [of src "unat n"] by simp
  have at: "unat (src + of_nat j) = unat src + j" "unat (dst + of_nat j) = unat dst + j" if "j < unat n" for j
    using assms that by (auto intro!: unat_add_of_nat)
  show ?thesis
  proof (cases "src < dst \<and> dst < src + n")
    case True
    then have "unat src < unat dst" by (simp add: word_less_nat_alt)
    then have "dst + of_nat i \<noteq> src + of_nat j" if "j < i" "i < unat n" for i j
    proof -
      have "unat (dst + of_nat i) = unat dst + i" "unat (src + of_nat j) = unat src + j"
        using at(2) [of i] at(1) [of j] that by simp_all
      with \<open>unat src < unat dst\<close> that show ?thesis by (metis add_less_mono less_irrefl_nat)
    qed
    with True copy_down_eq [OF n, of dst src m] show ?thesis by (simp add: memmove_def)
  next
    case False
    then have "unat dst \<le> unat src \<or> unat src + unat n \<le> unat dst"
      by (auto simp: word_less_nat_alt end_src)
    then have "dst + of_nat i \<noteq> src + of_nat j" if "i < j" "j < unat n" for i j
    proof -
      have "unat (dst + of_nat i) = unat dst + i" "unat (src + of_nat j) = unat src + j"
        using at(2) [of i] at(1) [of j] that by simp_all
      moreover have "unat dst + i \<noteq> unat src + j"
        using \<open>unat dst \<le> unat src \<or> unat src + unat n \<le> unat dst\<close> that by linarith
      ultimately show ?thesis by metis
    qed
    with False copy_up_eq [OF n, of dst src m] show ?thesis by (auto simp: memmove_def)
  qed
qed

lemma all_less_Suc_shift: "(\<forall>i < Suc n. P i) \<longleftrightarrow> P 0 \<and> (\<forall>i < n. P (Suc i))"
  by (auto simp: less_Suc_eq_0_disj)

lemma uchar_uint_eq [simp]: "uint (a :: uchar) = uint b \<longleftrightarrow> a = b"
  by (simp add: word_uint_eq_iff)

lemma memcmp_0_iff: "memcmp m p q n = 0 \<longleftrightarrow> (\<forall>i < n. m (p + of_nat i) = m (q + of_nat i))"
  by (induction n arbitrary: p q) (auto simp: all_less_Suc_shift add.assoc)

text \<open>The string at \<open>p\<close> has no NUL before offset \<open>i\<close>.\<close>

definition no_nul :: "(uint \<Rightarrow> uchar) \<Rightarrow> uint \<Rightarrow> nat \<Rightarrow> bool" where
  "no_nul m p i \<longleftrightarrow> (\<forall>j < i. m (p + of_nat j) \<noteq> 0)"

lemma no_nul_0 [simp]: "no_nul m p 0"
  by (simp add: no_nul_def)

lemma no_nul_Suc: "no_nul m p (Suc i) \<longleftrightarrow> m p \<noteq> 0 \<and> no_nul m (p + 1) i"
  by (simp add: no_nul_def all_less_Suc_shift add.assoc)

lemma strncmp_0_iff:
  "strncmp m p q n = 0 \<longleftrightarrow> (\<forall>i < n. no_nul m p i \<longrightarrow> m (p + of_nat i) = m (q + of_nat i))"
proof (induction n arbitrary: p q)
  case (Suc n)
  show ?case
    using Suc [of "p + 1" "q + 1"]
    by (auto simp: all_less_Suc_shift no_nul_Suc add.assoc uint_0_iff)
qed simp

text \<open>A copy whose source lies outside the destination: writes before offset \<open>i\<close> leave it intact.\<close>

definition apart :: "uint \<Rightarrow> uint \<Rightarrow> nat \<Rightarrow> bool" where
  "apart s t n \<longleftrightarrow> (\<forall>i < n. \<not> in_region s n (t + of_nat i))"

lemma apart_Suc: "apart s t (Suc n) \<Longrightarrow> apart (s + 1) (t + 1) n \<and> (\<forall>i < Suc n. t + of_nat i \<noteq> s)"
  unfolding apart_def
proof (intro conjI allI impI)
  fix i assume a: "\<forall>i < Suc n. \<not> in_region s (Suc n) (t + of_nat i)"
  show "t + of_nat i \<noteq> s" if "i < Suc n" using a that by (auto simp: in_region_Suc)
  show "\<not> in_region (s + 1) n (t + 1 + of_nat i)" if "i < n"
    using a [rule_format, of "Suc i"] that by (auto simp: in_region_Suc add.assoc)
qed

lemma no_nul_upd:
  assumes "\<And>j. j < i \<Longrightarrow> t + of_nat j \<noteq> s"
  shows "no_nul (m(s := c)) t i = no_nul m t i"
  using assms by (auto simp: no_nul_def)

lemma strncpy_out: "\<not> in_region s n x \<Longrightarrow> strncpy m s t n x = m x"
  by (induction n arbitrary: m s t) (auto simp: in_region_Suc Let_def stosb_eq)

lemma strncpy_in:
  assumes "n < 2 ^ 32" and "apart s t n" and "i < n"
  shows "strncpy m s t n (s + of_nat i) = (if no_nul m t i then m (t + of_nat i) else 0)"
  using assms
proof (induction n arbitrary: m s t i)
  case (Suc n)
  let ?m = "m(s := m t)"
  from apart_Suc [OF Suc.prems(2)] have ap: "apart (s + 1) (t + 1) n"
    and ne: "\<And>i. i < Suc n \<Longrightarrow> t + of_nat i \<noteq> s" by auto
  have base: "\<not> in_region (s + 1) n s" using Suc.prems(1) by (intro region_not_base) simp
  show ?case
  proof (cases i)
    case 0
    with base show ?thesis by (simp add: Let_def stosb_eq strncpy_out)
  next
    case (Suc k)
    have k: "k < n" using Suc Suc.prems(3) by simp
    have "t + 1 + of_nat k \<noteq> s" using ne [of "Suc k"] k by (simp add: add.assoc)
    moreover have "no_nul ?m (t + 1) k = no_nul m (t + 1) k"
      using ne k by (intro no_nul_upd) (metis Suc_mono add.assoc less_trans of_nat_Suc)
    moreover have "strncpy ?m (s + 1) (t + 1) n (s + 1 + of_nat k)
        = (if no_nul ?m (t + 1) k then ?m (t + 1 + of_nat k) else 0)"
      using Suc.prems(1) ap k by (intro Suc.IH) auto
    ultimately have "strncpy ?m (s + 1) (t + 1) n (s + 1 + of_nat k)
        = (if no_nul m (t + 1) k then m (t + 1 + of_nat k) else 0)" by simp
    moreover have "in_region (s + 1) n (s + 1 + of_nat k)"
      using k Suc.prems(1) by (intro in_region_add) auto
    ultimately show ?thesis
      using Suc by (auto simp: Let_def stosb_eq no_nul_Suc add.assoc)
  qed
qed simp

lemma safestrcpy_loop_out: "k < 2 ^ 32 - 1 \<Longrightarrow> \<not> in_region s (Suc k) x \<Longrightarrow> safestrcpy_loop m s t k x = m x"
  by (induction k arbitrary: m s t) (auto simp: in_region_Suc Let_def)

lemma safestrcpy_loop_in:
  assumes "Suc k < 2 ^ 32" and "apart s t (Suc k)"
  shows "\<exists>e \<le> k. safestrcpy_loop m s t k (s + of_nat e) = 0 \<and> (e = k \<or> m (t + of_nat e) = 0) \<and>
    (\<forall>i < e. m (t + of_nat i) \<noteq> 0 \<and> safestrcpy_loop m s t k (s + of_nat i) = m (t + of_nat i))"
  using assms
proof (induction k arbitrary: m s t)
  case (Suc k)
  let ?m = "m(s := m t)"
  from apart_Suc [OF Suc.prems(2)] have ap: "apart (s + 1) (t + 1) (Suc k)"
    and ne: "\<And>i. i < Suc (Suc k) \<Longrightarrow> t + of_nat i \<noteq> s" by auto
  have base: "\<not> in_region (s + 1) (Suc k) s" using Suc.prems(1) by (intro region_not_base) simp
  show ?case
  proof (cases "m t = 0")
    case True
    then show ?thesis by (intro exI [of _ 0]) (auto simp: Let_def)
  next
    case False
    have ne1: "t + 1 + of_nat i \<noteq> s" if "i \<le> k" for i
      using ne [of "Suc i"] that by (simp add: add.assoc)
    have "\<exists>e \<le> k. safestrcpy_loop ?m (s + 1) (t + 1) k (s + 1 + of_nat e) = 0 \<and>
        (e = k \<or> ?m (t + 1 + of_nat e) = 0) \<and>
        (\<forall>i < e. ?m (t + 1 + of_nat i) \<noteq> 0 \<and>
          safestrcpy_loop ?m (s + 1) (t + 1) k (s + 1 + of_nat i) = ?m (t + 1 + of_nat i))"
      using Suc.prems(1) ap by (intro Suc.IH) auto
    then obtain e where e: "e \<le> k" "safestrcpy_loop ?m (s + 1) (t + 1) k (s + 1 + of_nat e) = 0"
      "e = k \<or> ?m (t + 1 + of_nat e) = 0"
      "\<And>i. i < e \<Longrightarrow> ?m (t + 1 + of_nat i) \<noteq> 0 \<and>
        safestrcpy_loop ?m (s + 1) (t + 1) k (s + 1 + of_nat i) = ?m (t + 1 + of_nat i)"
      by blast
    have e3: "e = k \<or> m (t + 1 + of_nat e) = 0" using e(1,3) ne1 [of e] by simp
    have e4: "m (t + 1 + of_nat i) \<noteq> 0 \<and>
        safestrcpy_loop ?m (s + 1) (t + 1) k (s + 1 + of_nat i) = m (t + 1 + of_nat i)" if "i < e" for i
      using e(1) e(4) [OF that] ne1 [of i] that by simp
    have "safestrcpy_loop ?m (s + 1) (t + 1) k s = m t"
      using base Suc.prems(1) by (subst safestrcpy_loop_out) auto
    with e(1,2) e3 e4 False show ?thesis
      by (intro exI [of _ "Suc e"]) (simp add: Let_def add.assoc all_less_Suc_shift)
  qed
qed simp

text \<open>
  C36. safestrcpy with a positive bound \<open>n\<close> writes only inside the \<open>n\<close> bytes of the destination and
  leaves a NUL-terminated string there: some offset \<open>e < n\<close> holds NUL, the bytes before it are
  the non-NUL bytes of the source, and the source is cut only if it did not fit.
\<close>

theorem safestrcpy_terminates_string:
  assumes "0 < n" and "n < 2 ^ 32" and "apart s t (nat n)"
  shows "(\<forall>x. \<not> in_region s (nat n) x \<longrightarrow> safestrcpy m s t n x = m x) \<and>
    (\<exists>e < nat n. safestrcpy m s t n (s + of_nat e) = 0 \<and> (e = nat n - 1 \<or> m (t + of_nat e) = 0) \<and>
      (\<forall>i < e. m (t + of_nat i) \<noteq> 0 \<and> safestrcpy m s t n (s + of_nat i) = m (t + of_nat i)))"
proof -
  obtain k where k: "nat n = Suc k" using assms(1) by (cases "nat n") auto
  then have n: "safestrcpy m s t n = safestrcpy_loop m s t k" "Suc k < 2 ^ 32"
    using assms by (simp_all add: safestrcpy_def)
  show ?thesis
  proof (intro conjI)
    show "\<forall>x. \<not> in_region s (nat n) x \<longrightarrow> safestrcpy m s t n x = m x"
      using n k by (auto intro: safestrcpy_loop_out)
    show "\<exists>e < nat n. safestrcpy m s t n (s + of_nat e) = 0 \<and> (e = nat n - 1 \<or> m (t + of_nat e) = 0) \<and>
      (\<forall>i < e. m (t + of_nat i) \<noteq> 0 \<and> safestrcpy m s t n (s + of_nat i) = m (t + of_nat i))"
      using safestrcpy_loop_in [OF n(2), of s t m] assms(3) n(1) k by (auto simp: less_Suc_eq_le)
  qed
qed

lemma strlen_from_found:
  assumes "m (s + of_nat k) = 0" and "\<And>i. n \<le> i \<Longrightarrow> i < k \<Longrightarrow> m (s + of_nat i) \<noteq> 0" and "n \<le> k"
  shows "strlen_from m s n = Some k"
  using assms(3,2)
proof (induction "k - n" arbitrary: n)
  case 0
  with assms(1) show ?case by (simp add: strlen_from.simps)
next
  case (Suc d)
  then have "m (s + of_nat n) \<noteq> 0" "strlen_from m s (Suc n) = Some k" by auto
  then show ?case by (simp add: strlen_from.simps [of m s n])
qed

lemma strlen_first_nul: "m (s + of_nat k) = 0 \<Longrightarrow> no_nul m s k \<Longrightarrow> strlen m s = Some k"
  unfolding strlen_def by (rule strlen_from_found) (auto simp: no_nul_def)

end
