(* ===== verification/Kalloc.thy ===== *)
theory Kalloc
  imports Spinlock Strings
begin

text \<open>
  kalloc.c, the allocator of 4096-byte physical pages. The free list is the linked list the code
  keeps: \<open>freelist\<close> is the address of the first free page (0 for none) and the first word of
  each free page holds the address of the next, in the byte memory of the machine.
  \<open>kernel_end\<close> is the linker symbol \<open>end\<close>.

  The locale \<open>page_allocator\<close> is what the rest of the kernel relies on: an allocator has a list
  of free pages, \<open>alloc\<close> takes the head and \<open>free\<close> pushes. Its lemmas (no page is handed out
  twice, pages are conserved over any run) are proved from that contract alone and hold for
  kalloc.c by the interpretation at the end.
\<close>

section \<open>State and operations\<close>

record kmem_state = machine +
  use_lock :: bool
  freelist :: uint
  kernel_end :: uint

definition kfree :: "uint \<Rightarrow> ('z kmem_state_scheme, unit) kM" where
  "kfree v =
     kbind (kgets kernel_end) (\<lambda>e.
     if v mod PGSIZE \<noteq> 0 \<or> v < e \<or> V2P v \<ge> PHYSTOP then kfail (Panic ''kfree'')
     else
       kthen (kmodify (\<lambda>s. s\<lparr>mem := memset (mem s) v 1 PGSIZE\<rparr>)) (
       kbind (kgets use_lock) (\<lambda>ul.
       kthen (kwhen ul (acquire LkKmem)) (
       kthen (kmodify (\<lambda>s. s\<lparr>mem := store32 (mem s) v (freelist s)\<rparr>)) (
       kthen (kmodify (\<lambda>s. s\<lparr>freelist := v\<rparr>)) (
       kbind (kgets use_lock) (\<lambda>ul'.
       kwhen ul' (release LkKmem))))))))"

definition kalloc :: "('z kmem_state_scheme, uint) kM" where
  "kalloc =
     kbind (kgets use_lock) (\<lambda>ul.
     kthen (kwhen ul (acquire LkKmem)) (
     kbind (kgets freelist) (\<lambda>r.
     kthen (kwhen (r \<noteq> 0) (kmodify (\<lambda>s. s\<lparr>freelist := load32 (mem s) r\<rparr>))) (
     kbind (kgets use_lock) (\<lambda>ul'.
     kthen (kwhen ul' (release LkKmem)) (ret r))))))"

text \<open>
  The loop of freerange, with a bound on its iterations: a range holds fewer than \<open>2^20\<close> pages,
  so running out of the bound of \<open>freerange\<close> means that the address has wrapped around.
\<close>

primrec freerange_loop :: "nat \<Rightarrow> uint \<Rightarrow> uint \<Rightarrow> ('z kmem_state_scheme, unit) kM" where
  "freerange_loop 0 p vend = kfail NoFuel"
| "freerange_loop (Suc n) p vend =
     (if p + PGSIZE \<le> vend then kthen (kfree p) (freerange_loop n (p + PGSIZE) vend) else ret ())"

definition freerange :: "uint \<Rightarrow> uint \<Rightarrow> ('z kmem_state_scheme, unit) kM" where
  "freerange vstart vend = freerange_loop (2 ^ 20 + 1) (PGROUNDUP vstart) vend"

definition kinit1 :: "uint \<Rightarrow> uint \<Rightarrow> ('z kmem_state_scheme, unit) kM" where
  "kinit1 vstart vend =
     kthen (initlock LkKmem ''kmem'') (
     kthen (kmodify (\<lambda>s. s\<lparr>use_lock := False\<rparr>)) (
     freerange vstart vend))"

definition kinit2 :: "uint \<Rightarrow> uint \<Rightarrow> ('z kmem_state_scheme, unit) kM" where
  "kinit2 vstart vend =
     kthen (freerange vstart vend) (
     kmodify (\<lambda>s. s\<lparr>use_lock := True\<rparr>))"

section \<open>The free list\<close>

text \<open>\<open>chain m p xs\<close>: the linked list at \<open>p\<close> in memory \<open>m\<close> runs through the pages \<open>xs\<close>.\<close>

primrec chain :: "(uint \<Rightarrow> uchar) \<Rightarrow> uint \<Rightarrow> uint list \<Rightarrow> bool" where
  "chain m p [] = (p = 0)"
| "chain m p (x # xs) = (p = x \<and> x \<noteq> 0 \<and> chain m (load32 m x) xs)"

definition page_ok :: "'z kmem_state_scheme \<Rightarrow> uint \<Rightarrow> bool" where
  "page_ok s v \<longleftrightarrow> v \<noteq> 0 \<and> v mod PGSIZE = 0 \<and> kernel_end s \<le> v \<and> V2P v < PHYSTOP"

definition free_list :: "'z kmem_state_scheme \<Rightarrow> uint list \<Rightarrow> bool" where
  "free_list s xs \<longleftrightarrow> chain (mem s) (freelist s) xs \<and> distinct xs \<and> (\<forall>x \<in> set xs. page_ok s x)"

text \<open>The allocator may be called: its CPU is sound and its lock, if in use, is free.\<close>

definition kmem_ready :: "'z kmem_state_scheme \<Rightarrow> bool" where
  "kmem_ready s \<longleftrightarrow> cpu_ok s \<and> (use_lock s \<longrightarrow> lock_free s LkKmem)"

text \<open>What the lock leaves behind on the CPU.\<close>

definition settled :: "'z kmem_state_scheme \<Rightarrow> 'z kmem_state_scheme" where
  "settled s = (if use_lock s then touched s else s)"

section \<open>Frames\<close>

lemma use_lock_frame [simp]:
  "use_lock (enter l s) = use_lock s" "use_lock (leave l s) = use_lock s" "use_lock (touched s) = use_lock s"
  "enter l (use_lock_update f s) = use_lock_update f (enter l s)" "leave l (use_lock_update f s) = use_lock_update f (leave l s)" "touched (use_lock_update f s) = use_lock_update f (touched s)"
  "cpu_at (use_lock_update f s) = cpu_at s" "me (use_lock_update f s) = me s" "depth (use_lock_update f s) = depth s"
  "cur_IF (use_lock_update f s) = cur_IF s" "cpu_ok (use_lock_update f s) = cpu_ok s" "lock_free (use_lock_update f s) l = lock_free s l"
  "lock_mine (use_lock_update f s) l = lock_mine s l"
  by (auto simp: frame_defs intro!: machine.equality)

lemma freelist_frame [simp]:
  "freelist (enter l s) = freelist s" "freelist (leave l s) = freelist s" "freelist (touched s) = freelist s"
  "enter l (freelist_update f s) = freelist_update f (enter l s)" "leave l (freelist_update f s) = freelist_update f (leave l s)" "touched (freelist_update f s) = freelist_update f (touched s)"
  "cpu_at (freelist_update f s) = cpu_at s" "me (freelist_update f s) = me s" "depth (freelist_update f s) = depth s"
  "cur_IF (freelist_update f s) = cur_IF s" "cpu_ok (freelist_update f s) = cpu_ok s" "lock_free (freelist_update f s) l = lock_free s l"
  "lock_mine (freelist_update f s) l = lock_mine s l"
  by (auto simp: frame_defs intro!: machine.equality)

lemma kernel_end_frame [simp]:
  "kernel_end (enter l s) = kernel_end s" "kernel_end (leave l s) = kernel_end s" "kernel_end (touched s) = kernel_end s"
  "enter l (kernel_end_update f s) = kernel_end_update f (enter l s)" "leave l (kernel_end_update f s) = kernel_end_update f (leave l s)" "touched (kernel_end_update f s) = kernel_end_update f (touched s)"
  "cpu_at (kernel_end_update f s) = cpu_at s" "me (kernel_end_update f s) = me s" "depth (kernel_end_update f s) = depth s"
  "cur_IF (kernel_end_update f s) = cur_IF s" "cpu_ok (kernel_end_update f s) = cpu_ok s" "lock_free (kernel_end_update f s) l = lock_free s l"
  "lock_mine (kernel_end_update f s) l = lock_mine s l"
  by (auto simp: frame_defs intro!: machine.equality)

section \<open>Words in distinct pages\<close>

lemma mod_PGSIZE: "(v :: uint) mod PGSIZE = take_bit 12 v"
  by (simp add: PGSIZE_def take_bit_eq_mod)

lemma page_offset_apart:
  assumes "x mod PGSIZE = 0" and "v mod PGSIZE = 0" and "x \<noteq> v" and "unat d < 4096"
  shows "\<not> in_region v 4096 (x + d)"
proof -
  have "uint x mod 4096 = 0" "uint v mod 4096 = 0"
    using assms(1,2) by (simp_all add: PGSIZE_def word_uint_eq_iff uint_mod)
  then have "4096 dvd uint x" "4096 dvd uint v" by presburger+
  then have "4096 dvd uint (x - v)"
    by (simp add: uint_word_ariths dvd_mod)
  then have "4096 dvd int (unat (x - v))" by (simp only: of_nat_unat)
  then have "unat (x - v) mod 4096 = 0" by presburger
  then obtain q where q: "unat (x - v) = 4096 * q" by auto
  moreover have "unat (x - v) \<noteq> 0" using assms(3) by (simp add: unat_eq_0)
  moreover have "unat (x - v) < 2 ^ 32" by (rule unat_uint_less)
  ultimately have "4096 \<le> unat (x - v)" and "unat (x - v) + unat d < 2 ^ 32"
    using assms(4) by simp_all
  then have "4096 \<le> unat (x - v + d)"
    by (simp add: unat_word_ariths)
  then show ?thesis by (simp add: in_region_def algebra_simps)
qed

lemma in_region_mono: "in_region a n x \<Longrightarrow> n \<le> k \<Longrightarrow> in_region a k x"
  by (simp add: in_region_def)

lemma store32_region: "\<not> in_region a 4 x \<Longrightarrow> store32 m a w x = m x"
  by (auto simp: store32_def in_region_def)

lemma load32_cong:
  assumes "\<And>d. unat d < 4 \<Longrightarrow> m (a + d) = m' (a + d)"
  shows "load32 m a = load32 m' a"
  using assms [of 0] assms [of 1] assms [of 2] assms [of 3] by (simp add: load32_def)

text \<open>A write confined to the page \<open>v\<close> leaves every list that avoids \<open>v\<close> as it was.\<close>

lemma chain_frame:
  assumes "\<And>x. \<not> in_region v 4096 x \<Longrightarrow> m' x = m x" and "v mod PGSIZE = 0"
    and "\<forall>x \<in> set xs. x mod PGSIZE = 0" and "v \<notin> set xs"
  shows "chain m' p xs = chain m p xs"
  using assms(3,4)
proof (induction xs arbitrary: p)
  case (Cons x xs)
  have "load32 m' x = load32 m x"
    using Cons.prems assms(1,2) page_offset_apart [of x v] by (intro load32_cong) auto
  with Cons show ?case by simp
qed simp

section \<open>Running the allocator\<close>

lemma kalloc_run:
  assumes "kmem_ready s"
  shows "kalloc s = Ok (freelist s)
    (if freelist s = 0 then settled s else (settled s)\<lparr>freelist := load32 (mem s) (freelist s)\<rparr>)"
  using assms by (auto simp: kalloc_def kmem_ready_def settled_def kwhen_def kthen_Ok kbind_def)

lemma kfree_run:
  assumes "kmem_ready s" and "page_ok s v"
  shows "kfree v s = Ok () ((settled s)\<lparr>mem := store32 (memset (mem s) v 1 PGSIZE) v (freelist s), freelist := v\<rparr>)"
  using assms by (auto simp: kfree_def kmem_ready_def page_ok_def settled_def kthen_Ok)

lemma kfree_panics: "\<not> (v mod PGSIZE = 0 \<and> kernel_end s \<le> v \<and> V2P v < PHYSTOP) \<Longrightarrow> kfree v s = Fail (Panic ''kfree'')"
  by (simp add: kfree_def not_le not_less)

lemma settled_simps [simp]:
  "freelist (settled s) = freelist s" "mem (settled s) = mem s" "kernel_end (settled s) = kernel_end s"
  "use_lock (settled s) = use_lock s" "kmem_ready (settled s) = kmem_ready s"
  "kmem_ready (s\<lparr>freelist := p\<rparr>) = kmem_ready s" "kmem_ready (s\<lparr>mem := m\<rparr>) = kmem_ready s"
  "kmem_ready (touched s) = kmem_ready s"
  by (auto simp: settled_def kmem_ready_def)

lemma free_list_head: "free_list s xs \<Longrightarrow> freelist s = (case xs of [] \<Rightarrow> 0 | x # _ \<Rightarrow> x)"
  by (cases xs) (auto simp: free_list_def)

lemma kalloc_free_list:
  assumes "kmem_ready s" and "free_list s xs"
  shows "\<exists>t. kalloc s = Ok (case xs of [] \<Rightarrow> 0 | x # _ \<Rightarrow> x) t \<and> free_list t (tl xs) \<and> kmem_ready t \<and>
    mem t = mem s \<and> kernel_end t = kernel_end s \<and> locks t = locks s"
  using assms(2) by (cases xs)
    (auto simp: kalloc_run [OF assms(1)] free_list_def page_ok_def assms(1) settled_def)

lemma kfree_free_list:
  assumes "kmem_ready s" and "free_list s xs" and "page_ok s v" and "v \<notin> set xs"
  shows "\<exists>t. kfree v s = Ok () t \<and> free_list t (v # xs) \<and> kmem_ready t \<and>
    kernel_end t = kernel_end s \<and> locks t = locks s \<and> (\<forall>x. \<not> in_region v 4096 x \<longrightarrow> mem t x = mem s x)"
proof -
  let ?m = "store32 (memset (mem s) v 1 PGSIZE) v (freelist s)"
  have out: "?m x = mem s x" if "\<not> in_region v 4096 x" for x
  proof -
    have "\<not> in_region v 4 x" using that in_region_mono [of v 4 x 4096] by auto
    then have "?m x = memset (mem s) v 1 PGSIZE x" by (rule store32_region)
    with that show ?thesis by (simp add: memset_fill PGSIZE_def)
  qed
  have "chain ?m (freelist s) xs"
    using assms(2,3,4) chain_frame [of v ?m "mem s" xs "freelist s"] out
    by (auto simp: free_list_def page_ok_def)
  with assms out show ?thesis
    by (auto simp: kfree_run [OF assms(1,3)] free_list_def page_ok_def settled_def)
qed

section \<open>The contract of a page allocator\<close>

datatype page_op = OpAlloc | OpFree uint

locale page_allocator =
  fixes alloc :: "('s, uint) kM"
    and free :: "uint \<Rightarrow> ('s, unit) kM"
    and pages :: "'s \<Rightarrow> uint list \<Rightarrow> bool"
    and valid_page :: "'s \<Rightarrow> uint \<Rightarrow> bool"
  assumes alloc_some: "pages s (x # xs) \<Longrightarrow> \<exists>t. alloc s = Ok x t \<and> pages t xs \<and> valid_page t = valid_page s"
    and alloc_none: "pages s [] \<Longrightarrow> \<exists>t. alloc s = Ok 0 t \<and> pages t [] \<and> valid_page t = valid_page s"
    and free_push: "pages s xs \<Longrightarrow> valid_page s v \<Longrightarrow> v \<notin> set xs \<Longrightarrow>
      \<exists>t. free v s = Ok () t \<and> pages t (v # xs) \<and> valid_page t = valid_page s"
    and pages_valid: "pages s xs \<Longrightarrow> distinct xs \<and> (\<forall>x \<in> set xs. valid_page s x)"
    and zero_invalid: "\<not> valid_page s 0"
begin

text \<open>
  A run of a client: it frees only pages it owns. \<open>run ops own s\<close> is the list of pages owned
  after the operations, with the state; \<open>None\<close> if the client broke the rule or an operation
  did not return.
\<close>

primrec run :: "page_op list \<Rightarrow> uint list \<Rightarrow> 's \<Rightarrow> (uint list \<times> 's) option" where
  "run [] own s = Some (own, s)"
| "run (q # qs) own s =
     (case q of
        OpAlloc \<Rightarrow> (case alloc s of Ok p t \<Rightarrow> run qs (if p = 0 then own else p # own) t | _ \<Rightarrow> None)
      | OpFree v \<Rightarrow> if v \<in> set own then
          (case free v s of Ok _ t \<Rightarrow> run qs (remove1 v own) t | _ \<Rightarrow> None) else None)"

text \<open>The pages owned and the pages free stay disjoint and together stay the same.\<close>

lemma run_conserves:
  assumes "pages s fl" and "distinct (own @ fl)" and "\<forall>x \<in> set own. valid_page s x"
    and "run ops own s = Some (own', s')"
  shows "\<exists>fl'. pages s' fl' \<and> distinct (own' @ fl') \<and> set own' \<union> set fl' = set own \<union> set fl"
  using assms
proof (induction ops arbitrary: own s fl)
  case Nil
  then show ?case by auto
next
  case (Cons q ops)
  show ?case
  proof (cases q)
    case OpAlloc
    show ?thesis
    proof (cases fl)
      case Nil
      with Cons.prems(1) alloc_none obtain t where "alloc s = Ok 0 t" "pages t []" "valid_page t = valid_page s"
        by blast
      with Cons.IH [of t "[]" own] Cons.prems OpAlloc Nil show ?thesis by simp
    next
      case (Cons x xs)
      with Cons.prems(1) alloc_some obtain t where t: "alloc s = Ok x t" "pages t xs" "valid_page t = valid_page s"
        by blast
      have "x \<noteq> 0" "valid_page s x"
        using pages_valid [OF Cons.prems(1)] Cons zero_invalid by auto
      moreover have "run ops (x # own) t = Some (own', s')"
        using Cons.prems(4) OpAlloc t(1) \<open>x \<noteq> 0\<close> by simp
      ultimately show ?thesis
        using Cons.IH [OF t(2), of "x # own"] Cons.prems(2,3) Cons t(3) by simp
    qed
  next
    case (OpFree v)
    with Cons.prems(4) have v: "v \<in> set own" by (auto split: if_splits)
    with Cons.prems have vfl: "v \<notin> set fl" "valid_page s v" by auto
    then obtain t where t: "free v s = Ok () t" "pages t (v # fl)" "valid_page t = valid_page s"
      using free_push [OF Cons.prems(1)] by blast
    have "distinct (remove1 v own @ v # fl)" "set (remove1 v own) = set own - {v}"
      using Cons.prems(2) vfl(1) by (auto simp: set_remove1_eq)
    moreover have "run ops (remove1 v own) t = Some (own', s')"
      using Cons.prems(4) OpFree t(1) v by simp
    ultimately have "\<exists>fl'. pages s' fl' \<and> distinct (own' @ fl') \<and>
        set own' \<union> set fl' = set (remove1 v own) \<union> set (v # fl)"
      using Cons.prems(3) t(3) by (intro Cons.IH [OF t(2)]) simp_all
    moreover have "set (remove1 v own) \<union> set (v # fl) = set own \<union> set fl"
      using \<open>set (remove1 v own) = set own - {v}\<close> v by auto
    ultimately show ?thesis by simp
  qed
qed

text \<open>An allocation never returns a page the client still owns.\<close>

lemma alloc_fresh:
  assumes "pages s fl" and "distinct (own @ fl)" and "alloc s = Ok p t"
  shows "p = 0 \<or> p \<notin> set own"
proof (cases fl)
  case Nil
  with assms(1,3) alloc_none [of s] show ?thesis by auto
next
  case (Cons x xs)
  with assms(1,3) alloc_some [of s x xs] have "p = x" by auto
  with Cons assms(2) show ?thesis by auto
qed

end

interpretation kp: page_allocator kalloc kfree "\<lambda>s xs. kmem_ready s \<and> free_list s xs" page_ok
proof
  fix s :: "'a kmem_state_scheme" and x v xs
  have valid: "page_ok t = page_ok s" if "kernel_end t = kernel_end s" for t :: "'a kmem_state_scheme"
    using that by (simp add: page_ok_def fun_eq_iff)
  show "\<exists>t. kalloc s = Ok x t \<and> (kmem_ready t \<and> free_list t xs) \<and> page_ok t = page_ok s"
    if "kmem_ready s \<and> free_list s (x # xs)"
    using that kalloc_free_list [of s "x # xs"] by (auto dest!: valid)
  show "\<exists>t. kalloc s = Ok 0 t \<and> (kmem_ready t \<and> free_list t []) \<and> page_ok t = page_ok s"
    if "kmem_ready s \<and> free_list s []"
    using that kalloc_free_list [of s "[]"] by (auto dest!: valid)
  show "\<exists>t. kfree v s = Ok () t \<and> (kmem_ready t \<and> free_list t (v # xs)) \<and> page_ok t = page_ok s"
    if "kmem_ready s \<and> free_list s xs" "page_ok s v" "v \<notin> set xs"
    using that kfree_free_list [of s xs v] by (auto dest!: valid)
  show "distinct xs \<and> (\<forall>x \<in> set xs. page_ok s x)" if "kmem_ready s \<and> free_list s xs"
    using that by (simp add: free_list_def)
  show "\<not> page_ok s 0" by (simp add: page_ok_def)
qed

section \<open>Initialising the allocator\<close>

definition page_seq :: "uint \<Rightarrow> nat \<Rightarrow> uint list" where
  "page_seq p n = map (\<lambda>i. p + of_nat (4096 * i)) [0..<n]"

lemma page_seq_Suc: "page_seq p (Suc n) = p # page_seq (p + PGSIZE) n"
  by (simp only: page_seq_def upt_conv_Cons [OF zero_less_Suc])
     (simp add: PGSIZE_def map_Suc_upt [symmetric] add.assoc del: upt_Suc)

lemma free_list_page_ok: "free_list s xs \<Longrightarrow> x \<in> set xs \<Longrightarrow> page_ok s x"
  by (simp add: free_list_def)

lemma freerange_loop_run:
  assumes "kmem_ready s" and "free_list s xs" and "n < fuel"
    and "unat p + 4096 * n \<le> unat vend" and "unat vend < unat p + 4096 * Suc n"
    and "unat p + 4096 * Suc n < 2 ^ 32"
    and "\<forall>x \<in> set (page_seq p n). page_ok s x" and "distinct (page_seq p n @ xs)"
  shows "\<exists>t. freerange_loop fuel p vend s = Ok () t \<and> kmem_ready t \<and> free_list t (rev (page_seq p n) @ xs)"
  using assms
proof (induction n arbitrary: fuel p s xs)
  case 0
  then obtain f where f: "fuel = Suc f" by (cases fuel) auto
  have "unat (p + PGSIZE) = unat p + 4096"
    using 0 by (simp add: PGSIZE_def unat_word_ariths)
  then have "\<not> p + PGSIZE \<le> vend" using 0 by (simp add: word_le_nat_alt)
  with 0 f show ?case by (simp add: page_seq_def)
next
  case (Suc n)
  then obtain f where f: "fuel = Suc f" by (cases fuel) auto
  have p: "unat (p + PGSIZE) = unat p + 4096"
    using Suc.prems(6) by (simp add: PGSIZE_def unat_word_ariths)
  then have le: "p + PGSIZE \<le> vend" using Suc.prems(4) by (simp add: word_le_nat_alt)
  have ok: "page_ok s p" "p \<notin> set xs" using Suc.prems(7,8) by (simp_all add: page_seq_Suc)
  obtain t where t: "kfree p s = Ok () t" "free_list t (p # xs)" "kmem_ready t" "kernel_end t = kernel_end s"
    using kfree_free_list [OF Suc.prems(1,2) ok] by blast
  then have "\<forall>x \<in> set (page_seq (p + PGSIZE) n). page_ok t x"
    using Suc.prems(7) by (simp add: page_seq_Suc page_ok_def)
  moreover have "distinct (page_seq (p + PGSIZE) n @ p # xs)"
    using Suc.prems(8) by (auto simp: page_seq_Suc)
  ultimately have "\<exists>u. freerange_loop f (p + PGSIZE) vend t = Ok () u \<and> kmem_ready u \<and>
      free_list u (rev (page_seq (p + PGSIZE) n) @ p # xs)"
    using Suc.prems(3-6) f p t(2,3) by (intro Suc.IH) simp_all
  with f le t(1) show ?case by (simp add: page_seq_Suc kthen_Ok)
qed

text \<open>
  kalloc and kfree are a stack of free pages: on a sound free list kalloc takes the first
  page off it, or returns 0 when it is empty, and kfree of a page in the allocator's range that is
  not already free puts it in front; both return, the list stays a list of distinct valid pages,
  and kfree changes no byte outside the freed page.
\<close>

theorem kalloc_kfree_stack:
  assumes "kmem_ready s" and "free_list s xs"
  shows "(\<exists>t. kalloc s = Ok (case xs of [] \<Rightarrow> 0 | x # _ \<Rightarrow> x) t \<and> free_list t (tl xs) \<and> kmem_ready t \<and> mem t = mem s) \<and>
    (\<forall>v. page_ok s v \<and> v \<notin> set xs \<longrightarrow>
      (\<exists>t. kfree v s = Ok () t \<and> free_list t (v # xs) \<and> kmem_ready t \<and>
        (\<forall>x. \<not> in_region v 4096 x \<longrightarrow> mem t x = mem s x)))"
  using kalloc_free_list [OF assms] kfree_free_list [OF assms] by blast

text \<open>
  kfree rejects an address that is not the start of a page of the allocator's range: an
  unaligned address, one below the end of the kernel image or one at or above the physical
  memory limit is a panic, and memory is not touched.
\<close>

theorem kfree_rejects:
  assumes "v mod PGSIZE \<noteq> 0 \<or> v < kernel_end s \<or> V2P v \<ge> PHYSTOP"
  shows "kfree v s = Fail (Panic ''kfree'')"
  using assms by (intro kfree_panics) (auto simp: not_le not_less)

text \<open>
  C34. Pages are conserved: over any run of allocations and frees of owned pages, the pages owned
  and the pages on the free list stay disjoint, without duplicates, and together are the same
  set as at the start. So kalloc never hands out a page that is still owned, and no page is
  lost.
\<close>

theorem pages_conserved:
  assumes "kmem_ready s" and "free_list s fl" and "distinct (own @ fl)" and "\<forall>x \<in> set own. page_ok s x"
    and "kp.run ops own s = Some (own', s')"
  shows "\<exists>fl'. free_list s' fl' \<and> distinct (own' @ fl') \<and> set own' \<union> set fl' = set own \<union> set fl"
  using kp.run_conserves [of s fl own ops own' s'] assms by blast

text \<open>
  C35. freerange terminates and frees exactly the whole pages of its range: started on a sound
  free list with the bound of the definition, it pushes each page from the rounded-up start to
  the last one that fits below the end, in ascending order.
\<close>

theorem freerange_frees_range:
  assumes "kmem_ready s" and "free_list s xs" and "p = PGROUNDUP vstart"
    and "unat p + 4096 * n \<le> unat vend" and "unat vend < unat p + 4096 * Suc n"
    and "unat p + 4096 * Suc n < 2 ^ 32"
    and "\<forall>x \<in> set (page_seq p n). page_ok s x" and "distinct (page_seq p n @ xs)"
  shows "\<exists>t. freerange vstart vend s = Ok () t \<and> free_list t (rev (page_seq p n) @ xs)"
proof -
  have "n < 2 ^ 20 + 1" using assms(6) by simp
  then show ?thesis
    using freerange_loop_run [OF assms(1,2) _ assms(4-8)] assms(3) unfolding freerange_def by blast
qed

end
