(* ===== verification/Vm.thy ===== *)
theory Vm
  imports Kalloc
begin

text \<open>
  vm.c: two-level page tables in the byte memory of the machine. A page directory and a page
  table are pages of 1024 little-endian words; \<open>walkpgdir\<close> returns the address of a page-table
  entry, 0 for a null pointer. \<open>sym_data\<close> is the linker symbol \<open>data\<close> and \<open>sym_ts i\<close> the
  address of the task state segment of CPU \<open>i\<close>.

  The loops of the source count a 32-bit address up by pages. Each carries a bound of one more
  than the number of pages of the address space; the fault \<open>NoFuel\<close> stands for a loop that would
  go round the address space forever. Messages printed with cprintf are left out.
\<close>

section \<open>State\<close>

record vm_state = kmem_state +
  kpgdir :: uint
  sym_data :: uint
  sym_ts :: "nat \<Rightarrow> uint"

definition max_pages :: nat where "max_pages = 2 ^ 20 + 1"

section \<open>Walking and extending page tables\<close>

definition get32 :: "uint \<Rightarrow> ('z machine_scheme, uint) kM" where
  "get32 a = kgets (\<lambda>s. load32 (mem s) a)"

definition put32 :: "uint \<Rightarrow> uint \<Rightarrow> ('z machine_scheme, unit) kM" where
  "put32 a w = kmodify (\<lambda>s. s\<lparr>mem := store32 (mem s) a w\<rparr>)"

definition clear_page :: "uint \<Rightarrow> ('z machine_scheme, unit) kM" where
  "clear_page a = kmodify (\<lambda>s. s\<lparr>mem := memset (mem s) a 0 PGSIZE\<rparr>)"

definition walkpgdir :: "uint \<Rightarrow> uint \<Rightarrow> bool \<Rightarrow> ('z kmem_state_scheme, uint) kM" where
  "walkpgdir pgdir va alloc =
     kbind (get32 (pgdir + 4 * PDX va)) (\<lambda>pde.
     if pde AND PTE_P \<noteq> 0 then ret (P2V (PTE_ADDR pde) + 4 * PTX va)
     else if \<not> alloc then ret 0
     else kbind kalloc (\<lambda>pgtab.
       if pgtab = 0 then ret 0
       else
         kthen (clear_page pgtab) (
         kthen (put32 (pgdir + 4 * PDX va) (V2P pgtab OR PTE_P OR PTE_W OR PTE_U)) (
         ret (pgtab + 4 * PTX va)))))"

primrec mappages_loop :: "nat \<Rightarrow> uint \<Rightarrow> uint \<Rightarrow> uint \<Rightarrow> uint \<Rightarrow> uint \<Rightarrow> ('z kmem_state_scheme, int) kM" where
  "mappages_loop 0 pgdir a lst pa perm = kfail NoFuel"
| "mappages_loop (Suc n) pgdir a lst pa perm =
     kbind (walkpgdir pgdir a True) (\<lambda>pte.
     if pte = 0 then ret (-1)
     else kbind (get32 pte) (\<lambda>v.
       if v AND PTE_P \<noteq> 0 then kfail (Panic ''remap'')
       else
         kthen (put32 pte (pa OR perm OR PTE_P)) (
         if a = lst then ret 0
         else mappages_loop n pgdir (a + PGSIZE) lst (pa + PGSIZE) perm)))"

definition mappages :: "uint \<Rightarrow> uint \<Rightarrow> uint \<Rightarrow> uint \<Rightarrow> uint \<Rightarrow> ('z kmem_state_scheme, int) kM" where
  "mappages pgdir va sz pa perm =
     mappages_loop max_pages pgdir (PGROUNDDOWN va) (PGROUNDDOWN (va + sz - 1)) pa perm"

section \<open>Releasing page tables\<close>

primrec deallocuvm_loop :: "nat \<Rightarrow> uint \<Rightarrow> uint \<Rightarrow> uint \<Rightarrow> ('z kmem_state_scheme, unit) kM" where
  "deallocuvm_loop 0 pgdir a oldsz = kfail NoFuel"
| "deallocuvm_loop (Suc n) pgdir a oldsz =
     (if \<not> a < oldsz then ret ()
      else kbind (walkpgdir pgdir a False) (\<lambda>pte.
        if pte = 0 then deallocuvm_loop n pgdir (PGADDR (PDX a + 1) 0 0 - PGSIZE + PGSIZE) oldsz
        else kbind (get32 pte) (\<lambda>v.
          kthen
            (if v AND PTE_P \<noteq> 0 then
               (let pa = PTE_ADDR v in
                if pa = 0 then kfail (Panic ''kfree'')
                else kthen (kfree (P2V pa)) (put32 pte 0))
             else ret ())
            (deallocuvm_loop n pgdir (a + PGSIZE) oldsz))))"

definition deallocuvm :: "uint \<Rightarrow> uint \<Rightarrow> uint \<Rightarrow> ('z kmem_state_scheme, uint) kM" where
  "deallocuvm pgdir oldsz newsz =
     (if newsz \<ge> oldsz then ret oldsz
      else kthen (deallocuvm_loop max_pages pgdir (PGROUNDUP newsz) oldsz) (ret newsz))"

definition freevm :: "uint \<Rightarrow> ('z kmem_state_scheme, unit) kM" where
  "freevm pgdir =
     (if pgdir = 0 then kfail (Panic ''freevm: no pgdir'')
      else
        kbind (deallocuvm pgdir KERNBASE 0) (\<lambda>_.
        kthen (kfor [0..<NPDENTRIES] (\<lambda>i.
          kbind (get32 (pgdir + 4 * of_nat i)) (\<lambda>pde.
          kwhen (pde AND PTE_P \<noteq> 0) (kfree (P2V (PTE_ADDR pde)))))) (
        kfree pgdir)))"

section \<open>The kernel part of a page table\<close>

record kmap =
  virt :: uint
  phys_start :: uint
  phys_end :: uint
  kperm :: uint

definition kmaps :: "uint \<Rightarrow> kmap list" where
  "kmaps data =
     [\<lparr>virt = KERNBASE, phys_start = 0, phys_end = EXTMEM, kperm = PTE_W\<rparr>,
      \<lparr>virt = KERNLINK, phys_start = V2P KERNLINK, phys_end = V2P data, kperm = 0\<rparr>,
      \<lparr>virt = data, phys_start = V2P data, phys_end = PHYSTOP, kperm = PTE_W\<rparr>,
      \<lparr>virt = DEVSPACE, phys_start = DEVSPACE, phys_end = 0, kperm = PTE_W\<rparr>]"

primrec setupkvm_loop :: "uint \<Rightarrow> kmap list \<Rightarrow> ('z kmem_state_scheme, uint) kM" where
  "setupkvm_loop pgdir [] = ret pgdir"
| "setupkvm_loop pgdir (k # ks) =
     kbind (mappages pgdir (virt k) (phys_end k - phys_start k) (phys_start k) (kperm k)) (\<lambda>r.
     if r < 0 then kthen (freevm pgdir) (ret 0) else setupkvm_loop pgdir ks)"

definition setupkvm :: "('z vm_state_scheme, uint) kM" where
  "setupkvm =
     kbind kalloc (\<lambda>pgdir.
     if pgdir = 0 then ret 0
     else
       kthen (clear_page pgdir) (
       if P2V PHYSTOP > DEVSPACE then kfail (Panic ''PHYSTOP too high'')
       else kbind (kgets sym_data) (\<lambda>data. setupkvm_loop pgdir (kmaps data))))"

definition switchkvm :: "('z vm_state_scheme, unit) kM" where
  "switchkvm = kbind (kgets kpgdir) (\<lambda>pd. lcr3 (V2P pd))"

definition kvmalloc :: "('z vm_state_scheme, unit) kM" where
  "kvmalloc = kbind setupkvm (\<lambda>pd. kthen (kmodify (\<lambda>s. s\<lparr>kpgdir := pd\<rparr>)) switchkvm)"

section \<open>Segments and address-space switches\<close>

text \<open>The global descriptor table a CPU has loaded is the one of a CPU record.\<close>

definition lgdt :: "nat \<Rightarrow> ('z machine_scheme, unit) kM" where
  "lgdt i = kmodify (\<lambda>s. s\<lparr>gdt_loaded := (gdt_loaded s)(lapic_id s := Some i)\<rparr>)"

definition seginit :: "('z machine_scheme, unit) kM" where
  "seginit =
     kbind cpuid (\<lambda>i.
     kthen (kmodify (upd_cpu i (\<lambda>c. c\<lparr>gdt := (gdt c)
       [SEG_KCODE := SEG (STA_X OR STA_R) 0 0xffffffff 0,
        SEG_KDATA := SEG STA_W 0 0xffffffff 0,
        SEG_UCODE := SEG (STA_X OR STA_R) 0 0xffffffff DPL_USER,
        SEG_UDATA := SEG STA_W 0 0xffffffff DPL_USER]\<rparr>))) (
     lgdt i))"

text \<open>\<open>sizeof(struct taskstate)\<close> is 104.\<close>

definition switchuvm :: "(uint \<times> uint) option \<Rightarrow> ('z vm_state_scheme, unit) kM" where
  "switchuvm p =
     (case p of None \<Rightarrow> kfail (Panic ''switchuvm: no process'')
      | Some (kstack, pgdir) \<Rightarrow>
        if kstack = 0 then kfail (Panic ''switchuvm: no kstack'')
        else if pgdir = 0 then kfail (Panic ''switchuvm: no pgdir'')
        else
          kthen pushcli (
          kbind mycpu (\<lambda>i.
          kthen (kmodify (\<lambda>s. upd_cpu i (\<lambda>c. c\<lparr>
            gdt := (gdt c)[SEG_TSS := (SEG16 STS_T32A (sym_ts s i) 103 0)\<lparr>seg_s := 0\<rparr>],
            cpu_ts := \<lparr>esp0 = kstack + KSTACKSIZE, ss0 = of_nat (SEG_KDATA * 8), iomb = 0xFFFF\<rparr>\<rparr>) s)) (
          kthen (ltr (of_nat (SEG_TSS * 8))) (
          kthen (lcr3 (V2P pgdir)) (
          popcli))))))"

section \<open>User memory\<close>

definition write_bytes :: "uint \<Rightarrow> uchar list \<Rightarrow> ('z machine_scheme, unit) kM" where
  "write_bytes a bs = kmodify (\<lambda>s. s\<lparr>mem := (\<lambda>x. if unat (x - a) < length bs then bs ! unat (x - a) else mem s x)\<rparr>)"

text \<open>The result of kalloc is used without a test in inituvm; the null page is then written to.\<close>

definition inituvm :: "uint \<Rightarrow> uchar list \<Rightarrow> ('z kmem_state_scheme, unit) kM" where
  "inituvm pgdir init =
     (if of_nat (length init) \<ge> PGSIZE then kfail (Panic ''inituvm: more than a page'')
      else
        kbind kalloc (\<lambda>m.
        kthen (clear_page m) (
        kbind (mappages pgdir 0 PGSIZE (V2P m) (PTE_W OR PTE_U)) (\<lambda>_.
        write_bytes m init))))"

primrec allocuvm_loop :: "nat \<Rightarrow> uint \<Rightarrow> uint \<Rightarrow> uint \<Rightarrow> uint \<Rightarrow> ('z kmem_state_scheme, uint) kM" where
  "allocuvm_loop 0 pgdir a oldsz newsz = kfail NoFuel"
| "allocuvm_loop (Suc n) pgdir a oldsz newsz =
     (if \<not> a < newsz then ret newsz
      else kbind kalloc (\<lambda>m.
        if m = 0 then kbind (deallocuvm pgdir newsz oldsz) (\<lambda>_. ret 0)
        else
          kthen (clear_page m) (
          kbind (mappages pgdir a PGSIZE (V2P m) (PTE_W OR PTE_U)) (\<lambda>r.
          if r < 0 then kbind (deallocuvm pgdir newsz oldsz) (\<lambda>_. kthen (kfree m) (ret 0))
          else allocuvm_loop n pgdir (a + PGSIZE) oldsz newsz))))"

definition allocuvm :: "uint \<Rightarrow> uint \<Rightarrow> uint \<Rightarrow> ('z kmem_state_scheme, uint) kM" where
  "allocuvm pgdir oldsz newsz =
     (if newsz \<ge> KERNBASE then ret 0
      else if newsz < oldsz then ret oldsz
      else allocuvm_loop max_pages pgdir (PGROUNDUP oldsz) oldsz newsz)"

definition clearpteu :: "uint \<Rightarrow> uint \<Rightarrow> ('z kmem_state_scheme, unit) kM" where
  "clearpteu pgdir uva =
     kbind (walkpgdir pgdir uva False) (\<lambda>pte.
     if pte = 0 then kfail (Panic ''clearpteu'')
     else kbind (get32 pte) (\<lambda>v. put32 pte (v AND NOT PTE_U)))"

primrec copyuvm_loop :: "nat \<Rightarrow> uint \<Rightarrow> uint \<Rightarrow> uint \<Rightarrow> uint \<Rightarrow> ('z kmem_state_scheme, uint) kM" where
  "copyuvm_loop 0 pgdir d i sz = kfail NoFuel"
| "copyuvm_loop (Suc n) pgdir d i sz =
     (if \<not> i < sz then ret d
      else kbind (walkpgdir pgdir i False) (\<lambda>pte.
        if pte = 0 then kfail (Panic ''copyuvm: pte should exist'')
        else kbind (get32 pte) (\<lambda>v.
          if v AND PTE_P = 0 then kfail (Panic ''copyuvm: page not present'')
          else kbind kalloc (\<lambda>m.
            if m = 0 then kthen (freevm d) (ret 0)
            else
              kthen (kmodify (\<lambda>s. s\<lparr>mem := memmove (mem s) m (P2V (PTE_ADDR v)) PGSIZE\<rparr>)) (
              kbind (mappages d i PGSIZE (V2P m) (PTE_FLAGS v)) (\<lambda>r.
              if r < 0 then kthen (kfree m) (kthen (freevm d) (ret 0))
              else copyuvm_loop n pgdir d (i + PGSIZE) sz))))))"

definition copyuvm :: "uint \<Rightarrow> uint \<Rightarrow> ('z vm_state_scheme, uint) kM" where
  "copyuvm pgdir sz =
     kbind setupkvm (\<lambda>d. if d = 0 then ret 0 else copyuvm_loop max_pages pgdir d 0 sz)"

text \<open>uva2ka dereferences the entry without testing that the page table exists.\<close>

definition uva2ka :: "uint \<Rightarrow> uint \<Rightarrow> ('z kmem_state_scheme, uint) kM" where
  "uva2ka pgdir uva =
     kbind (walkpgdir pgdir uva False) (\<lambda>pte.
     if pte = 0 then kfail (NullPointer ''uva2ka'')
     else kbind (get32 pte) (\<lambda>v.
       if v AND PTE_P = 0 then ret 0
       else if v AND PTE_U = 0 then ret 0
       else ret (P2V (PTE_ADDR v))))"

text \<open>The bytes to copy are given as a list; each round copies what fits in the page.\<close>

primrec copyout_loop :: "nat \<Rightarrow> uint \<Rightarrow> uint \<Rightarrow> uchar list \<Rightarrow> ('z kmem_state_scheme, int) kM" where
  "copyout_loop 0 pgdir va buf = kfail NoFuel"
| "copyout_loop (Suc k) pgdir va buf =
     (if buf = [] then ret 0
      else
        (let va0 = PGROUNDDOWN va in
         kbind (uva2ka pgdir va0) (\<lambda>pa0.
         if pa0 = 0 then ret (-1)
         else
           (let n = min (unat (PGSIZE - (va - va0))) (length buf) in
            kthen (write_bytes (pa0 + (va - va0)) (take n buf)) (
            copyout_loop k pgdir (va0 + PGSIZE) (drop n buf))))))"

definition copyout :: "uint \<Rightarrow> uint \<Rightarrow> uchar list \<Rightarrow> ('z kmem_state_scheme, int) kM" where
  "copyout pgdir va buf = copyout_loop max_pages pgdir va buf"

section \<open>Frames\<close>

lemma kpgdir_frame [simp]:
  "kpgdir (enter l s) = kpgdir s" "kpgdir (leave l s) = kpgdir s" "kpgdir (touched s) = kpgdir s"
  "enter l (kpgdir_update f s) = kpgdir_update f (enter l s)" "leave l (kpgdir_update f s) = kpgdir_update f (leave l s)" "touched (kpgdir_update f s) = kpgdir_update f (touched s)"
  "cpu_at (kpgdir_update f s) = cpu_at s" "me (kpgdir_update f s) = me s" "depth (kpgdir_update f s) = depth s"
  "cur_IF (kpgdir_update f s) = cur_IF s" "cpu_ok (kpgdir_update f s) = cpu_ok s" "lock_free (kpgdir_update f s) l = lock_free s l"
  "lock_mine (kpgdir_update f s) l = lock_mine s l"
  by (auto simp: frame_defs intro!: machine.equality)

lemma sym_data_frame [simp]:
  "sym_data (enter l s) = sym_data s" "sym_data (leave l s) = sym_data s" "sym_data (touched s) = sym_data s"
  "enter l (sym_data_update f s) = sym_data_update f (enter l s)" "leave l (sym_data_update f s) = sym_data_update f (leave l s)" "touched (sym_data_update f s) = sym_data_update f (touched s)"
  "cpu_at (sym_data_update f s) = cpu_at s" "me (sym_data_update f s) = me s" "depth (sym_data_update f s) = depth s"
  "cur_IF (sym_data_update f s) = cur_IF s" "cpu_ok (sym_data_update f s) = cpu_ok s" "lock_free (sym_data_update f s) l = lock_free s l"
  "lock_mine (sym_data_update f s) l = lock_mine s l"
  by (auto simp: frame_defs intro!: machine.equality)

lemma sym_ts_frame [simp]:
  "sym_ts (enter l s) = sym_ts s" "sym_ts (leave l s) = sym_ts s" "sym_ts (touched s) = sym_ts s"
  "enter l (sym_ts_update f s) = sym_ts_update f (enter l s)" "leave l (sym_ts_update f s) = sym_ts_update f (leave l s)" "touched (sym_ts_update f s) = sym_ts_update f (touched s)"
  "cpu_at (sym_ts_update f s) = cpu_at s" "me (sym_ts_update f s) = me s" "depth (sym_ts_update f s) = depth s"
  "cur_IF (sym_ts_update f s) = cur_IF s" "cpu_ok (sym_ts_update f s) = cpu_ok s" "lock_free (sym_ts_update f s) l = lock_free s l"
  "lock_mine (sym_ts_update f s) l = lock_mine s l"
  by (auto simp: frame_defs intro!: machine.equality)

section \<open>Switching address spaces in closed form\<close>

definition user_space :: "uint \<Rightarrow> uint \<Rightarrow> 'z vm_state_scheme \<Rightarrow> 'z vm_state_scheme" where
  "user_space ks pd s =
     (upd_cpu (me s) (\<lambda>c. c\<lparr>
        gdt := (gdt c)[SEG_TSS := (SEG16 STS_T32A (sym_ts s (me s)) 103 0)\<lparr>seg_s := 0\<rparr>],
        cpu_ts := \<lparr>esp0 = ks + KSTACKSIZE, ss0 = of_nat (SEG_KDATA * 8), iomb = 0xFFFF\<rparr>\<rparr>) s)
     \<lparr>tr := (tr s)(lapic_id s := of_nat (SEG_TSS * 8)), cr3 := (cr3 s)(lapic_id s := V2P pd)\<rparr>"

lemma user_space_state [simp]:
  "cpu_at (user_space ks pd s) = cpu_at s" "me (user_space ks pd s) = me s"
  "depth (user_space ks pd s) = depth s" "cur_IF (user_space ks pd s) = cur_IF s"
  "cpu_ok (user_space ks pd s) = cpu_ok s" "lock_free (user_space ks pd s) l = lock_free s l"
  "lock_mine (user_space ks pd s) l = lock_mine s l" "mem (user_space ks pd s) = mem s"
  "ticks (user_space ks pd s) = ticks s" "freelist (user_space ks pd s) = freelist s"
proof -
  have a: "cpu_at (user_space ks pd s) = cpu_at s"
    by (simp add: cpu_at_apicids) (simp add: user_space_def upd_cpu_def)
  then have m: "me (user_space ks pd s) = me s" by (simp add: me_def)
  have d: "depth (user_space ks pd s) = depth s"
    by (simp only: depth_def m) (simp add: user_space_def upd_cpu_def nth_update_same_field [where g = ncli])
  have i: "cur_IF (user_space ks pd s) = cur_IF s" by (simp add: cur_IF_def user_space_def upd_cpu_def)
  have "locks (user_space ks pd s) = locks s" by (simp add: user_space_def upd_cpu_def)
  with a m d i show "cpu_at (user_space ks pd s) = cpu_at s" "me (user_space ks pd s) = me s"
    "depth (user_space ks pd s) = depth s" "cur_IF (user_space ks pd s) = cur_IF s"
    "cpu_ok (user_space ks pd s) = cpu_ok s" "lock_free (user_space ks pd s) l = lock_free s l"
    "lock_mine (user_space ks pd s) l = lock_mine s l"
    by (simp_all add: cpu_ok_def lock_free_def lock_mine_def)
qed (simp_all add: user_space_def upd_cpu_def)

lemma cpu_update_commute:
  "c\<lparr>ncli := n, gdt := g, cpu_ts := k\<rparr> = c\<lparr>gdt := g, cpu_ts := k, ncli := n\<rparr>"
  by simp

lemma popped_user_space:
  assumes "cpu_at s \<noteq> None"
  shows "popped (user_space ks pd s) = user_space ks pd (popped s)"
proof -
  let ?c = "cpus s ! me s"
  have 1: "cpus (user_space ks pd s) = (cpus s)[me s := ?c\<lparr>
        gdt := (gdt ?c)[SEG_TSS := (SEG16 STS_T32A (sym_ts s (me s)) 103 0)\<lparr>seg_s := 0\<rparr>],
        cpu_ts := \<lparr>esp0 = ks + KSTACKSIZE, ss0 = of_nat (SEG_KDATA * 8), iomb = 0xFFFF\<rparr>\<rparr>]"
    by (simp add: user_space_def upd_cpu_def)
  have 2: "cpus (popped s) = (cpus s)[me s := ?c\<lparr>ncli := depth s - 1\<rparr>]" by (simp add: popped_def)
  have "cpus (user_space ks pd (popped s)) = cpus (popped (user_space ks pd s))"
    using me_less [OF assms]
    by (simp add: user_space_def [of _ _ "popped s"] upd_cpu_def 2 popped_def [of "user_space ks pd s"] 1)
      (simp add: popped_def cpu_update_commute)
  note c = this [symmetric]
  have i: "intena (cpus (user_space ks pd s) ! me s) = intena ?c" using me_less [OF assms] by (simp add: 1)
  show ?thesis
    by (intro machine.equality c) (simp_all add: popped_def [of "user_space ks pd s"] i,
      simp_all add: user_space_def upd_cpu_def popped_def)
qed
lemma switchuvm_run:
  assumes "cpu_ok s" and "ks \<noteq> 0" and "pd \<noteq> 0"
  shows "switchuvm (Some (ks, pd)) s = Ok () (user_space ks pd (touched s))"
proof -
  from assms(1) have at: "cpu_at s \<noteq> None" by (simp add: cpu_ok_def)
  have m: "mycpu (pushed s) = Ok (me s) (pushed s)"
    using at by (auto simp: mycpu_run me_def)
  let ?t = "user_space ks pd (pushed s)"
  have "popcli ?t = Ok () (popped ?t)"
    using at depth_nonneg [OF assms(1)] assms(1) by (intro popcli_ok) auto
  moreover have "popped ?t = user_space ks pd (touched s)"
    using at assms(1) by (simp add: popped_user_space popped_pushed)
  ultimately have p: "popcli ?t = Ok () (user_space ks pd (touched s))" by simp
  have l: "lapic_id (pushed s) = lapic_id s" by (simp add: pushed_def)
  show ?thesis
    using assms(2,3) m pushcli_ok [OF at] p
    by (simp add: switchuvm_def kthen_Ok kbind_Ok ltr_def lcr3_def user_space_def [of _ _ "pushed s"] upd_cpu_def l)
qed

end
