(* ===== verification/Rtc.thy ===== *)
theory Rtc
  imports Machine
begin

text \<open>
  The real-time clock of lapic.c, with the copies of it in proc.c and sysproc.c. The device is a
  function of time: \<open>dev t reg\<close> is what the clock answers for register \<open>reg\<close> in its \<open>t\<close>-th read,
  for any behaviour of the clock between two reads. The kernel retries until two successive
  readings agree and no update is in progress; a clock that never settles is the case \<open>None\<close>.

  Shown here: what is returned was read twice in a row with no update between; a clock that
  holds still is read in one round; the BCD conversion inverts BCD encoding.
\<close>

type_synonym rtc = "nat \<Rightarrow> uint \<Rightarrow> uchar"

record rtcdate =
  second :: uint
  minute :: uint
  hour :: uint
  day :: uint
  month :: uint
  year :: uint

definition SECS :: uint where "SECS = 0"
definition MINS :: uint where "MINS = 2"
definition HOURS :: uint where "HOURS = 4"
definition DAY :: uint where "DAY = 7"
definition MONTH :: uint where "MONTH = 8"
definition YEAR :: uint where "YEAR = 9"
definition CMOS_STATA :: uint where "CMOS_STATA = 0xa"
definition CMOS_STATB :: uint where "CMOS_STATB = 0xb"
definition CMOS_UIP :: uint where "CMOS_UIP = 0x80"

section \<open>Reading the clock (lapic.c)\<close>

definition cmos_read :: "rtc \<Rightarrow> nat \<Rightarrow> uint \<Rightarrow> uint" where
  "cmos_read dev t reg = ucast (dev t reg)"

definition fill_rtcdate :: "rtc \<Rightarrow> nat \<Rightarrow> rtcdate" where
  "fill_rtcdate dev t =
     \<lparr>second = cmos_read dev t SECS, minute = cmos_read dev (t + 1) MINS,
      hour = cmos_read dev (t + 2) HOURS, day = cmos_read dev (t + 3) DAY,
      month = cmos_read dev (t + 4) MONTH, year = cmos_read dev (t + 5) YEAR\<rparr>"

partial_function (option) cmos_settle :: "rtc \<Rightarrow> nat \<Rightarrow> (rtcdate \<times> nat) option" where
  "cmos_settle dev t =
     (let t1 = fill_rtcdate dev t in
      if cmos_read dev (t + 6) CMOS_STATA AND CMOS_UIP \<noteq> 0 then cmos_settle dev (t + 7)
      else (let t2 = fill_rtcdate dev (t + 7) in
        if t1 = t2 then Some (t1, t + 13) else cmos_settle dev (t + 13)))"

definition bcd_conv :: "uint \<Rightarrow> uint" where
  "bcd_conv x = drop_bit 4 x * 10 + (x AND 0xf)"

definition conv_rtcdate :: "rtcdate \<Rightarrow> rtcdate" where
  "conv_rtcdate r =
     \<lparr>second = bcd_conv (second r), minute = bcd_conv (minute r), hour = bcd_conv (hour r),
      day = bcd_conv (day r), month = bcd_conv (month r), year = bcd_conv (year r)\<rparr>"

definition cmostime :: "rtc \<Rightarrow> nat \<Rightarrow> (rtcdate \<times> nat) option" where
  "cmostime dev t =
     (let sb = cmos_read dev t CMOS_STATB; bcd = (sb AND 4 = 0) in
      case cmos_settle dev (t + 1) of
        None \<Rightarrow> None
      | Some (t1, t') \<Rightarrow>
          (let r = (if bcd then conv_rtcdate t1 else t1) in Some (r\<lparr>year := year r + 2000\<rparr>, t')))"

section \<open>The copy in proc.c\<close>

definition cmos_readss :: "rtc \<Rightarrow> nat \<Rightarrow> uint \<Rightarrow> uint" where
  "cmos_readss dev t reg = ucast (dev t reg)"

definition fill_rtcdatess :: "rtc \<Rightarrow> nat \<Rightarrow> rtcdate" where
  "fill_rtcdatess dev t =
     \<lparr>second = cmos_readss dev t SECS, minute = cmos_readss dev (t + 1) MINS,
      hour = cmos_readss dev (t + 2) HOURS, day = cmos_readss dev (t + 3) DAY,
      month = cmos_readss dev (t + 4) MONTH, year = cmos_readss dev (t + 5) YEAR\<rparr>"

partial_function (option) cmos_settless :: "rtc \<Rightarrow> nat \<Rightarrow> (rtcdate \<times> nat) option" where
  "cmos_settless dev t =
     (let t1 = fill_rtcdatess dev t in
      if cmos_readss dev (t + 6) CMOS_STATA AND CMOS_UIP \<noteq> 0 then cmos_settless dev (t + 7)
      else (let t2 = fill_rtcdatess dev (t + 7) in
        if t1 = t2 then Some (t1, t + 13) else cmos_settless dev (t + 13)))"

definition cmostimess :: "rtc \<Rightarrow> nat \<Rightarrow> (rtcdate \<times> nat) option" where
  "cmostimess dev t =
     (let sb = cmos_readss dev t CMOS_STATB; bcd = (sb AND 4 = 0) in
      case cmos_settless dev (t + 1) of
        None \<Rightarrow> None
      | Some (t1, t') \<Rightarrow>
          (let r = (if bcd then conv_rtcdate t1 else t1) in Some (r\<lparr>year := year r + 2000\<rparr>, t')))"

section \<open>The copy in sysproc.c\<close>

definition cmos_reads :: "rtc \<Rightarrow> nat \<Rightarrow> uint \<Rightarrow> uint" where
  "cmos_reads dev t reg = ucast (dev t reg)"

definition fill_rtcdates :: "rtc \<Rightarrow> nat \<Rightarrow> rtcdate" where
  "fill_rtcdates dev t =
     \<lparr>second = cmos_reads dev t SECS, minute = cmos_reads dev (t + 1) MINS,
      hour = cmos_reads dev (t + 2) HOURS, day = cmos_reads dev (t + 3) DAY,
      month = cmos_reads dev (t + 4) MONTH, year = cmos_reads dev (t + 5) YEAR\<rparr>"

partial_function (option) cmos_settles :: "rtc \<Rightarrow> nat \<Rightarrow> (rtcdate \<times> nat) option" where
  "cmos_settles dev t =
     (let t1 = fill_rtcdates dev t in
      if cmos_reads dev (t + 6) CMOS_STATA AND CMOS_UIP \<noteq> 0 then cmos_settles dev (t + 7)
      else (let t2 = fill_rtcdates dev (t + 7) in
        if t1 = t2 then Some (t1, t + 13) else cmos_settles dev (t + 13)))"

definition cmostimes :: "rtc \<Rightarrow> nat \<Rightarrow> (rtcdate \<times> nat) option" where
  "cmostimes dev t =
     (let sb = cmos_reads dev t CMOS_STATB; bcd = (sb AND 4 = 0) in
      case cmos_settles dev (t + 1) of
        None \<Rightarrow> None
      | Some (t1, t') \<Rightarrow>
          (let r = (if bcd then conv_rtcdate t1 else t1) in Some (r\<lparr>year := year r + 2000\<rparr>, t')))"

section \<open>The readings\<close>

lemma cmos_reads_eq: "cmos_readss = cmos_read" "cmos_reads = cmos_read"
  by (simp_all add: fun_eq_iff cmos_readss_def cmos_reads_def cmos_read_def)

lemma fill_eq: "fill_rtcdatess = fill_rtcdate" "fill_rtcdates = fill_rtcdate"
  by (simp_all add: fun_eq_iff fill_rtcdatess_def fill_rtcdates_def fill_rtcdate_def cmos_reads_eq)

text \<open>What settles was read twice in a row, with no update in progress between the readings.\<close>

definition steady :: "rtc \<Rightarrow> nat \<Rightarrow> rtcdate \<Rightarrow> bool" where
  "steady dev u r \<longleftrightarrow> fill_rtcdate dev u = r \<and> fill_rtcdate dev (u + 7) = r \<and>
     cmos_read dev (u + 6) CMOS_STATA AND CMOS_UIP = 0"

lemma cmos_settless_steady:
  assumes "cmos_settless dev t = Some y"
  shows "\<exists>u \<ge> t. snd y = u + 13 \<and> steady dev u (fst y)"
proof (rule cmos_settless.raw_induct [where P = "\<lambda>dev t y. \<exists>u \<ge> t. snd y = u + 13 \<and> steady dev u (fst y)",
    OF _ assms])
  fix f dev t and y :: "rtcdate \<times> nat"
  assume IH: "\<And>dev t y. f dev t = Some y \<Longrightarrow> \<exists>u \<ge> t. snd y = u + 13 \<and> steady dev u (fst y)"
    and eq: "(let t1 = fill_rtcdatess dev t in
      if cmos_readss dev (t + 6) CMOS_STATA AND CMOS_UIP \<noteq> 0 then f dev (t + 7)
      else (let t2 = fill_rtcdatess dev (t + 7) in
        if t1 = t2 then Some (t1, t + 13) else f dev (t + 13))) = Some y"
  consider "f dev (t + 7) = Some y" | "f dev (t + 13) = Some y" | "snd y = t + 13" "steady dev t (fst y)"
    using eq by (auto simp: Let_def steady_def fill_eq cmos_reads_eq split: if_splits)
  then show "\<exists>u \<ge> t. snd y = u + 13 \<and> steady dev u (fst y)"
  proof cases
    case 1
    from IH [OF 1] obtain u where "u \<ge> t + 7" "snd y = u + 13" "steady dev u (fst y)" by blast
    then show ?thesis by (intro exI [of _ u]) simp
  next
    case 2
    from IH [OF 2] obtain u where "u \<ge> t + 13" "snd y = u + 13" "steady dev u (fst y)" by blast
    then show ?thesis by (intro exI [of _ u]) simp
  qed auto
qed

lemma cmostimess_steady:
  assumes "cmostimess dev t = Some (r, t')"
  shows "\<exists>u q. t < u \<and> t' = u + 13 \<and> steady dev u q \<and>
    (let c = (if cmos_read dev t CMOS_STATB AND 4 = 0 then conv_rtcdate q else q) in r = c\<lparr>year := year c + 2000\<rparr>)"
proof -
  from assms obtain q where q: "cmos_settless dev (t + 1) = Some (q, t')"
    and r: "let c = (if cmos_read dev t CMOS_STATB AND 4 = 0 then conv_rtcdate q else q) in r = c\<lparr>year := year c + 2000\<rparr>"
    by (auto simp: cmostimess_def Let_def cmos_reads_eq split: option.splits prod.splits)
  from cmos_settless_steady [OF q] obtain u where "u \<ge> t + 1" "t' = u + 13" "steady dev u q" by auto
  with r show ?thesis by (intro exI [of _ u] exI [of _ q]) simp
qed

lemma cmos_settless_steady_now: "steady dev t r \<Longrightarrow> cmos_settless dev t = Some (r, t + 13)"
  by (subst cmos_settless.simps) (simp add: steady_def fill_eq cmos_reads_eq)

text \<open>BCD encoding of a two-digit number.\<close>

definition bcd :: "nat \<Rightarrow> uint" where
  "bcd n = of_nat (16 * (n div 10) + n mod 10)"

lemma bcd_conv_bcd: "n < 100 \<Longrightarrow> bcd_conv (bcd n) = of_nat n"
proof -
  assume "n < 100"
  then have "n \<in> set [0..<100]" by simp
  moreover have "list_all (\<lambda>n. bcd_conv (bcd n) = of_nat n) [0..<100]" by code_simp
  ultimately show ?thesis by (simp only: list_all_iff)
qed

text \<open>
  The date the clock routine returns is one the clock showed: its fields come from a reading
  that was repeated identically with no update in progress in between, decoded from BCD when the
  clock says so, with 2000 added to the year; and it is returned as soon as the clock holds
  still for one round.
\<close>

theorem cmostimess_snapshot:
  "(cmostimess dev t = Some (r, t') \<longrightarrow>
     (\<exists>u q. t < u \<and> t' = u + 13 \<and> steady dev u q \<and>
       (let c = (if cmos_read dev t CMOS_STATB AND 4 = 0 then conv_rtcdate q else q)
        in r = c\<lparr>year := year c + 2000\<rparr>))) \<and>
   (steady dev (t + 1) q \<longrightarrow> (\<exists>r. cmostimess dev t = Some (r, t + 14)))"
  using cmostimess_steady [of dev t r t'] cmos_settless_steady_now [of dev "t + 1" q]
  by (auto simp: cmostimess_def Let_def add.commute)

end
