(* ===== verification/Proc.thy ===== *)
theory Proc
  imports Vm Rtc
begin

text \<open>
  The process table and the operations of proc.c that need nothing above it: allocation, context
  switches, sleeping and waking, waiting for a child, killing, and the priority calls.
  A \<open>struct proc *\<close> is an index into the table, \<open>None\<close> for a null pointer. The trap frame at the
  top of a process's kernel stack is kept as the record \<open>tf\<close> with its address \<open>tf_at\<close>; the
  saved kernel context of a process is the continuation of the \<open>Switch\<close> it left the CPU with.

  scheduler() is in theory Scheduler; fork(), exit(), userinit() and forkret(), which call the
  file system, are in theory Process.
\<close>

section \<open>The process table (proc.h, x86.h)\<close>

datatype procstate = UNUSED | EMBRYO | SLEEPING | RUNNABLE | RUNNING | ZOMBIE

record trapframe =
  tf_edi :: uint
  tf_esi :: uint
  tf_ebp :: uint
  tf_oesp :: uint
  tf_ebx :: uint
  tf_edx :: uint
  tf_ecx :: uint
  tf_eax :: uint
  tf_gs :: ushort
  tf_fs :: ushort
  tf_es :: ushort
  tf_ds :: ushort
  tf_trapno :: uint
  tf_err :: uint
  tf_eip :: uint
  tf_cs :: ushort
  tf_eflags :: uint
  tf_esp :: uint
  tf_ss :: ushort

record proc =
  sz :: uint
  pgdir :: uint
  kstack :: uint
  pstate :: procstate
  pid :: int
  parent :: "nat option"
  tf :: trapframe
  tf_at :: uint
  context_at :: uint
  chan :: "chan option"
  killed :: bool
  ofile :: "nat option list"
  cwd :: "nat option"
  pname :: "uchar list"
  prio :: uint

record proc_state = vm_state +
  ptable :: "proc list"
  initproc :: "nat option"
  nextpid :: int
  sym_trapret :: uint
  sym_forkret :: uint
  forkret_first :: bool

definition upd_proc :: "nat \<Rightarrow> (proc \<Rightarrow> proc) \<Rightarrow> 'z proc_state_scheme \<Rightarrow> 'z proc_state_scheme" where
  "upd_proc i f s = s\<lparr>ptable := (ptable s)[i := f (ptable s ! i)]\<rparr>"

text \<open>\<open>sizeof(struct trapframe)\<close> and \<open>sizeof(struct context)\<close>.\<close>

definition sizeof_tf :: uint where "sizeof_tf = 76"
definition sizeof_context :: uint where "sizeof_context = 20"

section \<open>Allocating a process\<close>

definition pinit :: "('z proc_state_scheme, unit) kM" where
  "pinit = initlock LkPtable ''ptable''"

definition myproc :: "('z proc_state_scheme, nat option) kM" where
  "myproc =
     kthen pushcli (
     kbind mycpu (\<lambda>i.
     kbind (kgets (\<lambda>s. cpu_proc (cpus s ! i))) (\<lambda>p.
     kthen popcli (ret p))))"

text \<open>A clock that never settles keeps the CPU in cmostimess() for ever.\<close>

definition read_clock :: "('z machine_scheme, rtcdate) kM" where
  "read_clock s =
     (case cmostimess (rtc_dev s) (rtc_now s) of
        None \<Rightarrow> Fail NoFuel
      | Some (r, t) \<Rightarrow> Ok r (s\<lparr>rtc_now := t\<rparr>))"

text \<open>The kernel stack of a new process, from the label after the lock to the end of allocproc().\<close>

definition alloc_stack :: "nat \<Rightarrow> ('z proc_state_scheme, nat option) kM" where
  "alloc_stack i =
     kbind kalloc (\<lambda>ks.
     kthen (kmodify (upd_proc i (\<lambda>p. p\<lparr>kstack := ks\<rparr>))) (
     if ks = 0 then
       kthen (kmodify (upd_proc i (\<lambda>p. p\<lparr>pstate := UNUSED\<rparr>))) (ret None)
     else
       (let tfp = ks + KSTACKSIZE - sizeof_tf; rp = tfp - 4; cp = rp - sizeof_context in
        kthen (kmodify (upd_proc i (\<lambda>p. p\<lparr>tf_at := tfp\<rparr>))) (
        kthen (kmodify (\<lambda>s. s\<lparr>mem := store32 (mem s) rp (sym_trapret s)\<rparr>)) (
        kthen (kmodify (upd_proc i (\<lambda>p. p\<lparr>context_at := cp\<rparr>))) (
        kthen (kmodify (\<lambda>s. s\<lparr>mem := memset (mem s) cp 0 sizeof_context\<rparr>)) (
        kthen (kmodify (\<lambda>s. s\<lparr>mem := store32 (mem s) (cp + 16) (sym_forkret s)\<rparr>)) (
        ret (Some i)))))))))"

definition allocproc :: "('z proc_state_scheme, nat option) kM" where
  "allocproc =
     kthen (acquire LkPtable) (
     kbind (kgets (\<lambda>s. find_idx (\<lambda>p. pstate p = UNUSED) (ptable s))) (\<lambda>r.
     case r of
       None \<Rightarrow> kthen (release LkPtable) (ret None)
     | Some i \<Rightarrow>
         kthen (kmodify (upd_proc i (\<lambda>p. p\<lparr>pstate := EMBRYO\<rparr>))) (
         kthen (kmodify (\<lambda>s. upd_proc i (\<lambda>p. p\<lparr>pid := nextpid s\<rparr>) s)) (
         kthen (kmodify (\<lambda>s. s\<lparr>nextpid := nextpid s + 1\<rparr>)) (
         kbind read_clock (\<lambda>d.
         kthen (kmodify (upd_proc i (\<lambda>p. p\<lparr>prio := second d mod 10 + 1\<rparr>))) (
         kthen (release LkPtable) (
         alloc_stack i))))))))"

definition growproc :: "int \<Rightarrow> ('z proc_state_scheme, int) kM" where
  "growproc n =
     kbind myproc (\<lambda>c.
     case c of None \<Rightarrow> kfail (NullPointer ''growproc'')
     | Some i \<Rightarrow>
       kbind (kgets (\<lambda>s. ptable s ! i)) (\<lambda>p.
       let done = (\<lambda>z. kthen (kmodify (upd_proc i (\<lambda>p. p\<lparr>sz := z\<rparr>)))
             (kbind (kgets (\<lambda>s. ptable s ! i)) (\<lambda>q.
              kthen (switchuvm (Some (kstack q, pgdir q))) (ret 0))))
       in if n > 0 then
            kbind (allocuvm (pgdir p) (sz p) (sz p + of_int n)) (\<lambda>z. if z = 0 then ret (-1) else done z)
          else if n < 0 then
            kbind (deallocuvm (pgdir p) (sz p) (sz p + of_int n)) (\<lambda>z. if z = 0 then ret (-1) else done z)
          else done (sz p)))"

section \<open>Context switches, sleeping and waking\<close>

definition sched :: "('z proc_state_scheme, unit) kM" where
  "sched =
     kbind myproc (\<lambda>p.
     kbind (holding LkPtable) (\<lambda>h.
     if \<not> h then kfail (Panic ''sched ptable.lock'')
     else kbind mycpu (\<lambda>c.
     kbind (kgets (\<lambda>s. ncli (cpus s ! c))) (\<lambda>n.
     if n \<noteq> 1 then kfail (Panic ''sched locks'')
     else case p of None \<Rightarrow> kfail (NullPointer ''sched'')
     | Some i \<Rightarrow>
       kbind (kgets (\<lambda>s. pstate (ptable s ! i))) (\<lambda>st.
       if st = RUNNING then kfail (Panic ''sched running'')
       else kbind readeflags (\<lambda>fl.
       if fl then kfail (Panic ''sched interruptible'')
       else kbind (kgets (\<lambda>s. intena (cpus s ! c))) (\<lambda>ie.
         kthen kswitch (
         kbind mycpu (\<lambda>c'. kmodify (upd_cpu c' (\<lambda>q. q\<lparr>intena := ie\<rparr>)))))))))))"

definition yield :: "('z proc_state_scheme, unit) kM" where
  "yield =
     kthen (acquire LkPtable) (
     kbind myproc (\<lambda>p.
     case p of None \<Rightarrow> kfail (NullPointer ''yield'')
     | Some i \<Rightarrow>
       kthen (kmodify (upd_proc i (\<lambda>q. q\<lparr>pstate := RUNNABLE\<rparr>))) (
       kthen sched (
       release LkPtable))))"

text \<open>What sleep() does before it calls sched(), statement by statement.\<close>

definition sleep_steps :: "nat \<Rightarrow> chan \<Rightarrow> lockid \<Rightarrow> ('z proc_state_scheme, unit) kM list" where
  "sleep_steps i ch l =
     (if l \<noteq> LkPtable then [acquire LkPtable, release l] else []) @
     [kmodify (upd_proc i (\<lambda>q. q\<lparr>chan := Some ch\<rparr>)),
      kmodify (upd_proc i (\<lambda>q. q\<lparr>pstate := SLEEPING\<rparr>))]"

definition sleep :: "chan \<Rightarrow> lockid option \<Rightarrow> ('z proc_state_scheme, unit) kM" where
  "sleep ch lk =
     kbind myproc (\<lambda>p.
     case p of None \<Rightarrow> kfail (Panic ''sleep'')
     | Some i \<Rightarrow>
       (case lk of None \<Rightarrow> kfail (Panic ''sleep without lk'')
        | Some l \<Rightarrow>
          kthen (kfor (sleep_steps i ch l) (\<lambda>m. m)) (
          kthen sched (
          kthen (kmodify (upd_proc i (\<lambda>q. q\<lparr>chan := None\<rparr>))) (
          kwhen (l \<noteq> LkPtable) (kthen (release LkPtable) (acquire l)))))))"

definition wake_proc :: "chan option \<Rightarrow> proc \<Rightarrow> proc" where
  "wake_proc ch p = (if pstate p = SLEEPING \<and> chan p = ch then p\<lparr>pstate := RUNNABLE\<rparr> else p)"

definition wakeup1 :: "chan option \<Rightarrow> ('z proc_state_scheme, unit) kM" where
  "wakeup1 ch = kmodify (\<lambda>s. s\<lparr>ptable := map (wake_proc ch) (ptable s)\<rparr>)"

definition wakeup :: "chan \<Rightarrow> ('z proc_state_scheme, unit) kM" where
  "wakeup ch = kthen (acquire LkPtable) (kthen (wakeup1 (Some ch)) (release LkPtable))"

section \<open>Waiting, killing, priorities\<close>

text \<open>One pass of wait() over the table: reap the first zombie child, fail, or sleep and rescan.\<close>

definition reap :: "nat \<Rightarrow> ('z proc_state_scheme, int) kM" where
  "reap k =
     kbind (kgets (\<lambda>s. ptable s ! k)) (\<lambda>p.
     kthen (kfree (kstack p)) (
     kthen (kmodify (upd_proc k (\<lambda>q. q\<lparr>kstack := 0\<rparr>))) (
     kthen (freevm (pgdir p)) (
     kthen (kmodify (upd_proc k (\<lambda>q. q\<lparr>pid := 0, parent := None, pname := (pname q)[0 := 0],
       killed := False, pstate := UNUSED, prio := 0\<rparr>))) (
     kthen (release LkPtable) (
     ret (pid p)))))))"

primrec wait_loop :: "nat \<Rightarrow> nat \<Rightarrow> ('z proc_state_scheme, int) kM" where
  "wait_loop 0 cur = kfail NoFuel"
| "wait_loop (Suc n) cur =
     kbind (kgets (\<lambda>s. find_idx (\<lambda>p. parent p = Some cur \<and> pstate p = ZOMBIE) (ptable s))) (\<lambda>z.
     case z of
       Some k \<Rightarrow> reap k
     | None \<Rightarrow>
       kbind (kgets (\<lambda>s. list_ex (\<lambda>p. parent p = Some cur) (ptable s))) (\<lambda>havekids.
       kbind (kgets (\<lambda>s. killed (ptable s ! cur))) (\<lambda>kd.
       if \<not> havekids \<or> kd then kthen (release LkPtable) (ret (-1))
       else kthen (sleep (ChProc cur) (Some LkPtable)) (wait_loop n cur))))"

text \<open>\<open>wait n\<close> follows at most \<open>n\<close> passes, that is \<open>n - 1\<close> wake-ups.\<close>

definition wait :: "nat \<Rightarrow> ('z proc_state_scheme, int) kM" where
  "wait n =
     kbind myproc (\<lambda>c.
     case c of None \<Rightarrow> kfail (NullPointer ''wait'')
     | Some cur \<Rightarrow> kthen (acquire LkPtable) (wait_loop n cur))"

definition kill :: "int \<Rightarrow> ('z proc_state_scheme, int) kM" where
  "kill pd =
     kthen (acquire LkPtable) (
     kbind (kgets (\<lambda>s. find_idx (\<lambda>p. pid p = pd) (ptable s))) (\<lambda>r.
     case r of
       Some i \<Rightarrow>
         kthen (kmodify (upd_proc i (\<lambda>p. p\<lparr>killed := True\<rparr>))) (
         kthen (kmodify (upd_proc i (\<lambda>p. if pstate p = SLEEPING then p\<lparr>pstate := RUNNABLE\<rparr> else p))) (
         kthen (release LkPtable) (ret 0)))
     | None \<Rightarrow> kthen (release LkPtable) (ret (-1))))"

definition gp :: "int \<Rightarrow> ('z proc_state_scheme, int) kM" where
  "gp pd =
     kthen (acquire LkPtable) (
     kbind (kgets (\<lambda>s. find_idx (\<lambda>p. pid p = pd) (ptable s))) (\<lambda>r.
     case r of
       Some i \<Rightarrow>
         kbind (kgets (\<lambda>s. sint (prio (ptable s ! i)))) (\<lambda>v.
         kthen (release LkPtable) (ret v))
     | None \<Rightarrow> kthen (release LkPtable) (ret (-1))))"

definition sp :: "int \<Rightarrow> int \<Rightarrow> ('z proc_state_scheme, int) kM" where
  "sp pd pr =
     kthen (acquire LkPtable) (
     kbind (kgets (\<lambda>s. find_idx (\<lambda>p. pid p = pd) (ptable s))) (\<lambda>r.
     case r of
       Some i \<Rightarrow>
         kthen (kmodify (upd_proc i (\<lambda>p. p\<lparr>prio := of_int pr\<rparr>))) (
         kthen (release LkPtable) (
         kthen yield (ret 0)))
     | None \<Rightarrow> kthen (release LkPtable) (ret (-1))))"

text \<open>
  The lines procdump() prints, without the lock: pid, state name, process name, and for a sleeping
  process the call stack of the context in \<open>p->context\<close>, up to the first zero. The model keeps there the
  context allocproc() built; the one swtch() saves later lies on the kernel stack.
\<close>

fun state_name :: "procstate \<Rightarrow> string" where
  "state_name UNUSED = ''unused''"
| "state_name EMBRYO = ''embryo''"
| "state_name SLEEPING = ''sleep ''"
| "state_name RUNNABLE = ''runble''"
| "state_name RUNNING = ''run   ''"
| "state_name ZOMBIE = ''zombie''"

definition procdump :: "'z proc_state_scheme \<Rightarrow> (int \<times> string \<times> uchar list \<times> uint list) list" where
  "procdump s =
     map (\<lambda>p. (pid p, state_name (pstate p), pname p,
       if pstate p = SLEEPING
       then takeWhile (\<lambda>a. a \<noteq> 0) (getcallerpcs (mem s) (load32 (mem s) (context_at p + 12) + 8))
       else []))
     (filter (\<lambda>p. pstate p \<noteq> UNUSED) (ptable s))"

section \<open>Frames\<close>

lemma ptable_frame [simp]:
  "ptable (enter l s) = ptable s" "ptable (leave l s) = ptable s" "ptable (touched s) = ptable s"
  "enter l (ptable_update f s) = ptable_update f (enter l s)" "leave l (ptable_update f s) = ptable_update f (leave l s)" "touched (ptable_update f s) = ptable_update f (touched s)"
  "cpu_at (ptable_update f s) = cpu_at s" "me (ptable_update f s) = me s" "depth (ptable_update f s) = depth s"
  "cur_IF (ptable_update f s) = cur_IF s" "cpu_ok (ptable_update f s) = cpu_ok s" "lock_free (ptable_update f s) l = lock_free s l"
  "lock_mine (ptable_update f s) l = lock_mine s l"
  by (auto simp: frame_defs intro!: machine.equality)

lemma initproc_frame [simp]:
  "initproc (enter l s) = initproc s" "initproc (leave l s) = initproc s" "initproc (touched s) = initproc s"
  "enter l (initproc_update f s) = initproc_update f (enter l s)" "leave l (initproc_update f s) = initproc_update f (leave l s)" "touched (initproc_update f s) = initproc_update f (touched s)"
  "cpu_at (initproc_update f s) = cpu_at s" "me (initproc_update f s) = me s" "depth (initproc_update f s) = depth s"
  "cur_IF (initproc_update f s) = cur_IF s" "cpu_ok (initproc_update f s) = cpu_ok s" "lock_free (initproc_update f s) l = lock_free s l"
  "lock_mine (initproc_update f s) l = lock_mine s l"
  by (auto simp: frame_defs intro!: machine.equality)

lemma nextpid_frame [simp]:
  "nextpid (enter l s) = nextpid s" "nextpid (leave l s) = nextpid s" "nextpid (touched s) = nextpid s"
  "enter l (nextpid_update f s) = nextpid_update f (enter l s)" "leave l (nextpid_update f s) = nextpid_update f (leave l s)" "touched (nextpid_update f s) = nextpid_update f (touched s)"
  "cpu_at (nextpid_update f s) = cpu_at s" "me (nextpid_update f s) = me s" "depth (nextpid_update f s) = depth s"
  "cur_IF (nextpid_update f s) = cur_IF s" "cpu_ok (nextpid_update f s) = cpu_ok s" "lock_free (nextpid_update f s) l = lock_free s l"
  "lock_mine (nextpid_update f s) l = lock_mine s l"
  by (auto simp: frame_defs intro!: machine.equality)

lemma sym_trapret_frame [simp]:
  "sym_trapret (enter l s) = sym_trapret s" "sym_trapret (leave l s) = sym_trapret s" "sym_trapret (touched s) = sym_trapret s"
  "enter l (sym_trapret_update f s) = sym_trapret_update f (enter l s)" "leave l (sym_trapret_update f s) = sym_trapret_update f (leave l s)" "touched (sym_trapret_update f s) = sym_trapret_update f (touched s)"
  "cpu_at (sym_trapret_update f s) = cpu_at s" "me (sym_trapret_update f s) = me s" "depth (sym_trapret_update f s) = depth s"
  "cur_IF (sym_trapret_update f s) = cur_IF s" "cpu_ok (sym_trapret_update f s) = cpu_ok s" "lock_free (sym_trapret_update f s) l = lock_free s l"
  "lock_mine (sym_trapret_update f s) l = lock_mine s l"
  by (auto simp: frame_defs intro!: machine.equality)

lemma sym_forkret_frame [simp]:
  "sym_forkret (enter l s) = sym_forkret s" "sym_forkret (leave l s) = sym_forkret s" "sym_forkret (touched s) = sym_forkret s"
  "enter l (sym_forkret_update f s) = sym_forkret_update f (enter l s)" "leave l (sym_forkret_update f s) = sym_forkret_update f (leave l s)" "touched (sym_forkret_update f s) = sym_forkret_update f (touched s)"
  "cpu_at (sym_forkret_update f s) = cpu_at s" "me (sym_forkret_update f s) = me s" "depth (sym_forkret_update f s) = depth s"
  "cur_IF (sym_forkret_update f s) = cur_IF s" "cpu_ok (sym_forkret_update f s) = cpu_ok s" "lock_free (sym_forkret_update f s) l = lock_free s l"
  "lock_mine (sym_forkret_update f s) l = lock_mine s l"
  by (auto simp: frame_defs intro!: machine.equality)

lemma forkret_first_frame [simp]:
  "forkret_first (enter l s) = forkret_first s" "forkret_first (leave l s) = forkret_first s" "forkret_first (touched s) = forkret_first s"
  "enter l (forkret_first_update f s) = forkret_first_update f (enter l s)" "leave l (forkret_first_update f s) = forkret_first_update f (leave l s)" "touched (forkret_first_update f s) = forkret_first_update f (touched s)"
  "cpu_at (forkret_first_update f s) = cpu_at s" "me (forkret_first_update f s) = me s" "depth (forkret_first_update f s) = depth s"
  "cur_IF (forkret_first_update f s) = cur_IF s" "cpu_ok (forkret_first_update f s) = cpu_ok s" "lock_free (forkret_first_update f s) l = lock_free s l"
  "lock_mine (forkret_first_update f s) l = lock_mine s l"
  by (auto simp: frame_defs intro!: machine.equality)

section \<open>The current process and its context switches in closed form\<close>

definition cur_proc :: "'z machine_scheme \<Rightarrow> nat option" where
  "cur_proc s = cpu_proc (cpus s ! me s)"

definition set_intena :: "bool \<Rightarrow> 'z machine_scheme \<Rightarrow> 'z machine_scheme" where
  "set_intena b s = upd_cpu (me s) (\<lambda>q. q\<lparr>intena := b\<rparr>) s"

text \<open>
  What a thread finds when it is switched to: the scheduler, on some CPU, has made it the current
  process of that CPU and holds ptable.lock, and no other lock, on its behalf.
\<close>

definition resumed :: "nat \<Rightarrow> 'z proc_state_scheme \<Rightarrow> bool" where
  "resumed i s \<longleftrightarrow> cpu_ok s \<and> depth s = 1 \<and> lock_mine s LkPtable \<and> cur_proc s = Some i \<and>
     i < length (ptable s)"

lemmas nth_cpu_same_field = nth_update_same_field [where g = cpu_proc] nth_update_same_field [where g = ncli]

lemma cur_proc_crit [simp]:
  "cur_proc (enter l s) = cur_proc s" "cur_proc (leave l s) = cur_proc s" "cur_proc (touched s) = cur_proc s"
  by (simp_all add: cur_proc_def) (simp_all add: enter_def leave_def touched_def taken_def dropped_def
    pushed_def popped_def upd_cpu_def nth_cpu_same_field)

lemma cur_proc_frame [simp]:
  "cur_proc (mem_update f s) = cur_proc s" "cur_proc (ticks_update g s) = cur_proc s"
  "cur_proc (rtc_now_update h s) = cur_proc s"
  "cur_proc (cr3_update k s) = cur_proc s" "cur_proc (tr_update e s) = cur_proc s"
  by (simp_all add: cur_proc_def)

lemma cur_proc_frame_kmem [simp]:
  "cur_proc (freelist_update g t) = cur_proc t"
  "cur_proc (use_lock_update h t) = cur_proc t"
  by (simp_all add: cur_proc_def)

lemma cur_proc_frame_proc [simp]:
  "cur_proc (ptable_update g t) = cur_proc t" "cur_proc (nextpid_update h t) = cur_proc t"
  "cur_proc (initproc_update k t) = cur_proc t" "cur_proc (forkret_first_update e t) = cur_proc t"
  by (simp_all add: cur_proc_def)

lemma upd_proc_frame [simp]:
  "enter l (upd_proc i f s) = upd_proc i f (enter l s)"
  "leave l (upd_proc i f s) = upd_proc i f (leave l s)"
  "touched (upd_proc i f s) = upd_proc i f (touched s)"
  "cpu_at (upd_proc i f s) = cpu_at s" "me (upd_proc i f s) = me s" "depth (upd_proc i f s) = depth s"
  "cur_IF (upd_proc i f s) = cur_IF s" "cpu_ok (upd_proc i f s) = cpu_ok s"
  "lock_free (upd_proc i f s) l = lock_free s l" "lock_mine (upd_proc i f s) l = lock_mine s l"
  "cur_proc (upd_proc i f s) = cur_proc s" "mem (upd_proc i f s) = mem s" "cpus (upd_proc i f s) = cpus s"
  by (simp_all add: upd_proc_def)

lemma user_space_proc [simp]:
  "cur_proc (user_space ks pd s) = cur_proc s"
  by (simp add: cur_proc_def) (simp add: user_space_def upd_cpu_def nth_cpu_same_field)

lemma ptable_user_space [simp]: "ptable (user_space ks pd s) = ptable s"
  by (simp add: user_space_def upd_cpu_def)

lemma ptable_upd_proc: "ptable (upd_proc i f s) = (ptable s)[i := f (ptable s ! i)]"
  by (simp add: upd_proc_def)

lemma length_ptable_upd_proc [simp]: "length (ptable (upd_proc i f s)) = length (ptable s)"
  by (simp add: upd_proc_def)

lemma nth_ptable_upd_proc [simp]:
  "i < length (ptable s) \<Longrightarrow> ptable (upd_proc i f s) ! i = f (ptable s ! i)"
  "j \<noteq> i \<Longrightarrow> ptable (upd_proc i f s) ! j = ptable s ! j"
  by (simp_all add: upd_proc_def)

lemma upd_proc_twice: "upd_proc i g (upd_proc i f s) = upd_proc i (\<lambda>p. g (f p)) s"
  by (cases "i < length (ptable s)") (simp_all add: upd_proc_def list_update_beyond)

lemma myproc_run:
  assumes "cpu_ok s"
  shows "myproc s = Ok (cur_proc s) (touched s)"
proof -
  from assms have at: "cpu_at s \<noteq> None" by (simp add: cpu_ok_def)
  then obtain i where i: "cpu_at (pushed s) = Some i" "me s = i" by (auto simp: me_def)
  have "mycpu (pushed s) = Ok i (pushed s)" using i by (simp add: mycpu_run)
  moreover have "popcli (pushed s) = Ok () (touched s)"
    using assms at by (subst popcli_ok) (auto simp: cpu_ok_def popped_pushed)
  moreover have "cpu_proc (cpus (pushed s) ! i) = cpu_proc (cpus s ! i)"
    by (simp add: pushed_def nth_cpu_same_field)
  ultimately show ?thesis
    using i by (simp add: myproc_def pushcli_ok [OF at] kthen_Ok kbind_Ok cur_proc_def)
qed

lemma mycpu_ok [simp]: "cpu_ok s \<Longrightarrow> 0 < depth s \<Longrightarrow> mycpu s = Ok (me s) s"
  by (auto simp: mycpu_run cpu_ok_def me_def)

lemma sched_run:
  assumes "cpu_ok s" and "depth s = 1" and "lock_mine s LkPtable" and "cur_proc s = Some i"
    and "pstate (ptable s ! i) \<noteq> RUNNING"
  shows "sched s = Switch s (kbind mycpu (\<lambda>c. kmodify (upd_cpu c (\<lambda>q. q\<lparr>intena := intena (cpus s ! me s)\<rparr>))))"
proof -
  have "\<not> cur_IF s" using assms(1,2) by (simp add: cpu_ok_def)
  then have fl: "readeflags s = Ok False s" by (simp add: readeflags_def cur_IF_def)
  have n: "ncli (cpus s ! me s) = 1" using assms(2) by (simp add: depth_def)
  have "myproc s = Ok (Some i) s" "holding LkPtable s = Ok True s" "mycpu s = Ok (me s) s"
    using assms by (simp_all add: myproc_run holding_run)
  with fl n assms(5) show ?thesis
    by (simp add: sched_def kbind_Ok) (simp add: kthen_def kbind_def kswitch_def fun_eq_iff)
qed

lemma sched_resume:
  assumes "resumed i t"
  shows "kbind mycpu (\<lambda>c. kmodify (upd_cpu c (\<lambda>q. q\<lparr>intena := b\<rparr>))) t = Ok () (set_intena b t)"
proof -
  from assms have "cpu_ok t" "0 < depth t" by (simp_all add: resumed_def)
  then show ?thesis by (simp add: kbind_Ok set_intena_def)
qed

lemma set_intena_simps [simp]:
  "mem (set_intena b s) = mem s" "locks (set_intena b s) = locks s"
  "lapic_id (set_intena b s) = lapic_id s" "eflags_IF (set_intena b s) = eflags_IF s"
  by (simp_all add: set_intena_def upd_cpu_def)

lemma ptable_set_intena [simp]: "ptable (set_intena b s) = ptable s"
  by (simp add: set_intena_def upd_cpu_def)

lemma set_intena_state [simp]:
  "cpu_at (set_intena b s) = cpu_at s" "me (set_intena b s) = me s" "depth (set_intena b s) = depth s"
  "cur_IF (set_intena b s) = cur_IF s" "cpu_ok (set_intena b s) = cpu_ok s"
  "lock_free (set_intena b s) l = lock_free s l" "lock_mine (set_intena b s) l = lock_mine s l"
  "cur_proc (set_intena b s) = cur_proc s"
proof -
  have a: "cpu_at (set_intena b s) = cpu_at s"
    by (simp add: cpu_at_apicids) (simp add: set_intena_def upd_cpu_def)
  then have m: "me (set_intena b s) = me s" by (simp add: me_def)
  have d: "depth (set_intena b s) = depth s"
    by (simp only: depth_def m) (simp add: set_intena_def upd_cpu_def nth_cpu_same_field)
  have i: "cur_IF (set_intena b s) = cur_IF s" by (simp add: cur_IF_def)
  have "cur_proc (set_intena b s) = cur_proc s"
    by (simp only: cur_proc_def m) (simp add: set_intena_def upd_cpu_def nth_cpu_same_field)
  with a m d i show
    "cpu_at (set_intena b s) = cpu_at s" "me (set_intena b s) = me s" "depth (set_intena b s) = depth s"
    "cur_IF (set_intena b s) = cur_IF s" "cpu_ok (set_intena b s) = cpu_ok s"
    "lock_free (set_intena b s) l = lock_free s l" "lock_mine (set_intena b s) l = lock_mine s l"
    "cur_proc (set_intena b s) = cur_proc s"
    by (simp_all add: cpu_ok_def lock_free_def lock_mine_def)
qed

lemma intena_set_intena [simp]:
  "cpu_at s \<noteq> None \<Longrightarrow> intena (cpus (set_intena b s) ! me s) = b"
  using me_less [of s] by (simp add: set_intena_def upd_cpu_def)

text \<open>What the scheduler finds when a thread switches back to it.\<close>

definition handed_back :: "'z proc_state_scheme \<Rightarrow> bool" where
  "handed_back s \<longleftrightarrow> cpu_ok s \<and> depth s = 1 \<and> lock_mine s LkPtable"

section \<open>Giving up the CPU, sleeping and waking\<close>

lemma yield_run:
  assumes "cpu_ok s" and "depth s = 0" and "lock_free s LkPtable" and "cur_proc s = Some i"
    and "i < length (ptable s)"
  obtains k where "yield s = Switch (upd_proc i (\<lambda>q. q\<lparr>pstate := RUNNABLE\<rparr>) (enter LkPtable s)) k"
    and "\<And>t. resumed i t \<Longrightarrow> k t = Ok () (leave LkPtable (set_intena (cur_IF s) t))"
proof -
  let ?u = "upd_proc i (\<lambda>q. q\<lparr>pstate := RUNNABLE\<rparr>) (enter LkPtable s)"
  have m: "me s < length (cpus s)" using assms(1) by (auto simp: cpu_ok_def intro: me_less)
  then have "intena (cpus ?u ! me ?u) = cur_IF s"
    using assms(2) by simp (simp add: enter_def taken_def pushed_def)
  then have s: "sched ?u = Switch ?u (kbind mycpu (\<lambda>c. kmodify (upd_cpu c (\<lambda>q. q\<lparr>intena := cur_IF s\<rparr>))))"
    using sched_run [of ?u i] assms by simp
  have "myproc (enter LkPtable s) = Ok (Some i) (enter LkPtable s)"
    using assms by (simp add: myproc_run)
  with assms s have y: "yield s = Switch ?u
      (\<lambda>t. kres_bind (kbind mycpu (\<lambda>c. kmodify (upd_cpu c (\<lambda>q. q\<lparr>intena := cur_IF s\<rparr>))) t) (\<lambda>_. release LkPtable))"
    by (simp add: yield_def kthen_Ok kbind_Ok kthen_Switch del: upd_proc_frame)
  show thesis
  proof (rule that [OF y])
    fix t assume r: "resumed i t"
    then have "release LkPtable (set_intena (cur_IF s) t) = Ok () (leave LkPtable (set_intena (cur_IF s) t))"
      by (intro release_ok) (simp_all add: resumed_def)
    with sched_resume [OF r] show "kres_bind (kbind mycpu (\<lambda>c. kmodify (upd_cpu c (\<lambda>q. q\<lparr>intena := cur_IF s\<rparr>))) t) (\<lambda>_. release LkPtable) =
         Ok () (leave LkPtable (set_intena (cur_IF s) t))" by simp
  qed
qed

lemma sleep_steps_run:
  assumes "cpu_ok s" and "depth s = 0" and "lock_free s LkPtable" and "lock_free s l" and "l \<noteq> LkPtable"
  shows "kfor (sleep_steps i ch l) (\<lambda>m. m) (enter l s) =
    Ok () (upd_proc i (\<lambda>q. q\<lparr>chan := Some ch, pstate := SLEEPING\<rparr>) (enter LkPtable s))"
  using assms by (simp add: sleep_steps_def kthen_Ok upd_proc_twice del: upd_proc_frame)

lemma sleep_run:
  assumes "cpu_ok s" and "depth s = 0" and "lock_free s LkPtable" and "lock_free s l" and "cur_proc s = Some i"
    and "i < length (ptable s)" and "l \<noteq> LkPtable"
  obtains k where "sleep ch (Some l) (enter l s) =
      Switch (upd_proc i (\<lambda>q. q\<lparr>chan := Some ch, pstate := SLEEPING\<rparr>) (enter LkPtable s)) k"
    and "\<And>t. resumed i t \<Longrightarrow> lock_free t l \<Longrightarrow>
      k t = Ok () (enter l (leave LkPtable (upd_proc i (\<lambda>q. q\<lparr>chan := None\<rparr>) (set_intena (cur_IF s) t))))"
proof -
  let ?u = "upd_proc i (\<lambda>q. q\<lparr>chan := Some ch, pstate := SLEEPING\<rparr>) (enter LkPtable s)"
  have m: "me s < length (cpus s)" using assms(1) by (auto simp: cpu_ok_def intro: me_less)
  then have "intena (cpus ?u ! me ?u) = cur_IF s"
    using assms(2) by simp (simp add: enter_def taken_def pushed_def)
  then have s: "sched ?u = Switch ?u (kbind mycpu (\<lambda>c. kmodify (upd_cpu c (\<lambda>q. q\<lparr>intena := cur_IF s\<rparr>))))"
    using sched_run [of ?u i] assms by simp
  have "myproc (enter l s) = Ok (Some i) (enter l s)"
    using assms by (simp add: myproc_run)
  moreover have "kfor (sleep_steps i ch l) (\<lambda>m. m) (enter l s) = Ok () ?u"
    by (rule sleep_steps_run [OF assms(1-4,7)])
  ultimately have y: "sleep ch (Some l) (enter l s) = Switch ?u
      (\<lambda>t. kres_bind (kbind mycpu (\<lambda>c. kmodify (upd_cpu c (\<lambda>q. q\<lparr>intena := cur_IF s\<rparr>))) t) (\<lambda>_.
        kthen (kmodify (upd_proc i (\<lambda>q. q\<lparr>chan := None\<rparr>))) (kthen (release LkPtable) (acquire l))))"
    using assms(7) s by (simp add: sleep_def kthen_Ok kbind_Ok kthen_Switch upd_proc_twice del: upd_proc_frame)
  show thesis
  proof (rule that [OF y])
    fix t assume r: "resumed i t" and l: "lock_free t l"
    let ?t = "upd_proc i (\<lambda>q. q\<lparr>chan := None\<rparr>) (set_intena (cur_IF s) t)"
    have "release LkPtable ?t = Ok () (leave LkPtable ?t)"
      using r by (intro release_ok) (simp_all add: resumed_def)
    moreover have "acquire l (leave LkPtable ?t) = Ok () (enter l (leave LkPtable ?t))"
      using r l by (intro acquire_ok) (simp_all add: resumed_def)
    ultimately show "kres_bind (kbind mycpu (\<lambda>c. kmodify (upd_cpu c (\<lambda>q. q\<lparr>intena := cur_IF s\<rparr>))) t) (\<lambda>_.
        kthen (kmodify (upd_proc i (\<lambda>q. q\<lparr>chan := None\<rparr>))) (kthen (release LkPtable) (acquire l))) =
       Ok () (enter l (leave LkPtable ?t))"
      using sched_resume [OF r] by (simp add: kthen_Ok)
  qed
qed

lemma wakeup_run:
  assumes "cpu_ok s" and "lock_free s LkPtable"
  shows "wakeup ch s = Ok () ((touched s)\<lparr>ptable := map (wake_proc (Some ch)) (ptable s)\<rparr>)"
  using assms by (simp add: wakeup_def wakeup1_def kthen_Ok)

lemma settled_proc [simp]:
  "ptable (settled s) = ptable s" "nextpid (settled s) = nextpid s" "sym_trapret (settled s) = sym_trapret s"
  "sym_forkret (settled s) = sym_forkret s" "initproc (settled s) = initproc s"
  by (simp_all add: settled_def)

lemma kmem_ready_proc [simp]:
  "kmem_ready (upd_proc i f s) = kmem_ready s" "kmem_ready (rtc_now_update h s) = kmem_ready s"
  "kmem_ready (nextpid_update g s) = kmem_ready s" "kmem_ready (ptable_update k s) = kmem_ready s"
  by (simp_all add: kmem_ready_def upd_proc_def)

lemma upd_proc_other [simp]:
  "freelist (upd_proc i f s) = freelist s" "rtc_dev (upd_proc i f s) = rtc_dev s"
  "rtc_now (upd_proc i f s) = rtc_now s" "nextpid (upd_proc i f s) = nextpid s"
  "sym_trapret (upd_proc i f s) = sym_trapret s" "sym_forkret (upd_proc i f s) = sym_forkret s"
  by (simp_all add: upd_proc_def)

lemma settled_upd_proc [simp]:
  "settled (upd_proc i f s) = upd_proc i f (settled s)" "settled (rtc_now_update h s) = rtc_now_update h (settled s)"
  "settled (nextpid_update g s) = nextpid_update g (settled s)" "settled (touched s) = touched (settled s)"
  by (simp_all add: settled_def upd_proc_def)

lemma allocproc_none:
  assumes "cpu_ok s" and "lock_free s LkPtable" and "\<forall>p \<in> set (ptable s). pstate p \<noteq> UNUSED"
  shows "allocproc s = Ok None (touched s)"
  using assms by (simp add: allocproc_def kthen_Ok find_idx_None [THEN iffD2])

lemma alloc_stack_run:
  assumes "kmem_ready s" and "i < length (ptable s)" and "freelist s + KSTACKSIZE - sizeof_tf = cp + 24"
  shows "freelist s = 0 \<Longrightarrow> \<exists>t. alloc_stack i s = Ok None t \<and> nextpid t = nextpid s \<and>
      ptable t = (ptable s)[i := (ptable s ! i)\<lparr>kstack := 0, pstate := UNUSED\<rparr>]"
    and "freelist s \<noteq> 0 \<Longrightarrow> \<exists>t. alloc_stack i s = Ok (Some i) t \<and> nextpid t = nextpid s \<and>
      ptable t = (ptable s)[i := (ptable s ! i)\<lparr>kstack := freelist s, tf_at := cp + 24, context_at := cp\<rparr>] \<and>
      mem t = store32 (memset (store32 (mem s) (cp + 20) (sym_trapret s)) cp 0 20) (cp + 16) (sym_forkret s)"
  using assms(2)
  by (simp_all add: alloc_stack_def kbind_Ok [of kalloc, OF kalloc_run [OF assms(1)]] upd_proc_def
    sizeof_context_def Let_def assms(3) add.commute [of cp])

lemma allocproc_slot:
  assumes "kmem_ready s" and "lock_free s LkPtable" and "cmostimess (rtc_dev s) (rtc_now s) = Some (d, t')"
    and "find_idx (\<lambda>p. pstate p = UNUSED) (ptable s) = Some i"
  shows "\<exists>u. allocproc s = alloc_stack i u \<and> kmem_ready u \<and> nextpid u = nextpid s + 1 \<and> freelist u = freelist s \<and>
    ptable u = (ptable s)[i := (ptable s ! i)\<lparr>pstate := EMBRYO, pid := nextpid s, prio := second d mod 10 + 1\<rparr>] \<and>
    mem u = mem s \<and> sym_trapret u = sym_trapret s \<and> sym_forkret u = sym_forkret s"
proof -
  have i: "i < length (ptable s)" using find_idx_SomeD(1) [OF assms(4)] .
  have ok: "cpu_ok s" using assms(1) by (simp add: kmem_ready_def)
  have a: "acquire LkPtable s = Ok () (enter LkPtable s)" using ok assms(2) by simp
  let ?s1 = "nextpid_update (\<lambda>_. nextpid s + 1) (upd_proc i (\<lambda>p. p\<lparr>pstate := EMBRYO, pid := nextpid s\<rparr>) (enter LkPtable s))"
  let ?s2 = "upd_proc i (\<lambda>p. p\<lparr>prio := second d mod 10 + 1\<rparr>) (?s1\<lparr>rtc_now := t'\<rparr>)"
  have c: "read_clock ?s1 = Ok d (?s1\<lparr>rtc_now := t'\<rparr>)"
    by (simp add: read_clock_def assms(3))
  have r: "release LkPtable ?s2 = Ok () (leave LkPtable ?s2)"
    using ok assms(2) by (intro release_ok) simp_all
  let ?s3 = "leave LkPtable ?s2"
  have np: "nextpid (enter LkPtable s) = nextpid s" by simp
  have "allocproc s = alloc_stack i ?s3"
    by (simp add: np allocproc_def kthen_Ok [of "acquire LkPtable", OF a] upd_proc_twice assms(4)
      kbind_Ok [of read_clock, OF c] kthen_Ok [of "release LkPtable", OF r] del: upd_proc_frame nextpid_frame)
  moreover have "kmem_ready ?s3" using assms(1,2) ok by simp
  moreover have "ptable ?s3 = (ptable s)[i := (ptable s ! i)\<lparr>pstate := EMBRYO, pid := nextpid s, prio := second d mod 10 + 1\<rparr>]"
    using i by (simp add: ptable_upd_proc)
  ultimately show ?thesis by (intro exI [of _ ?s3]) (simp add: ok assms(2))
qed

lemma pid_scan_run:
  assumes "cpu_ok s" and "lock_free s LkPtable"
  shows "kill pd s =
      (case find_idx (\<lambda>p. pid p = pd) (ptable s) of
         None \<Rightarrow> Ok (-1) (touched s)
       | Some i \<Rightarrow> Ok 0 (upd_proc i (\<lambda>p. p\<lparr>killed := True, pstate := (if pstate p = SLEEPING then RUNNABLE else pstate p)\<rparr>) (touched s)))"
    and "gp pd s =
      (case find_idx (\<lambda>p. pid p = pd) (ptable s) of
         None \<Rightarrow> Ok (-1) (touched s)
       | Some i \<Rightarrow> Ok (sint (prio (ptable s ! i))) (touched s))"
    and "sp pd pr s =
      (case find_idx (\<lambda>p. pid p = pd) (ptable s) of
         None \<Rightarrow> Ok (-1) (touched s)
       | Some i \<Rightarrow> kthen yield (ret 0) (upd_proc i (\<lambda>p. p\<lparr>prio := of_int pr\<rparr>) (touched s)))"
proof -
  have same: "p\<lparr>killed := True, pstate := pstate p\<rparr> = p\<lparr>killed := True\<rparr>" for p :: proc by simp
  then have k: "(\<lambda>p. if pstate p = SLEEPING then p\<lparr>killed := True, pstate := RUNNABLE\<rparr> else p\<lparr>killed := True\<rparr>) =
      (\<lambda>p :: proc. p\<lparr>killed := True, pstate := (if pstate p = SLEEPING then RUNNABLE else pstate p)\<rparr>)"
    by (auto simp: fun_eq_iff)
  show "kill pd s =
      (case find_idx (\<lambda>p. pid p = pd) (ptable s) of
         None \<Rightarrow> Ok (-1) (touched s)
       | Some i \<Rightarrow> Ok 0 (upd_proc i (\<lambda>p. p\<lparr>killed := True, pstate := (if pstate p = SLEEPING then RUNNABLE else pstate p)\<rparr>) (touched s)))"
    using assms by (simp add: kill_def kthen_Ok upd_proc_twice k split: option.split)
qed (use assms in \<open>simp_all add: gp_def sp_def kthen_Ok split: option.split\<close>)

section \<open>Properties of the process table\<close>

text \<open>
  Between any two statements of sleep() another CPU that takes \<open>l\<close> and then calls wakeup(ch) is
  held up by one of the two locks.
\<close>

lemma sleep_steps_locked:
  fixes s :: "'z proc_state_scheme"
  assumes "cpu_ok s" and "depth s = 0" and "lock_free s LkPtable" and "lock_free s l" and "l \<noteq> LkPtable"
    and "n \<le> length (sleep_steps i ch l :: ('z proc_state_scheme, unit) kM list)"
  shows "\<exists>t. kfor (take n (sleep_steps i ch l)) (\<lambda>m. m) (enter l s) = Ok () t \<and>
    (\<forall>w :: 'z proc_state_scheme. cpu_ok w \<and> me w \<noteq> me s \<and> locks w = locks t \<longrightarrow>
      kthen (acquire l) (wakeup ch) w \<in> {Fail (Spin l), Fail (Spin LkPtable)})"
proof -
  have held: "kthen (acquire l) (wakeup ch) w = Fail (Spin l)"
    if "cpu_ok w" "me w \<noteq> me s" "locked (locks w l)" "lk_cpu (locks w l) = Some (me s)" for w :: "'z proc_state_scheme"
    using that by (intro kthen_Fail) (simp add: acquire_run lock_mine_def)
  have pt: "kthen (acquire l) (wakeup ch) w = Fail (Spin LkPtable)"
    if "cpu_ok w" "me w \<noteq> me s" "lock_free w l" "locked (locks w LkPtable)" "lk_cpu (locks w LkPtable) = Some (me s)" for w :: "'z proc_state_scheme"
  proof -
    have "acquire LkPtable (enter l w) = Fail (Spin LkPtable)"
      using that assms(5) by (simp add: acquire_run lock_mine_def locks_enter)
    with that show ?thesis by (simp add: kthen_Ok wakeup_def kthen_Fail)
  qed
  have r: "kthen (acquire LkPtable) (release l) (enter l s) = Ok () (enter LkPtable s)"
    using assms by (simp add: kthen_Ok)
  have a: "acquire LkPtable (enter l s) = Ok () (enter LkPtable (enter l s))" using assms by simp
  consider "n = 0" | "n = 1" | "n = 2" | "n = 3" | "n = 4" using assms(5,6) by (fastforce simp: sleep_steps_def)
  then show ?thesis
  proof cases
    case 1
    then show ?thesis using held by (auto simp: locks_enter)
  next
    case 2
    then show ?thesis using held a assms(5) by (auto simp: sleep_steps_def kthen_Ok locks_enter)
  qed (use assms(4,5) pt r in \<open>auto simp: sleep_steps_def kthen_assoc [symmetric] kthen_Ok locks_enter lock_free_def upd_proc_def numeral_2_eq_2 numeral_3_eq_3\<close>)
qed

text \<open>
  C4. No wake-up is lost. sleep(ch, l) takes ptable.lock before it gives up \<open>l\<close>, so at every point
  between two of its statements, up to the one that marks the process SLEEPING on \<open>ch\<close>, a wakeup(ch)
  called on another CPU under the lock \<open>l\<close> has to wait for \<open>l\<close> or for ptable.lock. The process
  leaves the CPU marked SLEEPING on \<open>ch\<close>, with \<open>l\<close> released and ptable.lock held, so the wakeup(ch)
  that gets ptable.lock then finds it and makes it RUNNABLE; and when it is resumed it returns with
  its channel cleared, \<open>l\<close> held again and ptable.lock released.
\<close>

theorem sleep_no_lost_wakeup:
  fixes s :: "'z proc_state_scheme"
  assumes "cpu_ok s" and "depth s = 0" and "lock_free s LkPtable" and "lock_free s l" and "l \<noteq> LkPtable"
    and "cur_proc s = Some i" and "i < length (ptable s)"
  shows "(\<forall>n \<le> length (sleep_steps i ch l :: ('z proc_state_scheme, unit) kM list).
      \<exists>t. kfor (take n (sleep_steps i ch l)) (\<lambda>m. m) (enter l s) = Ok () t \<and>
        (\<forall>w :: 'z proc_state_scheme. cpu_ok w \<and> me w \<noteq> me s \<and> locks w = locks t \<longrightarrow>
          kthen (acquire l) (wakeup ch) w \<in> {Fail (Spin l), Fail (Spin LkPtable)})) \<and>
    (\<exists>u k. kfor (sleep_steps i ch l) (\<lambda>m. m) (enter l s) = Ok () u \<and>
      kthen (acquire l) (sleep ch (Some l)) s = Switch u k \<and>
      handed_back u \<and> lock_free u l \<and> pstate (ptable u ! i) = SLEEPING \<and> chan (ptable u ! i) = Some ch \<and>
      (\<forall>t :: 'z proc_state_scheme. cpu_ok t \<and> lock_free t LkPtable \<and> ptable t = ptable u \<longrightarrow>
        (\<exists>v. wakeup ch t = Ok () v \<and> pstate (ptable v ! i) = RUNNABLE)) \<and>
      (\<forall>t. resumed i t \<and> lock_free t l \<longrightarrow>
        (\<exists>v. k t = Ok () v \<and> lock_mine v l \<and> lock_free v LkPtable \<and> depth v = 1 \<and> chan (ptable v ! i) = None)))"
proof (intro conjI)
  show "\<forall>n \<le> length (sleep_steps i ch l :: ('z proc_state_scheme, unit) kM list).
      \<exists>t. kfor (take n (sleep_steps i ch l)) (\<lambda>m. m) (enter l s) = Ok () t \<and>
        (\<forall>w :: 'z proc_state_scheme. cpu_ok w \<and> me w \<noteq> me s \<and> locks w = locks t \<longrightarrow>
          kthen (acquire l) (wakeup ch) w \<in> {Fail (Spin l), Fail (Spin LkPtable)})"
    using sleep_steps_locked [OF assms(1-5)] by blast
next
  obtain k where k: "sleep ch (Some l) (enter l s) =
      Switch (upd_proc i (\<lambda>q. q\<lparr>chan := Some ch, pstate := SLEEPING\<rparr>) (enter LkPtable s)) k"
    "\<And>t. resumed i t \<Longrightarrow> lock_free t l \<Longrightarrow>
      k t = Ok () (enter l (leave LkPtable (upd_proc i (\<lambda>q. q\<lparr>chan := None\<rparr>) (set_intena (cur_IF s) t))))"
    using sleep_run [OF assms(1-4,6,7,5), of ch] by blast
  let ?u = "upd_proc i (\<lambda>q. q\<lparr>chan := Some ch, pstate := SLEEPING\<rparr>) (enter LkPtable s)"
  have u: "ptable ?u ! i = (ptable s ! i)\<lparr>chan := Some ch, pstate := SLEEPING\<rparr>" "i < length (ptable ?u)"
    using assms(7) by simp_all
  have "\<exists>v. wakeup ch t = Ok () v \<and> pstate (ptable v ! i) = RUNNABLE"
    if "cpu_ok t" "lock_free t LkPtable" "ptable t = ptable ?u" for t :: "'z proc_state_scheme"
    using that u by (simp add: wakeup_run wake_proc_def)
  moreover have "\<exists>v. k t = Ok () v \<and> lock_mine v l \<and> lock_free v LkPtable \<and> depth v = 1 \<and> chan (ptable v ! i) = None"
    if "resumed i t" "lock_free t l" for t
    using k(2) [OF that] that assms(5) by (simp add: resumed_def)
  ultimately show "\<exists>u k. kfor (sleep_steps i ch l) (\<lambda>m. m) (enter l s) = Ok () u \<and>
      kthen (acquire l) (sleep ch (Some l)) s = Switch u k \<and>
      handed_back u \<and> lock_free u l \<and> pstate (ptable u ! i) = SLEEPING \<and> chan (ptable u ! i) = Some ch \<and>
      (\<forall>t :: 'z proc_state_scheme. cpu_ok t \<and> lock_free t LkPtable \<and> ptable t = ptable u \<longrightarrow>
        (\<exists>v. wakeup ch t = Ok () v \<and> pstate (ptable v ! i) = RUNNABLE)) \<and>
      (\<forall>t. resumed i t \<and> lock_free t l \<longrightarrow>
        (\<exists>v. k t = Ok () v \<and> lock_mine v l \<and> lock_free v LkPtable \<and> depth v = 1 \<and> chan (ptable v ! i) = None))"
    using assms k(1) u sleep_steps_run [OF assms(1-5)]
    by (intro exI [of _ ?u] exI [of _ k]) (auto simp: kthen_Ok handed_back_def)
qed

text \<open>
  wakeup() wakes exactly the processes that sleep on its channel: each becomes RUNNABLE, no
  other field of any process changes, and the lock is released.
\<close>

theorem wakeup_exact:
  assumes "cpu_ok s" and "lock_free s LkPtable"
  shows "\<exists>t. wakeup ch s = Ok () t \<and> length (ptable t) = length (ptable s) \<and> locks t = locks s \<and>
    (\<forall>i < length (ptable s). ptable t ! i =
      (if pstate (ptable s ! i) = SLEEPING \<and> chan (ptable s ! i) = Some ch
       then (ptable s ! i)\<lparr>pstate := RUNNABLE\<rparr> else ptable s ! i))"
  using assms by (simp add: wakeup_run wake_proc_def)

text \<open>
  The checks of sched(): a thread that calls it without ptable.lock, or with a further lock
  held, or without having changed its state, does not reach the context switch.
\<close>

theorem sched_checks:
  assumes "cpu_ok s" and "cur_proc s = Some i"
  shows "(\<not> lock_mine s LkPtable \<longrightarrow> sched s = Fail (Panic ''sched ptable.lock'')) \<and>
    (lock_mine s LkPtable \<and> 1 < depth s \<longrightarrow> sched s = Fail (Panic ''sched locks'')) \<and>
    (lock_mine s LkPtable \<and> depth s = 1 \<and> pstate (ptable s ! i) = RUNNING \<longrightarrow> sched s = Fail (Panic ''sched running''))"
proof -
  have m: "0 < depth s \<Longrightarrow> mycpu s = Ok (me s) s" using assms(1) by simp
  have d: "ncli (cpus s ! me s) = depth s" by (simp add: depth_def)
  have "myproc s = Ok (Some i) (touched s)" "holding LkPtable (touched s) = Ok (lock_mine s LkPtable) (touched s)"
    using assms by (simp_all add: myproc_run holding_run)
  with m d show ?thesis by (auto simp: sched_def kbind_Ok)
qed

text \<open>
  kill(): the first process with the pid is marked killed and, if it sleeps, made RUNNABLE so
  that it can notice; nothing else of the table changes. Without such a process the result is -1
  and the table is unchanged.
\<close>

theorem kill_effect:
  assumes "cpu_ok s" and "lock_free s LkPtable"
  shows "((\<forall>p \<in> set (ptable s). pid p \<noteq> pd) \<longrightarrow> (\<exists>t. kill pd s = Ok (-1) t \<and> ptable t = ptable s \<and> locks t = locks s)) \<and>
    (find_idx (\<lambda>p. pid p = pd) (ptable s) = Some i \<longrightarrow>
      (\<exists>t. kill pd s = Ok 0 t \<and> locks t = locks s \<and> pstate (ptable t ! i) \<noteq> SLEEPING \<and> killed (ptable t ! i) \<and>
        ptable t = (ptable s)[i := (ptable s ! i)\<lparr>killed := True, pstate := (if pstate (ptable s ! i) = SLEEPING then RUNNABLE else pstate (ptable s ! i))\<rparr>]))"
  using assms pid_scan_run(1) [OF assms, of pd] find_idx_SomeD(1) [of "\<lambda>p. pid p = pd" "ptable s" i]
  by (auto simp: find_idx_None [THEN iffD2] upd_proc_def)

text \<open>
  setpriority: sp() gives the first process with the pid the new priority whatever its value,
  at once (getpriority's gp() reads it back), and then yields the CPU; without such a process it
  returns -1 and changes nothing.
\<close>

theorem sp_sets_priority:
  assumes "cpu_ok s" and "depth s = 0" and "lock_free s LkPtable" and "cur_proc s = Some c" and "c < length (ptable s)"
  shows "(find_idx (\<lambda>p. pid p = pd) (ptable s) = None \<longrightarrow> (\<exists>t. sp pd pr s = Ok (-1) t \<and> ptable t = ptable s)) \<and>
    (find_idx (\<lambda>p. pid p = pd) (ptable s) = Some i \<longrightarrow>
      (\<exists>u k. sp pd pr s = Switch u k \<and> handed_back u \<and> prio (ptable u ! i) = of_int pr \<and> pstate (ptable u ! c) = RUNNABLE \<and>
        (\<forall>j < length (ptable s). j \<noteq> i \<longrightarrow> prio (ptable u ! j) = prio (ptable s ! j)) \<and>
        (\<forall>t. resumed c t \<longrightarrow> (\<exists>v. k t = Ok 0 v \<and> ptable v = ptable t \<and> lock_free v LkPtable \<and> depth v = 0))))"
proof (intro conjI impI)
  show "\<exists>t. sp pd pr s = Ok (-1) t \<and> ptable t = ptable s" if "find_idx (\<lambda>p. pid p = pd) (ptable s) = None"
    using assms that by (simp add: pid_scan_run)
next
  assume f: "find_idx (\<lambda>p. pid p = pd) (ptable s) = Some i"
  let ?s = "upd_proc i (\<lambda>p. p\<lparr>prio := of_int pr\<rparr>) (touched s)"
  have "i < length (ptable s)" using find_idx_SomeD(1) [OF f] .
  moreover obtain k where k: "yield ?s = Switch (upd_proc c (\<lambda>q. q\<lparr>pstate := RUNNABLE\<rparr>) (enter LkPtable ?s)) k"
    "\<And>t. resumed c t \<Longrightarrow> k t = Ok () (leave LkPtable (set_intena (cur_IF ?s) t))"
    using yield_run [of ?s c] assms by auto
  moreover have "kres_bind (k t) (\<lambda>_. ret 0) = Ok 0 (leave LkPtable (set_intena (cur_IF ?s) t))" if "resumed c t" for t
    using k(2) [OF that] by simp
  ultimately show "\<exists>u k. sp pd pr s = Switch u k \<and> handed_back u \<and> prio (ptable u ! i) = of_int pr \<and> pstate (ptable u ! c) = RUNNABLE \<and>
        (\<forall>j < length (ptable s). j \<noteq> i \<longrightarrow> prio (ptable u ! j) = prio (ptable s ! j)) \<and>
        (\<forall>t. resumed c t \<longrightarrow> (\<exists>v. k t = Ok 0 v \<and> ptable v = ptable t \<and> lock_free v LkPtable \<and> depth v = 0))"
    using assms f
    by (intro exI [of _ "upd_proc c (\<lambda>q. q\<lparr>pstate := RUNNABLE\<rparr>) (enter LkPtable ?s)"] exI [of _ "\<lambda>t. kres_bind (k t) (\<lambda>_. ret 0)"])
      (auto simp: pid_scan_run kthen_Switch handed_back_def resumed_def ptable_upd_proc nth_list_update)
qed

lemma small_word: "unat (d :: uint) < 4 \<Longrightarrow> d = 0 \<or> d = 1 \<or> d = 2 \<or> d = 3"
proof -
  assume "unat d < 4"
  then have "unat d = 0 \<or> unat d = 1 \<or> unat d = 2 \<or> unat d = 3" by linarith
  then show ?thesis by (simp add: word_unat_eq_iff)
qed

lemma new_context:
  fixes cp :: uint
  shows "load32 (store32 (memset (store32 m (cp + 20) tret) cp 0 20) (cp + 16) fret) (cp + 20) = tret"
proof -
  have "load32 (store32 (memset (store32 m (cp + 20) tret) cp 0 20) (cp + 16) fret) (cp + 20) =
      load32 (store32 m (cp + 20) tret) (cp + 20)"
  proof (rule load32_cong)
    fix d :: uint assume "unat d < 4"
    then have "\<not> in_region (cp + 16) 4 (cp + 20 + d)" "\<not> in_region cp 20 (cp + 20 + d)"
      by (auto simp: in_region_def dest!: small_word)
    then show "store32 (memset (store32 m (cp + 20) tret) cp 0 20) (cp + 16) fret (cp + 20 + d) =
        store32 m (cp + 20) tret (cp + 20 + d)"
      by (simp add: store32_region memset_fill)
  qed
  then show ?thesis by simp
qed

lemma prio_from_clock: "1 \<le> (x :: uint) mod 10 + 1 \<and> x mod 10 + 1 \<le> 10"
proof -
  have "unat (x mod 10) < 10" by (simp add: unat_mod)
  then have "unat (x mod 10 + 1) = unat (x mod 10) + 1" by (simp add: unat_word_ariths)
  with \<open>unat (x mod 10) < 10\<close> show ?thesis by (simp add: word_le_nat_alt)
qed

text \<open>
  C30. allocproc() on every branch. With no UNUSED slot it returns null. Otherwise it takes the
  first one: the new process is EMBRYO, has the next pid and a priority between 1 and 10, and its
  kernel stack holds a trap frame at the top and below it a context that starts at forkret() and
  returns to trapret(). Without a free page for the stack the slot is UNUSED again and the result
  is null. No other slot changes.
\<close>

theorem allocproc_outcomes:
  assumes "kmem_ready s" and "lock_free s LkPtable" and "cmostimess (rtc_dev s) (rtc_now s) = Some (d, t')"
  shows "((\<forall>p \<in> set (ptable s). pstate p \<noteq> UNUSED) \<longrightarrow> (\<exists>t. allocproc s = Ok None t \<and> ptable t = ptable s)) \<and>
    (find_idx (\<lambda>p. pstate p = UNUSED) (ptable s) = Some i \<and> freelist s = 0 \<longrightarrow>
      (\<exists>t q. allocproc s = Ok None t \<and> ptable t = (ptable s)[i := q] \<and> pstate q = UNUSED)) \<and>
    (find_idx (\<lambda>p. pstate p = UNUSED) (ptable s) = Some i \<and> freelist s \<noteq> 0 \<longrightarrow>
      (\<exists>t q. allocproc s = Ok (Some i) t \<and> ptable t = (ptable s)[i := q] \<and>
        pstate q = EMBRYO \<and> pid q = nextpid s \<and> nextpid t = nextpid s + 1 \<and> 1 \<le> prio q \<and> prio q \<le> 10 \<and>
        kstack q = freelist s \<and> tf_at q + sizeof_tf = kstack q + KSTACKSIZE \<and>
        load32 (mem t) (context_at q + 16) = sym_forkret s \<and>
        load32 (mem t) (context_at q + sizeof_context) = sym_trapret s))"
proof (intro conjI impI; (elim conjE)?)
  show "\<exists>t. allocproc s = Ok None t \<and> ptable t = ptable s" if "\<forall>p \<in> set (ptable s). pstate p \<noteq> UNUSED"
    using allocproc_none [OF _ assms(2) that] assms(1) by (simp add: kmem_ready_def)
next
  assume f: "find_idx (\<lambda>p. pstate p = UNUSED) (ptable s) = Some i"
  have i: "i < length (ptable s)" using find_idx_SomeD(1) [OF f] .
  from allocproc_slot [OF assms f] obtain u where u: "allocproc s = alloc_stack i u" "kmem_ready u"
    "nextpid u = nextpid s + 1" "freelist u = freelist s"
    "ptable u = (ptable s)[i := (ptable s ! i)\<lparr>pstate := EMBRYO, pid := nextpid s, prio := second d mod 10 + 1\<rparr>]"
    "mem u = mem s" "sym_trapret u = sym_trapret s" "sym_forkret u = sym_forkret s" by blast
  obtain cp where cp: "freelist s + KSTACKSIZE - sizeof_tf = cp + 24" by (metis diff_add_cancel)
  with u(4) have cpu: "freelist u + KSTACKSIZE - sizeof_tf = cp + 24" by simp
  have "i < length (ptable u)" using u(5) i by simp
  note r = alloc_stack_run [OF u(2) this cpu]
  show "\<exists>t q. allocproc s = Ok None t \<and> ptable t = (ptable s)[i := q] \<and> pstate q = UNUSED" if "freelist s = 0"
  proof -
    from r(1) that u(1,4,5) obtain t where "allocproc s = Ok None t"
      "ptable t = (ptable s)[i := (ptable u ! i)\<lparr>kstack := 0, pstate := UNUSED\<rparr>]" by auto
    then show ?thesis
      by (intro exI [of _ t] exI [of _ "(ptable u ! i)\<lparr>kstack := 0, pstate := UNUSED\<rparr>"]) simp
  qed
  let ?q = "(ptable u ! i)\<lparr>kstack := freelist s, tf_at := cp + 24, context_at := cp\<rparr>"
  have top: "cp + 24 + sizeof_tf = freelist s + KSTACKSIZE" using cp by (simp add: diff_eq_eq)
  assume "freelist s \<noteq> 0"
  with r(2) u obtain t where t: "allocproc s = Ok (Some i) t" "nextpid t = nextpid s + 1" "ptable t = (ptable s)[i := ?q]"
    "mem t = store32 (memset (store32 (mem s) (cp + 20) (sym_trapret s)) cp 0 20) (cp + 16) (sym_forkret s)"
    by auto
  then show "\<exists>t q. allocproc s = Ok (Some i) t \<and> ptable t = (ptable s)[i := q] \<and>
        pstate q = EMBRYO \<and> pid q = nextpid s \<and> nextpid t = nextpid s + 1 \<and> 1 \<le> prio q \<and> prio q \<le> 10 \<and>
        kstack q = freelist s \<and> tf_at q + sizeof_tf = kstack q + KSTACKSIZE \<and>
        load32 (mem t) (context_at q + 16) = sym_forkret s \<and>
        load32 (mem t) (context_at q + sizeof_context) = sym_trapret s"
    using prio_from_clock [of "second d"] i u(5) top
    by (intro exI [of _ t] exI [of _ ?q]) (simp add: sizeof_context_def new_context)
qed

text \<open>
  C31. kill(0) reaches a free slot: an UNUSED slot that was never used, or was reaped, has pid 0, so
  kill(0) reports success on it, and the process that is allocated in it next is born killed,
  because allocproc() does not clear the mark.
\<close>

theorem kill_0_born_killed:
  assumes "kmem_ready s" and "lock_free s LkPtable" and "cmostimess (rtc_dev s) (rtc_now s) = Some (d, t')"
    and "find_idx (\<lambda>p. pstate p = UNUSED) (ptable s) = Some i" and "find_idx (\<lambda>p. pid p = 0) (ptable s) = Some i"
    and "freelist s \<noteq> 0"
  shows "\<exists>t u. kill 0 s = Ok 0 t \<and> allocproc t = Ok (Some i) u \<and> pid (ptable u ! i) = nextpid s \<and> killed (ptable u ! i)"
proof -
  have i: "i < length (ptable s)" "pstate (ptable s ! i) = UNUSED" "\<And>j. j < i \<Longrightarrow> pstate (ptable s ! j) \<noteq> UNUSED"
    using find_idx_SomeD [OF assms(4)] by simp_all
  have ok: "cpu_ok s" using assms(1) by (simp add: kmem_ready_def)
  define t where "t = upd_proc i (\<lambda>p. p\<lparr>killed := True, pstate := (if pstate p = SLEEPING then RUNNABLE else pstate p)\<rparr>) (touched s)"
  have k: "kill 0 s = Ok 0 t" using pid_scan_run(1) [OF ok assms(2), of 0] assms(5) by (simp add: t_def)
  have t: "kmem_ready t" "lock_free t LkPtable" "freelist t = freelist s" "nextpid t = nextpid s"
    "cmostimess (rtc_dev t) (rtc_now t) = Some (d, t')" "i < length (ptable t)" "killed (ptable t ! i)"
    using assms(1-3) i(1) by (simp_all add: t_def)
  have "find_idx (\<lambda>p. pstate p = UNUSED) (ptable t) = Some i"
    using i by (intro find_idx_SomeI) (simp_all add: t_def)
  from allocproc_slot [OF t(1,2,5) this] obtain v where v: "allocproc t = alloc_stack i v" "kmem_ready v"
    "freelist v = freelist t"
    "ptable v = (ptable t)[i := (ptable t ! i)\<lparr>pstate := EMBRYO, pid := nextpid t, prio := second d mod 10 + 1\<rparr>]" by blast
  obtain cp where cp: "freelist v + KSTACKSIZE - sizeof_tf = cp + 24" by (metis diff_add_cancel)
  have "i < length (ptable v)" using v(4) t(6) by simp
  from alloc_stack_run(2) [OF v(2) this cp] v t assms(6) obtain u where "allocproc t = Ok (Some i) u"
    "ptable u = (ptable t)[i := (ptable v ! i)\<lparr>kstack := freelist v, tf_at := cp + 24, context_at := cp\<rparr>]" by auto
  with k t(4,6,7) v(4) show ?thesis by (intro exI [of _ t] exI [of _ u]) simp
qed

lemma wait_loop_no_child:
  assumes "handed_back s" and "\<forall>p \<in> set (ptable s). parent p \<noteq> Some c"
  shows "wait_loop (Suc n) c s = Ok (-1) (leave LkPtable s)"
proof -
  have "find_idx (\<lambda>p. parent p = Some c \<and> pstate p = ZOMBIE) (ptable s) = None"
    using assms(2) by (simp add: find_idx_None)
  moreover have "\<not> list_ex (\<lambda>p. parent p = Some c) (ptable s)" using assms(2) by (simp add: list_ex_iff)
  ultimately show ?thesis using assms(1) by (simp add: handed_back_def kthen_Ok)
qed

lemma sleep_ptable_run:
  assumes "handed_back s" and "cur_proc s = Some i" and "i < length (ptable s)"
  obtains k where "sleep ch (Some LkPtable) s =
      Switch (upd_proc i (\<lambda>q. q\<lparr>chan := Some ch, pstate := SLEEPING\<rparr>) s) k"
    and "\<And>t. resumed i t \<Longrightarrow>
      k t = Ok () (upd_proc i (\<lambda>q. q\<lparr>chan := None\<rparr>) (set_intena (intena (cpus s ! me s)) t))"
proof -
  let ?u = "upd_proc i (\<lambda>q. q\<lparr>chan := Some ch, pstate := SLEEPING\<rparr>) s" and ?b = "intena (cpus s ! me s)"
  have s: "sched ?u = Switch ?u (kbind mycpu (\<lambda>c. kmodify (upd_cpu c (\<lambda>q. q\<lparr>intena := ?b\<rparr>))))"
    using sched_run [of ?u i] assms by (simp add: handed_back_def)
  have "myproc s = Ok (Some i) s" using assms by (simp add: myproc_run handed_back_def)
  moreover have "kfor (sleep_steps i ch LkPtable) (\<lambda>m. m) s = Ok () ?u"
    by (simp add: sleep_steps_def upd_proc_twice)
  ultimately have "sleep ch (Some LkPtable) s = Switch ?u
      (\<lambda>t. kres_bind (kbind mycpu (\<lambda>c. kmodify (upd_cpu c (\<lambda>q. q\<lparr>intena := ?b\<rparr>))) t) (\<lambda>_.
        kthen (kmodify (upd_proc i (\<lambda>q. q\<lparr>chan := None\<rparr>))) (ret ())))"
    using s by (simp add: sleep_def kthen_Ok kbind_Ok kthen_Switch upd_proc_twice del: upd_proc_frame)
  then show thesis
  proof (rule that)
    fix t assume "resumed i t"
    from sched_resume [OF this, of ?b]
    show "kres_bind (kbind mycpu (\<lambda>c. kmodify (upd_cpu c (\<lambda>q. q\<lparr>intena := ?b\<rparr>))) t) (\<lambda>_.
        kthen (kmodify (upd_proc i (\<lambda>q. q\<lparr>chan := None\<rparr>))) (ret ())) =
        Ok () (upd_proc i (\<lambda>q. q\<lparr>chan := None\<rparr>) (set_intena ?b t))" by simp
  qed
qed

text \<open>
  wait() of a process that has no exited child yet: without any child, or when it has been
  killed, it returns -1 with the table unchanged; otherwise it sleeps on itself, the channel that
  exit() of a child wakes, and when it is resumed it scans the table again.
\<close>

theorem wait_without_zombie:
  assumes "cpu_ok s" and "depth s = 0" and "lock_free s LkPtable" and "cur_proc s = Some c" and "c < length (ptable s)"
    and "\<forall>p \<in> set (ptable s). parent p = Some c \<longrightarrow> pstate p \<noteq> ZOMBIE"
  shows "((\<forall>p \<in> set (ptable s). parent p \<noteq> Some c) \<or> killed (ptable s ! c) \<longrightarrow>
      (\<exists>t. wait (Suc n) s = Ok (-1) t \<and> ptable t = ptable s \<and> locks t = locks s)) \<and>
    ((\<exists>p \<in> set (ptable s). parent p = Some c) \<and> \<not> killed (ptable s ! c) \<longrightarrow>
      (\<exists>u k. wait (Suc n) s = Switch u k \<and> handed_back u \<and>
        ptable u = (ptable s)[c := (ptable s ! c)\<lparr>chan := Some (ChProc c), pstate := SLEEPING\<rparr>] \<and>
        (\<forall>t. resumed c t \<longrightarrow> (\<exists>v. handed_back v \<and> ptable v = (ptable t)[c := (ptable t ! c)\<lparr>chan := None\<rparr>] \<and> k t = wait_loop n c v))))"
proof -
  let ?s = "enter LkPtable s"
  have f: "find_idx (\<lambda>p. parent p = Some c \<and> pstate p = ZOMBIE) (ptable s) = None"
    using assms(6) by (auto simp: find_idx_None)
  have m: "myproc s = Ok (Some c) (touched s)" using assms by (simp add: myproc_run)
  have w: "wait (Suc n) s = wait_loop (Suc n) c ?s"
    using assms m by (simp add: wait_def kbind_Ok kthen_Ok del: wait_loop.simps)
  have h: "handed_back ?s" "cur_proc ?s = Some c" "c < length (ptable ?s)" using assms by (simp_all add: handed_back_def)
  obtain k where k: "sleep (ChProc c) (Some LkPtable) ?s = Switch (upd_proc c (\<lambda>q. q\<lparr>chan := Some (ChProc c), pstate := SLEEPING\<rparr>) ?s) k"
    "\<And>t. resumed c t \<Longrightarrow> k t = Ok () (upd_proc c (\<lambda>q. q\<lparr>chan := None\<rparr>) (set_intena (intena (cpus ?s ! me ?s)) t))"
    using sleep_ptable_run [OF h, of "ChProc c"] by blast
  have kt: "\<exists>v. handed_back v \<and> ptable v = (ptable t)[c := (ptable t ! c)\<lparr>chan := None\<rparr>] \<and>
      kres_bind (k t) (\<lambda>_. wait_loop n c) = wait_loop n c v" if "resumed c t" for t
    using k(2) [OF that] that
    by (intro exI [of _ "upd_proc c (\<lambda>q. q\<lparr>chan := None\<rparr>) (set_intena (intena (cpus ?s ! me ?s)) t)"])
      (simp add: handed_back_def resumed_def ptable_upd_proc)
  show ?thesis
  proof (intro conjI impI)
    assume "(\<forall>p \<in> set (ptable s). parent p \<noteq> Some c) \<or> killed (ptable s ! c)"
    then have "\<not> list_ex (\<lambda>p. parent p = Some c) (ptable s) \<or> killed (ptable s ! c)" by (auto simp: list_ex_iff)
    then show "\<exists>t. wait (Suc n) s = Ok (-1) t \<and> ptable t = ptable s \<and> locks t = locks s"
      using w f assms(1,3) by (simp add: kthen_Ok)
  next
    assume "(\<exists>p \<in> set (ptable s). parent p = Some c) \<and> \<not> killed (ptable s ! c)"
    then have "list_ex (\<lambda>p. parent p = Some c) (ptable s)" "\<not> killed (ptable s ! c)" by (auto simp: list_ex_iff)
    then show "\<exists>u k. wait (Suc n) s = Switch u k \<and> handed_back u \<and>
        ptable u = (ptable s)[c := (ptable s ! c)\<lparr>chan := Some (ChProc c), pstate := SLEEPING\<rparr>] \<and>
        (\<forall>t. resumed c t \<longrightarrow> (\<exists>v. handed_back v \<and> ptable v = (ptable t)[c := (ptable t ! c)\<lparr>chan := None\<rparr>] \<and> k t = wait_loop n c v))"
      using w f kt h(1)
      by (intro exI [of _ "upd_proc c (\<lambda>q. q\<lparr>chan := Some (ChProc c), pstate := SLEEPING\<rparr>) ?s"] exI [of _ "\<lambda>t. kres_bind (k t) (\<lambda>_. wait_loop n c)"])
        (simp add: kthen_Switch [of "sleep (ChProc c) (Some LkPtable)", OF k(1)] handed_back_def ptable_upd_proc)
  qed
qed

end
