(* ===== verification/Scheduler.thy ===== *)
theory Scheduler
  imports Proc
begin

text \<open>
  The priority scheduler, scheduler() of proc.c. A round takes ptable.lock, finds the smallest
  \<open>prio\<close> of the runnable processes (starting the search from 20), collects the runnable
  processes that have it in \<open>plist\<close>, picks the one at position \<open>ticks % idx\<close>, runs it until
  it switches back, and then moves its priority by one depending on whether the clock advanced
  while it ran. \<open>scheduler n\<close> is the first \<open>n\<close> rounds of the endless loop.

  Shown here: what a round does on every branch, which process it picks and when it cannot pick
  one; what one round does to the machine up to the switch and after it, where it changes no
  priority but that of the process it ran; that any number of rounds is free of faults as long as
  the table is one it can serve; that a process of a larger priority number can starve.
\<close>

section \<open>Choosing a process\<close>

definition runnable :: "proc \<Rightarrow> bool" where
  "runnable p \<longleftrightarrow> pstate p = RUNNABLE"

definition min_prio :: "proc list \<Rightarrow> uint" where
  "min_prio ps = foldl (\<lambda>mn p. if pstate p = RUNNABLE then (if mn > prio p then prio p else mn) else mn) 20 ps"

definition plist :: "proc list \<Rightarrow> nat list" where
  "plist ps = filter (\<lambda>i. pstate (ps ! i) = RUNNABLE \<and> prio (ps ! i) = min_prio ps) [0..<length ps]"

text \<open>\<open>plist\<close> is an array of 50 entries, and \<open>ticks % idx\<close> traps when \<open>idx\<close> is 0.\<close>

definition sched_pick :: "uint \<Rightarrow> proc list \<Rightarrow> fault + nat" where
  "sched_pick t ps =
     (let idx = length (plist ps) in
      if idx > 50 then Inl (OutOfBounds ''plist'')
      else if idx = 0 then Inl DivideError
      else Inr (plist ps ! unat (t mod of_nat idx)))"

definition adjust_prio :: "uint \<Rightarrow> uint \<Rightarrow> proc \<Rightarrow> proc" where
  "adjust_prio start fin p =
     (if fin - start = 0 then (if prio p > 0 then p\<lparr>prio := prio p - 1\<rparr> else p)
      else (if prio p < 10 then p\<lparr>prio := prio p + 1\<rparr> else p))"

section \<open>A round of the scheduler\<close>

definition run_proc :: "nat \<Rightarrow> nat \<Rightarrow> ('z proc_state_scheme, unit) kM" where
  "run_proc c i =
     kbind (kgets ticks) (\<lambda>start.
     kthen (kmodify (upd_cpu c (\<lambda>q. q\<lparr>cpu_proc := Some i\<rparr>))) (
     kbind (kgets (\<lambda>s. ptable s ! i)) (\<lambda>p.
     kthen (switchuvm (Some (kstack p, pgdir p))) (
     kthen (kmodify (upd_proc i (\<lambda>q. q\<lparr>pstate := RUNNING\<rparr>))) (
     kthen kswitch (
     kthen switchkvm (
     kbind (kgets ticks) (\<lambda>fin.
     kthen (kmodify (upd_proc i (adjust_prio start fin))) (
     kmodify (upd_cpu c (\<lambda>q. q\<lparr>cpu_proc := None\<rparr>)))))))))))"

definition scheduler_round :: "nat \<Rightarrow> ('z proc_state_scheme, unit) kM" where
  "scheduler_round c =
     kthen sti (
     kthen (acquire LkPtable) (
     kbind (kgets ptable) (\<lambda>ps.
     if \<not> list_ex runnable ps then release LkPtable
     else
       kbind (kgets (\<lambda>s. sched_pick (ticks s) ps)) (\<lambda>r.
       case r of Inl e \<Rightarrow> kfail e
       | Inr i \<Rightarrow> kthen (run_proc c i) (release LkPtable)))))"

definition scheduler :: "nat \<Rightarrow> ('z proc_state_scheme, unit) kM" where
  "scheduler n =
     kbind mycpu (\<lambda>c.
     kthen (kmodify (upd_cpu c (\<lambda>q. q\<lparr>cpu_proc := None\<rparr>))) (
     kfor [0..<n] (\<lambda>_. scheduler_round c)))"

section \<open>The minimum and the candidates\<close>

lemma min_prio_foldl:
  "foldl (\<lambda>mn p. if pstate p = RUNNABLE then (if mn > prio p then prio p else mn) else mn) m ps =
     foldl min m (map prio (filter runnable ps))"
  by (induction ps arbitrary: m) (auto simp: runnable_def min_def not_less)

lemma foldl_min_le: "foldl min m xs \<le> (m :: 'a :: linorder)"
  by (induction xs arbitrary: m) (simp, metis foldl_Cons min.bounded_iff min.cobounded1 order_trans)

lemma foldl_min_lower: "x \<in> set xs \<Longrightarrow> foldl min (m :: 'a :: linorder) xs \<le> x"
proof (induction xs arbitrary: m)
  case (Cons y ys)
  then show ?case using foldl_min_le [of "min m y" ys] by (auto simp: min_le_iff_disj)
qed simp

lemma foldl_min_mem: "foldl min (m :: 'a :: linorder) xs = m \<or> foldl min m xs \<in> set xs"
proof (induction xs arbitrary: m)
  case (Cons y ys)
  from Cons [of "min m y"] show ?case by (auto simp: min_def split: if_splits)
qed simp

lemma min_prio_le: "p \<in> set ps \<Longrightarrow> pstate p = RUNNABLE \<Longrightarrow> min_prio ps \<le> prio p"
  by (auto simp: min_prio_def min_prio_foldl runnable_def intro: foldl_min_lower)

lemma min_prio_attained:
  assumes "p \<in> set ps" and "pstate p = RUNNABLE" and "prio p \<le> 20"
  shows "\<exists>q \<in> set ps. pstate q = RUNNABLE \<and> prio q = min_prio ps"
proof -
  from foldl_min_mem [of 20 "map prio (filter runnable ps)"]
  have "min_prio ps = 20 \<or> min_prio ps \<in> prio ` {q \<in> set ps. pstate q = RUNNABLE}"
    by (simp add: min_prio_def min_prio_foldl runnable_def)
  with min_prio_le [OF assms(1,2)] assms show ?thesis by force
qed

lemma min_prio_20: "min_prio ps \<le> 20"
  by (simp add: min_prio_def min_prio_foldl foldl_min_le)

lemma in_plist:
  "i \<in> set (plist ps) \<longleftrightarrow> i < length ps \<and> pstate (ps ! i) = RUNNABLE \<and> prio (ps ! i) = min_prio ps"
  by (auto simp: plist_def)

lemma plist_empty: "plist ps = [] \<longleftrightarrow> (\<forall>p \<in> set ps. pstate p = RUNNABLE \<longrightarrow> 20 < prio p)"
proof
  assume e: "plist ps = []"
  show "\<forall>p \<in> set ps. pstate p = RUNNABLE \<longrightarrow> 20 < prio p"
  proof (intro ballI impI, rule ccontr)
    fix p assume "p \<in> set ps" "pstate p = RUNNABLE" "\<not> 20 < prio p"
    then obtain q where q: "q \<in> set ps" "pstate q = RUNNABLE" "prio q = min_prio ps"
      using min_prio_attained [of p ps] by (auto simp: not_less)
    then obtain i where "i < length ps" "q = ps ! i" by (auto simp: in_set_conv_nth)
    with q have "i \<in> set (plist ps)" by (simp add: in_plist)
    with e show False by simp
  qed
next
  assume "\<forall>p \<in> set ps. pstate p = RUNNABLE \<longrightarrow> 20 < prio p"
  then have "\<not> i \<in> set (plist ps)" for i
    using min_prio_20 [of ps] by (auto simp: in_plist dest: nth_mem)
  then show "plist ps = []" by (metis list.set_intros(1) neq_Nil_conv)
qed

lemma pick_position:
  assumes "0 < n" and "n \<le> 50"
  shows "unat (t mod of_nat n :: uint) = unat t mod n"
proof -
  have "unat (of_nat n :: uint) = n" using assms(2) by (simp add: unat_of_nat)
  then show ?thesis by (simp add: unat_mod)
qed

lemma sched_pick_run:
  assumes "0 < length (plist ps)" and "length (plist ps) \<le> 50"
  shows "sched_pick t ps = Inr (plist ps ! (unat t mod length (plist ps)))"
  using assms by (simp add: sched_pick_def Let_def pick_position)

section \<open>A round in closed form\<close>

definition set_cur :: "nat option \<Rightarrow> 'z machine_scheme \<Rightarrow> 'z machine_scheme" where
  "set_cur p s = upd_cpu (me s) (\<lambda>q. q\<lparr>cpu_proc := p\<rparr>) s"

lemma set_cur_state [simp]:
  "cpu_at (set_cur p s) = cpu_at s" "me (set_cur p s) = me s"
  "depth (set_cur p s) = depth s" "cur_IF (set_cur p s) = cur_IF s"
  "cpu_ok (set_cur p s) = cpu_ok s" "lock_free (set_cur p s) l = lock_free s l"
  "lock_mine (set_cur p s) l = lock_mine s l" "mem (set_cur p s) = mem s"
  "ticks (set_cur p s) = ticks s"
proof -
  have a: "cpu_at (set_cur p s) = cpu_at s"
    by (simp add: cpu_at_apicids) (simp add: set_cur_def upd_cpu_def)
  then have m: "me (set_cur p s) = me s" by (simp add: me_def)
  have d: "depth (set_cur p s) = depth s"
    by (simp only: depth_def m) (simp add: set_cur_def upd_cpu_def nth_update_same_field [where g = ncli])
  have i: "cur_IF (set_cur p s) = cur_IF s" by (simp add: cur_IF_def set_cur_def upd_cpu_def)
  have "locks (set_cur p s) = locks s" by (simp add: set_cur_def upd_cpu_def)
  with a m d i show "cpu_at (set_cur p s) = cpu_at s" "me (set_cur p s) = me s"
    "depth (set_cur p s) = depth s" "cur_IF (set_cur p s) = cur_IF s"
    "cpu_ok (set_cur p s) = cpu_ok s" "lock_free (set_cur p s) l = lock_free s l"
    "lock_mine (set_cur p s) l = lock_mine s l"
    by (simp_all add: cpu_ok_def lock_free_def lock_mine_def)
qed (simp_all add: set_cur_def upd_cpu_def)

lemma set_cur_proc [simp]:
  "cpu_ok s \<Longrightarrow> cur_proc (set_cur p s) = p"
  using me_less [of s] by (simp add: cur_proc_def cpu_ok_def) (simp add: set_cur_def upd_cpu_def)

lemma ptable_set_cur [simp]: "ptable (set_cur p s) = ptable s"
  by (simp add: set_cur_def upd_cpu_def)

text \<open>The state in which the picked process is switched to, and the one after it switched back.\<close>

definition launched :: "nat \<Rightarrow> 'z proc_state_scheme \<Rightarrow> 'z proc_state_scheme" where
  "launched i s = upd_proc i (\<lambda>q. q\<lparr>pstate := RUNNING\<rparr>)
     (user_space (kstack (ptable s ! i)) (pgdir (ptable s ! i)) (set_cur (Some i) s))"

definition retired :: "nat \<Rightarrow> uint \<Rightarrow> 'z proc_state_scheme \<Rightarrow> 'z proc_state_scheme" where
  "retired i start t = set_cur None (upd_proc i (adjust_prio start (ticks t))
     (t\<lparr>cr3 := (cr3 t)(lapic_id t := V2P (kpgdir t))\<rparr>))"

definition has_space :: "proc \<Rightarrow> bool" where
  "has_space p \<longleftrightarrow> kstack p \<noteq> 0 \<and> pgdir p \<noteq> 0"

lemma run_proc_run:
  assumes "handed_back s" and "has_space (ptable s ! i)"
  obtains k where "run_proc (me s) i s = Switch (launched i s) k"
    and "\<And>t. me t = me s \<Longrightarrow> k t = Ok () (retired i (ticks s) t)"
proof -
  let ?p = "ptable s ! i"
  have s1: "cpu_ok (set_cur (Some i) s)" "depth (set_cur (Some i) s) = 1"
    using assms(1) by (simp_all add: handed_back_def)
  have "switchuvm (Some (kstack ?p, pgdir ?p)) (set_cur (Some i) s) =
      Ok () (user_space (kstack ?p) (pgdir ?p) (set_cur (Some i) s))"
    using switchuvm_run [OF s1(1), of "kstack ?p" "pgdir ?p"] assms(2) s1(2) by (simp add: has_space_def)
  then have *: "run_proc (me s) i s = Switch (launched i s) (\<lambda>t. kres_bind (Ok () t) (\<lambda>_.
      kthen switchkvm (kbind (kgets ticks) (\<lambda>fin.
       kthen (kmodify (upd_proc i (adjust_prio (ticks s) fin)))
        (kmodify (upd_cpu (me s) (\<lambda>q. q\<lparr>cpu_proc := None\<rparr>)))))))"
    by (simp add: run_proc_def set_cur_def [symmetric] kthen_Ok)
      (simp add: kthen_def kbind_def kswitch_def launched_def)
  show thesis
    by (rule that [OF *]) (simp add: switchkvm_def lcr3_def retired_def set_cur_def kthen_kbind)
qed

lemma sti_run: "sti s = Ok () (s\<lparr>eflags_IF := (eflags_IF s)(lapic_id s := True)\<rparr>)"
  by (simp add: sti_def)

definition intr_on :: "'z machine_scheme \<Rightarrow> 'z machine_scheme" where
  "intr_on s = s\<lparr>eflags_IF := (eflags_IF s)(lapic_id s := True)\<rparr>"

lemma intr_on_simps [simp]:
  "cpu_at (intr_on s) = cpu_at s" "me (intr_on s) = me s" "depth (intr_on s) = depth s"
  "lock_free (intr_on s) l = lock_free s l" "ticks (intr_on s) = ticks s"
  by (simp_all add: intr_on_def cpu_at_def me_def depth_def lock_free_def)

lemma intr_on_ok [simp]: "cpu_ok s \<Longrightarrow> depth s = 0 \<Longrightarrow> cpu_ok (intr_on s)"
  by (simp add: cpu_ok_def)

lemma ptable_intr_on [simp]: "ptable (intr_on s) = ptable s"
  by (simp add: intr_on_def)

lemma list_ex_runnable: "sched_pick t ps = Inr i \<Longrightarrow> list_ex runnable ps"
  using plist_empty [of ps] in_plist [of _ ps]
  by (fastforce simp: sched_pick_def Let_def list_ex_iff runnable_def split: if_splits)

lemma scheduler_round_run:
  assumes "cpu_ok s" and "depth s = 0" and "lock_free s LkPtable"
    and "sched_pick (ticks s) (ptable s) = Inr i" and "has_space (ptable s ! i)"
  obtains k where "scheduler_round (me s) s = Switch (launched i (enter LkPtable (intr_on s))) k"
    and "\<And>t. handed_back t \<Longrightarrow> me t = me s \<Longrightarrow> k t = Ok () (leave LkPtable (retired i (ticks s) t))"
proof -
  let ?s = "enter LkPtable (intr_on s)"
  have h: "handed_back ?s" using assms(1-3) by (simp add: handed_back_def)
  obtain k where k: "run_proc (me ?s) i ?s = Switch (launched i ?s) k"
    "\<And>t. me t = me ?s \<Longrightarrow> k t = Ok () (retired i (ticks ?s) t)"
    using run_proc_run [OF h, of i] assms(5) by auto
  have a: "acquire LkPtable (intr_on s) = Ok () ?s" using assms(1-3) by simp
  have st: "sti s = Ok () (intr_on s)" by (simp add: sti_run intr_on_def)
  have "scheduler_round (me s) s = Switch (launched i ?s) (\<lambda>t. kres_bind (k t) (\<lambda>_. release LkPtable))"
    using list_ex_runnable [OF assms(4)] k(1) assms(4)
    by (simp add: scheduler_round_def kthen_Ok [of sti, OF st] kthen_Ok [of "acquire LkPtable", OF a] kthen_Switch)
  moreover have "kres_bind (k t) (\<lambda>_. release LkPtable) = Ok () (leave LkPtable (retired i (ticks s) t))"
    if "handed_back t" "me t = me s" for t
  proof -
    have "cpu_ok (retired i (ticks s) t)" "depth (retired i (ticks s) t) = 1" "lock_mine (retired i (ticks s) t) LkPtable"
      using that(1) by (simp_all add: retired_def handed_back_def)
    with k(2) [of t] that show ?thesis by simp
  qed
  ultimately show thesis by (rule that)
qed

section \<open>Properties of the scheduler\<close>

text \<open>
  C1. Priority scheduling: the process a round picks is runnable, and no runnable process of the
  table has a smaller \<open>prio\<close>.
\<close>

theorem sched_pick_best:
  assumes "sched_pick t ps = Inr i"
  shows "i < length ps \<and> pstate (ps ! i) = RUNNABLE \<and>
    (\<forall>j < length ps. pstate (ps ! j) = RUNNABLE \<longrightarrow> prio (ps ! i) \<le> prio (ps ! j))"
proof -
  from assms have n: "0 < length (plist ps)" "length (plist ps) \<le> 50"
    by (auto simp: sched_pick_def Let_def split: if_splits)
  then have "i = plist ps ! (unat t mod length (plist ps))" using assms by (simp add: sched_pick_run)
  with n(1) have "i \<in> set (plist ps)" by simp
  then show ?thesis by (auto simp: in_plist intro: min_prio_le)
qed

text \<open>
  C2. One round of scheduler(): it switches to the picked process with that process RUNNING and
  current on this CPU, its page table loaded, ptable.lock held, and every other table entry
  unchanged, which is what a thread expects on its return from sched(). When the thread switches
  back, the round moves the priority of that process only, by the rule of \<open>adjust_prio\<close>, and ends
  with no current process and ptable.lock released.
\<close>

theorem scheduler_round_switch:
  assumes "cpu_ok s" and "depth s = 0" and "lock_free s LkPtable"
    and "sched_pick (ticks s) (ptable s) = Inr i" and "has_space (ptable s ! i)"
  shows "\<exists>u k. scheduler_round (me s) s = Switch u k \<and> resumed i u \<and>
    ptable u = (ptable s)[i := (ptable s ! i)\<lparr>pstate := RUNNING\<rparr>] \<and>
    cr3 u (lapic_id s) = V2P (pgdir (ptable s ! i)) \<and>
    (\<forall>t. handed_back t \<and> me t = me s \<longrightarrow>
      (\<exists>v. k t = Ok () v \<and> ptable v = (ptable t)[i := adjust_prio (ticks s) (ticks t) (ptable t ! i)] \<and>
        cur_proc v = None \<and> lock_free v LkPtable \<and> cpu_ok v \<and> depth v = 0))"
proof -
  obtain k where k: "scheduler_round (me s) s = Switch (launched i (enter LkPtable (intr_on s))) k"
    "\<And>t. handed_back t \<Longrightarrow> me t = me s \<Longrightarrow> k t = Ok () (leave LkPtable (retired i (ticks s) t))"
    using scheduler_round_run [OF assms] by blast
  let ?u = "launched i (enter LkPtable (intr_on s))"
  have "i < length (ptable s)"
    using assms(4) in_plist [of i "ptable s"] by (auto simp: sched_pick_def Let_def pick_position split: if_splits)
  then have "resumed i ?u" using assms(1-3) by (simp add: resumed_def launched_def)
  moreover have "ptable ?u = (ptable s)[i := (ptable s ! i)\<lparr>pstate := RUNNING\<rparr>]"
    by (simp add: launched_def ptable_upd_proc)
  moreover have "cr3 ?u (lapic_id s) = V2P (pgdir (ptable s ! i))"
    by (simp add: launched_def upd_proc_def user_space_def upd_cpu_def set_cur_def enter_def taken_def pushed_def intr_on_def)
  moreover have "ptable v = (ptable t)[i := adjust_prio (ticks s) (ticks t) (ptable t ! i)] \<and>
      cur_proc v = None \<and> lock_free v LkPtable \<and> cpu_ok v \<and> depth v = 0"
    if "handed_back t" "v = leave LkPtable (retired i (ticks s) t)" for t v
    using that by (simp add: handed_back_def retired_def ptable_upd_proc)
  ultimately show ?thesis using k by blast
qed

text \<open>
  The states in which scheduler() starts a round, and the tables it can serve: at most 50 runnable
  processes, each with a kernel stack, a page table and a priority of at most 20.
\<close>

definition sched_ready :: "'z proc_state_scheme \<Rightarrow> bool" where
  "sched_ready s \<longleftrightarrow> cpu_ok s \<and> depth s = 0 \<and> lock_free s LkPtable"

definition table_ok :: "proc list \<Rightarrow> bool" where
  "table_ok ps \<longleftrightarrow> (\<forall>p \<in> set ps. runnable p \<longrightarrow> has_space p \<and> prio p \<le> 20) \<and>
     length (filter runnable ps) \<le> 50"

lemma map_pstate_update: "pstate x = pstate (ps ! i) \<Longrightarrow> map pstate (ps[i := x]) = map pstate ps"
  by (metis list_update_id map_update)

lemma filter_runnable_length: "length (filter runnable ps) = length (filter (\<lambda>st. st = RUNNABLE) (map pstate ps))"
  by (induction ps) (auto simp: runnable_def)

lemma adjust_prio_simps [simp]:
  "pstate (adjust_prio a b p) = pstate p" "kstack (adjust_prio a b p) = kstack p"
  "pgdir (adjust_prio a b p) = pgdir p" "pid (adjust_prio a b p) = pid p"
  by (simp_all add: adjust_prio_def)

lemma adjust_prio_le:
  assumes "prio p \<le> n" and "10 \<le> n"
  shows "prio (adjust_prio a b p) \<le> n"
  using assms by (auto simp: adjust_prio_def word_le_nat_alt word_less_nat_alt unat_sub unat_word_ariths
      intro: order_trans [OF word_sub_le])

lemma table_ok_adjust:
  assumes "table_ok ps"
  shows "table_ok (ps[i := adjust_prio a b (ps ! i)])"
proof (cases "i < length ps")
  case True
  have "length (filter runnable (ps[i := adjust_prio a b (ps ! i)])) = length (filter runnable ps)"
    by (simp add: filter_runnable_length map_pstate_update)
  moreover have "runnable p \<longrightarrow> has_space p \<and> prio p \<le> 20" if "p \<in> set (ps[i := adjust_prio a b (ps ! i)])" for p
  proof -
    from that set_update_subset_insert have "p = adjust_prio a b (ps ! i) \<or> p \<in> set ps" by fastforce
    moreover have "ps ! i \<in> set ps" using True by simp
    ultimately show ?thesis
      using assms by (auto simp: table_ok_def runnable_def has_space_def adjust_prio_le)
  qed
  ultimately show ?thesis using assms by (simp add: table_ok_def)
qed (use assms in \<open>simp add: list_update_beyond\<close>)

lemma plist_length_le: "length (plist ps) \<le> length (filter runnable ps)"
proof -
  have "length (filter runnable ps) = length (filter (\<lambda>i. runnable (ps ! i)) [0..<length ps])"
    using filter_map [of runnable "(!) ps" "[0..<length ps]"] by (simp add: map_nth comp_def)
  moreover have "plist ps = filter (\<lambda>i. prio (ps ! i) = min_prio ps) (filter (\<lambda>i. runnable (ps ! i)) [0..<length ps])"
    by (simp add: plist_def runnable_def conj_commute)
  ultimately show ?thesis by (metis length_filter_le)
qed

lemma table_ok_pick:
  assumes "table_ok ps" and "list_ex runnable ps"
  obtains i where "sched_pick t ps = Inr i" and "i < length ps" and "runnable (ps ! i)" and "has_space (ps ! i)"
proof -
  obtain p where "p \<in> set ps" "runnable p" using assms(2) by (auto simp: list_ex_iff)
  then have "p \<in> set ps" "pstate p = RUNNABLE" "\<not> 20 < prio p"
    using assms(1) by (auto simp: table_ok_def runnable_def not_less)
  then have "plist ps \<noteq> []" using plist_empty [of ps] by blast
  moreover have "length (plist ps) \<le> 50"
    using plist_length_le [of ps] assms(1) by (simp add: table_ok_def)
  ultimately have *: "sched_pick t ps = Inr (plist ps ! (unat t mod length (plist ps)))"
    by (simp add: sched_pick_run)
  have "plist ps ! (unat t mod length (plist ps)) \<in> set (plist ps)" using \<open>plist ps \<noteq> []\<close> by simp
  then have "plist ps ! (unat t mod length (plist ps)) < length ps"
    and "runnable (ps ! (plist ps ! (unat t mod length (plist ps))))" by (simp_all add: in_plist runnable_def)
  with * that show thesis using assms(1) by (auto simp: table_ok_def)
qed

lemma table_ok_run: 
  assumes "table_ok ps"
  shows "table_ok (ps[i := (ps ! i)\<lparr>pstate := RUNNING\<rparr>])"
proof -
  have "length (filter runnable (ps[i := (ps ! i)\<lparr>pstate := RUNNING\<rparr>])) \<le> length (filter runnable ps)"
    by (induction ps arbitrary: i) (auto simp: runnable_def le_SucI split: nat.splits)
  moreover have "\<not> runnable ((ps ! i)\<lparr>pstate := RUNNING\<rparr>)" by (simp add: runnable_def)
  ultimately show ?thesis
    using assms set_update_subset_insert [of ps i "(ps ! i)\<lparr>pstate := RUNNING\<rparr>"] by (auto simp: table_ok_def)
qed

lemma scheduler_round_idle:
  assumes "sched_ready s" and "\<not> list_ex runnable (ptable s)"
  shows "scheduler_round c s = Ok () (touched (intr_on s))"
proof -
  have "sti s = Ok () (intr_on s)" by (simp add: sti_run intr_on_def)
  with assms show ?thesis by (simp add: scheduler_round_def sched_ready_def kthen_Ok)
qed

lemma scheduler_round_safe:
  "hoare (\<lambda>u. \<exists>i. resumed i u \<and> pstate (ptable u ! i) = RUNNING \<and> me u = c \<and> table_ok (ptable u))
     (\<lambda>u t. handed_back t \<and> me t = me u \<and> table_ok (ptable t)) (\<lambda>_. False)
     (\<lambda>s. sched_ready s \<and> me s = c \<and> table_ok (ptable s))
     (scheduler_round c)
     (\<lambda>_ s. sched_ready s \<and> me s = c \<and> table_ok (ptable s))"
proof (rule hoareI)
  fix s :: "'a proc_state_scheme"
  assume P: "sched_ready s \<and> me s = c \<and> table_ok (ptable s)"
  then have r: "cpu_ok s" "depth s = 0" "lock_free s LkPtable" by (simp_all add: sched_ready_def)
  show "sat (\<lambda>u. \<exists>i. resumed i u \<and> pstate (ptable u ! i) = RUNNING \<and> me u = c \<and> table_ok (ptable u))
     (\<lambda>u t. handed_back t \<and> me t = me u \<and> table_ok (ptable t)) (\<lambda>_. False)
     (\<lambda>_ s. sched_ready s \<and> me s = c \<and> table_ok (ptable s)) (scheduler_round c s)"
  proof (cases "list_ex runnable (ptable s)")
    case False
    with P show ?thesis by (simp add: scheduler_round_idle) (simp add: sched_ready_def)
  next
    case True
    with P obtain i where i: "sched_pick (ticks s) (ptable s) = Inr i" "i < length (ptable s)"
      "has_space (ptable s ! i)" using table_ok_pick by metis
    obtain k where k: "scheduler_round (me s) s = Switch (launched i (enter LkPtable (intr_on s))) k"
      "\<And>t. handed_back t \<Longrightarrow> me t = me s \<Longrightarrow> k t = Ok () (leave LkPtable (retired i (ticks s) t))"
      using scheduler_round_run [OF r i(1,3)] by blast
    let ?u = "launched i (enter LkPtable (intr_on s))"
    have "resumed i ?u \<and> pstate (ptable ?u ! i) = RUNNING \<and> me ?u = c \<and> table_ok (ptable ?u)"
      using r i(2) P by (simp add: resumed_def launched_def ptable_upd_proc table_ok_run)
    moreover have "sched_ready (leave LkPtable (retired i (ticks s) t)) \<and>
        me (leave LkPtable (retired i (ticks s) t)) = me t \<and> table_ok (ptable (leave LkPtable (retired i (ticks s) t)))"
      if "handed_back t" "table_ok (ptable t)" for t
      using that by (simp add: handed_back_def retired_def ptable_upd_proc sched_ready_def table_ok_adjust)
    ultimately show ?thesis using k P by auto
  qed
qed
text \<open>
  C3. The scheduler runs without a fault: started on a CPU with interrupts off and no lock held,
  on a table it can serve, any number of rounds ends without a panic, a trap, an overflow of
  \<open>plist\<close> or a deadlock, as long as the processes it runs hand the CPU back holding just
  ptable.lock and leave the table one it can serve. Each time it switches away, the process it
  switches to is the current one and RUNNING.
\<close>

theorem scheduler_safe:
  "hoare (\<lambda>u. \<exists>i. resumed i u \<and> pstate (ptable u ! i) = RUNNING \<and> me u = c \<and> table_ok (ptable u))
     (\<lambda>u t. handed_back t \<and> me t = me u \<and> table_ok (ptable t)) (\<lambda>_. False)
     (\<lambda>s. sched_ready s \<and> me s = c \<and> \<not> cur_IF s \<and> table_ok (ptable s))
     (scheduler n)
     (\<lambda>_ s. sched_ready s \<and> me s = c \<and> table_ok (ptable s))"
proof (rule hoareI)
  fix s :: "'a proc_state_scheme"
  let ?G = "\<lambda>u :: 'a proc_state_scheme. \<exists>i. resumed i u \<and> pstate (ptable u ! i) = RUNNING \<and> me u = c \<and> table_ok (ptable u)"
  let ?R = "\<lambda>(u :: 'a proc_state_scheme) t. handed_back t \<and> me t = me u \<and> table_ok (ptable t)"
  let ?I = "\<lambda>s :: 'a proc_state_scheme. sched_ready s \<and> me s = c \<and> table_ok (ptable s)"
  assume P: "sched_ready s \<and> me s = c \<and> \<not> cur_IF s \<and> table_ok (ptable s)"
  then have m: "mycpu s = Ok c s" by (auto simp: mycpu_run sched_ready_def cpu_ok_def me_def)
  have "upd_cpu c (\<lambda>q. q\<lparr>cpu_proc := None\<rparr>) s = set_cur None s" using P by (simp add: set_cur_def)
  moreover have "hoare ?G ?R (\<lambda>_. False) ?I (kfor [0..<n] (\<lambda>_. scheduler_round c)) (\<lambda>_. ?I)"
    by (rule hoare_kfor) (rule scheduler_round_safe)
  moreover have "?I (set_cur None s)" using P by (simp add: sched_ready_def)
  ultimately show "sat ?G ?R (\<lambda>_. False) (\<lambda>_. ?I) (scheduler n s)"
    using m hoareD by (fastforce simp: scheduler_def kbind_Ok)
qed

text \<open>
  The candidates of a round, as the scheduler means them: the runnable processes with a priority
  of at most 20 that no other runnable process beats.
\<close>

definition candidates :: "proc list \<Rightarrow> nat set" where
  "candidates ps = {i. i < length ps \<and> pstate (ps ! i) = RUNNABLE \<and> prio (ps ! i) \<le> 20 \<and>
     (\<forall>j < length ps. pstate (ps ! j) = RUNNABLE \<longrightarrow> prio (ps ! i) \<le> prio (ps ! j))}"

lemma set_plist: "set (plist ps) = candidates ps"
proof (intro set_eqI iffI)
  fix i assume "i \<in> set (plist ps)"
  then show "i \<in> candidates ps" using min_prio_20 [of ps] by (auto simp: in_plist candidates_def intro: min_prio_le)
next
  fix i assume i: "i \<in> candidates ps"
  then have p: "ps ! i \<in> set ps" "pstate (ps ! i) = RUNNABLE" "prio (ps ! i) \<le> 20" by (auto simp: candidates_def)
  then obtain j where "j < length ps" "pstate (ps ! j) = RUNNABLE" "prio (ps ! j) = min_prio ps"
    using min_prio_attained [of "ps ! i" ps] by (auto simp: in_set_conv_nth)
  with i p min_prio_le [OF p(1,2)] show "i \<in> set (plist ps)" by (fastforce simp: in_plist candidates_def)
qed

lemma plist_sorted: "sorted (plist ps)" "distinct (plist ps)"
  by (simp_all add: plist_def sorted_wrt_filter)

lemma card_candidates: "card (candidates ps) = length (plist ps)"
  using distinct_card [OF plist_sorted(2)] by (simp add: set_plist)

lemma scheduler_round_pick_fails:
  assumes "cpu_ok s" and "depth s = 0" and "lock_free s LkPtable" and "list_ex runnable (ptable s)"
    and "sched_pick (ticks s) (ptable s) = Inl e"
  shows "scheduler_round c s = Fail e"
proof -
  have "sti s = Ok () (intr_on s)" by (simp add: sti_run intr_on_def)
  with assms show ?thesis by (simp add: scheduler_round_def kthen_Ok)
qed

lemma sorted_rank:
  assumes "sorted xs" and "distinct xs" and "k < length (xs :: nat list)"
  shows "card {j \<in> set xs. j < xs ! k} = k"
proof -
  have lt: "xs ! i < xs ! k \<longleftrightarrow> i < k" if "i < length xs" for i
    using assms that sorted_nth_mono [OF assms(1)] nth_eq_iff_index_eq [OF assms(2)]
    by (metis leD le_neq_implies_less nat_le_linear nat_less_le)
  have "j \<in> set xs \<and> j < xs ! k \<longleftrightarrow> j \<in> (!) xs ` {0..<k}" for j
  proof
    assume "j \<in> set xs \<and> j < xs ! k"
    then obtain i where "i < length xs" "j = xs ! i" "j < xs ! k" by (auto simp: in_set_conv_nth)
    then show "j \<in> (!) xs ` {0..<k}" using lt [of i] by simp
  next
    assume "j \<in> (!) xs ` {0..<k}"
    then obtain i where "i < k" "j = xs ! i" by auto
    then show "j \<in> set xs \<and> j < xs ! k" using lt [of i] assms(3) by simp
  qed
  then have "{j \<in> set xs. j < xs ! k} = set (take k xs)"
    using nth_image [of k xs] assms(3) by auto
  then show ?thesis using assms distinct_card [OF distinct_take [OF assms(2), of k]] by simp
qed

lemma sched_pick_candidate:
  assumes "0 < card (candidates ps)" and "card (candidates ps) \<le> 50"
  obtains i where "sched_pick t ps = Inr i" and "i \<in> candidates ps"
    and "card {j \<in> candidates ps. j < i} = unat t mod card (candidates ps)"
proof -
  let ?k = "unat t mod length (plist ps)"
  have k: "?k < length (plist ps)" using assms(1) by (simp add: card_candidates)
  have "sched_pick t ps = Inr (plist ps ! ?k)" using assms by (intro sched_pick_run) (simp_all add: card_candidates)
  then show thesis
    using that sorted_rank [OF plist_sorted k] nth_mem [OF k] by (simp add: set_plist card_candidates)
qed

text \<open>
  C27. One round of scheduler() on every branch. With no runnable process it only takes and releases
  ptable.lock. With runnable processes, but all of them of a priority above 20, it ends in the
  divide error of \<open>ticks % idx\<close>. With more than 50 candidates (runnable processes of the best priority) it
  writes past the end of \<open>plist\<close>. Otherwise it switches to a candidate, RUNNING and current on this
  CPU, and to which one the clock decides: in the order of the table it is the candidate number
  \<open>ticks\<close> modulo their number.
\<close>

theorem scheduler_round_outcomes:
  assumes "cpu_ok s" and "depth s = 0" and "lock_free s LkPtable"
    and "\<forall>p \<in> set (ptable s). pstate p = RUNNABLE \<longrightarrow> kstack p \<noteq> 0 \<and> pgdir p \<noteq> 0"
  shows "((\<forall>p \<in> set (ptable s). pstate p \<noteq> RUNNABLE) \<longrightarrow>
      scheduler_round (me s) s = Ok () (touched (intr_on s))) \<and>
    ((\<exists>p \<in> set (ptable s). pstate p = RUNNABLE) \<and> candidates (ptable s) = {} \<longrightarrow>
      scheduler_round (me s) s = Fail DivideError) \<and>
    (50 < card (candidates (ptable s)) \<longrightarrow> scheduler_round (me s) s = Fail (OutOfBounds ''plist'')) \<and>
    (0 < card (candidates (ptable s)) \<and> card (candidates (ptable s)) \<le> 50 \<longrightarrow>
      (\<exists>u k i. scheduler_round (me s) s = Switch u k \<and> resumed i u \<and> pstate (ptable u ! i) = RUNNING \<and>
        i \<in> candidates (ptable s) \<and>
        card {j \<in> candidates (ptable s). j < i} = unat (ticks s) mod card (candidates (ptable s))))"
proof (intro conjI impI)
  have r: "sched_ready s" using assms(1-3) by (simp add: sched_ready_def)
  show "scheduler_round (me s) s = Ok () (touched (intr_on s))" if "\<forall>p \<in> set (ptable s). pstate p \<noteq> RUNNABLE"
    by (rule scheduler_round_idle [OF r]) (use that in \<open>auto simp: list_ex_iff runnable_def\<close>)
  have fails: "scheduler_round (me s) s = Fail e" if "list_ex runnable (ptable s)" "sched_pick (ticks s) (ptable s) = Inl e" for e
    by (rule scheduler_round_pick_fails [OF assms(1-3) that])
  show "scheduler_round (me s) s = Fail DivideError"
    if "(\<exists>p \<in> set (ptable s). pstate p = RUNNABLE) \<and> candidates (ptable s) = {}"
    by (rule fails) (use that in \<open>auto simp: list_ex_iff runnable_def sched_pick_def set_plist [symmetric]\<close>)
  show "scheduler_round (me s) s = Fail (OutOfBounds ''plist'')" if c: "50 < card (candidates (ptable s))"
  proof (rule fails)
    have "candidates (ptable s) \<noteq> {}" using c by auto
    then show "list_ex runnable (ptable s)" by (auto simp: candidates_def list_ex_iff runnable_def)
  qed (use c in \<open>simp add: sched_pick_def card_candidates\<close>)
  assume c: "0 < card (candidates (ptable s)) \<and> card (candidates (ptable s)) \<le> 50"
  then obtain i where i: "sched_pick (ticks s) (ptable s) = Inr i" "i \<in> candidates (ptable s)"
    "card {j \<in> candidates (ptable s). j < i} = unat (ticks s) mod card (candidates (ptable s))"
    by (elim conjE) (erule (1) sched_pick_candidate)
  then have l: "i < length (ptable s)" and "has_space (ptable s ! i)"
    using assms(4) by (auto simp: candidates_def has_space_def)
  then obtain k where k: "scheduler_round (me s) s = Switch (launched i (enter LkPtable (intr_on s))) k"
    using scheduler_round_run [OF assms(1-3) i(1)] by metis
  moreover have "resumed i (launched i (enter LkPtable (intr_on s)))"
    "pstate (ptable (launched i (enter LkPtable (intr_on s))) ! i) = RUNNING"
    using assms(1-3) l by (simp_all add: resumed_def launched_def ptable_upd_proc)
  ultimately show "\<exists>u k i. scheduler_round (me s) s = Switch u k \<and> resumed i u \<and> pstate (ptable u ! i) = RUNNING \<and>
        i \<in> candidates (ptable s) \<and>
        card {j \<in> candidates (ptable s). j < i} = unat (ticks s) mod card (candidates (ptable s))"
    using i(2,3) by blast
qed


lemma starving_pick:
  assumes "j < length ps" and "runnable (ps ! j)" and "prio (ps ! j) = 0" and "sched_pick t ps = Inr k"
  shows "prio (ps ! k) = 0 \<and> runnable (ps ! k) \<and> k < length ps"
proof -
  from assms(4) have n: "0 < length (plist ps)" "length (plist ps) \<le> 50"
    by (auto simp: sched_pick_def Let_def split: if_splits)
  then have "k = plist ps ! (unat t mod length (plist ps))" using assms(4) by (simp add: sched_pick_run)
  with n(1) have "k \<in> set (plist ps)" by simp
  moreover have "min_prio ps = 0"
    using min_prio_le [of "ps ! j" ps] assms by (simp add: runnable_def)
  ultimately show ?thesis by (simp add: in_plist runnable_def)
qed

text \<open>
  C29. There is no aging: if a runnable process of priority 0 keeps giving up the CPU within the
  clock tick it was given it in, then over any number of rounds every process of a larger
  priority number, though runnable, is never switched to, and the table, its priorities included,
  is the same at the end.
\<close>

theorem scheduler_starves:
  fixes ps :: "proc list"
  assumes "j < length ps" and "runnable (ps ! j)" and "prio (ps ! j) = 0" and "table_ok ps"
  shows "hoare
     (\<lambda>u. \<exists>i. cur_proc u = Some i \<and> prio (ps ! i) = 0 \<and> ptable u = ps[i := (ps ! i)\<lparr>pstate := RUNNING\<rparr>])
     (\<lambda>u t. handed_back t \<and> me t = me u \<and> ticks t = ticks u \<and>
        ptable t = map (\<lambda>p. if pstate p = RUNNING then p\<lparr>pstate := RUNNABLE\<rparr> else p) (ptable u))
     (\<lambda>_. False)
     (\<lambda>s. sched_ready s \<and> me s = c \<and> ptable s = ps \<and> (\<forall>p \<in> set ps. pstate p \<noteq> RUNNING))
     (kfor [0..<n] (\<lambda>_. scheduler_round c))
     (\<lambda>_ s. sched_ready s \<and> me s = c \<and> ptable s = ps \<and> (\<forall>p \<in> set ps. pstate p \<noteq> RUNNING))"
proof (rule hoare_kfor, rule hoareI)
  fix s :: "'a proc_state_scheme"
  let ?G = "\<lambda>u :: 'a proc_state_scheme. \<exists>i. cur_proc u = Some i \<and> prio (ps ! i) = 0 \<and>
    ptable u = ps[i := (ps ! i)\<lparr>pstate := RUNNING\<rparr>]"
  let ?R = "\<lambda>(u :: 'a proc_state_scheme) t. handed_back t \<and> me t = me u \<and> ticks t = ticks u \<and>
        ptable t = map (\<lambda>p. if pstate p = RUNNING then p\<lparr>pstate := RUNNABLE\<rparr> else p) (ptable u)"
  let ?I = "\<lambda>s :: 'a proc_state_scheme. sched_ready s \<and> me s = c \<and> ptable s = ps \<and> (\<forall>p \<in> set ps. pstate p \<noteq> RUNNING)"
  assume P: "?I s"
  then have r: "cpu_ok s" "depth s = 0" "lock_free s LkPtable" by (simp_all add: sched_ready_def)
  have "list_ex runnable ps" using assms(1,2) by (auto simp: list_ex_iff)
  then obtain i where i: "sched_pick (ticks s) (ptable s) = Inr i" "has_space (ptable s ! i)"
    using table_ok_pick [OF assms(4)] P by metis
  then have z: "prio (ps ! i) = 0" "runnable (ps ! i)" "i < length ps"
    using starving_pick [OF assms(1-3)] P by blast+
  obtain k where k: "scheduler_round (me s) s = Switch (launched i (enter LkPtable (intr_on s))) k"
    "\<And>t. handed_back t \<Longrightarrow> me t = me s \<Longrightarrow> k t = Ok () (leave LkPtable (retired i (ticks s) t))"
    using scheduler_round_run [OF r i] by blast
  let ?u = "launched i (enter LkPtable (intr_on s))"
  have u: "cur_proc ?u = Some i" "ptable ?u = ps[i := (ps ! i)\<lparr>pstate := RUNNING\<rparr>]" "ticks ?u = ticks s" "me ?u = me s"
    using r P by (simp_all add: launched_def ptable_upd_proc) (simp add: upd_proc_def)
  have bk: "map (\<lambda>p. if pstate p = RUNNING then p\<lparr>pstate := RUNNABLE\<rparr> else p) (ps[i := (ps ! i)\<lparr>pstate := RUNNING\<rparr>]) = ps"
    using P z(2,3) by (intro nth_equalityI) (auto simp: nth_list_update runnable_def)
  have adj: "adjust_prio a a (ps ! i) = ps ! i" for a using z(1) by (simp add: adjust_prio_def)
  have "?I (leave LkPtable (retired i (ticks s) t))" if "?R ?u t" for t
    using that P u bk adj by (simp add: handed_back_def retired_def ptable_upd_proc sched_ready_def)
  with u z(1) k P show "sat ?G ?R (\<lambda>_. False) (\<lambda>_. ?I) (scheduler_round c s)" by auto
qed

end
