(* ===== verification/Examples.thy ===== *)
theory Examples
  imports Scheduler
begin

text \<open>
  A concrete machine at which the theorems of the kernel core are applied: one CPU with APIC id 0
  and interrupts on, all locks free, one free page, a clock that stands still, and a process table
  given as an argument.
\<close>

section \<open>A machine with one CPU\<close>

definition ex_cpu :: cpu where
  "ex_cpu = \<lparr>apicid = 0, cpu_ts = \<lparr>esp0 = 0, ss0 = 0, iomb = 0\<rparr>, gdt = [], started = True, ncli = 0,
     intena = False, cpu_proc = Some 0\<rparr>"

definition ex_lock :: spinlock where
  "ex_lock = \<lparr>locked = False, lk_name = '''', lk_cpu = None\<rparr>"

definition ex_tf :: trapframe where
  "ex_tf = \<lparr>tf_edi = 0, tf_esi = 0, tf_ebp = 0, tf_oesp = 0, tf_ebx = 0, tf_edx = 0, tf_ecx = 0, tf_eax = 0,
     tf_gs = 0, tf_fs = 0, tf_es = 0, tf_ds = 0, tf_trapno = 0, tf_err = 0, tf_eip = 0, tf_cs = 0,
     tf_eflags = 0, tf_esp = 0, tf_ss = 0\<rparr>"

definition ex_proc :: "procstate \<Rightarrow> int \<Rightarrow> uint \<Rightarrow> nat option \<Rightarrow> proc" where
  "ex_proc st p pr par = \<lparr>sz = 0, pgdir = 0x80400000, kstack = 0x80300000, pstate = st, pid = p, parent = par,
     tf = ex_tf, tf_at = 0, context_at = 0, chan = None, killed = False, ofile = replicate 16 None,
     cwd = None, pname = replicate 16 0, prio = pr\<rparr>"

definition ex_page :: uint where "ex_page = 0x80200000"

definition ex_state :: "proc list \<Rightarrow> proc_state" where
  "ex_state ps = \<lparr>cpus = [ex_cpu], ncpu = 1, lapic_id = 0, eflags_IF = (\<lambda>_. True), cr3 = (\<lambda>_. 0), tr = (\<lambda>_. 0), gdt_loaded = (\<lambda>_. None),
     locks = (\<lambda>_. ex_lock), mem = (\<lambda>_. 0), ticks = 7, rtc_dev = (\<lambda>_ _. 0), rtc_now = 0,
     port_in = (\<lambda>_ _. 0x40), port_now = 0, port_out = [], patience = 8,
     use_lock = True, freelist = ex_page, kernel_end = 0x80100000,
     kpgdir = 0x80500000, sym_data = 0x80108000, sym_ts = (\<lambda>_. 0x80110000),
     ptable = ps, initproc = None, nextpid = 5, sym_trapret = 0x80105000, sym_forkret = 0x80103000,
     forkret_first = False\<rparr>"

lemma ex_state_simps [simp]:
  "cpu_at (ex_state ps) = Some 0" "me (ex_state ps) = 0" "depth (ex_state ps) = 0" "cur_IF (ex_state ps)"
  "cpu_ok (ex_state ps)" "lock_free (ex_state ps) l" "\<not> lock_mine (ex_state ps) l" "kmem_ready (ex_state ps)"
  "cur_proc (ex_state ps) = Some 0" "ptable (ex_state ps) = ps" "ticks (ex_state ps) = 7"
  "freelist (ex_state ps) = ex_page" "nextpid (ex_state ps) = 5" "lapic_id (ex_state ps) = 0"
  "kernel_end (ex_state ps) = 0x80100000" "use_lock (ex_state ps)" "locks (ex_state ps) = (\<lambda>_. ex_lock)"
  by (simp_all add: ex_state_def frame_defs ex_cpu_def ex_lock_def kmem_ready_def cur_proc_def)

lemma ex_proc_simps [simp]:
  "pstate (ex_proc st p pr par) = st" "pid (ex_proc st p pr par) = p" "prio (ex_proc st p pr par) = pr"
  "parent (ex_proc st p pr par) = par" "has_space (ex_proc st p pr par)" "runnable (ex_proc st p pr par) = (st = RUNNABLE)"
  "killed (ex_proc st p pr par) = False" "chan (ex_proc st p pr par) = None"
  by (simp_all add: ex_proc_def has_space_def runnable_def)

lemma ex_free_list: "free_list (ex_state ps) [ex_page]"
  by (simp add: free_list_def page_ok_def ex_page_def PGSIZE_def V2P_def KERNBASE_def PHYSTOP_def)
    (simp add: ex_state_def load32_def)

lemma ex_clock: "\<exists>d t'. cmostimess (rtc_dev (ex_state ps)) (rtc_now (ex_state ps)) = Some (d, t')"
proof -
  let ?r = "\<lparr>second = 0, minute = 0, hour = 0, day = 0, month = 0, year = 0\<rparr> :: rtcdate"
  have "steady (\<lambda>_ _. 0) 1 ?r" by (simp add: steady_def fill_rtcdate_def cmos_read_def)
  then have "cmos_settless (\<lambda>_ _. 0) 1 = Some (?r, 14)" using cmos_settless_steady_now by fastforce
  then show ?thesis by (simp add: cmostimess_def ex_state_def Let_def)
qed

section \<open>The theorems of the core at this machine\<close>

theorem pushcli_popcli_nest_witness:
  "\<exists>t. kthen (kfor [0..<3] (\<lambda>_. pushcli)) (kfor [0..<3] (\<lambda>_. popcli)) (ex_state []) = Ok () t \<and>
    depth t = 0 \<and> cur_IF t"
  using pushcli_popcli_nest [of "ex_state []" 3 3] by simp

theorem acquire_release_balanced_witness:
  "\<exists>t u. acquire LkKmem (ex_state []) = Ok () t \<and> lock_mine t LkKmem \<and> \<not> cur_IF t \<and>
    release LkKmem t = Ok () u \<and> cur_IF u"
  using acquire_release_balanced [of "ex_state []" LkKmem] ex_state_simps by blast

theorem acquire_release_errors_witness:
  "release LkKmem (ex_state []) = Fail (Panic ''release'') \<and>
   acquire LkKmem (enter LkKmem (ex_state [])) = Fail (Panic ''acquire'')"
  using acquire_release_errors [of "ex_state []" LkKmem]
    acquire_release_errors [of "enter LkKmem (ex_state [])" LkKmem] by simp

text \<open>CPU 0 has won the exchange; CPU 1 has then called release() and stopped in its panic.\<close>

definition ex_won :: lock_sys where
  "ex_won = lock_next 0 (lock_next 0 (lock_goto 0 (LHold1 ByAcquire) lock_init))"

definition ex_locked :: lock_sys where
  "ex_locked = lock_next 1 (lock_next 1 (lock_goto 1 (LHold1 ByRelease) ex_won))"

lemma ex_won_eq: "ex_won = \<lparr>l_locked = True, l_cpu = None, l_pc = (\<lambda>_. LIdle)(0 := LGot), l_own = (\<lambda>_. False)(0 := True)\<rparr>"
  by (simp add: ex_won_def lock_next_def lock_goto_def lock_init_def)

lemma ex_locked_reach: "lock_reach ex_locked"
proof -
  have "lock_reach (lock_goto 0 (LHold1 ByAcquire) lock_init)"
    using lr_init by (rule lr_step) (rule lock_call, simp add: lock_init_def)
  then have "lock_reach ex_won" unfolding ex_won_def by (intro lr_step [OF _ lock_access])
  then have "lock_reach (lock_goto 1 (LHold1 ByRelease) ex_won)"
    by (rule lr_step) (rule lock_call, simp add: ex_won_eq)
  then show ?thesis unfolding ex_locked_def by (intro lr_step [OF _ lock_access])
qed

theorem spinlock_mutual_exclusion_witness:
  "lock_reach ex_locked \<and> l_own ex_locked 0 \<and> l_pc ex_locked 1 = LPanic ByRelease \<and> \<not> l_own ex_locked 1"
proof -
  have "l_own ex_locked 0" "l_pc ex_locked 1 = LPanic ByRelease"
    by (simp_all add: ex_locked_def ex_won_eq lock_next_def lock_goto_def)
  then show ?thesis using spinlock_mutual_exclusion [OF ex_locked_reach, of 1 0] ex_locked_reach by blast
qed

theorem lock_next_refines_witness:
  "(lock_next 0 ^^ 4) (lock_view LkKmem ((\<lambda>_. LIdle)(0 := LHold1 ByAcquire)) (\<lambda>_. False) (ex_state [])) =
     lock_view LkKmem (\<lambda>_. LIdle) ((\<lambda>_. False)(0 := True)) (enter LkKmem (ex_state [])) \<and>
   (lock_next 0 ^^ 4) (lock_view LkKmem ((\<lambda>_. LIdle)(0 := LHold1 ByRelease)) (\<lambda>_. False) (ex_state [])) =
     lock_view LkKmem ((\<lambda>_. LIdle)(0 := LPanic ByRelease)) (\<lambda>_. False) (ex_state [])"
proof -
  have r: "release LkKmem (ex_state []) = Fail (Panic ''release'')" by (simp add: release_def kbind_Ok [of "holding LkKmem", OF holding_run])
  have i: "(\<lambda>_. LIdle)(0 := LIdle) = (\<lambda>_ :: nat. LIdle)" by (simp add: fun_eq_iff)
  show ?thesis
    using lock_next_refines [of "ex_state []" LkKmem "\<lambda>_. LIdle" "\<lambda>_. False"] by (simp add: r i del: fun_upd_triv)
qed

theorem memmove_eq_witness:
  "memmove (\<lambda>x. ucast x) 0x102 0x100 4 0x104 = 0x02"
  using memmove_eq [where src = "0x100" and n = 4 and dst = "0x102" and m = "\<lambda>x. ucast x"] by (simp add: in_region_def)

theorem safestrcpy_terminates_string_witness:
  "safestrcpy (\<lambda>_. 65) 0x100 0x200 3 0x102 = 0"
proof -
  have "apart 0x100 0x200 (nat 3)" by (simp add: apart_def in_region_def all_less_Suc_shift numeral_3_eq_3)
  then show ?thesis
    using safestrcpy_terminates_string [where n = 3 and s = "0x100" and t = "0x200" and m = "\<lambda>_. 65"] by auto
qed

theorem kalloc_kfree_stack_witness:
  "\<exists>t. kalloc (ex_state []) = Ok ex_page t \<and> free_list t []"
  using kalloc_kfree_stack [OF _ ex_free_list, of "[]"] by auto

theorem kfree_rejects_witness: "kfree 0x80200001 (ex_state []) = Fail (Panic ''kfree'')"
  by (rule kfree_rejects) (simp add: PGSIZE_def)

theorem pages_conserved_witness:
  "\<exists>s' fl'. kp.run [OpAlloc] [] (ex_state []) = Some ([ex_page], s') \<and> free_list s' fl' \<and> distinct (ex_page # fl')"
proof -
  obtain t where t: "kalloc (ex_state []) = Ok ex_page t" using kalloc_free_list [OF _ ex_free_list, of "[]"] by auto
  then have "kp.run [OpAlloc] [] (ex_state []) = Some ([ex_page], t)" by (simp add: ex_page_def)
  with pages_conserved [OF _ ex_free_list _ _ this] show ?thesis by fastforce
qed

theorem freerange_frees_range_witness:
  "\<exists>t. freerange 0x80300001 0x80302000 (ex_state []) = Ok () t \<and> free_list t [0x80301000, ex_page]"
proof -
  have "PGROUNDUP 0x80300001 = 0x80301000" by (simp add: PGROUNDUP_def PGSIZE_def)
  then show ?thesis
    using freerange_frees_range [of "ex_state []" "[ex_page]" "0x80301000" "0x80300001" 1 "0x80302000"] ex_free_list
    by (simp add: page_seq_def page_ok_def ex_page_def PGSIZE_def V2P_def KERNBASE_def PHYSTOP_def)
qed

theorem cmostimess_snapshot_witness: "\<exists>r. cmostimess (\<lambda>_ _. 0) 0 = Some (r, 14)"
proof -
  let ?r = "\<lparr>second = 0, minute = 0, hour = 0, day = 0, month = 0, year = 0\<rparr> :: rtcdate"
  have "steady (\<lambda>_ _. 0) (0 + 1) ?r" by (simp add: steady_def fill_rtcdate_def cmos_read_def)
  then show ?thesis using cmostimess_snapshot [of "\<lambda>_ _. 0" 0 ?r 0 ?r] by simp
qed

text \<open>The caller runs in slot 0; slot 1 is its child; slots 2 and 3 are free.\<close>

definition ex_table :: "proc list" where
  "ex_table = [ex_proc RUNNING 1 3 None, ex_proc RUNNABLE 2 4 (Some 0), ex_proc UNUSED 0 0 None, ex_proc UNUSED 0 0 None]"

theorem sleep_no_lost_wakeup_witness:
  "(\<exists>t. kfor (take 2 (sleep_steps 0 ChTicks LkTicks)) (\<lambda>m. m) (enter LkTicks (ex_state ex_table)) = Ok () t \<and>
     (\<forall>w :: proc_state. cpu_ok w \<and> me w \<noteq> 0 \<and> locks w = locks t \<longrightarrow>
       kthen (acquire LkTicks) (wakeup ChTicks) w \<in> {Fail (Spin LkTicks), Fail (Spin LkPtable)})) \<and>
   (\<exists>u k. kthen (acquire LkTicks) (sleep ChTicks (Some LkTicks)) (ex_state ex_table) = Switch u k \<and>
     pstate (ptable u ! 0) = SLEEPING \<and> chan (ptable u ! 0) = Some ChTicks)"
proof -
  have h: "cpu_ok (ex_state ex_table)" "depth (ex_state ex_table) = 0" "lock_free (ex_state ex_table) LkPtable"
    "lock_free (ex_state ex_table) LkTicks" "LkTicks \<noteq> LkPtable" "cur_proc (ex_state ex_table) = Some 0"
    "0 < length (ptable (ex_state ex_table))" by (simp_all add: ex_table_def)
  have n: "2 \<le> length (sleep_steps 0 ChTicks LkTicks :: (proc_state, unit) kM list)" by (simp add: sleep_steps_def)
  note w = sleep_no_lost_wakeup [OF h, of ChTicks]
  show ?thesis
  proof
    show "\<exists>t. kfor (take 2 (sleep_steps 0 ChTicks LkTicks)) (\<lambda>m. m) (enter LkTicks (ex_state ex_table)) = Ok () t \<and>
       (\<forall>w :: proc_state. cpu_ok w \<and> me w \<noteq> 0 \<and> locks w = locks t \<longrightarrow>
         kthen (acquire LkTicks) (wakeup ChTicks) w \<in> {Fail (Spin LkTicks), Fail (Spin LkPtable)})"
      using conjunct1 [OF w, rule_format, OF n] by (simp only: ex_state_simps(2))
    show "\<exists>u k. kthen (acquire LkTicks) (sleep ChTicks (Some LkTicks)) (ex_state ex_table) = Switch u k \<and>
       pstate (ptable u ! 0) = SLEEPING \<and> chan (ptable u ! 0) = Some ChTicks"
      using conjunct2 [OF w] by blast
  qed
qed

theorem wakeup_exact_witness:
  "\<exists>t. wakeup ChTicks (ex_state ex_table) = Ok () t \<and> ptable t ! 1 = ex_proc RUNNABLE 2 4 (Some 0)"
  using wakeup_exact [of "ex_state ex_table" ChTicks] by (auto simp: ex_table_def)

theorem sched_checks_witness: "sched (ex_state ex_table) = Fail (Panic ''sched ptable.lock'')"
  using sched_checks [of "ex_state ex_table" 0] by simp

theorem kill_effect_witness: "\<exists>t. kill 2 (ex_state ex_table) = Ok 0 t \<and> killed (ptable t ! 1)"
  using kill_effect [of "ex_state ex_table" 2 1] by (auto simp: ex_table_def)

theorem sp_sets_priority_witness:
  "\<exists>u k. sp 2 21 (ex_state ex_table) = Switch u k \<and> prio (ptable u ! 1) = 21 \<and> prio (ptable u ! 0) = 3"
  using sp_sets_priority [of "ex_state ex_table" 0 2 21 1] by (auto simp: ex_table_def)

theorem allocproc_outcomes_witness:
  "\<exists>t. allocproc (ex_state ex_table) = Ok (Some 2) t \<and> pstate (ptable t ! 2) = EMBRYO \<and> pid (ptable t ! 2) = 5"
proof -
  obtain d t' where "cmostimess (rtc_dev (ex_state ex_table)) (rtc_now (ex_state ex_table)) = Some (d, t')"
    using ex_clock by blast
  with allocproc_outcomes [of "ex_state ex_table" d t' 2] show ?thesis
    by (auto simp: ex_table_def ex_page_def)
qed

theorem kill_0_born_killed_witness:
  "\<exists>t u. kill 0 (ex_state ex_table) = Ok 0 t \<and> allocproc t = Ok (Some 2) u \<and> killed (ptable u ! 2)"
proof -
  obtain d t' where "cmostimess (rtc_dev (ex_state ex_table)) (rtc_now (ex_state ex_table)) = Some (d, t')"
    using ex_clock by blast
  with kill_0_born_killed [of "ex_state ex_table" d t' 2] show ?thesis
    by (auto simp: ex_table_def ex_page_def)
qed

theorem wait_without_zombie_witness:
  "\<exists>u k. wait 1 (ex_state ex_table) = Switch u k \<and> pstate (ptable u ! 0) = SLEEPING"
  using wait_without_zombie [of "ex_state ex_table" 0 0] by (auto simp: ex_table_def)

section \<open>The scheduler's theorems\<close>

text \<open>Three runnable processes, two of them of the best priority.\<close>

definition ex_ready :: "proc list" where
  "ex_ready = [ex_proc RUNNABLE 1 3 None, ex_proc RUNNABLE 2 0 None, ex_proc RUNNABLE 3 0 None, ex_proc UNUSED 0 0 None]"

lemma ex_ready_min: "min_prio ex_ready = 0" "plist ex_ready = [1, 2]"
proof -
  show m: "min_prio ex_ready = 0" by (simp add: min_prio_def ex_ready_def)
  have l: "[0..<length ex_ready] = [0, 1, 2, 3]" by (simp add: ex_ready_def upt_rec)
  show "plist ex_ready = [1, 2]" unfolding plist_def m l by (simp add: ex_ready_def)
qed

lemma ex_pick: "sched_pick 7 ex_ready = Inr 2"
  by (simp add: sched_pick_def ex_ready_min Let_def)

theorem sched_pick_best_witness: "sched_pick 7 ex_ready = Inr 2 \<and> prio (ex_ready ! 2) \<le> prio (ex_ready ! 0)"
  using sched_pick_best [OF ex_pick] ex_pick by (auto simp: ex_ready_def)

lemma ex_candidates: "candidates ex_ready = {1, 2}"
  using set_plist [of ex_ready] by (simp add: ex_ready_min)

theorem scheduler_round_outcomes_witness:
  "\<exists>u k. scheduler_round 0 (ex_state ex_ready) = Switch u k \<and> resumed 2 u"
proof -
  have sp: "\<forall>p \<in> set (ptable (ex_state ex_ready)). pstate p = RUNNABLE \<longrightarrow> kstack p \<noteq> 0 \<and> pgdir p \<noteq> 0"
    by (simp add: ex_ready_def ex_proc_def)
  have c: "candidates (ptable (ex_state ex_ready)) = {1, 2}" "card {1, 2 :: nat} = 2" by (simp_all add: ex_candidates)
  have "\<exists>u k i. scheduler_round (me (ex_state ex_ready)) (ex_state ex_ready) = Switch u k \<and> resumed i u \<and>
      pstate (ptable u ! i) = RUNNING \<and> i \<in> {1, 2} \<and> card {j \<in> {1, 2}. j < i} = unat (ticks (ex_state ex_ready)) mod 2"
    using scheduler_round_outcomes [of "ex_state ex_ready", OF _ _ _ sp, unfolded c] by simp
  then obtain u k i where u: "scheduler_round 0 (ex_state ex_ready) = Switch u k" "resumed i u"
    "i = 1 \<or> i = 2" "card {j \<in> {1, 2}. j < i} = 1" by auto
  have "{j \<in> {1, 2}. j < (1 :: nat)} = {}" by auto
  then have "i \<noteq> 1" using u(4) by (metis card.empty zero_neq_one)
  with u show ?thesis by auto
qed

theorem scheduler_round_switch_witness:
  "\<exists>u k. scheduler_round 0 (ex_state ex_ready) = Switch u k \<and> resumed 2 u"
  using scheduler_round_switch [of "ex_state ex_ready" 2] ex_pick by (auto simp: ex_ready_def)


lemma ex_table_ok: "table_ok ex_ready"
  by (simp add: table_ok_def ex_ready_def)

theorem scheduler_safe_witness:
  "sat (\<lambda>u. \<exists>i. resumed i u \<and> pstate (ptable u ! i) = RUNNING \<and> me u = 0 \<and> table_ok (ptable u))
     (\<lambda>u t. handed_back t \<and> me t = me u \<and> table_ok (ptable t)) (\<lambda>_. False)
     (\<lambda>_ s. sched_ready s \<and> me s = 0 \<and> table_ok (ptable s))
     (scheduler 5 ((ex_state ex_ready)\<lparr>eflags_IF := (\<lambda>_. False)\<rparr>))"
  by (rule hoareD [OF scheduler_safe])
    (simp add: ex_table_ok, simp add: sched_ready_def ex_state_def frame_defs ex_cpu_def ex_lock_def ex_table_ok)

theorem scheduler_starves_witness:
  "sat (\<lambda>u. \<exists>i. cur_proc u = Some i \<and> prio (ex_ready ! i) = 0 \<and> ptable u = ex_ready[i := (ex_ready ! i)\<lparr>pstate := RUNNING\<rparr>])
     (\<lambda>u t. handed_back t \<and> me t = me u \<and> ticks t = ticks u \<and>
        ptable t = map (\<lambda>p. if pstate p = RUNNING then p\<lparr>pstate := RUNNABLE\<rparr> else p) (ptable u))
     (\<lambda>_. False)
     (\<lambda>_ s. sched_ready s \<and> me s = 0 \<and> ptable s = ex_ready \<and> (\<forall>p \<in> set ex_ready. pstate p \<noteq> RUNNING))
     (kfor [0..<5] (\<lambda>_. scheduler_round 0) (ex_state ex_ready))"
proof (rule hoareD [OF scheduler_starves])
  show "(1 :: nat) < length ex_ready" "runnable (ex_ready ! 1)" "prio (ex_ready ! 1) = 0" by (simp_all add: ex_ready_def)
qed (simp_all add: ex_table_ok sched_ready_def, simp add: ex_ready_def)

end
