(* ===== verification/Sleeplock.thy ===== *)
theory Sleeplock
  imports Proc
begin

text \<open>
  sleeplock.c: locks that are held over long operations, whose waiters sleep. Each sleep-lock has a
  spin-lock of its own, \<open>LkSleep i\<close>, and is the channel \<open>ChSleep i\<close> its waiters sleep on.
  The wait loop of acquiresleep() goes round at most \<open>patience\<close> times.

  Shown here: acquiresleep takes a free lock for the calling process without switching; on a held
  lock it sleeps on the lock and looks again, and it takes the lock at the first look at which it
  is free, whatever ran in between; releasesleep frees the lock and makes its waiters runnable;
  holdingsleep is exact.
\<close>

section \<open>State and operations\<close>

record sleeplock =
  sl_locked :: bool
  sl_name :: string
  sl_pid :: int

record sleep_state = proc_state +
  slocks :: "sleepid \<Rightarrow> sleeplock"

definition upd_sl :: "sleepid \<Rightarrow> (sleeplock \<Rightarrow> sleeplock) \<Rightarrow> 'z sleep_state_scheme \<Rightarrow> 'z sleep_state_scheme" where
  "upd_sl i f s = s\<lparr>slocks := (slocks s)(i := f (slocks s i))\<rparr>"

definition initsleeplock :: "sleepid \<Rightarrow> string \<Rightarrow> ('z sleep_state_scheme, unit) kM" where
  "initsleeplock i nm =
     kthen (initlock (LkSleep i) ''sleep lock'') (
     kmodify (upd_sl i (\<lambda>_. \<lparr>sl_locked = False, sl_name = nm, sl_pid = 0\<rparr>)))"

definition mypid :: "string \<Rightarrow> ('z proc_state_scheme, int) kM" where
  "mypid who =
     kbind myproc (\<lambda>p.
     case p of None \<Rightarrow> kfail (NullPointer who) | Some c \<Rightarrow> kgets (\<lambda>s. pid (ptable s ! c)))"

primrec acquiresleep_loop :: "nat \<Rightarrow> sleepid \<Rightarrow> ('z sleep_state_scheme, unit) kM" where
  "acquiresleep_loop 0 i = kfail NoFuel"
| "acquiresleep_loop (Suc n) i =
     kbind (kgets (\<lambda>s. sl_locked (slocks s i))) (\<lambda>b.
     if b then kthen (sleep (ChSleep i) (Some (LkSleep i))) (acquiresleep_loop n i)
     else
       kthen (kmodify (upd_sl i (\<lambda>l. l\<lparr>sl_locked := True\<rparr>))) (
       kbind (mypid ''acquiresleep'') (\<lambda>p.
       kthen (kmodify (upd_sl i (\<lambda>l. l\<lparr>sl_pid := p\<rparr>))) (
       release (LkSleep i)))))"

definition acquiresleep :: "sleepid \<Rightarrow> ('z sleep_state_scheme, unit) kM" where
  "acquiresleep i =
     kthen (acquire (LkSleep i)) (
     kbind (kgets patience) (\<lambda>n. acquiresleep_loop (Suc n) i))"

definition releasesleep :: "sleepid \<Rightarrow> ('z sleep_state_scheme, unit) kM" where
  "releasesleep i =
     kthen (acquire (LkSleep i)) (
     kthen (kmodify (upd_sl i (\<lambda>l. l\<lparr>sl_locked := False\<rparr>))) (
     kthen (kmodify (upd_sl i (\<lambda>l. l\<lparr>sl_pid := 0\<rparr>))) (
     kthen (wakeup (ChSleep i)) (
     release (LkSleep i)))))"

definition holdingsleep :: "sleepid \<Rightarrow> ('z sleep_state_scheme, bool) kM" where
  "holdingsleep i =
     kthen (acquire (LkSleep i)) (
     kbind (kgets (\<lambda>s. sl_locked (slocks s i))) (\<lambda>b.
     kbind (if b then kbind (mypid ''holdingsleep'') (\<lambda>p. kgets (\<lambda>s. sl_pid (slocks s i) = p)) else ret False) (\<lambda>r.
     kthen (release (LkSleep i)) (ret r))))"

section \<open>Frames\<close>

lemma slocks_frame [simp]:
  "slocks (enter l s) = slocks s" "slocks (leave l s) = slocks s" "slocks (touched s) = slocks s"
  "enter l (slocks_update f s) = slocks_update f (enter l s)" "leave l (slocks_update f s) = slocks_update f (leave l s)" "touched (slocks_update f s) = slocks_update f (touched s)"
  "cpu_at (slocks_update f s) = cpu_at s" "me (slocks_update f s) = me s" "depth (slocks_update f s) = depth s"
  "cur_IF (slocks_update f s) = cur_IF s" "cpu_ok (slocks_update f s) = cpu_ok s" "lock_free (slocks_update f s) l = lock_free s l"
  "lock_mine (slocks_update f s) l = lock_mine s l"
  by (auto simp: frame_defs intro!: machine.equality)


lemma cur_proc_slocks [simp]: "cur_proc (slocks_update g t) = cur_proc t"
  by (simp add: cur_proc_def)

lemma upd_sl_frame [simp]:
  "enter l (upd_sl i f s) = upd_sl i f (enter l s)" "leave l (upd_sl i f s) = upd_sl i f (leave l s)"
  "touched (upd_sl i f s) = upd_sl i f (touched s)"
  "cpu_at (upd_sl i f s) = cpu_at s" "me (upd_sl i f s) = me s" "depth (upd_sl i f s) = depth s"
  "cur_IF (upd_sl i f s) = cur_IF s" "cpu_ok (upd_sl i f s) = cpu_ok s"
  "lock_free (upd_sl i f s) l = lock_free s l" "lock_mine (upd_sl i f s) l = lock_mine s l"
  "cur_proc (upd_sl i f s) = cur_proc s" "ptable (upd_sl i f s) = ptable s" "patience (upd_sl i f s) = patience s"
  "slocks (upd_sl i f s) = (slocks s)(i := f (slocks s i))" "mem (upd_sl i f s) = mem s"
  by (simp_all add: upd_sl_def)

lemma upd_sl_twice [simp]: "upd_sl i g (upd_sl i f s) = upd_sl i (\<lambda>l. g (f l)) s"
  by (simp add: upd_sl_def)

lemma slocks_other [simp]:
  "slocks (upd_proc i f s) = slocks s" "slocks (set_intena b s) = slocks s" "patience (upd_proc i f s) = patience s"
  by (simp_all add: upd_proc_def set_intena_def upd_cpu_def)

section \<open>The operations in closed form\<close>

text \<open>A process that may sleep: it runs on a sound CPU and holds no spin-lock.\<close>

definition may_sleep :: "nat \<Rightarrow> 'z proc_state_scheme \<Rightarrow> bool" where
  "may_sleep c s \<longleftrightarrow> cpu_ok s \<and> depth s = 0 \<and> lock_free s LkPtable \<and> cur_proc s = Some c \<and> c < length (ptable s)"

lemma may_sleep_frame [simp]:
  "may_sleep c (touched s) = may_sleep c s" "may_sleep c (upd_sl i f t) = may_sleep c t"
  by (simp_all add: may_sleep_def)

lemma mypid_run: "cpu_ok s \<Longrightarrow> cur_proc s = Some c \<Longrightarrow> mypid w s = Ok (pid (ptable s ! c)) (touched s)"
  by (simp add: mypid_def kbind_Ok [of myproc, OF myproc_run])

lemma acquiresleep_loop_free:
  assumes "may_sleep c s" and "lock_free s (LkSleep i)" and "\<not> sl_locked (slocks s i)"
  shows "acquiresleep_loop (Suc n) i (enter (LkSleep i) s) =
    Ok () (upd_sl i (\<lambda>l. l\<lparr>sl_locked := True, sl_pid := pid (ptable s ! c)\<rparr>) (touched s))"
proof -
  let ?s = "upd_sl i (\<lambda>l. l\<lparr>sl_locked := True\<rparr>) (enter (LkSleep i) s)"
  have "mypid ''acquiresleep'' ?s = Ok (pid (ptable s ! c)) ?s"
    using assms(1) by (simp add: mypid_run may_sleep_def)
  with assms show ?thesis by (simp add: may_sleep_def kbind_Ok)
qed

lemma acquiresleep_free:
  assumes "may_sleep c s" and "lock_free s (LkSleep i)" and "\<not> sl_locked (slocks s i)"
  shows "acquiresleep i s = Ok () (upd_sl i (\<lambda>l. l\<lparr>sl_locked := True, sl_pid := pid (ptable s ! c)\<rparr>) (touched s))"
  using assms acquiresleep_loop_free [OF assms]
  by (simp add: acquiresleep_def may_sleep_def kthen_Ok del: acquiresleep_loop.simps)

lemma releasesleep_run:
  assumes "cpu_ok s" and "lock_free s (LkSleep i)" and "lock_free s LkPtable"
  shows "releasesleep i s = Ok () ((upd_sl i (\<lambda>l. l\<lparr>sl_locked := False, sl_pid := 0\<rparr>) (touched s))
    \<lparr>ptable := map (wake_proc (Some (ChSleep i))) (ptable s)\<rparr>)"
  using assms by (simp add: releasesleep_def kthen_Ok wakeup_run)

lemma holdingsleep_run:
  assumes "cpu_ok s" and "lock_free s (LkSleep i)" and "cur_proc s = Some c"
  shows "holdingsleep i s = Ok (sl_locked (slocks s i) \<and> sl_pid (slocks s i) = pid (ptable s ! c)) (touched s)"
proof -
  have "mypid ''holdingsleep'' (enter (LkSleep i) s) = Ok (pid (ptable s ! c)) (enter (LkSleep i) s)"
    using assms by (simp add: mypid_run)
  with assms show ?thesis
    by (cases "sl_locked (slocks s i)") (simp_all add: holdingsleep_def kthen_Ok kbind_Ok kbind_assoc)
qed

section \<open>Properties of sleep-locks\<close>

definition sl_waiting :: "sleepid \<Rightarrow> nat \<Rightarrow> 'z sleep_state_scheme \<Rightarrow> bool" where
  "sl_waiting i c u \<longleftrightarrow> handed_back u \<and> lock_free u (LkSleep i) \<and> sl_locked (slocks u i) \<and>
     pstate (ptable u ! c) = SLEEPING \<and> chan (ptable u ! c) = Some (ChSleep i)"

definition sl_owned :: "sleepid \<Rightarrow> int \<Rightarrow> 'z sleep_state_scheme \<Rightarrow> bool" where
  "sl_owned i p s \<longleftrightarrow> sl_locked (slocks s i) \<and> sl_pid (slocks s i) = p"

text \<open>The state in which a process that slept in \<open>s\<close> and was resumed in \<open>t\<close> goes on.\<close>

definition awake :: "nat \<Rightarrow> bool \<Rightarrow> 'z proc_state_scheme \<Rightarrow> 'z proc_state_scheme" where
  "awake c b t = leave LkPtable (upd_proc c (\<lambda>q. q\<lparr>chan := None\<rparr>) (set_intena b t))"

lemma awake_simps:
  "slocks (awake c b t) = slocks t" "pid (ptable (awake c b t) ! c) = pid (ptable t ! c)"
  "killed (ptable (awake c b t) ! c) = killed (ptable t ! c)" "patience (awake c b t) = patience t"
  by (simp_all add: awake_def ptable_upd_proc nth_update_same_field [where g = pid] nth_update_same_field [where g = killed])
    (simp_all add: frame_defs set_intena_def upd_proc_def upd_cpu_def)

lemma awake_may_sleep:
  "resumed c t \<Longrightarrow> may_sleep c (awake c b t)"
  "resumed c t \<Longrightarrow> l \<noteq> LkPtable \<Longrightarrow> lock_free t l \<Longrightarrow> lock_free (awake c b t) l"
  by (simp_all add: awake_def resumed_def may_sleep_def)

lemma sleep_awake:
  assumes "may_sleep c s" and "lock_free s l" and "l \<noteq> LkPtable"
  obtains k where "sleep ch (Some l) (enter l s) =
      Switch (upd_proc c (\<lambda>q. q\<lparr>chan := Some ch, pstate := SLEEPING\<rparr>) (enter LkPtable s)) k"
    and "\<forall>t. resumed c t \<and> lock_free t l \<longrightarrow> k t = Ok () (enter l (awake c (cur_IF s) t))"
proof -
  have s: "cpu_ok s" "depth s = 0" "lock_free s LkPtable" "cur_proc s = Some c" "c < length (ptable s)"
    using assms(1) by (simp_all add: may_sleep_def)
  show thesis
    by (rule sleep_run [OF s(1-3) assms(2) s(4,5) assms(3), of ch]) (use that in \<open>auto simp: awake_def\<close>)
qed

lemma acquiresleep_loop_held:
  assumes "may_sleep c s" and "lock_free s (LkSleep i)" and "sl_locked (slocks s i)"
  obtains u k where "acquiresleep_loop (Suc n) i (enter (LkSleep i) s) = Switch u k"
    and "sl_waiting i c u" and "slocks u = slocks s"
    and "\<forall>t. resumed c t \<and> lock_free t (LkSleep i) \<longrightarrow>
      k t = acquiresleep_loop n i (enter (LkSleep i) (awake c (cur_IF s) t))"
proof -
  obtain k where k: "sleep (ChSleep i) (Some (LkSleep i)) (enter (LkSleep i) s) =
      Switch (upd_proc c (\<lambda>q. q\<lparr>chan := Some (ChSleep i), pstate := SLEEPING\<rparr>) (enter LkPtable s)) k"
    "\<forall>t. resumed c t \<and> lock_free t (LkSleep i) \<longrightarrow> k t = Ok () (enter (LkSleep i) (awake c (cur_IF s) t))"
    using sleep_awake [OF assms(1,2)] by blast
  let ?u = "upd_proc c (\<lambda>q. q\<lparr>chan := Some (ChSleep i), pstate := SLEEPING\<rparr>) (enter LkPtable s)"
  have "sl_waiting i c ?u"
    using assms by (simp add: sl_waiting_def handed_back_def may_sleep_def)
  moreover have "acquiresleep_loop (Suc n) i (enter (LkSleep i) s) = Switch ?u (\<lambda>t. kres_bind (k t) (\<lambda>_. acquiresleep_loop n i))"
    using assms(3) by (simp add: kthen_Switch [of "sleep (ChSleep i) (Some (LkSleep i))", OF k(1)])
  ultimately show thesis
    using k(2) by (intro that [of ?u "\<lambda>t. kres_bind (k t) (\<lambda>_. acquiresleep_loop n i)"]) simp_all
qed

lemma acquiresleep_loop_resumed:
  assumes "may_sleep c s" and "lock_free s (LkSleep i)" and "\<forall>t \<in> set ts. resumed c t \<and> lock_free t (LkSleep i)"
    and "length ts < n" and "\<forall>t \<in> set (butlast (s # ts)). sl_locked (slocks t i)"
  shows "if sl_locked (slocks (last (s # ts)) i)
    then \<exists>u k. resume_with ts (acquiresleep_loop n i (enter (LkSleep i) s)) = Switch u k \<and> sl_waiting i c u \<and> slocks u = slocks (last (s # ts))
    else \<exists>v. resume_with ts (acquiresleep_loop n i (enter (LkSleep i) s)) = Ok () v \<and> may_sleep c v \<and> lock_free v (LkSleep i) \<and>
      slocks v = (slocks (last (s # ts)))(i := (slocks (last (s # ts)) i)\<lparr>sl_locked := True, sl_pid := pid (ptable (last (s # ts)) ! c)\<rparr>)"
  using assms
proof (induction ts arbitrary: s n)
  case Nil
  then obtain m where n: "n = Suc m" by (cases n) auto
  show ?case
  proof (cases "sl_locked (slocks s i)")
    case True
    with Nil.prems(1,2) obtain u k where "acquiresleep_loop n i (enter (LkSleep i) s) = Switch u k" "sl_waiting i c u" "slocks u = slocks s"
      using acquiresleep_loop_held n by metis
    with True show ?thesis by simp
  next
    case False
    with Nil.prems(1,2) acquiresleep_loop_free [OF Nil.prems(1,2) False, of m] n show ?thesis by simp
  qed
next
  case (Cons t ts)
  then obtain m where n: "n = Suc m" by (cases n) auto
  have l: "sl_locked (slocks s i)" using Cons.prems(5) by simp
  obtain u k where u: "acquiresleep_loop n i (enter (LkSleep i) s) = Switch u k"
    and k: "\<forall>t. resumed c t \<and> lock_free t (LkSleep i) \<longrightarrow>
      k t = acquiresleep_loop m i (enter (LkSleep i) (awake c (cur_IF s) t))"
    using acquiresleep_loop_held [OF Cons.prems(1,2) l, of m] n by metis
  let ?t = "awake c (cur_IF s) t"
  have t: "resumed c t" "lock_free t (LkSleep i)" using Cons.prems(3) by simp_all
  have look: "slocks (last (?t # ts)) = slocks (last (t # ts))"
    "pid (ptable (last (?t # ts)) ! c) = pid (ptable (last (t # ts)) ! c)" by (simp_all add: awake_simps)
  have "\<forall>x \<in> set (butlast (?t # ts)). sl_locked (slocks x i)" using Cons.prems(5) by (auto simp: awake_simps split: if_splits)
  note IH = Cons.IH [OF awake_may_sleep(1) [OF t(1)] awake_may_sleep(2) [OF t(1) _ t(2)] _ _ this, of m, unfolded look]
  have "resume_with (t # ts) (acquiresleep_loop n i (enter (LkSleep i) s)) =
      resume_with ts (acquiresleep_loop m i (enter (LkSleep i) ?t))"
    unfolding u using k t by simp
  moreover have "last (s # t # ts) = last (t # ts)" by simp
  ultimately show ?case using IH Cons.prems(3,4) n by (simp only: lockid.distinct list.set insert_iff list.size) simp
qed

text \<open>
  C39. acquiresleep() takes the lock the first time it finds it free, and not before. Let it be
  called in \<open>s\<close> and, each time it has gone to sleep, be resumed in the next of the states \<open>ts\<close>,
  whatever the others have done in between. If the lock was held at every look but the last
  one, then: held at the last look too, the process is asleep on the lock's channel, with its spin-lock
  free and the lock untouched; free there, the call has returned, and all that has happened to the
  sleep-locks is that this one is marked held, by the caller's pid. The bound
  \<open>patience\<close> on the wake-ups is a parameter of the machine.
\<close>

theorem acquiresleep_first_free:
  assumes "may_sleep c s" and "lock_free s (LkSleep i)" and "\<forall>t \<in> set ts. resumed c t \<and> lock_free t (LkSleep i)"
    and "length ts \<le> patience s" and "\<forall>t \<in> set (butlast (s # ts)). sl_locked (slocks t i)"
  shows "if sl_locked (slocks (last (s # ts)) i)
    then \<exists>u k. resume_with ts (acquiresleep i s) = Switch u k \<and> sl_waiting i c u \<and> slocks u = slocks (last (s # ts))
    else \<exists>v. resume_with ts (acquiresleep i s) = Ok () v \<and> may_sleep c v \<and> lock_free v (LkSleep i) \<and>
      slocks v = (slocks (last (s # ts)))(i := (slocks (last (s # ts)) i)\<lparr>sl_locked := True, sl_pid := pid (ptable (last (s # ts)) ! c)\<rparr>)"
proof -
  have a: "acquiresleep i s = acquiresleep_loop (Suc (patience s)) i (enter (LkSleep i) s)"
    using assms(1,2) by (simp add: acquiresleep_def may_sleep_def kthen_Ok del: acquiresleep_loop.simps)
  have "length ts < Suc (patience s)" using assms(4) by simp
  then show ?thesis unfolding a by (rule acquiresleep_loop_resumed [OF assms(1-3) _ assms(5)])
qed

text \<open>
  The life of a sleep-lock: a free lock is taken at once; holdingsleep() then answers yes for
  its holder and for no process of another pid; releasesleep() frees it again and makes every
  process that sleeps on it runnable.
\<close>

theorem sleeplock_cycle:
  assumes "may_sleep c s" and "lock_free s (LkSleep i)" and "\<not> sl_locked (slocks s i)"
  shows "\<exists>t u v. acquiresleep i s = Ok () t \<and> sl_owned i (pid (ptable s ! c)) t \<and>
    holdingsleep i t = Ok True u \<and> releasesleep i u = Ok () v \<and> \<not> sl_locked (slocks v i) \<and>
    (\<forall>j < length (ptable s). pstate (ptable s ! j) = SLEEPING \<and> chan (ptable s ! j) = Some (ChSleep i) \<longrightarrow>
      pstate (ptable v ! j) = RUNNABLE) \<and>
    (\<forall>d w. cpu_ok w \<and> lock_free w (LkSleep i) \<and> cur_proc w = Some d \<and> slocks w i = slocks t i \<and>
      pid (ptable w ! d) \<noteq> pid (ptable s ! c) \<longrightarrow> holdingsleep i w = Ok False (touched (w :: 'z sleep_state_scheme)))"
proof -
  let ?t = "upd_sl i (\<lambda>l. l\<lparr>sl_locked := True, sl_pid := pid (ptable s ! c)\<rparr>) (touched s)"
  have a: "acquiresleep i s = Ok () ?t" by (rule acquiresleep_free [OF assms])
  have t: "cpu_ok ?t" "lock_free ?t (LkSleep i)" "lock_free ?t LkPtable" "cur_proc ?t = Some c"
    using assms by (simp_all add: may_sleep_def)
  have h: "holdingsleep i ?t = Ok True ?t" using holdingsleep_run [OF t(1,2,4)] by simp
  have r: "releasesleep i ?t = Ok () ((upd_sl i (\<lambda>l. l\<lparr>sl_locked := False, sl_pid := 0\<rparr>) (touched ?t))
    \<lparr>ptable := map (wake_proc (Some (ChSleep i))) (ptable ?t)\<rparr>)" by (rule releasesleep_run [OF t(1-3)])
  show ?thesis
    using a h r
    by (intro exI [of _ ?t] exI conjI) (auto simp: sl_owned_def wake_proc_def holdingsleep_run)
qed

end
