(* ===== verification/Devices.thy ===== *)
theory Devices
  imports Sleeplock
begin

text \<open>
  The interrupt controllers and simple devices: picirq.c, ioapic.c, lapic.c (without its clock,
  which is in theory Rtc), uart.c and kbd.c. Ports go through \<open>inb\<close> and \<open>outb\<close>. The I/O APIC is a
  bank of registers behind a register-select word. The local APIC is memory-mapped: \<open>lapic_out\<close> is
  the sequence of writes to it and \<open>lapic_in n i\<close> what the \<open>n\<close>-th read of register \<open>i\<close> returns.

  Shown here: an interrupt enabled in the I/O APIC is unmasked, goes to its vector and to the CPU
  asked for, and no other entry of the table changes.
\<close>

section \<open>State\<close>

record dev_state = sleep_state +
  ioapicid :: uchar
  ioapic_sel :: uint
  ioapic_regs :: "uint \<Rightarrow> uint"
  lapic_addr :: uint
  lapic_in :: "nat \<Rightarrow> nat \<Rightarrow> uint"
  lapic_now :: nat
  lapic_out :: "(nat \<times> uint) list"
  uart :: bool
  kbd_shift :: uint

section \<open>Interrupt numbers (traps.h) and the interrupt controllers\<close>

definition T_IRQ0 :: nat where "T_IRQ0 = 32"
definition T_SYSCALL :: nat where "T_SYSCALL = 64"
definition IRQ_TIMER :: nat where "IRQ_TIMER = 0"
definition IRQ_KBD :: nat where "IRQ_KBD = 1"
definition IRQ_COM1 :: nat where "IRQ_COM1 = 4"
definition IRQ_IDE :: nat where "IRQ_IDE = 14"
definition IRQ_ERROR :: nat where "IRQ_ERROR = 19"
definition IRQ_SPURIOUS :: nat where "IRQ_SPURIOUS = 31"

definition picinit :: "('z machine_scheme, unit) kM" where
  "picinit = kthen (outb (0x20 + 1) 0xFF) (outb (0xA0 + 1) 0xFF)"

definition REG_ID :: uint where "REG_ID = 0"
definition REG_VER :: uint where "REG_VER = 1"
definition REG_TABLE :: uint where "REG_TABLE = 0x10"
definition INT_DISABLED :: uint where "INT_DISABLED = 0x10000"

definition ioapicread :: "uint \<Rightarrow> ('z dev_state_scheme, uint) kM" where
  "ioapicread reg =
     kthen (kmodify (\<lambda>s. s\<lparr>ioapic_sel := reg\<rparr>)) (
     kgets (\<lambda>s. ioapic_regs s (ioapic_sel s)))"

definition ioapicwrite :: "uint \<Rightarrow> uint \<Rightarrow> ('z dev_state_scheme, unit) kM" where
  "ioapicwrite reg v =
     kthen (kmodify (\<lambda>s. s\<lparr>ioapic_sel := reg\<rparr>)) (
     kmodify (\<lambda>s. s\<lparr>ioapic_regs := (ioapic_regs s)(ioapic_sel s := v)\<rparr>))"

definition ioapicinit :: "('z dev_state_scheme, unit) kM" where
  "ioapicinit =
     kbind (ioapicread REG_VER) (\<lambda>ver.
     let maxintr = drop_bit 16 ver AND 0xFF in
     kbind (ioapicread REG_ID) (\<lambda>ident.
     kfor [0..<Suc (unat maxintr)] (\<lambda>i.
       kthen (ioapicwrite (REG_TABLE + 2 * of_nat i) (INT_DISABLED OR of_nat (T_IRQ0 + i))) (
       ioapicwrite (REG_TABLE + 2 * of_nat i + 1) 0))))"

definition ioapicenable :: "nat \<Rightarrow> uint \<Rightarrow> ('z dev_state_scheme, unit) kM" where
  "ioapicenable irq cpunum =
     kthen (ioapicwrite (REG_TABLE + 2 * of_nat irq) (of_nat (T_IRQ0 + irq))) (
     ioapicwrite (REG_TABLE + 2 * of_nat irq + 1) (push_bit 24 cpunum))"

section \<open>The local APIC (lapic.c)\<close>

definition APIC_ID :: nat where "APIC_ID = 0x20 div 4"
definition APIC_VER :: nat where "APIC_VER = 0x30 div 4"
definition TPR :: nat where "TPR = 0x80 div 4"
definition EOI :: nat where "EOI = 0xB0 div 4"
definition SVR :: nat where "SVR = 0xF0 div 4"
definition APIC_ENABLE :: uint where "APIC_ENABLE = 0x100"
definition ESR :: nat where "ESR = 0x280 div 4"
definition ICRLO :: nat where "ICRLO = 0x300 div 4"
definition APIC_INIT :: uint where "APIC_INIT = 0x500"
definition STARTUP :: uint where "STARTUP = 0x600"
definition DELIVS :: uint where "DELIVS = 0x1000"
definition APIC_ASSERT :: uint where "APIC_ASSERT = 0x4000"
definition APIC_LEVEL :: uint where "APIC_LEVEL = 0x8000"
definition BCAST :: uint where "BCAST = 0x80000"
definition ICRHI :: nat where "ICRHI = 0x310 div 4"
definition TIMER :: nat where "TIMER = 0x320 div 4"
definition X1 :: uint where "X1 = 0xB"
definition PERIODIC :: uint where "PERIODIC = 0x20000"
definition PCINT :: nat where "PCINT = 0x340 div 4"
definition LINT0 :: nat where "LINT0 = 0x350 div 4"
definition LINT1 :: nat where "LINT1 = 0x360 div 4"
definition APIC_ERROR :: nat where "APIC_ERROR = 0x370 div 4"
definition MASKED :: uint where "MASKED = 0x10000"
definition TICR :: nat where "TICR = 0x380 div 4"
definition TDCR :: nat where "TDCR = 0x3E0 div 4"

definition lapicr :: "nat \<Rightarrow> ('z dev_state_scheme, uint) kM" where
  "lapicr i s = Ok (lapic_in s (lapic_now s) i) (s\<lparr>lapic_now := lapic_now s + 1\<rparr>)"

definition lapicw :: "nat \<Rightarrow> uint \<Rightarrow> ('z dev_state_scheme, unit) kM" where
  "lapicw i v =
     kthen (kmodify (\<lambda>s. s\<lparr>lapic_out := lapic_out s @ [(i, v)]\<rparr>)) (
     kthen (lapicr APIC_ID) (ret ()))"

primrec lapic_wait :: "nat \<Rightarrow> ('z dev_state_scheme, unit) kM" where
  "lapic_wait 0 = kfail NoFuel"
| "lapic_wait (Suc n) = kbind (lapicr ICRLO) (\<lambda>v. if v AND DELIVS \<noteq> 0 then lapic_wait n else ret ())"

definition lapicinit :: "('z dev_state_scheme, unit) kM" where
  "lapicinit =
     kbind (kgets lapic_addr) (\<lambda>a.
     if a = 0 then ret ()
     else
       kthen (lapicw SVR (APIC_ENABLE OR of_nat (T_IRQ0 + IRQ_SPURIOUS))) (
       kthen (lapicw TDCR X1) (
       kthen (lapicw TIMER (PERIODIC OR of_nat (T_IRQ0 + IRQ_TIMER))) (
       kthen (lapicw TICR 10000000) (
       kthen (lapicw LINT0 MASKED) (
       kthen (lapicw LINT1 MASKED) (
       kbind (lapicr APIC_VER) (\<lambda>ver.
       kthen (kwhen (drop_bit 16 ver AND 0xFF \<ge> 4) (lapicw PCINT MASKED)) (
       kthen (lapicw APIC_ERROR (of_nat (T_IRQ0 + IRQ_ERROR))) (
       kthen (lapicw ESR 0) (
       kthen (lapicw ESR 0) (
       kthen (lapicw EOI 0) (
       kthen (lapicw ICRHI 0) (
       kthen (lapicw ICRLO (BCAST OR APIC_INIT OR APIC_LEVEL)) (
       kbind (kgets patience) (\<lambda>n.
       kthen (lapic_wait (Suc n)) (
       lapicw TPR 0)))))))))))))))))"

text \<open>The identifier register of the executing CPU's local APIC holds \<open>lapic_id\<close> in its top byte.\<close>

definition lapicid :: "('z dev_state_scheme, uchar) kM" where
  "lapicid = kgets (\<lambda>s. if lapic_addr s = 0 then 0 else lapic_id s)"

definition lapiceoi :: "('z dev_state_scheme, unit) kM" where
  "lapiceoi = kbind (kgets lapic_addr) (\<lambda>a. kwhen (a \<noteq> 0) (lapicw EOI 0))"

definition microdelay :: "int \<Rightarrow> ('z dev_state_scheme, unit) kM" where
  "microdelay us = ret ()"

definition store16 :: "(uint \<Rightarrow> uchar) \<Rightarrow> uint \<Rightarrow> ushort \<Rightarrow> (uint \<Rightarrow> uchar)" where
  "store16 m a w = m(a := ucast w, a + 1 := ucast (drop_bit 8 w))"

definition lapicstartap :: "uchar \<Rightarrow> uint \<Rightarrow> ('z dev_state_scheme, unit) kM" where
  "lapicstartap apic addr =
     (let wrv = P2V (push_bit 4 0x40 OR 0x67) in
      kthen (outb 0x70 0xF) (
      kthen (outb 0x71 0x0A) (
      kthen (kmodify (\<lambda>s. s\<lparr>mem := store16 (mem s) wrv 0\<rparr>)) (
      kthen (kmodify (\<lambda>s. s\<lparr>mem := store16 (mem s) (wrv + 2) (ucast (drop_bit 4 addr))\<rparr>)) (
      kthen (lapicw ICRHI (push_bit 24 (ucast apic))) (
      kthen (lapicw ICRLO (APIC_INIT OR APIC_LEVEL OR APIC_ASSERT)) (
      kthen (microdelay 200) (
      kthen (lapicw ICRLO (APIC_INIT OR APIC_LEVEL)) (
      kthen (microdelay 100) (
      kfor [0..<2 :: nat] (\<lambda>_.
        kthen (lapicw ICRHI (push_bit 24 (ucast apic))) (
        kthen (lapicw ICRLO (STARTUP OR drop_bit 12 addr)) (
        microdelay 200)))))))))))))"

section \<open>The serial port (uart.c)\<close>

definition COM1 :: ushort where "COM1 = 0x3f8"

primrec uart_wait :: "nat \<Rightarrow> ('z dev_state_scheme, unit) kM" where
  "uart_wait 0 = ret ()"
| "uart_wait (Suc n) = kbind (inb (COM1 + 5)) (\<lambda>v.
     if v AND 0x20 = 0 then kthen (microdelay 10) (uart_wait n) else ret ())"

definition uartputc :: "uchar \<Rightarrow> ('z dev_state_scheme, unit) kM" where
  "uartputc c =
     kbind (kgets uart) (\<lambda>u.
     if \<not> u then ret () else kthen (uart_wait 128) (outb COM1 c))"

definition uartgetc :: "('z dev_state_scheme, int) kM" where
  "uartgetc =
     kbind (kgets uart) (\<lambda>u.
     if \<not> u then ret (-1)
     else kbind (inb (COM1 + 5)) (\<lambda>v.
       if v AND 0x01 = 0 then ret (-1) else kbind (inb COM1) (\<lambda>c. ret (uint c))))"

definition uartinit :: "('z dev_state_scheme, unit) kM" where
  "uartinit =
     kthen (outb (COM1 + 2) 0) (
     kthen (outb (COM1 + 3) 0x80) (
     kthen (outb COM1 (115200 div 9600)) (
     kthen (outb (COM1 + 1) 0) (
     kthen (outb (COM1 + 3) 0x03) (
     kthen (outb (COM1 + 4) 0) (
     kthen (outb (COM1 + 1) 0x01) (
     kbind (inb (COM1 + 5)) (\<lambda>v.
     if v = 0xFF then ret ()
     else
       kthen (kmodify (\<lambda>s. s\<lparr>uart := True\<rparr>)) (
       kthen (inb (COM1 + 2)) (
       kthen (inb COM1) (
       kthen (ioapicenable IRQ_COM1 0) (
       kfor (map (\<lambda>ch. of_nat (of_char ch)) ''xv6...'' @ [10]) uartputc))))))))))))"


section \<open>The keyboard (kbd.c, kbd.h)\<close>

definition ascii :: "string \<Rightarrow> uchar list" where
  "ascii cs = map of_char cs"

definition KBS_DIB :: uint where "KBS_DIB = 1"
definition SHIFT :: uint where "SHIFT = 1"
definition CTL :: uint where "CTL = 2"
definition ALT :: uint where "ALT = 4"
definition CAPSLOCK :: uint where "CAPSLOCK = 8"
definition NUMLOCK :: uint where "NUMLOCK = 16"
definition SCROLLLOCK :: uint where "SCROLLLOCK = 32"
definition E0ESC :: uint where "E0ESC = 64"

definition designated :: "uchar list \<Rightarrow> (nat \<times> uchar) list \<Rightarrow> uchar list" where
  "designated xs ds = foldl (\<lambda>m (i, v). m[i := v]) (xs @ replicate (256 - length xs) 0) ds"

definition shiftcode :: "uchar list" where
  "shiftcode = designated [] [(0x1D, ucast CTL), (0x2A, ucast SHIFT), (0x36, ucast SHIFT), (0x38, ucast ALT),
     (0x9D, ucast CTL), (0xB8, ucast ALT)]"

definition togglecode :: "uchar list" where
  "togglecode = designated [] [(0x3A, ucast CAPSLOCK), (0x45, ucast NUMLOCK), (0x46, ucast SCROLLLOCK)]"

text \<open>The cursor keys KEY_UP, KEY_DN, KEY_PGUP, KEY_PGDN, KEY_LF, KEY_RT, KEY_HOME, KEY_END, KEY_INS, KEY_DEL.\<close>

definition extended_keys :: "(nat \<times> uchar) list" where
  "extended_keys = [(0xC8, 0xE2), (0xD0, 0xE3), (0xC9, 0xE6), (0xD1, 0xE7), (0xCB, 0xE4), (0xCD, 0xE5),
     (0x97, 0xE0), (0xCF, 0xE1), (0xD2, 0xE8), (0xD3, 0xE9)]"

definition normalmap :: "uchar list" where
  "normalmap = designated
     ([0, 0x1B] @ ascii ''123456'' @ ascii ''7890-='' @ [8, 9] @
      ascii ''qwertyui'' @ ascii ''op[]'' @ [10, 0] @ ascii ''as'' @
      ascii ''dfghjkl;'' @ [39, 96, 0, 92] @ ascii ''zxcv'' @
      ascii ''bnm,./'' @ [0] @ ascii ''*'' @ [0] @ ascii '' '' @ [0, 0, 0, 0, 0, 0] @
      [0, 0, 0, 0, 0, 0, 0] @ ascii ''7'' @ ascii ''89-456+1'' @ ascii ''230.'' @ [0, 0, 0, 0])
     ((0x9C, 10) # (0xB5, 47) # extended_keys)"

definition shiftmap :: "uchar list" where
  "shiftmap = designated
     ([0, 0x1B] @ ascii ''!@#$%^'' @ ascii ''&*()_+'' @ [8, 9] @
      ascii ''QWERTYUI'' @ ascii ''OP{}'' @ [10, 0] @ ascii ''AS'' @
      ascii ''DFGHJKL:'' @ [34, 126, 0, 124] @ ascii ''ZXCV'' @
      ascii ''BNM<>?'' @ [0] @ ascii ''*'' @ [0] @ ascii '' '' @ [0, 0, 0, 0, 0, 0] @
      [0, 0, 0, 0, 0, 0, 0] @ ascii ''7'' @ ascii ''89-456+1'' @ ascii ''230.'' @ [0, 0, 0, 0])
     ((0x9C, 10) # (0xB5, 47) # extended_keys)"

text \<open>\<open>C(x)\<close> is \<open>x - '@'\<close>.\<close>

definition ctl_keys :: "string \<Rightarrow> uchar list" where
  "ctl_keys cs = map (\<lambda>c. of_char c - 64) cs"

definition ctlmap :: "uchar list" where
  "ctlmap = designated
     (replicate 16 0 @ ctl_keys ''QWERTYUI'' @ ctl_keys ''OP'' @ [0, 0, 13, 0] @ ctl_keys ''AS'' @
      ctl_keys ''DFGHJKL'' @ [0] @ [0, 0, 0, 92 - 64] @ ctl_keys ''ZXCV'' @
      ctl_keys ''BNM'' @ [0, 0, 47 - 64, 0, 0])
     ((0x9C, 13) # (0xB5, 47 - 64) # extended_keys)"

definition charcode :: "uint \<Rightarrow> uchar list" where
  "charcode k = (if k = 0 then normalmap else if k = 1 then shiftmap else ctlmap)"

definition key_char :: "uint \<Rightarrow> uint \<Rightarrow> uint" where
  "key_char shift d =
     (let c = ucast (charcode (shift AND (CTL OR SHIFT)) ! unat d) :: uint in
      if shift AND CAPSLOCK \<noteq> 0 then
        (if 97 \<le> c \<and> c \<le> 122 then c + 65 - 97 else if 65 \<le> c \<and> c \<le> 90 then c + 97 - 65 else c)
      else c)"

text \<open>One scan code: the new shift state and the character.\<close>

definition kbd_decode :: "uint \<Rightarrow> uint \<Rightarrow> uint \<times> int" where
  "kbd_decode shift d =
     (if d = 0xE0 then (shift OR E0ESC, 0)
      else if d AND 0x80 \<noteq> 0 then
        (let d = (if shift AND E0ESC \<noteq> 0 then d else d AND 0x7F) in
         (shift AND NOT (ucast (shiftcode ! unat d) OR E0ESC), 0))
      else
        (let (shift, d) = (if shift AND E0ESC \<noteq> 0 then (shift AND NOT E0ESC, d OR 0x80) else (shift, d));
             shift = (shift OR ucast (shiftcode ! unat d)) XOR ucast (togglecode ! unat d)
         in (shift, uint (key_char shift d))))"

definition kbdgetc :: "('z dev_state_scheme, int) kM" where
  "kbdgetc =
     kbind (inb 0x64) (\<lambda>st.
     if ucast st AND KBS_DIB = 0 then ret (-1)
     else kbind (inb 0x60) (\<lambda>d.
       kbind (kgets (\<lambda>s. kbd_decode (kbd_shift s) (ucast d))) (\<lambda>(sh, c).
       kthen (kmodify (\<lambda>s. s\<lparr>kbd_shift := sh\<rparr>)) (ret c))))"

section \<open>Enabling an interrupt\<close>

lemma ioapicenable_entry:
  "\<exists>t. ioapicenable irq c s = Ok () t \<and>
    ioapic_regs t (REG_TABLE + 2 * of_nat irq) = of_nat (T_IRQ0 + irq) \<and>
    ioapic_regs t (REG_TABLE + 2 * of_nat irq + 1) = push_bit 24 c \<and>
    (\<forall>r. r \<noteq> REG_TABLE + 2 * of_nat irq \<and> r \<noteq> REG_TABLE + 2 * of_nat irq + 1 \<longrightarrow> ioapic_regs t r = ioapic_regs s r)"
  by (simp add: ioapicenable_def ioapicwrite_def kthen_assoc)

end
