(* ===== verification/Ide.thy ===== *)
theory Ide
  imports Devices
begin

text \<open>
  The two disk drivers: ide.c, which drives the controller by ports and interrupts, and memide.c,
  which keeps the disk in memory; a kernel is linked with one of them, and \<open>memfs\<close> says with which.

  A \<open>struct buf *\<close> is an index below \<open>NBUF\<close>; the index \<open>NBUF\<close> is \<open>bcache.head\<close>. The link fields
  \<open>prev\<close>, \<open>next\<close> and \<open>qnext\<close> are maps from buffers to buffers, so the list manipulations are the
  pointer assignments of the code. The in-memory disk maps block numbers to blocks; \<open>disk_hist\<close> is a
  history variable, the sequence of the block writes so far, which no operation reads.
\<close>

section \<open>Buffers (buf.h, fs.h)\<close>

definition BSIZE :: nat where "BSIZE = 512"
definition B_VALID :: uint where "B_VALID = 2"
definition B_DIRTY :: uint where "B_DIRTY = 4"

record buf =
  b_flags :: uint
  b_dev :: uint
  b_blockno :: uint
  b_refcnt :: uint
  b_data :: "uchar list"

record ide_state = dev_state +
  bufs :: "buf list"
  b_prev :: "nat \<Rightarrow> nat"
  b_next :: "nat \<Rightarrow> nat"
  qnext :: "nat \<Rightarrow> nat option"
  idequeue :: "nat option"
  havedisk1 :: bool
  memfs :: bool
  memdisk :: "nat \<Rightarrow> uchar list"
  disksize :: uint
  disk_hist :: "(nat \<times> uchar list) list"

definition upd_buf :: "nat \<Rightarrow> (buf \<Rightarrow> buf) \<Rightarrow> 'z ide_state_scheme \<Rightarrow> 'z ide_state_scheme" where
  "upd_buf b f s = s\<lparr>bufs := (bufs s)[b := f (bufs s ! b)]\<rparr>"

section \<open>ide.c\<close>

definition IDE_BSY :: uchar where "IDE_BSY = 0x80"
definition IDE_DRDY :: uchar where "IDE_DRDY = 0x40"
definition IDE_DF :: uchar where "IDE_DF = 0x20"
definition IDE_ERR :: uchar where "IDE_ERR = 0x01"

primrec idewait_loop :: "nat \<Rightarrow> bool \<Rightarrow> ('z ide_state_scheme, int) kM" where
  "idewait_loop 0 checkerr = kfail NoFuel"
| "idewait_loop (Suc n) checkerr =
     kbind (inb 0x1f7) (\<lambda>r.
     if r AND (IDE_BSY OR IDE_DRDY) \<noteq> IDE_DRDY then idewait_loop n checkerr
     else if checkerr \<and> r AND (IDE_DF OR IDE_ERR) \<noteq> 0 then ret (-1) else ret 0)"

definition idewait :: "bool \<Rightarrow> ('z ide_state_scheme, int) kM" where
  "idewait checkerr = kbind (kgets patience) (\<lambda>n. idewait_loop (Suc n) checkerr)"

primrec probe_disk1 :: "nat \<Rightarrow> ('z ide_state_scheme, unit) kM" where
  "probe_disk1 0 = ret ()"
| "probe_disk1 (Suc n) =
     kbind (inb 0x1f7) (\<lambda>r.
     if r \<noteq> 0 then kmodify (\<lambda>s. s\<lparr>havedisk1 := True\<rparr>) else probe_disk1 n)"

definition ideinit :: "('z ide_state_scheme, unit) kM" where
  "ideinit =
     kthen (initlock LkIde ''ide'') (
     kbind (kgets ncpu) (\<lambda>n.
     kthen (ioapicenable IRQ_IDE (of_int (int n - 1))) (
     kthen (idewait False) (
     kthen (outb 0x1f6 (0xe0 OR push_bit 4 1)) (
     kthen (probe_disk1 1000) (
     outb 0x1f6 (0xe0 OR push_bit 4 0)))))))"

text \<open>The data of a buffer as the 32-bit words \<open>outsl\<close> sends and \<open>insl\<close> receives.\<close>

fun words_of :: "uchar list \<Rightarrow> uint list" where
  "words_of (a # b # c # d # xs) =
     (ucast a OR push_bit 8 (ucast b) OR push_bit 16 (ucast c) OR push_bit 24 (ucast d)) # words_of xs"
| "words_of xs = []"

primrec bytes_of :: "uint list \<Rightarrow> uchar list" where
  "bytes_of [] = []"
| "bytes_of (w # ws) = ucast w # ucast (drop_bit 8 w) # ucast (drop_bit 16 w) # ucast (drop_bit 24 w) # bytes_of ws"

text \<open>\<open>BSIZE/SECTOR_SIZE\<close> is 1, so a block is one sector and the single-sector commands are used.\<close>

definition idestart :: "nat option \<Rightarrow> ('z ide_state_scheme, unit) kM" where
  "idestart bo =
     (case bo of None \<Rightarrow> kfail (Panic ''idestart'')
      | Some b \<Rightarrow>
        kbind (kgets (\<lambda>s. bufs s ! b)) (\<lambda>x.
        if b_blockno x \<ge> of_nat FSSIZE then kfail (Panic ''incorrect blockno'')
        else
          (let sector_per_block = BSIZE div 512; sector = b_blockno x * of_nat sector_per_block;
               read_cmd = (if sector_per_block = 1 then 0x20 else 0xc4);
               write_cmd = (if sector_per_block = 1 then 0x30 else 0xc5) in
           if sector_per_block > 7 then kfail (Panic ''idestart'')
           else
             kthen (idewait False) (
             kthen (outb 0x3f6 0) (
             kthen (outb 0x1f2 (of_nat sector_per_block)) (
             kthen (outb 0x1f3 (ucast (sector AND 0xff))) (
             kthen (outb 0x1f4 (ucast (drop_bit 8 sector AND 0xff))) (
             kthen (outb 0x1f5 (ucast (drop_bit 16 sector AND 0xff))) (
             kthen (outb 0x1f6 (0xe0 OR push_bit 4 (ucast (b_dev x AND 1)) OR ucast (drop_bit 24 sector AND 0x0f))) (
             if b_flags x AND B_DIRTY \<noteq> 0 then
               kthen (outb 0x1f7 write_cmd) (outsl 0x1f0 (words_of (b_data x)))
             else outb 0x1f7 read_cmd))))))))))"

definition ideintr_ide :: "('z ide_state_scheme, unit) kM" where
  "ideintr_ide =
     kthen (acquire LkIde) (
     kbind (kgets idequeue) (\<lambda>q.
     case q of
       None \<Rightarrow> release LkIde
     | Some b \<Rightarrow>
       kthen (kmodify (\<lambda>s. s\<lparr>idequeue := qnext s b\<rparr>)) (
       kbind (kgets (\<lambda>s. b_flags (bufs s ! b))) (\<lambda>fl.
       kthen (kwhen (fl AND B_DIRTY = 0)
         (kbind (idewait True) (\<lambda>r. kwhen (r \<ge> 0)
           (kbind (insl 0x1f0 (BSIZE div 4)) (\<lambda>ws. kmodify (upd_buf b (\<lambda>x. x\<lparr>b_data := bytes_of ws\<rparr>))))))) (
       kthen (kmodify (upd_buf b (\<lambda>x. x\<lparr>b_flags := b_flags x OR B_VALID\<rparr>))) (
       kthen (kmodify (upd_buf b (\<lambda>x. x\<lparr>b_flags := b_flags x AND NOT B_DIRTY\<rparr>))) (
       kthen (wakeup (ChBuf b)) (
       kbind (kgets idequeue) (\<lambda>q'.
       kthen (kwhen (q' \<noteq> None) (idestart q')) (
       release LkIde))))))))))"

text \<open>The tail of the request queue, where \<open>pp\<close> stops; the queue holds at most \<open>NBUF\<close> buffers.\<close>

primrec queue_tail :: "nat \<Rightarrow> (nat \<Rightarrow> nat option) \<Rightarrow> nat \<Rightarrow> nat option" where
  "queue_tail 0 nx b = None"
| "queue_tail (Suc n) nx b = (case nx b of None \<Rightarrow> Some b | Some b' \<Rightarrow> queue_tail n nx b')"

definition enqueue :: "nat \<Rightarrow> ('z ide_state_scheme, unit) kM" where
  "enqueue b =
     kthen (kmodify (\<lambda>s. s\<lparr>qnext := (qnext s)(b := None)\<rparr>)) (
     kbind (kgets idequeue) (\<lambda>q.
     case q of
       None \<Rightarrow> kmodify (\<lambda>s. s\<lparr>idequeue := Some b\<rparr>)
     | Some h \<Rightarrow>
       kbind (kgets (\<lambda>s. queue_tail (NBUF + 1) (qnext s) h)) (\<lambda>t.
       case t of None \<Rightarrow> kfail NoFuel
       | Some l \<Rightarrow> kmodify (\<lambda>s. s\<lparr>qnext := (qnext s)(l := Some b)\<rparr>))))"

primrec iderw_wait :: "nat \<Rightarrow> nat \<Rightarrow> ('z ide_state_scheme, unit) kM" where
  "iderw_wait 0 b = kfail NoFuel"
| "iderw_wait (Suc n) b =
     kbind (kgets (\<lambda>s. b_flags (bufs s ! b))) (\<lambda>fl.
     if fl AND (B_VALID OR B_DIRTY) \<noteq> B_VALID
     then kthen (sleep (ChBuf b) (Some LkIde)) (iderw_wait n b)
     else release LkIde)"

definition iderw_ide :: "nat \<Rightarrow> ('z ide_state_scheme, unit) kM" where
  "iderw_ide b =
     kbind (holdingsleep (SlBuf b)) (\<lambda>h.
     if \<not> h then kfail (Panic ''iderw: buf not locked'')
     else kbind (kgets (\<lambda>s. bufs s ! b)) (\<lambda>x.
     if b_flags x AND (B_VALID OR B_DIRTY) = B_VALID then kfail (Panic ''iderw: nothing to do'')
     else kbind (kgets havedisk1) (\<lambda>hd.
     if b_dev x \<noteq> 0 \<and> \<not> hd then kfail (Panic ''iderw: ide disk 1 not present'')
     else
       kthen (acquire LkIde) (
       kthen (enqueue b) (
       kbind (kgets idequeue) (\<lambda>q.
       kthen (kwhen (q = Some b) (idestart (Some b))) (
       kbind (kgets patience) (\<lambda>n. iderw_wait (Suc n) b))))))))"

section \<open>memide.c\<close>

text \<open>The linked image is a parameter: its blocks and its size in bytes.\<close>

definition ideinit_mem :: "(nat \<Rightarrow> uchar list) \<Rightarrow> uint \<Rightarrow> ('z ide_state_scheme, unit) kM" where
  "ideinit_mem img imgsize =
     kthen (kmodify (\<lambda>s. s\<lparr>memdisk := img\<rparr>)) (
     kmodify (\<lambda>s. s\<lparr>disksize := imgsize div of_nat BSIZE\<rparr>))"

definition ideintr_mem :: "('z ide_state_scheme, unit) kM" where
  "ideintr_mem = ret ()"

definition iderw_mem :: "nat \<Rightarrow> ('z ide_state_scheme, unit) kM" where
  "iderw_mem b =
     kbind (holdingsleep (SlBuf b)) (\<lambda>h.
     if \<not> h then kfail (Panic ''iderw: buf not locked'')
     else kbind (kgets (\<lambda>s. bufs s ! b)) (\<lambda>x.
     if b_flags x AND (B_VALID OR B_DIRTY) = B_VALID then kfail (Panic ''iderw: nothing to do'')
     else if b_dev x \<noteq> 1 then kfail (Panic ''iderw: request not for disk 1'')
     else kbind (kgets disksize) (\<lambda>n.
     if b_blockno x \<ge> n then kfail (Panic ''iderw: block out of range'')
     else
       kthen (if b_flags x AND B_DIRTY \<noteq> 0 then
           kthen (kmodify (upd_buf b (\<lambda>x. x\<lparr>b_flags := b_flags x AND NOT B_DIRTY\<rparr>))) (
           kmodify (\<lambda>s. s\<lparr>memdisk := (memdisk s)(unat (b_blockno x) := b_data x),
             disk_hist := disk_hist s @ [(unat (b_blockno x), b_data x)]\<rparr>))
         else kmodify (\<lambda>s. upd_buf b (\<lambda>y. y\<lparr>b_data := memdisk s (unat (b_blockno x))\<rparr>) s)) (
       kmodify (upd_buf b (\<lambda>x. x\<lparr>b_flags := b_flags x OR B_VALID\<rparr>))))))"

section \<open>The driver the kernel is linked with\<close>

definition iderw :: "nat \<Rightarrow> ('z ide_state_scheme, unit) kM" where
  "iderw b = kbind (kgets memfs) (\<lambda>m. if m then iderw_mem b else iderw_ide b)"

definition ideintr :: "('z ide_state_scheme, unit) kM" where
  "ideintr = kbind (kgets memfs) (\<lambda>m. if m then ideintr_mem else ideintr_ide)"

end
