(* ===== verification/Bytes.thy ===== *)
theory Bytes
  imports Machine
begin

text \<open>
  Little-endian numbers inside the bytes of a block or of a header: what a pointer cast reads and
  what an assignment through one writes. The lemmas are the round trips and the independence of
  disjoint fields, which the encodings of headers, inodes and directory entries rest on.
\<close>

section \<open>Definitions\<close>

definition get32l :: "uchar list \<Rightarrow> nat \<Rightarrow> uint" where
  "get32l d k = ucast (d ! k) OR push_bit 8 (ucast (d ! (k + 1)))
     OR push_bit 16 (ucast (d ! (k + 2))) OR push_bit 24 (ucast (d ! (k + 3)))"

definition get16l :: "uchar list \<Rightarrow> nat \<Rightarrow> ushort" where
  "get16l d k = ucast (d ! k) OR push_bit 8 (ucast (d ! (k + 1)))"

text \<open>\<open>splice d k xs\<close>: the bytes \<open>xs\<close> written into \<open>d\<close> from offset \<open>k\<close>.\<close>

definition splice :: "'a list \<Rightarrow> nat \<Rightarrow> 'a list \<Rightarrow> 'a list" where
  "splice d k xs = take k d @ xs @ drop (k + length xs) d"

definition bytes32 :: "uint \<Rightarrow> uchar list" where
  "bytes32 w = [ucast w, ucast (drop_bit 8 w), ucast (drop_bit 16 w), ucast (drop_bit 24 w)]"

definition bytes16 :: "ushort \<Rightarrow> uchar list" where
  "bytes16 w = [ucast w, ucast (drop_bit 8 w)]"

definition put32l :: "uchar list \<Rightarrow> nat \<Rightarrow> uint \<Rightarrow> uchar list" where
  "put32l d k w = splice d k (bytes32 w)"

section \<open>Round trips\<close>

lemma length_bytes [simp]: "length (bytes32 w) = 4" "length (bytes16 v) = 2"
  by (simp_all add: bytes32_def bytes16_def)

lemma length_splice [simp]: "k + length xs \<le> length d \<Longrightarrow> length (splice d k xs) = length d"
  by (simp add: splice_def)

lemma nth_splice:
  assumes "k + length xs \<le> length d" and "i < length d"
  shows "splice d k xs ! i = (if k \<le> i \<and> i < k + length xs then xs ! (i - k) else d ! i)"
  using assms by (auto simp: splice_def nth_append)

lemma splice_inside: "k + length xs \<le> length d \<Longrightarrow> take (length xs) (drop k (splice d k xs)) = xs"
  by (simp add: splice_def)

lemma get32l_bytes [simp]: "get32l (bytes32 w @ r) 0 = w"
  by (simp add: get32l_def bytes32_def numeral_3_eq_3 numeral_2_eq_2)

lemma get16l_bytes [simp]: "get16l (bytes16 w @ r) 0 = w"
  by (simp add: get16l_def bytes16_def)

lemma get32l_append [simp]:
  "length xs \<le> k \<Longrightarrow> get32l (xs @ ys) k = get32l ys (k - length xs)"
  "k + 4 \<le> length xs \<Longrightarrow> get32l (xs @ ys) k = get32l xs k"
  by (simp_all add: get32l_def nth_append Suc_diff_le)

lemma get16l_append [simp]:
  "length xs \<le> k \<Longrightarrow> get16l (xs @ ys) k = get16l ys (k - length xs)"
  "k + 2 \<le> length xs \<Longrightarrow> get16l (xs @ ys) k = get16l xs k"
  by (simp_all add: get16l_def nth_append Suc_diff_le)

lemma length_put32l [simp]: "k + 4 \<le> length d \<Longrightarrow> length (put32l d k w) = length d"
  by (simp add: put32l_def)

lemma get_put32l_same [simp]: "k + 4 \<le> length d \<Longrightarrow> get32l (put32l d k w) k = w"
  by (simp add: put32l_def splice_def)

lemma get_put32l_other:
  assumes "k + 4 \<le> length d" and "j + 4 \<le> length d" and "j + 4 \<le> k \<or> k + 4 \<le> j"
  shows "get32l (put32l d k w) j = get32l d j"
  using assms by (auto simp: put32l_def get32l_def nth_splice)

lemma get32l_concat:
  assumes "i < length ws"
  shows "get32l (concat (map bytes32 ws) @ r) (4 * i) = ws ! i"
  using assms
proof (induction ws arbitrary: i)
  case (Cons w ws)
  show ?case
  proof (cases i)
    case (Suc j)
    with Cons show ?thesis by simp
  qed simp
qed simp

lemma length_concat_bytes [simp]: "length (concat (map bytes32 ws)) = 4 * length ws"
  by (induction ws) simp_all

end
