(* ===== verification/Log.thy ===== *)
theory Log
  imports Bio Bytes
begin

text \<open>
  log.c, the redo log that makes groups of file-system updates atomic, with readsb() of fs.c that
  initlog() calls. The on-disk header is a count and block numbers, little-endian, at the start of
  the first log block. Reading the superblock is decoding the first 28 bytes of block 1.
\<close>

section \<open>The data of a buffer\<close>

definition set_data :: "nat \<Rightarrow> (uchar list \<Rightarrow> uchar list) \<Rightarrow> ('z ide_state_scheme, unit) kM" where
  "set_data b f = kmodify (upd_buf b (\<lambda>x. x\<lparr>b_data := f (b_data x)\<rparr>))"

definition data_of :: "nat \<Rightarrow> ('z ide_state_scheme, uchar list) kM" where
  "data_of b = kgets (\<lambda>s. b_data (bufs s ! b))"

section \<open>The superblock (fs.h, fs.c)\<close>

record superblock =
  sb_size :: uint
  nblocks :: uint
  ninodes :: uint
  nlog :: uint
  logstart :: uint
  inodestart :: uint
  bmapstart :: uint

definition decode_sb :: "uchar list \<Rightarrow> superblock" where
  "decode_sb d = \<lparr>sb_size = get32l d 0, nblocks = get32l d 4, ninodes = get32l d 8, nlog = get32l d 12,
     logstart = get32l d 16, inodestart = get32l d 20, bmapstart = get32l d 24\<rparr>"

definition readsb :: "uint \<Rightarrow> ('z ide_state_scheme, superblock) kM" where
  "readsb dev =
     kbind (bread dev 1) (\<lambda>bp.
     kbind (data_of bp) (\<lambda>d.
     kthen (brelse bp) (ret (decode_sb d))))"

section \<open>State\<close>

text \<open>\<open>lh.n\<close> is kept as an \<open>int\<close>, the blocks of \<open>lh.block\<close> as a list of \<open>LOGSIZE\<close> entries.\<close>

record logstate =
  lstart :: uint
  lsize :: int
  outstanding :: int
  committing :: bool
  ldev :: uint
  lhn :: int
  lhblock :: "uint list"

record log_state = ide_state +
  log :: logstate

definition upd_log :: "(logstate \<Rightarrow> logstate) \<Rightarrow> 'z log_state_scheme \<Rightarrow> 'z log_state_scheme" where
  "upd_log f s = s\<lparr>log := f (log s)\<rparr>"

section \<open>Copying between the log and the home blocks\<close>

definition copy_block :: "nat \<Rightarrow> nat \<Rightarrow> ('z ide_state_scheme, unit) kM" where
  "copy_block from to = kbind (data_of from) (\<lambda>d. set_data to (\<lambda>_. d))"

definition install_one :: "nat \<Rightarrow> ('z log_state_scheme, unit) kM" where
  "install_one tail =
     kbind (kgets log) (\<lambda>l.
     kbind (bread (ldev l) (lstart l + of_nat tail + 1)) (\<lambda>lbuf.
     kbind (bread (ldev l) (lhblock l ! tail)) (\<lambda>dbuf.
     kthen (copy_block lbuf dbuf) (
     kthen (bwrite dbuf) (
     kthen (brelse lbuf) (
     brelse dbuf))))))"

definition install_trans :: "('z log_state_scheme, unit) kM" where
  "install_trans = kbind (kgets (\<lambda>s. lhn (log s))) (\<lambda>n. kfor [0..<nat n] install_one)"

text \<open>
  The header block. A count on disk beyond the array would make read_head() write past the end of
  \<open>log.lh\<close>.
\<close>

definition read_head :: "('z log_state_scheme, unit) kM" where
  "read_head =
     kbind (kgets log) (\<lambda>l.
     kbind (bread (ldev l) (lstart l)) (\<lambda>b.
     kbind (data_of b) (\<lambda>d.
     let n = sint (get32l d 0) in
     kthen (kmodify (upd_log (\<lambda>l. l\<lparr>lhn := n\<rparr>))) (
     if n > int LOGSIZE then kfail (OutOfBounds ''log.lh.block'')
     else
       kthen (kmodify (upd_log (\<lambda>l. l\<lparr>lhblock :=
         map (\<lambda>i. if i < nat n then get32l d (4 + 4 * i) else lhblock l ! i) [0..<LOGSIZE]\<rparr>))) (
       brelse b)))))"

definition encode_head :: "logstate \<Rightarrow> uchar list \<Rightarrow> uchar list" where
  "encode_head l d = foldl (\<lambda>d i. put32l d (4 + 4 * i) (lhblock l ! i)) (put32l d 0 (of_int (lhn l))) [0..<nat (lhn l)]"

definition write_head :: "('z log_state_scheme, unit) kM" where
  "write_head =
     kbind (kgets log) (\<lambda>l.
     kbind (bread (ldev l) (lstart l)) (\<lambda>b.
     kthen (set_data b (encode_head l)) (
     kthen (bwrite b) (
     brelse b))))"

definition recover_from_log :: "('z log_state_scheme, unit) kM" where
  "recover_from_log =
     kthen read_head (
     kthen install_trans (
     kthen (kmodify (upd_log (\<lambda>l. l\<lparr>lhn := 0\<rparr>))) (
     write_head)))"

text \<open>\<open>sizeof(struct logheader)\<close> is \<open>4 + 4 * LOGSIZE\<close>.\<close>

definition initlog :: "uint \<Rightarrow> ('z log_state_scheme, unit) kM" where
  "initlog dev =
     (if 4 + 4 * LOGSIZE \<ge> BSIZE then kfail (Panic ''initlog: too big logheader'')
      else
        kthen (initlock LkLog ''log'') (
        kbind (readsb dev) (\<lambda>sb.
        kthen (kmodify (upd_log (\<lambda>l. l\<lparr>lstart := logstart sb\<rparr>))) (
        kthen (kmodify (upd_log (\<lambda>l. l\<lparr>lsize := sint (nlog sb)\<rparr>))) (
        kthen (kmodify (upd_log (\<lambda>l. l\<lparr>ldev := dev\<rparr>))) (
        recover_from_log))))))"

section \<open>Transactions\<close>

primrec begin_op_loop :: "nat \<Rightarrow> ('z log_state_scheme, unit) kM" where
  "begin_op_loop 0 = kfail NoFuel"
| "begin_op_loop (Suc n) =
     kbind (kgets log) (\<lambda>l.
     if committing l then kthen (sleep ChLog (Some LkLog)) (begin_op_loop n)
     else if lhn l + (outstanding l + 1) * int MAXOPBLOCKS > int LOGSIZE
     then kthen (sleep ChLog (Some LkLog)) (begin_op_loop n)
     else
       kthen (kmodify (upd_log (\<lambda>l. l\<lparr>outstanding := outstanding l + 1\<rparr>))) (
       release LkLog))"

definition begin_op :: "('z log_state_scheme, unit) kM" where
  "begin_op = kthen (acquire LkLog) (kbind (kgets patience) (\<lambda>n. begin_op_loop (Suc n)))"

definition write_log_one :: "nat \<Rightarrow> ('z log_state_scheme, unit) kM" where
  "write_log_one tail =
     kbind (kgets log) (\<lambda>l.
     kbind (bread (ldev l) (lstart l + of_nat tail + 1)) (\<lambda>to.
     kbind (bread (ldev l) (lhblock l ! tail)) (\<lambda>from.
     kthen (copy_block from to) (
     kthen (bwrite to) (
     kthen (brelse from) (
     brelse to))))))"

definition write_log :: "('z log_state_scheme, unit) kM" where
  "write_log = kbind (kgets (\<lambda>s. lhn (log s))) (\<lambda>n. kfor [0..<nat n] write_log_one)"

definition commit :: "('z log_state_scheme, unit) kM" where
  "commit =
     kbind (kgets (\<lambda>s. lhn (log s))) (\<lambda>n.
     kwhen (n > 0) (
       kthen write_log (
       kthen write_head (
       kthen install_trans (
       kthen (kmodify (upd_log (\<lambda>l. l\<lparr>lhn := 0\<rparr>))) (
       write_head))))))"

definition end_op :: "('z log_state_scheme, unit) kM" where
  "end_op =
     kthen (acquire LkLog) (
     kthen (kmodify (upd_log (\<lambda>l. l\<lparr>outstanding := outstanding l - 1\<rparr>))) (
     kbind (kgets log) (\<lambda>l.
     if committing l then kfail (Panic ''log.committing'')
     else if outstanding l = 0 then
       kthen (kmodify (upd_log (\<lambda>l. l\<lparr>committing := True\<rparr>))) (
       kthen (release LkLog) (
       kthen commit (
       kthen (acquire LkLog) (
       kthen (kmodify (upd_log (\<lambda>l. l\<lparr>committing := False\<rparr>))) (
       kthen (wakeup ChLog) (
       release LkLog))))))
     else kthen (wakeup ChLog) (release LkLog))))"

text \<open>The position of a block in the header: where the absorption loop of log_write() stops.\<close>

definition log_slot :: "logstate \<Rightarrow> uint \<Rightarrow> nat" where
  "log_slot l bno = (case find_idx (\<lambda>x. x = bno) (take (nat (lhn l)) (lhblock l)) of None \<Rightarrow> nat (lhn l) | Some i \<Rightarrow> i)"

definition log_write :: "nat \<Rightarrow> ('z log_state_scheme, unit) kM" where
  "log_write b =
     kbind (kgets log) (\<lambda>l.
     if lhn l \<ge> int LOGSIZE \<or> lhn l \<ge> lsize l - 1 then kfail (Panic ''too big a transaction'')
     else if outstanding l < 1 then kfail (Panic ''log_write outside of trans'')
     else
       kthen (acquire LkLog) (
       kbind (kgets (\<lambda>s. b_blockno (bufs s ! b))) (\<lambda>bno.
       kthen (kmodify (\<lambda>s. upd_log (\<lambda>l. let i = log_slot l bno in
         l\<lparr>lhblock := (lhblock l)[i := bno], lhn := (if int i = lhn l then lhn l + 1 else lhn l)\<rparr>) s)) (
       kthen (kmodify (upd_buf b (\<lambda>x. x\<lparr>b_flags := b_flags x OR B_DIRTY\<rparr>))) (
       release LkLog)))))"

end
