(* ===== verification/Block.thy ===== *)
theory Block
  imports Bio
begin

text \<open>
  The contract of the buffer cache on the memory disk (memide.c), seen by one process. \<open>cache_inv\<close>
  is the invariant of bio.c: the buffers form one list, no two of them hold the same block, a buffer
  is referenced and locked exactly while the process holds it, and a clean buffer nobody holds
  agrees with the disk. \<open>bview\<close> is the contents of the disk as the cache shows it. On top of it
  the locale \<open>block_cache\<close> states what the log relies on; it is interpreted on bread(), bwrite() and
  brelse().
\<close>

section \<open>Frames\<close>

lemma bufs_frame [simp]:
  "bufs (enter l s) = bufs s" "bufs (leave l s) = bufs s" "bufs (touched s) = bufs s"
  "enter l (bufs_update f s) = bufs_update f (enter l s)" "leave l (bufs_update f s) = bufs_update f (leave l s)" "touched (bufs_update f s) = bufs_update f (touched s)"
  "cpu_at (bufs_update f s) = cpu_at s" "me (bufs_update f s) = me s" "depth (bufs_update f s) = depth s"
  "cur_IF (bufs_update f s) = cur_IF s" "cpu_ok (bufs_update f s) = cpu_ok s" "lock_free (bufs_update f s) l = lock_free s l"
  "lock_mine (bufs_update f s) l = lock_mine s l"
  by (auto simp: frame_defs intro!: machine.equality)

lemma b_prev_frame [simp]:
  "b_prev (enter l s) = b_prev s" "b_prev (leave l s) = b_prev s" "b_prev (touched s) = b_prev s"
  "enter l (b_prev_update f s) = b_prev_update f (enter l s)" "leave l (b_prev_update f s) = b_prev_update f (leave l s)" "touched (b_prev_update f s) = b_prev_update f (touched s)"
  "cpu_at (b_prev_update f s) = cpu_at s" "me (b_prev_update f s) = me s" "depth (b_prev_update f s) = depth s"
  "cur_IF (b_prev_update f s) = cur_IF s" "cpu_ok (b_prev_update f s) = cpu_ok s" "lock_free (b_prev_update f s) l = lock_free s l"
  "lock_mine (b_prev_update f s) l = lock_mine s l"
  by (auto simp: frame_defs intro!: machine.equality)

lemma b_next_frame [simp]:
  "b_next (enter l s) = b_next s" "b_next (leave l s) = b_next s" "b_next (touched s) = b_next s"
  "enter l (b_next_update f s) = b_next_update f (enter l s)" "leave l (b_next_update f s) = b_next_update f (leave l s)" "touched (b_next_update f s) = b_next_update f (touched s)"
  "cpu_at (b_next_update f s) = cpu_at s" "me (b_next_update f s) = me s" "depth (b_next_update f s) = depth s"
  "cur_IF (b_next_update f s) = cur_IF s" "cpu_ok (b_next_update f s) = cpu_ok s" "lock_free (b_next_update f s) l = lock_free s l"
  "lock_mine (b_next_update f s) l = lock_mine s l"
  by (auto simp: frame_defs intro!: machine.equality)

lemma memdisk_frame [simp]:
  "memdisk (enter l s) = memdisk s" "memdisk (leave l s) = memdisk s" "memdisk (touched s) = memdisk s"
  "enter l (memdisk_update f s) = memdisk_update f (enter l s)" "leave l (memdisk_update f s) = memdisk_update f (leave l s)" "touched (memdisk_update f s) = memdisk_update f (touched s)"
  "cpu_at (memdisk_update f s) = cpu_at s" "me (memdisk_update f s) = me s" "depth (memdisk_update f s) = depth s"
  "cur_IF (memdisk_update f s) = cur_IF s" "cpu_ok (memdisk_update f s) = cpu_ok s" "lock_free (memdisk_update f s) l = lock_free s l"
  "lock_mine (memdisk_update f s) l = lock_mine s l"
  by (auto simp: frame_defs intro!: machine.equality)

lemma disk_hist_frame [simp]:
  "disk_hist (enter l s) = disk_hist s" "disk_hist (leave l s) = disk_hist s" "disk_hist (touched s) = disk_hist s"
  "enter l (disk_hist_update f s) = disk_hist_update f (enter l s)" "leave l (disk_hist_update f s) = disk_hist_update f (leave l s)" "touched (disk_hist_update f s) = disk_hist_update f (touched s)"
  "cpu_at (disk_hist_update f s) = cpu_at s" "me (disk_hist_update f s) = me s" "depth (disk_hist_update f s) = depth s"
  "cur_IF (disk_hist_update f s) = cur_IF s" "cpu_ok (disk_hist_update f s) = cpu_ok s" "lock_free (disk_hist_update f s) l = lock_free s l"
  "lock_mine (disk_hist_update f s) l = lock_mine s l"
  by (auto simp: frame_defs intro!: machine.equality)

lemma ide_params_crit [simp]:
  "memfs (enter l s) = memfs s" "memfs (touched s) = memfs s" "memfs (leave l s) = memfs s"
  "disksize (enter l s) = disksize s" "disksize (touched s) = disksize s" "disksize (leave l s) = disksize s"
  "ide_state.more (enter l s) = ide_state.more s" "ide_state.more (touched s) = ide_state.more s"
  "ide_state.more (leave l s) = ide_state.more s"
  by (simp_all add: enter_def leave_def touched_def upd_cpu_def taken_def dropped_def pushed_def popped_def)

lemma cur_proc_ide [simp]:
  "cur_proc (bufs_update g t) = cur_proc t" "cur_proc (b_prev_update h t) = cur_proc t"
  "cur_proc (b_next_update h t) = cur_proc t" "cur_proc (memdisk_update k t) = cur_proc t"
  "cur_proc (disk_hist_update e t) = cur_proc t"
  by (simp_all add: cur_proc_def)

lemma upd_buf_frame [simp]:
  "enter l (upd_buf b f s) = upd_buf b f (enter l s)" "leave l (upd_buf b f s) = upd_buf b f (leave l s)"
  "touched (upd_buf b f s) = upd_buf b f (touched s)"
  "cpu_at (upd_buf b f s) = cpu_at s" "me (upd_buf b f s) = me s" "depth (upd_buf b f s) = depth s"
  "cur_IF (upd_buf b f s) = cur_IF s" "cpu_ok (upd_buf b f s) = cpu_ok s"
  "lock_free (upd_buf b f s) l = lock_free s l" "lock_mine (upd_buf b f s) l = lock_mine s l"
  "cur_proc (upd_buf b f s) = cur_proc s" "ptable (upd_buf b f s) = ptable s" "slocks (upd_buf b f s) = slocks s"
  "memfs (upd_buf b f s) = memfs s" "disksize (upd_buf b f s) = disksize s" "memdisk (upd_buf b f s) = memdisk s"
  "b_next (upd_buf b f s) = b_next s" "b_prev (upd_buf b f s) = b_prev s" "disk_hist (upd_buf b f s) = disk_hist s"
  "patience (upd_buf b f s) = patience s" "ide_state.more (upd_buf b f s) = ide_state.more s"
  "length (bufs (upd_buf b f s)) = length (bufs s)"
  by (simp_all add: upd_buf_def)

lemma nth_bufs_upd_buf [simp]:
  "b < length (bufs s) \<Longrightarrow> bufs (upd_buf b f s) ! b = f (bufs s ! b)"
  "j \<noteq> b \<Longrightarrow> bufs (upd_buf b f s) ! j = bufs s ! j"
  by (simp_all add: upd_buf_def)

lemma upd_sl_ide [simp]:
  "bufs (upd_sl i f s) = bufs s" "b_next (upd_sl i f s) = b_next s" "b_prev (upd_sl i f s) = b_prev s"
  "memfs (upd_sl i f s) = memfs s" "disksize (upd_sl i f s) = disksize s" "memdisk (upd_sl i f s) = memdisk s"
  "disk_hist (upd_sl i f s) = disk_hist s" "ide_state.more (upd_sl i f s) = ide_state.more s"
  "upd_buf b g (upd_sl i f s) = upd_sl i f (upd_buf b g s)"
  by (simp_all add: upd_sl_def upd_buf_def)

lemma move_to_front_frame [simp]:
  "enter l (move_to_front b s) = move_to_front b (enter l s)" "leave l (move_to_front b s) = move_to_front b (leave l s)"
  "cpu_ok (move_to_front b s) = cpu_ok s" "depth (move_to_front b s) = depth s"
  "lock_free (move_to_front b s) l = lock_free s l" "lock_mine (move_to_front b s) l = lock_mine s l"
  "cur_proc (move_to_front b s) = cur_proc s" "ptable (move_to_front b s) = ptable s" "slocks (move_to_front b s) = slocks s"
  "memfs (move_to_front b s) = memfs s" "disksize (move_to_front b s) = disksize s" "memdisk (move_to_front b s) = memdisk s"
  "bufs (move_to_front b s) = bufs s" "disk_hist (move_to_front b s) = disk_hist s"
  "ide_state.more (move_to_front b s) = ide_state.more s"
  by (simp_all add: move_to_front_def Let_def)

lemma may_sleep_ide [simp]:
  "may_sleep c (upd_buf b f s) = may_sleep c s" "may_sleep c (move_to_front b s) = may_sleep c s"
  "may_sleep c (memdisk_update g s) = may_sleep c s" "may_sleep c (disk_hist_update h s) = may_sleep c s"
  by (simp_all add: may_sleep_def)

section \<open>Flags\<close>

definition valid_buf :: "buf \<Rightarrow> bool" where "valid_buf x \<longleftrightarrow> b_flags x AND B_VALID \<noteq> 0"
definition dirty_buf :: "buf \<Rightarrow> bool" where "dirty_buf x \<longleftrightarrow> b_flags x AND B_DIRTY \<noteq> 0"

lemma flag_bits: "(w :: uint) AND B_VALID \<noteq> 0 \<longleftrightarrow> bit w 1" "w AND B_DIRTY \<noteq> 0 \<longleftrightarrow> bit w 2"
  using bit_iff_and_push_bit_not_eq_0 [of w 1] bit_iff_and_push_bit_not_eq_0 [of w 2]
  by (simp_all add: B_VALID_def B_DIRTY_def push_bit_eq_mult)

lemma bit_flag_masks [simp]:
  "bit B_VALID n \<longleftrightarrow> n = 1" "bit B_DIRTY n \<longleftrightarrow> n = 2"
proof -
  have "bit (2 ^ k :: uint) n \<longleftrightarrow> n = k" if "k < 32" for k using that by (auto simp: bit_exp_iff)
  from this [of 1] this [of 2] show "bit B_VALID n \<longleftrightarrow> n = 1" "bit B_DIRTY n \<longleftrightarrow> n = 2"
    by (simp_all add: B_VALID_def B_DIRTY_def)
qed

lemma flags_simps [simp]:
  "bit (w AND NOT B_DIRTY) (Suc 0) = bit (w :: uint) (Suc 0)" "\<not> bit (w AND NOT B_DIRTY) 2"
  "bit (w OR B_VALID) 2 = bit w 2" "bit (w OR B_VALID) (Suc 0)" "bit (w OR B_DIRTY) 2" "bit (w OR B_DIRTY) (Suc 0) = bit w (Suc 0)"
  by (simp_all add: bit_and_iff bit_or_iff bit_not_iff)

lemma nothing_to_do: "(w :: uint) AND (B_VALID OR B_DIRTY) = B_VALID \<longleftrightarrow> bit w 1 \<and> \<not> bit w 2"
proof
  assume "w AND (B_VALID OR B_DIRTY) = B_VALID"
  then have "bit (w AND (B_VALID OR B_DIRTY)) 1" "\<not> bit (w AND (B_VALID OR B_DIRTY)) 2" by simp_all
  then show "bit w 1 \<and> \<not> bit w 2" by (simp add: bit_and_iff bit_or_iff)
next
  assume "bit w 1 \<and> \<not> bit w 2"
  then show "w AND (B_VALID OR B_DIRTY) = B_VALID"
    by (intro bit_eqI) (auto simp: bit_and_iff bit_or_iff)
qed

lemmas buf_flags = valid_buf_def dirty_buf_def flag_bits nothing_to_do

lemma unat_eq_unat [simp]: "unat (a :: uint) = unat b \<longleftrightarrow> a = b"
  by (metis unsigned_word_eqI)

section \<open>The invariant\<close>

definition home :: "'z ide_state_scheme \<Rightarrow> nat \<Rightarrow> uint \<Rightarrow> bool" where
  "home s b bno \<longleftrightarrow> b < NBUF \<and> b_dev (bufs s ! b) = 1 \<and> b_blockno (bufs s ! b) = bno"

text \<open>Buffer by buffer: who may use it, and what its data are worth.\<close>

definition buf_inv :: "int \<Rightarrow> nat set \<Rightarrow> 'z ide_state_scheme \<Rightarrow> nat \<Rightarrow> bool" where
  "buf_inv p H s b \<longleftrightarrow>
     (let x = bufs s ! b in
      (b \<in> H \<longrightarrow> b_dev x = 1 \<and> valid_buf x \<and> b_refcnt x = 1 \<and> sl_owned (SlBuf b) p s) \<and>
      (b \<notin> H \<longrightarrow> b_refcnt x = 0 \<and> \<not> sl_locked (slocks s (SlBuf b))) \<and>
      (dirty_buf x \<longrightarrow> b_dev x = 1 \<and> valid_buf x) \<and>
      (b_dev x = 1 \<longrightarrow> valid_buf x \<and> b_blockno x < disksize s) \<and>
      (b_dev x = 1 \<and> valid_buf x \<and> \<not> dirty_buf x \<and> b \<notin> H \<longrightarrow> b_data x = memdisk s (unat (b_blockno x))))"

definition cache_inv :: "nat \<Rightarrow> int \<Rightarrow> nat set \<Rightarrow> 'z ide_state_scheme \<Rightarrow> bool" where
  "cache_inv c p H s \<longleftrightarrow> may_sleep c s \<and> pid (ptable s ! c) = p \<and> memfs s \<and>
     length (bufs s) = NBUF \<and> (\<exists>xs. bcache_list s xs) \<and>
     lock_free s LkBcache \<and> (\<forall>b. lock_free s (LkSleep (SlBuf b))) \<and> (\<forall>b \<in> H. b < NBUF) \<and>
     (\<forall>b < NBUF. buf_inv p H s b) \<and>
     (\<forall>b b' bno. home s b bno \<and> home s b' bno \<longrightarrow> b = b')"

text \<open>
  The disk as the cache shows it; the buffers a miss may recycle; the blocks that must be written
  before their buffers are recycled.
\<close>

definition bview :: "'z ide_state_scheme \<Rightarrow> uint \<Rightarrow> uchar list" where
  "bview s bno =
     (case find (\<lambda>b. b_dev (bufs s ! b) = 1 \<and> b_blockno (bufs s ! b) = bno \<and> valid_buf (bufs s ! b)) [0..<NBUF] of
        None \<Rightarrow> memdisk s (unat bno) | Some b \<Rightarrow> b_data (bufs s ! b))"

definition recyclable :: "'z ide_state_scheme \<Rightarrow> nat set" where
  "recyclable s = {b. b < NBUF \<and> b_refcnt (bufs s ! b) = 0 \<and> \<not> dirty_buf (bufs s ! b)}"

definition pinned :: "'z ide_state_scheme \<Rightarrow> uint set" where
  "pinned s = {b_blockno (bufs s ! b) | b. b < NBUF \<and> dirty_buf (bufs s ! b)}"

lemma cache_inv_unique: "cache_inv c p H s \<Longrightarrow> home s b bno \<Longrightarrow> home s b' bno \<Longrightarrow> b = b'"
  unfolding cache_inv_def by blast

lemma cache_inv_D:
  assumes "cache_inv c p H s"
  shows "may_sleep c s" "cpu_ok s" "depth s = 0" "lock_free s LkPtable" "cur_proc s = Some c" "pid (ptable s ! c) = p" "memfs s"
    "length (bufs s) = NBUF" "lock_free s LkBcache" "lock_free s (LkSleep (SlBuf b))"
    "b < NBUF \<Longrightarrow> buf_inv p H s b" "b \<in> H \<Longrightarrow> b < NBUF"
  using assms unfolding cache_inv_def may_sleep_def by blast+

lemma cache_inv_not_held:
  assumes "cache_inv c p H s" and "b < NBUF" and "b \<notin> H"
  shows "b_refcnt (bufs s ! b) = 0" "\<not> sl_locked (slocks s (SlBuf b))"
  using cache_inv_D(11) [OF assms(1,2)] assms(3) by (simp_all add: buf_inv_def Let_def)

lemma cache_inv_held:
  assumes "cache_inv c p H s" and "b \<in> H"
  shows "b_refcnt (bufs s ! b) = 1" "sl_owned (SlBuf b) p s" "valid_buf (bufs s ! b)"
    "home s b (b_blockno (bufs s ! b))" "b_blockno (bufs s ! b) < disksize s"
  using cache_inv_D(11) [OF assms(1), of b] cache_inv_D(12) [OF assms] assms(2)
  by (auto simp: buf_inv_def Let_def home_def)

lemma home_valid: "cache_inv c p H s \<Longrightarrow> home s b bno \<Longrightarrow> valid_buf (bufs s ! b)"
  using cache_inv_D(11) [of c p H s b] by (simp add: home_def buf_inv_def Let_def)

lemma bview_hit:
  assumes "cache_inv c p H s" and "home s b bno" and "valid_buf (bufs s ! b)"
  shows "bview s bno = b_data (bufs s ! b)"
proof -
  let ?P = "\<lambda>b. b_dev (bufs s ! b) = 1 \<and> b_blockno (bufs s ! b) = bno \<and> valid_buf (bufs s ! b)"
  have "find ?P [0..<NBUF] = Some b"
  proof (cases "find ?P [0..<NBUF]")
    case None
    with assms(2,3) show ?thesis by (auto simp: find_None_iff home_def)
  next
    case (Some b')
    then have "b' < NBUF" "?P b'" by (auto simp: find_Some_iff)
    then have "home s b' bno" by (auto simp: home_def)
    with cache_inv_unique [OF assms(1)] assms(2) Some show ?thesis by blast
  qed
  then show ?thesis by (simp add: bview_def)
qed

lemma bview_miss:
  assumes "\<And>b. home s b bno \<Longrightarrow> \<not> valid_buf (bufs s ! b)"
  shows "bview s bno = memdisk s (unat bno)"
proof -
  have "find (\<lambda>b. b_dev (bufs s ! b) = 1 \<and> b_blockno (bufs s ! b) = bno \<and> valid_buf (bufs s ! b)) [0..<NBUF] = None"
    using assms by (auto simp: find_None_iff home_def)
  then show ?thesis by (simp add: bview_def)
qed

text \<open>The view of a clean or missing block is the block on the disk.\<close>

lemma bview_clean:
  assumes "cache_inv c p H s" and "\<And>b. home s b bno \<Longrightarrow> b \<notin> H \<and> \<not> dirty_buf (bufs s ! b)"
  shows "bview s bno = memdisk s (unat bno)"
proof (cases "\<exists>b. home s b bno \<and> valid_buf (bufs s ! b)")
  case True
  then obtain b where b: "home s b bno" "valid_buf (bufs s ! b)" by blast
  then have "buf_inv p H s b" using assms(1) by (simp add: cache_inv_def home_def)
  with b assms(2) [OF b(1)] have "b_data (bufs s ! b) = memdisk s (unat bno)"
    by (auto simp: buf_inv_def Let_def home_def)
  with bview_hit [OF assms(1) b] show ?thesis by simp
qed (use bview_miss in blast)

section \<open>Finding a buffer\<close>

lemma find_unique:
  assumes "b \<in> set xs" and "P b" and "\<And>b'. b' \<in> set xs \<Longrightarrow> P b' \<Longrightarrow> b' = b"
  shows "find P xs = Some b"
proof (cases "find P xs")
  case None
  with assms(1,2) show ?thesis by (auto simp: find_None_iff)
next
  case (Some b')
  then have "b' \<in> set xs" "P b'" unfolding find_Some_iff using nth_mem by metis+
  with assms(3) Some show ?thesis by blast
qed

lemma find_cached_inv:
  assumes "cache_inv c p H s"
  shows "home s b bno \<Longrightarrow> find_cached 1 bno s = Some (Some b)"
    and "\<not> (\<exists>b. home s b bno) \<Longrightarrow> find_cached 1 bno s = Some None"
proof -
  obtain xs where xs: "bcache_list s xs" using assms unfolding cache_inv_def by blast
  have set: "set xs = {0..<NBUF}" using xs by (simp add: bcache_list_def)
  have f: "find_cached 1 bno s = Some (find (\<lambda>b. b_dev (bufs s ! b) = 1 \<and> b_blockno (bufs s ! b) = bno) xs)"
    unfolding find_cached_def by (rule bscan_lists(1) [OF xs])
  show "find_cached 1 bno s = Some (Some b)" if "home s b bno"
  proof -
    have u: "b' = b" if "b' \<in> set xs" "b_dev (bufs s ! b') = 1 \<and> b_blockno (bufs s ! b') = bno" for b'
    proof -
      have "home s b' bno" using that set unfolding home_def by simp
      then show ?thesis using cache_inv_unique [OF assms] \<open>home s b bno\<close> by blast
    qed
    have "b \<in> set xs" "b_dev (bufs s ! b) = 1 \<and> b_blockno (bufs s ! b) = bno"
      using that set by (simp_all add: home_def)
    from find_unique [where P = "\<lambda>b. b_dev (bufs s ! b) = 1 \<and> b_blockno (bufs s ! b) = bno", OF this u] show ?thesis unfolding f by (rule arg_cong)
  qed
  show "find_cached 1 bno s = Some None" if "\<not> (\<exists>b. home s b bno)"
  proof -
    have "\<not> (\<exists>b. b \<in> set xs \<and> b_dev (bufs s ! b) = 1 \<and> b_blockno (bufs s ! b) = bno)"
      using that unfolding set home_def by (metis atLeastLessThan_iff)
    then show ?thesis unfolding f by (simp add: find_None_iff)
  qed
qed

lemma find_unused_inv:
  assumes "cache_inv c p H s" and "recyclable s \<noteq> {}"
  obtains b where "b \<in> recyclable s" "find_unused s = Some (Some b)"
proof -
  obtain xs where xs: "bcache_list s xs" using assms unfolding cache_inv_def by blast
  let ?P = "\<lambda>b. b_refcnt (bufs s ! b) = 0 \<and> b_flags (bufs s ! b) AND B_DIRTY = 0"
  have f: "find_unused s = Some (find ?P (rev xs))" unfolding find_unused_def by (rule bscan_lists(2) [OF xs])
  have set: "set xs = {0..<NBUF}" using xs by (simp add: bcache_list_def)
  have P: "?P b \<longleftrightarrow> b \<in> recyclable s" if "b < NBUF" for b using that by (simp add: recyclable_def dirty_buf_def)
  show thesis
  proof (cases "find ?P (rev xs)")
    case None
    then have "\<forall>b \<in> {0..<NBUF}. \<not> ?P b" unfolding find_None_iff using set by simp
    with P have "recyclable s \<subseteq> {}" by (auto simp: recyclable_def)
    with assms(2) show thesis by simp
  next
    case (Some b)
    then have "?P b" "b \<in> set (rev xs)" unfolding find_Some_iff using nth_mem by metis+
    with set P [of b] f Some show thesis by (intro that [of b]) simp_all
  qed
qed

definition lockb :: "nat \<Rightarrow> int \<Rightarrow> 'z sleep_state_scheme \<Rightarrow> 'z sleep_state_scheme" where
  "lockb b p = upd_sl (SlBuf b) (\<lambda>l. l\<lparr>sl_locked := True, sl_pid := p\<rparr>)"

lemma find_crit [simp]:
  "find_cached dev bno (enter l s) = find_cached dev bno s" "find_unused (enter l s) = find_unused s"
  by (simp_all add: find_cached_def find_unused_def)

lemma take_buf:
  assumes "cache_inv c p H s" and "b < NBUF" and "b \<notin> H"
  shows "acquiresleep (SlBuf b) (upd_buf b f (touched s)) = Ok () (lockb b p (upd_buf b f (touched s)))"
proof -
  have "may_sleep c (upd_buf b f (touched s))" "lock_free (upd_buf b f (touched s)) (LkSleep (SlBuf b))"
    "\<not> sl_locked (slocks (upd_buf b f (touched s)) (SlBuf b))"
    using cache_inv_D(1,10) [OF assms(1)] cache_inv_not_held [OF assms] by simp_all
  from acquiresleep_free [OF this] show ?thesis using cache_inv_D(6) [OF assms(1)] by (simp add: lockb_def)
qed

lemma bget_hit:
  assumes "cache_inv c p H s" and "home s b bno" and "b \<notin> H"
  shows "bget 1 bno s = Ok b (lockb b p (upd_buf b (\<lambda>x. x\<lparr>b_refcnt := b_refcnt x + 1\<rparr>) (touched s)))"
proof -
  have "b < NBUF" using assms(2) by (simp add: home_def)
  with find_cached_inv(1) [OF assms(1,2)] take_buf [OF assms(1) _ assms(3)] cache_inv_D(2,9) [OF assms(1)]
  show ?thesis by (simp add: bget_def kthen_Ok)
qed

lemma bget_miss:
  assumes "cache_inv c p H s" and "\<not> (\<exists>b. home s b bno)" and "recyclable s \<noteq> {}"
  obtains b where "b \<in> recyclable s" "b \<notin> H" "bget 1 bno s = Ok b (lockb b p
    (upd_buf b (\<lambda>x. x\<lparr>b_dev := 1, b_blockno := bno, b_flags := 0, b_refcnt := 1\<rparr>) (touched s)))"
proof -
  obtain b where b: "b \<in> recyclable s" "find_unused s = Some (Some b)" by (rule find_unused_inv [OF assms(1,3)])
  then have n: "b < NBUF" "b_refcnt (bufs s ! b) = 0" by (simp_all add: recyclable_def)
  then have h: "b \<notin> H" using cache_inv_held(1) [OF assms(1), of b] by auto
  from b find_cached_inv(2) [OF assms(1,2)] take_buf [OF assms(1) n(1) h] cache_inv_D(2,9) [OF assms(1)]
  have "bget 1 bno s = Ok b (lockb b p
    (upd_buf b (\<lambda>x. x\<lparr>b_dev := 1, b_blockno := bno, b_flags := 0, b_refcnt := 1\<rparr>) (touched s)))"
    by (simp add: bget_def kthen_Ok)
  with that b(1) h show thesis by blast
qed

section \<open>Reading a block\<close>

lemma lockb_frame [simp]:
  "bufs (lockb b p s) = bufs s" "b_next (lockb b p s) = b_next s" "b_prev (lockb b p s) = b_prev s"
  "memfs (lockb b p s) = memfs s" "disksize (lockb b p s) = disksize s" "memdisk (lockb b p s) = memdisk s"
  "disk_hist (lockb b p s) = disk_hist s" "ide_state.more (lockb b p s) = ide_state.more s"
  "upd_buf j g (lockb b p s) = lockb b p (upd_buf j g s)" "touched (lockb b p s) = lockb b p (touched s)"
  by (simp_all add: lockb_def)

lemma lockb_proc [simp]:
  "cpu_ok (lockb b p t) = cpu_ok t" "may_sleep c (lockb b p t) = may_sleep c t" "lock_free (lockb b p t) l = lock_free t l"
  "cur_proc (lockb b p t) = cur_proc t" "ptable (lockb b p t) = ptable t"
  "slocks (lockb b p t) = (slocks t)(SlBuf b := (slocks t (SlBuf b))\<lparr>sl_locked := True, sl_pid := p\<rparr>)"
  by (simp_all add: lockb_def)

lemma upd_buf_twice [simp]: "upd_buf b g (upd_buf b f s) = upd_buf b (\<lambda>x. g (f x)) s"
  by (cases "b < length (bufs s)") (simp_all add: upd_buf_def list_update_beyond)

lemma upd_buf_eqI: "f (bufs s ! b) = g (bufs s ! b) \<Longrightarrow> upd_buf b f s = upd_buf b g s"
  by (simp add: upd_buf_def)

lemma bcache_list_frame [simp]:
  "bcache_list (touched s) xs = bcache_list s xs" "bcache_list (upd_buf b f s) xs = bcache_list s xs"
  "bcache_list (lockb b p s) xs = bcache_list s xs"
  by (simp_all add: bcache_list_def)

text \<open>A buffer that becomes held: what it must contain for the invariant and the view to stay.\<close>

definition fills :: "'z ide_state_scheme \<Rightarrow> nat \<Rightarrow> uint \<Rightarrow> buf \<Rightarrow> bool" where
  "fills s b bno y \<longleftrightarrow> b_dev y = 1 \<and> b_blockno y = bno \<and> b_refcnt y = 1 \<and> valid_buf y \<and>
     b_data y = bview s bno \<and> (dirty_buf y \<longleftrightarrow> dirty_buf (bufs s ! b)) \<and>
     (home s b bno \<or> b \<in> recyclable s \<and> \<not> (\<exists>b'. home s b' bno))"

lemma cache_enter:
  assumes inv: "cache_inv c p H s" and b: "b < NBUF" "b \<notin> H" and y: "fills s b bno y" and n: "bno < disksize s"
  defines "t \<equiv> lockb b p (upd_buf b (\<lambda>_. y) (touched s))"
  shows "cache_inv c p (insert b H) t"
proof -
  have len: "length (bufs s) = NBUF" by (rule cache_inv_D(8) [OF inv])
  have bb: "bufs t ! b = y" using len b(1) by (simp add: t_def)
  have bo: "bufs t ! j = bufs s ! j" if "j \<noteq> b" for j using that by (simp add: t_def)
  have "buf_inv p (insert b H) t j" if j: "j < NBUF" for j
  proof (cases "j = b")
    case True
    with y n bb show ?thesis by (simp add: buf_inv_def Let_def fills_def sl_owned_def) (simp add: t_def)
  next
    case False
    with cache_inv_D(11) [OF inv j] bo [OF False] show ?thesis
      by (simp add: buf_inv_def Let_def sl_owned_def) (simp add: t_def)
  qed
  moreover have "j = j'" if "home t j k" "home t j' k" for j j' k
  proof -
    have *: "j = j'" if h: "home t j k" "home t j' k" and "j = b" for j j'
    proof (rule ccontr)
      assume ne: "j \<noteq> j'"
      with h \<open>j = b\<close> bb bo y have k: "k = bno" "home s j' bno" by (auto simp: home_def fills_def)
      with y have "home s b bno" by (auto simp: fills_def)
      with k cache_inv_unique [OF inv] ne \<open>j = b\<close> show False by blast
    qed
    show ?thesis
    proof (cases "j = b \<or> j' = b")
      case True
      with *[OF that] *[OF that(2,1)] show ?thesis by blast
    next
      case False
      with that bo have "home s j k" "home s j' k" by (simp_all add: home_def)
      with cache_inv_unique [OF inv] show ?thesis by blast
    qed
  qed
  moreover have "\<exists>xs. bcache_list t xs" using inv unfolding cache_inv_def by (simp add: t_def)
  moreover have "\<forall>b \<in> insert b H. b < NBUF" using cache_inv_D(12) [OF inv] b(1) by blast
  ultimately show ?thesis
    using cache_inv_D(1,6,7,9,10) [OF inv] len unfolding cache_inv_def by (auto simp: t_def)
qed

text \<open>What the cache shows of a block is decided by a buffer with its valid contents, or by the disk.\<close>

lemma bview_cases:
  assumes "cache_inv c p H s"
  shows "(\<exists>b. home s b bno \<and> valid_buf (bufs s ! b) \<and> bview s bno = b_data (bufs s ! b)) \<or>
    ((\<forall>b. home s b bno \<longrightarrow> \<not> valid_buf (bufs s ! b)) \<and> bview s bno = memdisk s (unat bno))"
  using bview_hit [OF assms] bview_miss by blast

lemma cache_enter_view:
  assumes inv: "cache_inv c p H s" and b: "b < NBUF" "b \<notin> H" and y: "fills s b bno y" and n: "bno < disksize s"
  defines "t \<equiv> lockb b p (upd_buf b (\<lambda>_. y) (touched s))"
  shows "bview t = bview s" and "home t b bno" and "recyclable t = recyclable s - {b}" and "pinned t = pinned s"
proof -
  have len: "length (bufs s) = NBUF" by (rule cache_inv_D(8) [OF inv])
  have bb: "bufs t ! b = y" using len b(1) by (simp add: t_def)
  have bo: "bufs t ! j = bufs s ! j" if "j \<noteq> b" for j using that by (simp add: t_def)
  have tinv: "cache_inv c p (insert b H) t" unfolding t_def by (rule cache_enter [OF inv b y n])
  show h: "home t b bno" using b(1) bb y by (simp add: home_def fills_def)
  have md: "memdisk t = memdisk s" by (simp add: t_def)
  have "bview t k = bview s k" for k
  proof (cases "k = bno")
    case True
    have "valid_buf (bufs t ! b)" using y bb by (simp add: fills_def)
    with bview_hit [OF tinv h] bb y True show ?thesis by (simp add: fills_def)
  next
    case False
    have others: "home t j k \<longleftrightarrow> home s j k \<and> j \<noteq> b" for j
      using False bb bo [of j] y by (cases "j = b") (auto simp: home_def fills_def)
    have lost: "bview s k = memdisk s (unat k)" if "home s b k"
    proof (rule bview_clean [OF inv])
      fix j assume "home s j k"
      with that cache_inv_unique [OF inv] have "j = b" by blast
      moreover have "\<not> home s b bno" using that False by (auto simp: home_def)
      ultimately show "j \<notin> H \<and> \<not> dirty_buf (bufs s ! j)" using y b(2) by (auto simp: fills_def recyclable_def)
    qed
    show ?thesis
    proof (cases "\<exists>j. home t j k \<and> valid_buf (bufs t ! j)")
      case True
      then obtain j where j: "home t j k" "valid_buf (bufs t ! j)" by blast
      then have "home s j k" "j \<noteq> b" using others by blast+
      with j bo [of j] bview_hit [OF tinv j] bview_hit [OF inv \<open>home s j k\<close>] show ?thesis by simp
    next
      case f: False
      then have "bview t k = memdisk s (unat k)" using bview_miss [of t k] md by auto
      moreover have "bview s k = memdisk s (unat k)"
      proof (cases "home s b k")
        case no: False
        show ?thesis
        proof (rule bview_miss)
          fix j assume j: "home s j k"
          with no have "j \<noteq> b" by blast
          with j f others bo [of j] show "\<not> valid_buf (bufs s ! j)" by auto
        qed
      qed (rule lost)
      ultimately show ?thesis by simp
    qed
  qed
  then show "bview t = bview s" by blast
  have "j \<in> recyclable t \<longleftrightarrow> j \<in> recyclable s - {b}" for j
    using bb bo [of j] y by (cases "j = b") (simp_all add: recyclable_def fills_def)
  then show "recyclable t = recyclable s - {b}" by blast
  have d: "dirty_buf (bufs t ! j) \<longleftrightarrow> dirty_buf (bufs s ! j)" for j
    using bb bo [of j] y by (cases "j = b") (auto simp: fills_def)
  have "b_blockno (bufs t ! j) = b_blockno (bufs s ! j)" if "dirty_buf (bufs s ! j)" for j
    using that bb bo [of j] y by (cases "j = b") (auto simp: fills_def recyclable_def home_def)
  with d show "pinned t = pinned s" unfolding pinned_def by metis
qed

lemma iderw_read:
  assumes "cpu_ok s" and "lock_free s (LkSleep (SlBuf b))" and "cur_proc s = Some c" and "sl_owned (SlBuf b) (pid (ptable s ! c)) s"
    and "memfs s" and "b < length (bufs s)" and "b_dev (bufs s ! b) = 1" and "b_blockno (bufs s ! b) < disksize s"
    and "\<not> valid_buf (bufs s ! b)" and "\<not> dirty_buf (bufs s ! b)"
  shows "iderw b s = Ok () (upd_buf b (\<lambda>x. x\<lparr>b_data := memdisk s (unat (b_blockno (bufs s ! b))),
    b_flags := b_flags x OR B_VALID\<rparr>) (touched s))"
proof -
  have "holdingsleep (SlBuf b) s = Ok True (touched s)"
    using holdingsleep_run [OF assms(1-3)] assms(4) by (simp add: sl_owned_def)
  moreover have "b_flags (bufs s ! b) AND (B_VALID OR B_DIRTY) \<noteq> B_VALID" using assms(9) by (simp add: buf_flags)
  moreover have "b_flags (bufs s ! b) AND B_DIRTY = 0" using assms(10) by (simp add: dirty_buf_def)
  ultimately show ?thesis using assms(5-8) by (simp add: iderw_def iderw_mem_def kbind_Ok kthen_Ok)
qed

definition same_disk :: "'z ide_state_scheme \<Rightarrow> 'z ide_state_scheme \<Rightarrow> bool" where
  "same_disk s t \<longleftrightarrow> memdisk t = memdisk s \<and> disk_hist t = disk_hist s \<and> disksize t = disksize s \<and>
     ide_state.more t = ide_state.more s"

lemma bread_fills:
  assumes "cache_inv c p H s" and "bno < disksize s" and "\<And>b. home s b bno \<Longrightarrow> b \<notin> H"
    and "(\<exists>b. home s b bno) \<or> recyclable s \<noteq> {}"
  obtains b y where "b < NBUF" "b \<notin> H" "fills s b bno y" "bread 1 bno s = Ok b (lockb b p (upd_buf b (\<lambda>_. y) (touched s)))"
proof (cases "\<exists>b. home s b bno")
  case True
  then obtain b where b: "home s b bno" "valid_buf (bufs s ! b)" using home_valid [OF assms(1)] by blast
  have n: "b < NBUF" "b \<notin> H" using b assms(3) by (auto simp: home_def)
  let ?y = "(bufs s ! b)\<lparr>b_refcnt := 1\<rparr>"
  have "fills s b bno ?y" using b bview_hit [OF assms(1) b] by (simp add: fills_def home_def valid_buf_def dirty_buf_def)
  moreover have "upd_buf b (\<lambda>x. x\<lparr>b_refcnt := b_refcnt x + 1\<rparr>) (touched s) = upd_buf b (\<lambda>_. ?y) (touched s)"
    using cache_inv_not_held(1) [OF assms(1) n] by (intro upd_buf_eqI) simp
  then have "bread 1 bno s = Ok b (lockb b p (upd_buf b (\<lambda>_. ?y) (touched s)))"
    using bget_hit [OF assms(1) b(1) n(2)] b(2) n(1) cache_inv_D(8) [OF assms(1)]
    by (simp add: bread_def kbind_Ok valid_buf_def)
  ultimately show thesis using that n by blast
next
  case False
  with assms(4) have no: "\<not> (\<exists>b. home s b bno)" "recyclable s \<noteq> {}" by blast+
  let ?f = "\<lambda>x. x\<lparr>b_dev := 1, b_blockno := bno, b_flags := 0, b_refcnt := 1\<rparr>"
  obtain b where b: "b \<in> recyclable s" "b \<notin> H" "bget 1 bno s = Ok b (lockb b p (upd_buf b ?f (touched s)))"
    by (rule bget_miss [OF assms(1) no])
  then have n: "b < NBUF" "\<not> dirty_buf (bufs s ! b)" by (simp_all add: recyclable_def)
  let ?y = "(bufs s ! b)\<lparr>b_dev := 1, b_blockno := bno, b_refcnt := 1, b_data := memdisk s (unat bno), b_flags := B_VALID\<rparr>"
  have "\<not> dirty_buf ?y" "valid_buf ?y" by (simp_all add: dirty_buf_def valid_buf_def B_VALID_def B_DIRTY_def)
  then have "fills s b bno ?y" using b(1) no(1) n bview_miss [of s bno] by (simp add: fills_def)
  moreover have "iderw b (lockb b p (upd_buf b ?f (touched s))) = Ok () (lockb b p (upd_buf b (\<lambda>_. ?y) (touched s)))"
  proof -
    have "upd_buf b (\<lambda>x. (?f x)\<lparr>b_data := memdisk s (unat bno), b_flags := B_VALID\<rparr>) (touched s) = upd_buf b (\<lambda>_. ?y) (touched s)"
      by (intro upd_buf_eqI) simp
    then show ?thesis
      using cache_inv_D(2,5,6,7,8) [OF assms(1)] cache_inv_D(10) [OF assms(1), of b] n assms(2)
      by (subst iderw_read [of _ _ c]) (simp_all add: sl_owned_def valid_buf_def dirty_buf_def)
  qed
  ultimately show thesis
    using that [OF n(1) b(2)] b(3) n(1) cache_inv_D(8) [OF assms(1)]
    by (simp add: bread_def kbind_Ok kthen_Ok)
qed

lemma bread_ok:
  assumes "cache_inv c p H s" and "bno < disksize s" and "\<And>b. home s b bno \<Longrightarrow> b \<notin> H"
    and "(\<exists>b. home s b bno) \<or> recyclable s \<noteq> {}"
  obtains b t where "bread 1 bno s = Ok b t" "b \<notin> H" "cache_inv c p (insert b H) t" "home t b bno" "bview t = bview s"
    "same_disk s t" "recyclable t = recyclable s - {b}" "pinned t = pinned s" "\<forall>j. j \<noteq> b \<longrightarrow> bufs t ! j = bufs s ! j"
proof -
  obtain b y where b: "b < NBUF" "b \<notin> H" "fills s b bno y" "bread 1 bno s = Ok b (lockb b p (upd_buf b (\<lambda>_. y) (touched s)))"
    by (rule bread_fills [OF assms])
  have "same_disk s (lockb b p (upd_buf b (\<lambda>_. y) (touched s)))" by (simp add: same_disk_def)
  with cache_enter [OF assms(1) b(1-3) assms(2)] cache_enter_view [OF assms(1) b(1-3) assms(2)] b(2,4) that
  show thesis by simp
qed

section \<open>Writing a block\<close>

text \<open>
  What may happen to a held buffer: it gets new contents, and its block may be written on the disk.
  It changes what the cache shows of its block, and nothing else.
\<close>

definition held_step :: "nat \<Rightarrow> nat \<Rightarrow> buf \<Rightarrow> 'z ide_state_scheme \<Rightarrow> 'z ide_state_scheme \<Rightarrow> bool" where
  "held_step c b y s t \<longleftrightarrow> bufs t = (bufs s)[b := y] \<and> b_dev y = b_dev (bufs s ! b) \<and>
     b_blockno y = b_blockno (bufs s ! b) \<and> b_refcnt y = b_refcnt (bufs s ! b) \<and> valid_buf y \<and>
     slocks t = slocks s \<and> disksize t = disksize s \<and> b_next t = b_next s \<and> b_prev t = b_prev s \<and> memfs t = memfs s \<and>
     (\<forall>n. n \<noteq> unat (b_blockno y) \<longrightarrow> memdisk t n = memdisk s n) \<and>
     may_sleep c t = may_sleep c s \<and> ptable t = ptable s \<and> lock_free t = lock_free s"

lemma held_step_bufs:
  assumes inv: "cache_inv c p H s" and b: "b \<in> H" and st: "held_step c b y s t"
  shows "b < NBUF" and "bufs t ! b = y" and "j \<noteq> b \<Longrightarrow> bufs t ! j = bufs s ! j" and "home t j k = home s j k"
    and "b_refcnt (bufs t ! j) = b_refcnt (bufs s ! j)"
    and "j < NBUF \<Longrightarrow> j \<noteq> b \<Longrightarrow> b_dev (bufs s ! j) = 1 \<Longrightarrow> b_blockno (bufs s ! j) \<noteq> b_blockno y"
proof -
  have len: "length (bufs s) = NBUF" and n: "b < NBUF" using cache_inv_D(8,12) [OF inv] b by blast+
  show bb: "b < NBUF" "bufs t ! b = y" using len n st by (simp_all add: held_step_def)
  show bo: "bufs t ! j = bufs s ! j" if "j \<noteq> b" for j using that st by (simp add: held_step_def)
  have "b_blockno (bufs t ! j) = b_blockno (bufs s ! j)" "b_dev (bufs t ! j) = b_dev (bufs s ! j)" for j
    using bb bo [of j] st by (cases "j = b"; simp add: held_step_def)+
  then show "home t j k = home s j k" for j k by (simp add: home_def)
  show "b_refcnt (bufs t ! j) = b_refcnt (bufs s ! j)" for j using bb bo [of j] st by (cases "j = b") (simp_all add: held_step_def)
  show "b_blockno (bufs s ! j) \<noteq> b_blockno y" if "j < NBUF" "j \<noteq> b" "b_dev (bufs s ! j) = 1" for j
    using cache_inv_unique [OF inv cache_inv_held(4) [OF inv b], of j] that st by (auto simp: home_def held_step_def)
qed

lemma held_step_inv:
  assumes inv: "cache_inv c p H s" and b: "b \<in> H" and st: "held_step c b y s t"
  shows "cache_inv c p H t"
proof -
  note f = held_step_bufs [OF assms]
  have "buf_inv p H t j" if j: "j < NBUF" for j
  proof (cases "j = b")
    case True
    with cache_inv_D(11) [OF inv j] b f(2) st show ?thesis by (simp add: buf_inv_def Let_def sl_owned_def held_step_def)
  next
    case False
    with cache_inv_D(11) [OF inv j] f(3) [OF False] st f(6) [OF j False] show ?thesis
      by (simp add: buf_inv_def Let_def sl_owned_def held_step_def)
  qed
  moreover have "\<exists>xs. bcache_list t xs" using inv st unfolding cache_inv_def bcache_list_def held_step_def by simp
  ultimately show ?thesis
    using cache_inv_D(1,6-10,12) [OF inv] st cache_inv_unique [OF inv] f(4) unfolding cache_inv_def held_step_def by auto
qed

lemma held_step_view:
  assumes inv: "cache_inv c p H s" and b: "b \<in> H" and st: "held_step c b y s t"
  shows "bview t = (bview s)(b_blockno y := b_data y)" and "recyclable t = recyclable s"
proof -
  note f = held_step_bufs [OF assms] and tinv = held_step_inv [OF assms]
  have "bview t k = ((bview s)(b_blockno y := b_data y)) k" for k
  proof (cases "k = b_blockno y")
    case True
    have "home t b k" "valid_buf (bufs t ! b)" using cache_inv_held(4) [OF inv b] f(2,4) st True by (auto simp: held_step_def)
    with bview_hit [OF tinv this] f(2) True show ?thesis by simp
  next
    case False
    have ne: "j \<noteq> b" if "home s j k" for j using that False st by (auto simp: home_def held_step_def)
    have md: "memdisk t (unat k) = memdisk s (unat k)" using False st by (simp add: held_step_def)
    show ?thesis
    proof (cases "\<exists>j. home s j k \<and> valid_buf (bufs s ! j)")
      case True
      then obtain j where j: "home s j k" "valid_buf (bufs s ! j)" by blast
      with bview_hit [OF inv j] bview_hit [OF tinv, of j k] f(4) f(3) [OF ne [OF j(1)]] False show ?thesis by simp
    next
      case no: False
      then have "bview s k = memdisk s (unat k)" using bview_miss by blast
      moreover have "bview t k = memdisk t (unat k)" using no f(3,4) ne by (intro bview_miss) auto
      ultimately show ?thesis using md False by simp
    qed
  qed
  then show "bview t = (bview s)(b_blockno y := b_data y)" by blast
  have "j \<in> recyclable t \<longleftrightarrow> j \<in> recyclable s" for j
    using f(3) [of j] f(5) [of j] cache_inv_held(1) [OF inv b] by (cases "j = b") (simp_all add: recyclable_def)
  then show "recyclable t = recyclable s" by blast
qed

lemma pinnedI: "j < NBUF \<Longrightarrow> dirty_buf (bufs s ! j) \<Longrightarrow> b_blockno (bufs s ! j) \<in> pinned s"
  unfolding pinned_def by blast

lemma held_step_pinned:
  assumes inv: "cache_inv c p H s" and b: "b \<in> H" and st: "held_step c b y s t"
  shows "pinned t = (if dirty_buf y then {b_blockno y} else {}) \<union> (pinned s - {b_blockno y})"
proof (intro set_eqI iffI)
  note f = held_step_bufs [OF assms]
  fix k assume "k \<in> pinned t"
  then obtain j where j: "j < NBUF" "dirty_buf (bufs t ! j)" "k = b_blockno (bufs t ! j)" by (auto simp: pinned_def)
  show "k \<in> (if dirty_buf y then {b_blockno y} else {}) \<union> (pinned s - {b_blockno y})"
  proof (cases "j = b")
    case False
    have "b_dev (bufs s ! j) = 1"
      using cache_inv_D(11) [OF inv j(1)] j(2) f(3) [OF False] by (simp add: buf_inv_def Let_def)
    with j f(3) [OF False] f(6) [OF j(1) False] pinnedI [of j s] show ?thesis by simp
  qed (use j f(2) in auto)
next
  note f = held_step_bufs [OF assms]
  fix k assume k: "k \<in> (if dirty_buf y then {b_blockno y} else {}) \<union> (pinned s - {b_blockno y})"
  show "k \<in> pinned t"
  proof (cases "k = b_blockno y")
    case True
    with k f(2) pinnedI [OF f(1), of t] show ?thesis by (auto split: if_splits)
  next
    case False
    with k obtain j where j: "j < NBUF" "dirty_buf (bufs s ! j)" "k = b_blockno (bufs s ! j)" by (auto simp: pinned_def split: if_splits)
    with False st have "j \<noteq> b" by (auto simp: held_step_def)
    with j f(3) [of j] pinnedI [of j t] show ?thesis by simp
  qed
qed

lemma set_buf_step:
  assumes "cache_inv c p H s" and "b \<in> H"
  shows "held_step c b ((bufs s ! b)\<lparr>b_data := d\<rparr>) s (upd_buf b (\<lambda>x. x\<lparr>b_data := d\<rparr>) s)"
  using cache_inv_held(3) [OF assms] by (simp add: held_step_def fun_eq_iff valid_buf_def) (simp add: upd_buf_def)

definition written :: "nat \<Rightarrow> 'z ide_state_scheme \<Rightarrow> 'z ide_state_scheme" where
  "written b s = (let x = bufs s ! b in
     (upd_buf b (\<lambda>x. x\<lparr>b_flags := ((b_flags x OR B_DIRTY) AND NOT B_DIRTY) OR B_VALID\<rparr>) (touched s))
     \<lparr>memdisk := (memdisk s)(unat (b_blockno x) := b_data x), disk_hist := disk_hist s @ [(unat (b_blockno x), b_data x)]\<rparr>)"

lemma upd_buf_disk [simp]:
  "upd_buf b f (memdisk_update g s) = memdisk_update g (upd_buf b f s)"
  "upd_buf b f (disk_hist_update h s) = disk_hist_update h (upd_buf b f s)"
  by (simp_all add: upd_buf_def)

lemma bwrite_run:
  assumes inv: "cache_inv c p H s" and b: "b \<in> H"
  shows "bwrite b s = Ok () (written b s)"
proof -
  note held = cache_inv_held [OF inv b] and D = cache_inv_D(2,5,6,7,8) [OF inv] and n = cache_inv_D(12) [OF inv b]
  have lf: "lock_free s (LkSleep (SlBuf b))" by (rule cache_inv_D(10) [OF inv])
  have dv: "b_dev (bufs s ! b) = 1" using held(4) by (simp add: home_def)
  let ?s = "upd_buf b (\<lambda>x. x\<lparr>b_flags := b_flags x OR B_DIRTY\<rparr>) (touched s)"
  have h: "holdingsleep (SlBuf b) s = Ok True (touched s)"
    using holdingsleep_run [OF D(1) lf D(2)] held(2) D(3) by (simp add: sl_owned_def)
  have h': "holdingsleep (SlBuf b) ?s = Ok True ?s"
    using holdingsleep_run [of ?s "SlBuf b" c] D lf held(2) by (simp add: sl_owned_def)
  have fl: "(w OR B_DIRTY) AND (B_VALID OR B_DIRTY) \<noteq> B_VALID" "(w OR B_DIRTY) AND B_DIRTY \<noteq> 0" for w
    unfolding nothing_to_do flag_bits by simp_all
  show ?thesis
    using D(4,5) n dv held(5) fl
    by (simp add: bwrite_def kbind_Ok [of "holdingsleep (SlBuf b)", OF h] iderw_def iderw_mem_def kbind_Ok [of "holdingsleep (SlBuf b)", OF h'] written_def Let_def kthen_assoc not_le)
qed

lemma written_step:
  assumes "cache_inv c p H s" and "b \<in> H"
  shows "held_step c b ((bufs s ! b)\<lparr>b_flags := ((b_flags (bufs s ! b) OR B_DIRTY) AND NOT B_DIRTY) OR B_VALID\<rparr>) s (written b s)"
proof -
  have "valid_buf ((bufs s ! b)\<lparr>b_flags := ((b_flags (bufs s ! b) OR B_DIRTY) AND NOT B_DIRTY) OR B_VALID\<rparr>)"
    unfolding valid_buf_def flag_bits by simp
  then show ?thesis
    by (simp add: held_step_def written_def Let_def fun_eq_iff) (simp add: upd_buf_def)
qed

text \<open>bwrite() puts the block on the disk, makes its buffer clean, and shows the same contents as before.\<close>

lemma bwrite_ok:
  assumes inv: "cache_inv c p H s" and b: "b \<in> H"
  defines "t \<equiv> written b s"
  shows "cache_inv c p H t" and "bview t = bview s" and "home t = home s" and "recyclable t = recyclable s"
    and "pinned t = pinned s - {b_blockno (bufs s ! b)}" and "disksize t = disksize s" and "ide_state.more t = ide_state.more s"
    and "memdisk t = (memdisk s)(unat (b_blockno (bufs s ! b)) := bview s (b_blockno (bufs s ! b)))"
    and "disk_hist t = disk_hist s @ [(unat (b_blockno (bufs s ! b)), bview s (b_blockno (bufs s ! b)))]"
    and "b_blockno (bufs t ! b) = b_blockno (bufs s ! b)" "b_data (bufs t ! b) = b_data (bufs s ! b)"
proof -
  let ?y = "(bufs s ! b)\<lparr>b_flags := ((b_flags (bufs s ! b) OR B_DIRTY) AND NOT B_DIRTY) OR B_VALID\<rparr>"
  note st = written_step [OF inv b, folded t_def] and held = cache_inv_held [OF inv b]
  have v: "bview s (b_blockno (bufs s ! b)) = b_data (bufs s ! b)" by (rule bview_hit [OF inv held(4,3)])
  have "\<not> dirty_buf ?y" unfolding dirty_buf_def flag_bits by simp
  then show "pinned t = pinned s - {b_blockno (bufs s ! b)}" using held_step_pinned [OF inv b st] by simp
  show "bview t = bview s" using held_step_view(1) [OF inv b st] v by (auto simp: fun_eq_iff)
  show "cache_inv c p H t" "recyclable t = recyclable s" "home t = home s"
    using held_step_inv [OF inv b st] held_step_view(2) [OF inv b st] held_step_bufs(4) [OF inv b st] by blast+
  show "disksize t = disksize s" "ide_state.more t = ide_state.more s"
    and "memdisk t = (memdisk s)(unat (b_blockno (bufs s ! b)) := bview s (b_blockno (bufs s ! b)))"
    and "disk_hist t = disk_hist s @ [(unat (b_blockno (bufs s ! b)), bview s (b_blockno (bufs s ! b)))]"
    using v by (simp_all add: t_def written_def Let_def)
  show "b_blockno (bufs t ! b) = b_blockno (bufs s ! b)" "b_data (bufs t ! b) = b_data (bufs s ! b)"
    using held_step_bufs(2) [OF inv b st] by simp_all
qed

section \<open>Releasing a buffer\<close>

definition unlockb :: "nat \<Rightarrow> 'z sleep_state_scheme \<Rightarrow> 'z sleep_state_scheme" where
  "unlockb b s = (upd_sl (SlBuf b) (\<lambda>l. l\<lparr>sl_locked := False, sl_pid := 0\<rparr>) (touched s))
     \<lparr>ptable := map (wake_proc (Some (ChSleep (SlBuf b)))) (ptable s)\<rparr>"

definition released :: "nat \<Rightarrow> 'z ide_state_scheme \<Rightarrow> 'z ide_state_scheme" where
  "released b s = move_to_front b (upd_buf b (\<lambda>x. x\<lparr>b_refcnt := b_refcnt x - 1\<rparr>) (unlockb b s))"

lemma unlockb_frame [simp]:
  "bufs (unlockb b s) = bufs s" "b_next (unlockb b s) = b_next s" "b_prev (unlockb b s) = b_prev s"
  "memfs (unlockb b s) = memfs s" "disksize (unlockb b s) = disksize s" "memdisk (unlockb b s) = memdisk s"
  "disk_hist (unlockb b s) = disk_hist s" "ide_state.more (unlockb b s) = ide_state.more s"
  by (simp_all add: unlockb_def)

lemma unlockb_proc [simp]:
  "cpu_ok (unlockb b t) = cpu_ok t" "lock_free (unlockb b t) l = lock_free t l" "cur_proc (unlockb b t) = cur_proc t"
  "touched (unlockb b t) = unlockb b t" "depth (unlockb b t) = depth t"
  "may_sleep c (unlockb b t) = may_sleep c t" "length (ptable (unlockb b t)) = length (ptable t)"
  "c < length (ptable t) \<Longrightarrow> pid (ptable (unlockb b t) ! c) = pid (ptable t ! c)"
  "slocks (unlockb b t) = (slocks t)(SlBuf b := (slocks t (SlBuf b))\<lparr>sl_locked := False, sl_pid := 0\<rparr>)"
  by (simp_all add: unlockb_def may_sleep_def wake_proc_def)

lemma brelse_run:
  assumes inv: "cache_inv c p H s" and b: "b \<in> H"
  shows "brelse b s = Ok () (released b s)"
proof -
  note held = cache_inv_held [OF inv b] and D = cache_inv_D(2,4,5,6,8,9) [OF inv] and n = cache_inv_D(12) [OF inv b]
  have lf: "lock_free s (LkSleep (SlBuf b))" by (rule cache_inv_D(10) [OF inv])
  have h: "holdingsleep (SlBuf b) s = Ok True (touched s)"
    using holdingsleep_run [OF D(1) lf D(3)] held(2) D(4) by (simp add: sl_owned_def)
  have r: "releasesleep (SlBuf b) (touched s) = Ok () (unlockb b s)"
    using releasesleep_run [of "touched s" "SlBuf b"] D(1,2) lf by (simp add: unlockb_def)
  show ?thesis
    using D(1,5,6) n held(1)
    by (simp add: brelse_def kbind_Ok [of "holdingsleep (SlBuf b)", OF h] kthen_Ok [of "releasesleep (SlBuf b)", OF r]
      kthen_Ok released_def)
qed

lemma brelse_ok:
  assumes inv: "cache_inv c p H s" and b: "b \<in> H"
    and clean: "dirty_buf (bufs s ! b) \<or> b_data (bufs s ! b) = memdisk s (unat (b_blockno (bufs s ! b)))"
  defines "t \<equiv> released b s"
  shows "cache_inv c p (H - {b}) t" and "home t = home s" and "bview t = bview s"
    and "recyclable t = recyclable s \<union> (if dirty_buf (bufs s ! b) then {} else {b})"
    and "pinned t = pinned s" and "same_disk s t" and "j \<noteq> b \<Longrightarrow> bufs t ! j = bufs s ! j"
proof -
  note held = cache_inv_held [OF inv b] and n = cache_inv_D(12) [OF inv b] and len = cache_inv_D(8) [OF inv]
  have bb: "bufs t ! b = (bufs s ! b)\<lparr>b_refcnt := 0\<rparr>" using len n held(1) by (simp add: t_def released_def)
  show bo: "bufs t ! j = bufs s ! j" if "j \<noteq> b" for j using that by (simp add: t_def released_def)
  have fl: "valid_buf (bufs t ! j) = valid_buf (bufs s ! j)" "dirty_buf (bufs t ! j) = dirty_buf (bufs s ! j)"
    "b_dev (bufs t ! j) = b_dev (bufs s ! j)" "b_blockno (bufs t ! j) = b_blockno (bufs s ! j)"
    "b_data (bufs t ! j) = b_data (bufs s ! j)" for j
    using bb bo [of j] by (cases "j = b"; simp add: valid_buf_def dirty_buf_def)+
  have rc: "b_refcnt (bufs t ! j) = (if j = b then 0 else b_refcnt (bufs s ! j))" for j using bb bo [of j] by simp
  have fld: "memdisk t = memdisk s" "disksize t = disksize s"
    "slocks t = (slocks s)(SlBuf b := (slocks s (SlBuf b))\<lparr>sl_locked := False, sl_pid := 0\<rparr>)"
    by (simp_all add: t_def released_def)
  have h: "home t j k = home s j k" for j k by (simp add: home_def fl)
  then show "home t = home s" by blast
  have "buf_inv p (H - {b}) t j" if j: "j < NBUF" for j
    using cache_inv_D(11) [OF inv j] b clean
    by (cases "j = b") (auto simp: buf_inv_def Let_def sl_owned_def fl rc fld)
  moreover obtain xs where "bcache_list s xs" using inv unfolding cache_inv_def by blast
  then have "bcache_list (upd_buf b (\<lambda>x. x\<lparr>b_refcnt := b_refcnt x - 1\<rparr>) (unlockb b s)) xs" by (simp add: bcache_list_def)
  then have "\<exists>xs. bcache_list t xs" using bcache_list_move n unfolding t_def released_def by blast
  moreover have "c < length (ptable s)" using cache_inv_D(1) [OF inv] by (simp add: may_sleep_def)
  ultimately show "cache_inv c p (H - {b}) t"
    using cache_inv_D(1,6,7,9,10,12) [OF inv] len cache_inv_unique [OF inv] h unfolding cache_inv_def
    by (auto simp: t_def released_def)
  show "same_disk s t" by (simp add: same_disk_def t_def released_def)
  show "pinned t = pinned s" by (simp add: pinned_def fl)
  show "bview t = bview s" by (intro ext) (simp add: bview_def fl fld split: option.split)
  have "j \<in> recyclable t \<longleftrightarrow> j \<in> recyclable s \<union> (if dirty_buf (bufs s ! b) then {} else {b})" for j
    using bb bo [of j] n fl(2) [of b] held(1) by (cases "j = b") (simp_all add: recyclable_def)
  then show "recyclable t = recyclable s \<union> (if dirty_buf (bufs s ! b) then {} else {b})" by blast
qed

end
