(* ===== verification/Blockio.thy ===== *)
theory Blockio
  imports Block
begin

text \<open>
  What the log relies on when it uses the buffer cache, as a locale: a process reads blocks into
  buffers it then holds, changes and writes them, and releases them. The laws speak of the contents
  the cache shows (\<open>view\<close>), the contents of the disk (\<open>disk\<close>) and the sequence of block writes
  (\<open>hist\<close>). The client lemmas are the two ways in which log.c copies one block to another. The
  interpretation at the end proves the laws for bread(), bwrite() and brelse() on the memory disk.
\<close>

section \<open>The interface\<close>

locale block_cache =
  fixes br :: "uint \<Rightarrow> ('s, nat) kM"
    and bw :: "nat \<Rightarrow> ('s, unit) kM"
    and brl :: "nat \<Rightarrow> ('s, unit) kM"
    and get :: "'s \<Rightarrow> nat \<Rightarrow> uchar list"
    and put :: "nat \<Rightarrow> uchar list \<Rightarrow> 's \<Rightarrow> 's"
    and Inv :: "nat set \<Rightarrow> 's \<Rightarrow> bool"
    and blk :: "'s \<Rightarrow> nat \<Rightarrow> uint"
    and view :: "'s \<Rightarrow> uint \<Rightarrow> uchar list"
    and disk :: "'s \<Rightarrow> nat \<Rightarrow> uchar list"
    and hist :: "'s \<Rightarrow> (nat \<times> uchar list) list"
    and pins :: "'s \<Rightarrow> uint set"
    and room :: "'s \<Rightarrow> nat set"
    and frame :: "'s \<Rightarrow> uint \<times> 'r"
  assumes idle: "Inv {} s \<Longrightarrow> k \<notin> pins s \<Longrightarrow> view s k = disk s (unat k)"
    and read: "Inv H s \<Longrightarrow> a < fst (frame s) \<Longrightarrow> a \<notin> blk s ` H \<Longrightarrow> a \<in> pins s \<or> room s \<noteq> {} \<Longrightarrow>
      \<exists>b t. br a s = Ok b t \<and> b \<notin> H \<and> Inv (insert b H) t \<and> blk t b = a \<and> (\<forall>j \<in> H. blk t j = blk s j) \<and>
        view t = view s \<and> disk t = disk s \<and> hist t = hist s \<and> pins t = pins s \<and> room t = room s - {b} \<and> frame t = frame s"
    and holds: "Inv H s \<Longrightarrow> b \<in> H \<Longrightarrow> get s b = view s (blk s b)"
    and change: "Inv H s \<Longrightarrow> b \<in> H \<Longrightarrow> Inv H (put b d s) \<and> blk (put b d s) = blk s \<and>
      view (put b d s) = (view s)(blk s b := d) \<and> disk (put b d s) = disk s \<and> hist (put b d s) = hist s \<and>
      pins (put b d s) = pins s \<and> room (put b d s) = room s \<and> frame (put b d s) = frame s"
    and save: "Inv H s \<Longrightarrow> b \<in> H \<Longrightarrow>
      \<exists>t. bw b s = Ok () t \<and> Inv H t \<and> (\<forall>j \<in> H. blk t j = blk s j) \<and> view t = view s \<and>
        disk t = (disk s)(unat (blk s b) := view s (blk s b)) \<and> hist t = hist s @ [(unat (blk s b), view s (blk s b))] \<and>
        pins t = pins s - {blk s b} \<and> room t = room s \<and> frame t = frame s"
    and drop: "Inv H s \<Longrightarrow> b \<in> H \<Longrightarrow> blk s b \<in> pins s \<or> view s (blk s b) = disk s (unat (blk s b)) \<Longrightarrow>
      \<exists>t. brl b s = Ok () t \<and> Inv (H - {b}) t \<and> (\<forall>j \<in> H - {b}. blk t j = blk s j) \<and> view t = view s \<and>
        disk t = disk s \<and> hist t = hist s \<and> pins t = pins s \<and>
        room t = room s \<union> (if blk s b \<in> pins s then {} else {b}) \<and> frame t = frame s"
begin

text \<open>The effect of copying block \<open>a\<close> to block \<open>d\<close> and writing it through.\<close>

definition copied :: "uint \<Rightarrow> uint \<Rightarrow> 's \<Rightarrow> 's \<Rightarrow> bool" where
  "copied a d s t \<longleftrightarrow> Inv {} t \<and> view t = (view s)(d := view s a) \<and> disk t = (disk s)(unat d := view s a) \<and>
     hist t = hist s @ [(unat d, view s a)] \<and> pins t = pins s - {d} \<and> room t \<noteq> {} \<and> (a \<notin> pins s \<longrightarrow> room s \<subseteq> room t) \<and> frame t = frame s"

text \<open>From the middle of both copying loops: source \<open>x\<close> and destination \<open>y\<close> are held.\<close>

lemma copy_tail:
  assumes "Inv {x, y} s" and "x \<noteq> y" and "blk s x = a" and "blk s y = d" and "a \<noteq> d"
    and "a \<in> pins s \<or> view s a = disk s (unat a)" and "R = room s"
  obtains t u v where "bw y (put y (get s x) s) = Ok () t" "brl x t = Ok () u" "brl y u = Ok () v"
    "Inv {} v" "view v = (view s)(d := view s a)" "disk v = (disk s)(unat d := view s a)"
    "hist v = hist s @ [(unat d, view s a)]" "pins v = pins s - {d}" "R \<union> {y} \<union> (if a \<in> pins s then {} else {x}) = room v"
    "frame v = frame s"
proof -
  let ?p = "put y (get s x) s"
  have g: "get s x = view s a" using holds [OF assms(1), of x] assms(3) by simp
  have p: "Inv {x, y} ?p" "blk ?p = blk s" "view ?p = (view s)(d := view s a)" "disk ?p = disk s" "hist ?p = hist s"
    "pins ?p = pins s" "room ?p = room s" "frame ?p = frame s"
    using change [OF assms(1), of y "get s x"] g assms(4) by simp_all
  obtain t where t: "bw y ?p = Ok () t" "Inv {x, y} t" "\<forall>j \<in> {x, y}. blk t j = blk ?p j" "view t = view ?p"
    "disk t = (disk ?p)(unat (blk ?p y) := view ?p (blk ?p y))" "hist t = hist ?p @ [(unat (blk ?p y), view ?p (blk ?p y))]"
    "pins t = pins ?p - {blk ?p y}" "room t = room ?p" "frame t = frame ?p"
    using save [OF p(1), of y] by auto
  have tx: "blk t x = a" "blk t y = d" using t(3) p(2) assms(3,4) by simp_all
  have ne: "unat a \<noteq> unat d" using assms(5) by (metis word_unat_eq_iff)
  have "blk t x \<in> pins t \<or> view t (blk t x) = disk t (unat (blk t x))"
    using assms(5,6) t p tx ne by (simp add: assms(4))
  then obtain u where u: "brl x t = Ok () u" "Inv ({x, y} - {x}) u" "\<forall>j \<in> {x, y} - {x}. blk u j = blk t j" "view u = view t"
    "disk u = disk t" "hist u = hist t" "pins u = pins t" "room u = room t \<union> (if blk t x \<in> pins t then {} else {x})" "frame u = frame t"
    using drop [OF t(2), of x] by blast
  have uy: "Inv {y} u" "blk u y = d" using u(2,3) assms(2) tx by (simp_all add: insert_Diff_if)
  have "blk u y \<in> pins u \<or> view u (blk u y) = disk u (unat (blk u y))" using uy(2) u t p assms(4) by simp
  then obtain v where "brl y u = Ok () v" "Inv ({y} - {y}) v" "view v = view u" "disk v = disk u" "hist v = hist u" "pins v = pins u"
    "room v = room u \<union> (if blk u y \<in> pins u then {} else {y})" "frame v = frame u"
    using drop [OF uy(1), of y] by blast
  with t u p tx uy assms show thesis by (intro that [of t u v]) auto
qed

lemma copy_dest_first:
  assumes "Inv {} s" and "a \<noteq> d" and "a < fst (frame s)" and "d < fst (frame s)" and "a \<in> pins s" and "room s \<noteq> {}"
  obtains y t1 x t2 t u v where "br d s = Ok y t1" "br a t1 = Ok x t2" "bw y (put y (get t2 x) t2) = Ok () t"
    "brl x t = Ok () u" "brl y u = Ok () v" "copied a d s v"
proof -
  obtain y t1 where y: "br d s = Ok y t1" "Inv {y} t1" "blk t1 y = d" "view t1 = view s" "disk t1 = disk s" "hist t1 = hist s"
    "pins t1 = pins s" "room t1 = room s - {y}" "frame t1 = frame s"
    using read [OF assms(1,4)] assms(6) by auto
  have "a \<notin> blk t1 ` {y}" "a < fst (frame t1)" "a \<in> pins t1 \<or> room t1 \<noteq> {}" using y assms by simp_all
  from read [OF y(2) this(2,1,3)] obtain x t2 where x: "br a t1 = Ok x t2" "x \<noteq> y" "Inv {x, y} t2" "blk t2 x = a" "blk t2 y = d"
    "view t2 = view s" "disk t2 = disk s" "hist t2 = hist s" "pins t2 = pins s" "room t2 = room s - {y} - {x}" "frame t2 = frame s"
    using y by auto
  obtain t u v where v: "bw y (put y (get t2 x) t2) = Ok () t" "brl x t = Ok () u" "brl y u = Ok () v"
    "Inv {} v" "view v = (view t2)(d := view t2 a)" "disk v = (disk t2)(unat d := view t2 a)"
    "hist v = hist t2 @ [(unat d, view t2 a)]" "pins v = pins t2 - {d}"
    "room t2 \<union> {y} \<union> (if a \<in> pins t2 then {} else {x}) = room v" "frame v = frame t2"
    using copy_tail [OF x(3,2,4,5) assms(2) _ refl] x(9) assms(5) by metis
  then have "copied a d s v" using x unfolding copied_def by auto
  with y(1) x(1) v(1-3) show thesis by (rule that)
qed

lemma copy_src_first:
  assumes "Inv {} s" and "a \<noteq> d" and "a < fst (frame s)" and "d < fst (frame s)" and "a \<in> pins s \<or> room s \<noteq> {}"
    and "d \<in> pins s \<or> (\<forall>b. room s - {b} \<noteq> {})"
  obtains x t1 y t2 t u v where "br a s = Ok x t1" "br d t1 = Ok y t2" "bw y (put y (get t2 x) t2) = Ok () t"
    "brl x t = Ok () u" "brl y u = Ok () v" "copied a d s v"
proof -
  obtain x t1 where x: "br a s = Ok x t1" "Inv {x} t1" "blk t1 x = a" "view t1 = view s" "disk t1 = disk s" "hist t1 = hist s"
    "pins t1 = pins s" "room t1 = room s - {x}" "frame t1 = frame s"
    using read [OF assms(1,3)] assms(5) by auto
  have "d \<notin> blk t1 ` {x}" "d < fst (frame t1)" "d \<in> pins t1 \<or> room t1 \<noteq> {}" using x assms by auto
  from read [OF x(2) this(2,1,3)] obtain y t2 where y: "br d t1 = Ok y t2" "x \<noteq> y" "Inv {x, y} t2" "blk t2 x = a" "blk t2 y = d"
    "view t2 = view s" "disk t2 = disk s" "hist t2 = hist s" "pins t2 = pins s" "room t2 = room s - {x} - {y}" "frame t2 = frame s"
    using x by (auto simp: insert_commute)
  have c: "a \<in> pins t2 \<or> view t2 a = disk t2 (unat a)" using idle [OF assms(1), of a] y by auto
  obtain t u v where v: "bw y (put y (get t2 x) t2) = Ok () t" "brl x t = Ok () u" "brl y u = Ok () v"
    "Inv {} v" "view v = (view t2)(d := view t2 a)" "disk v = (disk t2)(unat d := view t2 a)"
    "hist v = hist t2 @ [(unat d, view t2 a)]" "pins v = pins t2 - {d}"
    "room t2 \<union> {y} \<union> (if a \<in> pins t2 then {} else {x}) = room v" "frame v = frame t2"
    using copy_tail [OF y(3,2,4,5) assms(2) c refl] by metis
  then have "copied a d s v" using y unfolding copied_def by auto
  with x(1) y(1) v(1-3) show thesis by (rule that)
qed

text \<open>Changing a block in place, as write_head() does.\<close>

lemma rewrite_block:
  assumes "Inv {} s" and "d < fst (frame s)" and "room s \<noteq> {}"
  obtains y t1 t u where "br d s = Ok y t1" "bw y (put y (f (get t1 y)) t1) = Ok () t" "brl y t = Ok () u"
    "Inv {} u" "view u = (view s)(d := f (view s d))" "disk u = (disk s)(unat d := f (view s d))"
    "hist u = hist s @ [(unat d, f (view s d))]" "pins u = pins s - {d}" "room s \<subseteq> room u" "frame u = frame s"
proof -
  obtain y t1 where y: "br d s = Ok y t1" "Inv {y} t1" "blk t1 y = d" "view t1 = view s" "disk t1 = disk s" "hist t1 = hist s"
    "pins t1 = pins s" "room t1 = room s - {y}" "frame t1 = frame s"
    using read [OF assms(1,2)] assms(3) by auto
  have g: "get t1 y = view s d" using holds [OF y(2), of y] y by simp
  let ?p = "put y (f (view s d)) t1"
  have p: "Inv {y} ?p" "blk ?p y = d" "view ?p = (view s)(d := f (view s d))" "disk ?p = disk s" "hist ?p = hist s"
    "pins ?p = pins s" "room ?p = room s - {y}" "frame ?p = frame s"
    using change [OF y(2), of y "f (view s d)"] y by simp_all
  obtain t where t: "bw y ?p = Ok () t" "Inv {y} t" "blk t y = d" "view t = view ?p"
    "disk t = (disk s)(unat d := f (view s d))" "hist t = hist s @ [(unat d, f (view s d))]"
    "pins t = pins s - {d}" "room t = room s - {y}" "frame t = frame s"
    using save [OF p(1), of y] p by auto
  then have "blk t y \<in> pins t \<or> view t (blk t y) = disk t (unat (blk t y))" using p by simp
  then obtain u where "brl y t = Ok () u" "Inv {} u" "view u = view t" "disk u = disk t" "hist u = hist t" "pins u = pins t"
    "room u = room t \<union> {y}" "frame u = frame t"
    using drop [OF t(2), of y] t by auto
  with y(1) t p g show thesis by (intro that [of y t1 t u]) auto
qed

end

section \<open>The buffer cache provides it\<close>

lemma home_pinned: "cache_inv c p H s \<Longrightarrow> k \<in> pinned s \<longleftrightarrow> (\<exists>b. home s b k \<and> dirty_buf (bufs s ! b))"
  using cache_inv_D(11) [of c p H s] unfolding pinned_def home_def buf_inv_def Let_def by blast

lemma held_pinned: "cache_inv c p H s \<Longrightarrow> b \<in> H \<Longrightarrow> b_blockno (bufs s ! b) \<in> pinned s \<longleftrightarrow> dirty_buf (bufs s ! b)"
  using home_pinned [of c p H s "b_blockno (bufs s ! b)"] cache_inv_held(4) [of c p H s b] cache_inv_unique [of c p H s] by blast

interpretation bc: block_cache "bread 1" bwrite brelse "\<lambda>s b. b_data (bufs s ! b)" "\<lambda>b d. upd_buf b (\<lambda>x. x\<lparr>b_data := d\<rparr>)"
  "cache_inv c p" "\<lambda>s b. b_blockno (bufs s ! b)" bview memdisk disk_hist pinned recyclable "\<lambda>s. (disksize s, ide_state.more s)"
  for c p
proof unfold_locales
  fix s :: "'a ide_state_scheme" and k
  assume "cache_inv c p {} s" and "k \<notin> pinned s"
  then show "bview s k = memdisk s (unat k)" using bview_clean home_pinned by blast
next
  fix s :: "'a ide_state_scheme" and a H
  assume h: "cache_inv c p H s" "a < fst (disksize s, ide_state.more s)" "a \<notin> (\<lambda>b. b_blockno (bufs s ! b)) ` H"
    "a \<in> pinned s \<or> recyclable s \<noteq> {}"
  have nh: "b \<notin> H" if "home s b a" for b using that h(3) by (auto simp: home_def)
  have r: "(\<exists>b. home s b a) \<or> recyclable s \<noteq> {}" using h(1,4) home_pinned by blast
  have l: "a < disksize s" using h(2) by simp
  obtain b t where bt: "bread 1 a s = Ok b t" "b \<notin> H" "cache_inv c p (insert b H) t" "home t b a" "bview t = bview s"
    "same_disk s t" "recyclable t = recyclable s - {b}" "pinned t = pinned s" "\<forall>j. j \<noteq> b \<longrightarrow> bufs t ! j = bufs s ! j"
    by (rule bread_ok [OF h(1) l nh r])
  then show "\<exists>b t. bread 1 a s = Ok b t \<and> b \<notin> H \<and> cache_inv c p (insert b H) t \<and> b_blockno (bufs t ! b) = a \<and>
      (\<forall>j\<in>H. b_blockno (bufs t ! j) = b_blockno (bufs s ! j)) \<and> bview t = bview s \<and> memdisk t = memdisk s \<and>
      disk_hist t = disk_hist s \<and> pinned t = pinned s \<and> recyclable t = recyclable s - {b} \<and>
      (disksize t, ide_state.more t) = (disksize s, ide_state.more s)"
    by (intro exI [of _ b] exI [of _ t]) (auto simp: home_def same_disk_def)
next
  fix s :: "'a ide_state_scheme" and b H
  assume "cache_inv c p H s" "b \<in> H"
  then show "b_data (bufs s ! b) = bview s (b_blockno (bufs s ! b))" using bview_hit cache_inv_held(3,4) by metis
next
  fix s :: "'a ide_state_scheme" and b H d
  assume h: "cache_inv c p H s" "b \<in> H"
  note st = set_buf_step [OF h, of d]
  have "pinned (upd_buf b (\<lambda>x. x\<lparr>b_data := d\<rparr>) s) = pinned s"
    using held_step_pinned [OF h st] held_pinned [OF h] by (auto simp: dirty_buf_def)
  moreover have "b_blockno (bufs (upd_buf b (\<lambda>x. x\<lparr>b_data := d\<rparr>) s) ! j) = b_blockno (bufs s ! j)" for j
    using nth_update_same_field [of b_blockno "(bufs s ! b)\<lparr>b_data := d\<rparr>" "bufs s" b j] by (simp add: upd_buf_def)
  ultimately show "cache_inv c p H (upd_buf b (\<lambda>x. x\<lparr>b_data := d\<rparr>) s) \<and>
      (\<lambda>j. b_blockno (bufs (upd_buf b (\<lambda>x. x\<lparr>b_data := d\<rparr>) s) ! j)) = (\<lambda>j. b_blockno (bufs s ! j)) \<and>
      bview (upd_buf b (\<lambda>x. x\<lparr>b_data := d\<rparr>) s) = (bview s)(b_blockno (bufs s ! b) := d) \<and>
      memdisk (upd_buf b (\<lambda>x. x\<lparr>b_data := d\<rparr>) s) = memdisk s \<and> disk_hist (upd_buf b (\<lambda>x. x\<lparr>b_data := d\<rparr>) s) = disk_hist s \<and>
      pinned (upd_buf b (\<lambda>x. x\<lparr>b_data := d\<rparr>) s) = pinned s \<and> recyclable (upd_buf b (\<lambda>x. x\<lparr>b_data := d\<rparr>) s) = recyclable s \<and>
      (disksize (upd_buf b (\<lambda>x. x\<lparr>b_data := d\<rparr>) s), ide_state.more (upd_buf b (\<lambda>x. x\<lparr>b_data := d\<rparr>) s)) = (disksize s, ide_state.more s)"
    using held_step_inv [OF h st] held_step_view [OF h st] by simp
next
  fix s :: "'a ide_state_scheme" and b H
  assume h: "cache_inv c p H s" "b \<in> H"
  have "b_blockno (bufs (written b s) ! j) = b_blockno (bufs s ! j)" for j
    using held_step_bufs(2,3) [OF h written_step [OF h]] by (cases "j = b") simp_all
  then show "\<exists>t. bwrite b s = Ok () t \<and> cache_inv c p H t \<and> (\<forall>j\<in>H. b_blockno (bufs t ! j) = b_blockno (bufs s ! j)) \<and>
      bview t = bview s \<and> memdisk t = (memdisk s)(unat (b_blockno (bufs s ! b)) := bview s (b_blockno (bufs s ! b))) \<and>
      disk_hist t = disk_hist s @ [(unat (b_blockno (bufs s ! b)), bview s (b_blockno (bufs s ! b)))] \<and>
      pinned t = pinned s - {b_blockno (bufs s ! b)} \<and> recyclable t = recyclable s \<and>
      (disksize t, ide_state.more t) = (disksize s, ide_state.more s)"
    using bwrite_run [OF h] bwrite_ok [OF h] by (intro exI [of _ "written b s"]) simp
next
  fix s :: "'a ide_state_scheme" and b H
  assume h: "cache_inv c p H s" "b \<in> H"
    and "b_blockno (bufs s ! b) \<in> pinned s \<or> bview s (b_blockno (bufs s ! b)) = memdisk s (unat (b_blockno (bufs s ! b)))"
  then have c: "dirty_buf (bufs s ! b) \<or> b_data (bufs s ! b) = memdisk s (unat (b_blockno (bufs s ! b)))"
    using held_pinned [OF h] bview_hit [OF h(1)] cache_inv_held(3,4) [OF h] by metis
  show "\<exists>t. brelse b s = Ok () t \<and> cache_inv c p (H - {b}) t \<and> (\<forall>j\<in>H - {b}. b_blockno (bufs t ! j) = b_blockno (bufs s ! j)) \<and>
      bview t = bview s \<and> memdisk t = memdisk s \<and> disk_hist t = disk_hist s \<and> pinned t = pinned s \<and>
      recyclable t = recyclable s \<union> (if b_blockno (bufs s ! b) \<in> pinned s then {} else {b}) \<and>
      (disksize t, ide_state.more t) = (disksize s, ide_state.more s)"
    using brelse_run [OF h] brelse_ok [OF h c] held_pinned [OF h]
    by (intro exI [of _ "released b s"]) (auto simp: same_disk_def)
qed

end
