(* ===== verification/Crash.thy ===== *)
theory Crash
  imports Log Blockio
begin

text \<open>
  Crash safety of log.c on the memory disk. commit() is a sequence of block writes; a crash leaves
  the disk with a prefix of them applied. Shown here: commit() returns and its writes are the log
  blocks, the header, the home blocks, the empty header, in this order (\<open>commit_run\<close>); after a
  crash at any point, recover_from_log() on a freshly started kernel returns, and outside the log
  the disk is either what it was before the transaction or what it is after it
  (\<open>commit_crash_safe\<close>).
\<close>

section \<open>Frames\<close>

lemma log_frame [simp]:
  "log (enter l s) = log s" "log (leave l s) = log s" "log (touched s) = log s"
  "enter l (log_update f s) = log_update f (enter l s)" "leave l (log_update f s) = log_update f (leave l s)" "touched (log_update f s) = log_update f (touched s)"
  "cpu_at (log_update f s) = cpu_at s" "me (log_update f s) = me s" "depth (log_update f s) = depth s"
  "cur_IF (log_update f s) = cur_IF s" "cpu_ok (log_update f s) = cpu_ok s" "lock_free (log_update f s) l = lock_free s l"
  "lock_mine (log_update f s) l = lock_mine s l"
  by (auto simp: frame_defs intro!: machine.equality)

lemma log_other_frame [simp]:
  "cur_proc (log_update f s) = cur_proc s" "may_sleep c (log_update f s) = may_sleep c s"
  by (simp_all add: cur_proc_def may_sleep_def)

lemma log_upd_buf [simp]: "log (upd_buf b f s) = log s"
  by (simp add: upd_buf_def)

lemma upd_log_frame [simp]:
  "bufs (upd_log f s) = bufs s" "memdisk (upd_log f s) = memdisk s" "disk_hist (upd_log f s) = disk_hist s"
  "disksize (upd_log f s) = disksize s" "bview (upd_log f s) = bview s" "pinned (upd_log f s) = pinned s"
  "recyclable (upd_log f s) = recyclable s" "log (upd_log f s) = f (log s)" "cache_inv c p H (upd_log f s) = cache_inv c p H s"
proof -
  show "bview (upd_log f s) = bview s" by (intro ext) (simp add: upd_log_def bview_def split: option.split)
qed (simp_all add: upd_log_def pinned_def recyclable_def cache_inv_def buf_inv_def Let_def bcache_list_def home_def sl_owned_def)

lemma log_of_more: "ide_state.more t = ide_state.more s \<Longrightarrow> log t = log (s :: 'z log_state_scheme)"
  by (cases s, cases t) simp

section \<open>The disk between the writes\<close>

definition apply_writes :: "(nat \<times> uchar list) list \<Rightarrow> (nat \<Rightarrow> uchar list) \<Rightarrow> nat \<Rightarrow> uchar list" where
  "apply_writes ws d = foldl (\<lambda>d (b, x). d(b := x)) d ws"

lemma apply_writes_simps [simp]:
  "apply_writes [] d = d" "apply_writes ((b, x) # ws) d = apply_writes ws (d(b := x))"
  "apply_writes (ws @ ws') d = apply_writes ws' (apply_writes ws d)"
  by (simp_all add: apply_writes_def)

lemma apply_writes_other: "b \<notin> fst ` set ws \<Longrightarrow> apply_writes ws d b = d b"
  by (induction ws arbitrary: d) auto

definition in_log :: "uint \<Rightarrow> nat \<Rightarrow> bool" where
  "in_log L b \<longleftrightarrow> unat L \<le> b \<and> b \<le> unat L + LOGSIZE"

text \<open>The blocks of the transaction, and the log area on a disk of \<open>n\<close> blocks.\<close>

definition home_blocks :: "logstate \<Rightarrow> uint list" where
  "home_blocks l = take (nat (lhn l)) (lhblock l)"

definition log_area :: "logstate \<Rightarrow> uint \<Rightarrow> bool" where
  "log_area l n \<longleftrightarrow> ldev l = 1 \<and> unat (lstart l) + LOGSIZE < unat n \<and> length (lhblock l) = LOGSIZE \<and>
     lhn l \<le> int LOGSIZE \<and> (\<forall>b \<in> set (home_blocks l). b < n \<and> \<not> in_log (lstart l) (unat b))"

lemma log_block:
  assumes "log_area l n" and "i < LOGSIZE"
  shows "unat (lstart l + of_nat i + 1) = unat (lstart l) + i + 1" and "lstart l + of_nat i + 1 < n" and "lstart l < n"
    and "lstart l \<noteq> lstart l + of_nat i + 1"
proof -
  have "unat (lstart l) + i + 1 < unat n" using assms by (simp add: log_area_def)
  also have "unat n < 2 ^ 32" using unsigned_less [of n] by simp
  finally have lt: "unat (lstart l) + i + 1 < 2 ^ 32" .
  have "lstart l + of_nat i + 1 = of_nat (unat (lstart l) + i + 1)" by simp
  then have "unat (lstart l + of_nat i + 1) = take_bit 32 (unat (lstart l) + i + 1)" by (simp only: unsigned_of_nat) simp
  then show eq: "unat (lstart l + of_nat i + 1) = unat (lstart l) + i + 1" using lt by (simp only: take_bit_nat_eq_self)
  show "lstart l + of_nat i + 1 < n" "lstart l < n"
    using assms eq by (simp_all add: word_less_nat_alt log_area_def)
  show "lstart l \<noteq> lstart l + of_nat i + 1"
  proof
    assume "lstart l = lstart l + of_nat i + 1"
    then have "unat (lstart l) = unat (lstart l + of_nat i + 1)" by (rule arg_cong)
    with eq show False by linarith
  qed
qed

lemma length_home_blocks: "log_area l n \<Longrightarrow> length (home_blocks l) = nat (lhn l)"
  by (auto simp: log_area_def home_blocks_def)

lemma home_block:
  assumes "log_area l n" and "i < nat (lhn l)"
  shows "lhblock l ! i = home_blocks l ! i" and "home_blocks l ! i < n" and "\<not> in_log (lstart l) (unat (home_blocks l ! i))"
    and "home_blocks l ! i \<in> set (home_blocks l)" and "i < LOGSIZE"
proof -
  have i: "i < length (home_blocks l)" using assms length_home_blocks by metis
  show "home_blocks l ! i \<in> set (home_blocks l)" using i by (rule nth_mem)
  with assms(1) show "home_blocks l ! i < n" "\<not> in_log (lstart l) (unat (home_blocks l ! i))"
    by (auto simp: log_area_def)
  show "lhblock l ! i = home_blocks l ! i" using assms(2) by (simp add: home_blocks_def)
  have "lhn l \<le> int LOGSIZE" using assms(1) by (simp add: log_area_def)
  then show "i < LOGSIZE" using assms(2) by linarith
qed

section \<open>The copying loops\<close>

lemma bc_copied_simps:
  "bc.copied c p a d s t \<longleftrightarrow> cache_inv c p {} t \<and> bview t = (bview s)(d := bview s a) \<and> memdisk t = (memdisk s)(unat d := bview s a) \<and>
     disk_hist t = disk_hist s @ [(unat d, bview s a)] \<and> pinned t = pinned s - {d} \<and> recyclable t \<noteq> {} \<and>
     (a \<notin> pinned s \<longrightarrow> recyclable s \<subseteq> recyclable t) \<and> disksize t = disksize s \<and> ide_state.more t = ide_state.more s"
  by (auto simp: bc.copied_def)

lemma write_log_one_ok:
  assumes "cache_inv c p {} s" and "log_area (log s) (disksize s)" and "i < nat (lhn (log s))"
    and "home_blocks (log s) ! i \<in> pinned s" and "recyclable s \<noteq> {}"
  obtains t where "write_log_one i s = Ok () t"
    "bc.copied c p (home_blocks (log s) ! i) (lstart (log s) + of_nat i + 1) s t"
proof -
  let ?l = "log s"
  note h = home_block [OF assms(2,3)]
  note b = log_block [OF assms(2) h(5)]
  have ne: "home_blocks ?l ! i \<noteq> lstart ?l + of_nat i + 1" using h(3,5) b(1) by (auto simp: in_log_def)
  obtain y t1 x t2 t u v where *: "bread 1 (lstart ?l + of_nat i + 1) s = Ok y t1" "bread 1 (home_blocks ?l ! i) t1 = Ok x t2"
    "bwrite y (upd_buf y (\<lambda>z. z\<lparr>b_data := b_data (bufs t2 ! x)\<rparr>) t2) = Ok () t" "brelse x t = Ok () u" "brelse y u = Ok () v"
    "bc.copied c p (home_blocks ?l ! i) (lstart ?l + of_nat i + 1) s v"
    using bc.copy_dest_first [OF assms(1) ne, unfolded fst_conv, OF h(2) b(2) assms(4,5)] by blast
  moreover have "ldev ?l = 1" using assms(2) by (simp add: log_area_def)
  ultimately have "write_log_one i s = Ok () v"
    by (simp add: write_log_one_def h(1) copy_block_def data_of_def set_data_def kbind_Ok kthen_Ok)
  with *(6) show thesis by (rule that [rotated])
qed

text \<open>The writes of write_log() and of install_trans() for the first \<open>k\<close> blocks.\<close>

definition log_writes :: "logstate \<Rightarrow> (uint \<Rightarrow> uchar list) \<Rightarrow> nat \<Rightarrow> (nat \<times> uchar list) list" where
  "log_writes l v k = map (\<lambda>i. (unat (lstart l) + i + 1, v (home_blocks l ! i))) [0..<k]"

definition home_writes :: "logstate \<Rightarrow> (uint \<Rightarrow> uchar list) \<Rightarrow> nat \<Rightarrow> (nat \<times> uchar list) list" where
  "home_writes l v k = map (\<lambda>i. (unat (home_blocks l ! i), v (home_blocks l ! i))) [0..<k]"

text \<open>
  \<open>logged l v k t\<close>: the first \<open>k\<close> blocks are in the log as the cache shows them, and no other
  block outside the log has changed; \<open>v\<close> is what the cache showed at the start.
\<close>

definition logged :: "(uint \<Rightarrow> uchar list) \<Rightarrow> nat \<Rightarrow> 'z log_state_scheme \<Rightarrow> bool" where
  "logged v k t \<longleftrightarrow> (\<forall>i < k. bview t (lstart (log t) + of_nat i + 1) = v (home_blocks (log t) ! i)) \<and>
     (\<forall>b. \<not> in_log (lstart (log t)) (unat b) \<longrightarrow> bview t b = v b)"

lemma write_log_loop:
  assumes "cache_inv c p {} s" and "log_area (log s) (disksize s)" and "k \<le> nat (lhn (log s))"
    and "set (home_blocks (log s)) \<subseteq> pinned s" and "recyclable s \<noteq> {}" and "\<forall>b \<in> pinned s. \<not> in_log (lstart (log s)) (unat b)"
  shows "\<exists>t. kfor [0..<k] write_log_one s = Ok () t \<and> cache_inv c p {} t \<and> log t = log s \<and> disksize t = disksize s \<and>
    pinned t = pinned s \<and> recyclable t \<noteq> {} \<and> logged (bview s) k t \<and> bview t (lstart (log s)) = bview s (lstart (log s)) \<and>
    disk_hist t = disk_hist s @ log_writes (log s) (bview s) k \<and> memdisk t = apply_writes (log_writes (log s) (bview s) k) (memdisk s)"
  using assms(3)
proof (induction k)
  case 0
  then show ?case using assms by (simp add: log_writes_def logged_def)
next
  case (Suc k)
  let ?l = "log s" and ?a = "home_blocks (log s) ! k" and ?d = "lstart (log s) + of_nat k + 1"
  obtain t where t: "kfor [0..<k] write_log_one s = Ok () t" "cache_inv c p {} t" "log t = ?l" "disksize t = disksize s"
    "pinned t = pinned s" "recyclable t \<noteq> {}" "logged (bview s) k t" "bview t (lstart ?l) = bview s (lstart ?l)"
    "disk_hist t = disk_hist s @ log_writes ?l (bview s) k" "memdisk t = apply_writes (log_writes ?l (bview s) k) (memdisk s)"
    using Suc by auto
  have k: "k < nat (lhn ?l)" using Suc.prems by simp
  note h = home_block [OF assms(2) k]
  note b = log_block [OF assms(2) h(5)]
  obtain u where u: "write_log_one k t = Ok () u" "bc.copied c p ?a ?d t u"
    by (rule write_log_one_ok [of c p t k]) (use t assms h k in auto)
  have va: "bview t ?a = bview s ?a" using t(3,7) h(3) by (simp add: logged_def)
  have lu: "log u = ?l" using u(2) log_of_more [of u t] t(3) by (simp add: bc_copied_simps)
  have np: "?d \<notin> pinned s" using assms(6) b(1) h(5) by (auto simp: in_log_def)
  have ds: "b \<noteq> ?d" if "\<not> in_log (lstart ?l) (unat b)" for b using that b(1) h(5) by (auto simp: in_log_def)
  have di: "lstart ?l + of_nat i + 1 \<noteq> ?d" if "i < k" for i
    using log_block(1) [OF assms(2), of i] b(1) h(5) that by auto
  have "logged (bview s) (Suc k) u"
    using u(2) t(3,7) va lu ds di by (auto simp: logged_def bc_copied_simps less_Suc_eq)
  then show ?case
    using t u lu va np b(1,4) by (intro exI [of _ u]) (auto simp: kfor_append kthen_Ok bc_copied_simps log_writes_def)
qed

lemma install_one_ok:
  assumes "cache_inv c p {} s" and "log_area (log s) (disksize s)" and "i < nat (lhn (log s))"
    and "home_blocks (log s) ! i \<in> pinned s \<or> (\<forall>b. recyclable s - {b} \<noteq> {})" and "recyclable s \<noteq> {}"
  obtains t where "install_one i s = Ok () t"
    "bc.copied c p (lstart (log s) + of_nat i + 1) (home_blocks (log s) ! i) s t"
proof -
  let ?l = "log s"
  note h = home_block [OF assms(2,3)]
  note b = log_block [OF assms(2) h(5)]
  have ne: "lstart ?l + of_nat i + 1 \<noteq> home_blocks ?l ! i" using h(3,5) b(1) by (auto simp: in_log_def)
  obtain x t1 y t2 t u v where *: "bread 1 (lstart ?l + of_nat i + 1) s = Ok x t1" "bread 1 (home_blocks ?l ! i) t1 = Ok y t2"
    "bwrite y (upd_buf y (\<lambda>z. z\<lparr>b_data := b_data (bufs t2 ! x)\<rparr>) t2) = Ok () t" "brelse x t = Ok () u" "brelse y u = Ok () v"
    "bc.copied c p (lstart ?l + of_nat i + 1) (home_blocks ?l ! i) s v"
    using bc.copy_src_first [OF assms(1) ne, unfolded fst_conv, OF b(2) h(2) _ assms(4)] assms(5) by blast
  moreover have "ldev ?l = 1" using assms(2) by (simp add: log_area_def)
  ultimately have "install_one i s = Ok () v"
    by (simp add: install_one_def h(1) copy_block_def data_of_def set_data_def kbind_Ok kthen_Ok)
  with *(6) show thesis by (rule that [rotated])
qed

text \<open>The writes of install_trans(), \<open>v\<close> being what the cache shows of the log blocks.\<close>

definition install_writes :: "logstate \<Rightarrow> (uint \<Rightarrow> uchar list) \<Rightarrow> nat \<Rightarrow> (nat \<times> uchar list) list" where
  "install_writes l v k = map (\<lambda>i. (unat (home_blocks l ! i), v (lstart l + of_nat i + 1))) [0..<k]"

lemma install_loop:
  assumes "cache_inv c p {} s" and "log_area (log s) (disksize s)" and "k \<le> nat (lhn (log s))" and "recyclable s \<noteq> {}"
    and "distinct (home_blocks (log s)) \<and> set (home_blocks (log s)) \<subseteq> pinned s \<or> (\<forall>b. recyclable s - {b} \<noteq> {})"
    and "\<forall>b \<in> pinned s. \<not> in_log (lstart (log s)) (unat b)"
  shows "\<exists>t. kfor [0..<k] install_one s = Ok () t \<and> cache_inv c p {} t \<and> log t = log s \<and> disksize t = disksize s \<and>
    pinned t = pinned s - set (take k (home_blocks (log s))) \<and> recyclable s \<subseteq> recyclable t \<and>
    (\<forall>b. in_log (lstart (log s)) (unat b) \<longrightarrow> bview t b = bview s b) \<and>
    disk_hist t = disk_hist s @ install_writes (log s) (bview s) k \<and>
    memdisk t = apply_writes (install_writes (log s) (bview s) k) (memdisk s)"
  using assms(3)
proof (induction k)
  case 0
  then show ?case using assms by (simp add: install_writes_def)
next
  case (Suc k)
  let ?l = "log s" and ?a = "lstart (log s) + of_nat k + 1" and ?d = "home_blocks (log s) ! k"
  obtain t where t: "kfor [0..<k] install_one s = Ok () t" "cache_inv c p {} t" "log t = ?l" "disksize t = disksize s"
    "pinned t = pinned s - set (take k (home_blocks ?l))" "recyclable s \<subseteq> recyclable t"
    "\<forall>b. in_log (lstart ?l) (unat b) \<longrightarrow> bview t b = bview s b"
    "disk_hist t = disk_hist s @ install_writes ?l (bview s) k" "memdisk t = apply_writes (install_writes ?l (bview s) k) (memdisk s)"
    using Suc by auto
  have k: "k < nat (lhn ?l)" using Suc.prems by simp
  note h = home_block [OF assms(2) k]
  note b = log_block [OF assms(2) h(5)]
  have lk: "k < length (home_blocks ?l)" using length_home_blocks [OF assms(2)] k by simp
  have nt: "?d \<notin> set (take k (home_blocks ?l))" if "distinct (home_blocks ?l)"
    using that lk by (auto simp: in_set_conv_nth nth_eq_iff_index_eq)
  have rm: "?d \<in> pinned t \<or> (\<forall>b. recyclable t - {b} \<noteq> {})" using assms(5)
  proof
    assume "distinct (home_blocks ?l) \<and> set (home_blocks ?l) \<subseteq> pinned s"
    with nt h(4) t(5) show ?thesis by blast
  next
    assume "\<forall>b. recyclable s - {b} \<noteq> {}"
    with t(6) show ?thesis by fast
  qed
  obtain u where u: "install_one k t = Ok () u" "bc.copied c p ?a ?d t u"
    using install_one_ok [of c p t k] t(2,3,4,6) rm assms(2,4) k by auto
  have il: "in_log (lstart ?l) (unat ?a)" using b(1) h(5) by (simp add: in_log_def)
  have np: "?a \<notin> pinned t" using assms(6) t(5) il by auto
  have lu: "log u = ?l" using u(2) log_of_more [of u t] t(3) by (simp add: bc_copied_simps)
  show ?case
    using t u lu np il h(3) lk
    by (intro exI [of _ u]) (auto simp: kfor_append kthen_Ok bc_copied_simps install_writes_def take_Suc_conv_app_nth)
qed

section \<open>The header\<close>

lemma put_words:
  fixes w :: "nat \<Rightarrow> uint"
  assumes "4 + 4 * n \<le> length e"
  defines "f \<equiv> foldl (\<lambda>d i. put32l d (4 + 4 * i) (w i)) e [0..<n]"
  shows "length f = length e \<and> get32l f 0 = get32l e 0 \<and> (\<forall>i < n. get32l f (4 + 4 * i) = w i)"
  using assms(1) unfolding f_def
proof (induction n)
  case (Suc n)
  let ?f = "foldl (\<lambda>d i. put32l d (4 + 4 * i) (w i)) e [0..<n]"
  have IH: "length ?f = length e" "get32l ?f 0 = get32l e 0" "\<forall>i < n. get32l ?f (4 + 4 * i) = w i" using Suc by simp_all
  have "get32l (put32l ?f (4 + 4 * n) (w n)) 0 = get32l e 0"
    using Suc.prems IH by (subst get_put32l_other) simp_all
  moreover have "get32l (put32l ?f (4 + 4 * n) (w n)) (4 + 4 * i) = w i" if "i < Suc n" for i
  proof (cases "i = n")
    case False
    with that Suc.prems IH show ?thesis by (subst get_put32l_other) auto
  qed (use Suc.prems IH in simp)
  ultimately show ?case using Suc.prems IH by simp
qed simp

lemma encode_head_get:
  assumes "lhn l \<le> int LOGSIZE" and "length d = BSIZE"
  shows "length (encode_head l d) = BSIZE" and "get32l (encode_head l d) 0 = of_int (lhn l)"
    and "i < nat (lhn l) \<Longrightarrow> get32l (encode_head l d) (4 + 4 * i) = lhblock l ! i"
proof -
  have "4 + 4 * nat (lhn l) \<le> length (put32l d 0 (of_int (lhn l)))"
    using assms by (simp add: BSIZE_def LOGSIZE_def MAXOPBLOCKS_def)
  from put_words [OF this, of "\<lambda>i. lhblock l ! i"] assms(2)
  show "length (encode_head l d) = BSIZE" "get32l (encode_head l d) 0 = of_int (lhn l)"
    "i < nat (lhn l) \<Longrightarrow> get32l (encode_head l d) (4 + 4 * i) = lhblock l ! i"
    by (simp_all add: encode_head_def BSIZE_def)
qed

lemma write_head_ok:
  assumes "cache_inv c p {} s" and "log_area (log s) (disksize s)" and "recyclable s \<noteq> {}"
  defines "h \<equiv> encode_head (log s) (bview s (lstart (log s)))"
  obtains t where "write_head s = Ok () t" "cache_inv c p {} t" "log t = log s" "disksize t = disksize s"
    "bview t = (bview s)(lstart (log s) := h)" "memdisk t = (memdisk s)(unat (lstart (log s)) := h)"
    "disk_hist t = disk_hist s @ [(unat (lstart (log s)), h)]" "pinned t = pinned s - {lstart (log s)}" "recyclable s \<subseteq> recyclable t"
proof -
  let ?L = "lstart (log s)"
  have L: "?L < disksize s" using log_block(3) [OF assms(2), of 0] by (simp add: LOGSIZE_def MAXOPBLOCKS_def)
  obtain y t1 t u where *: "bread 1 ?L s = Ok y t1"
    "bwrite y (upd_buf y (\<lambda>x. x\<lparr>b_data := encode_head (log s) (b_data (bufs t1 ! y))\<rparr>) t1) = Ok () t" "brelse y t = Ok () u"
    and u: "cache_inv c p {} u" "bview u = (bview s)(?L := h)" "memdisk u = (memdisk s)(unat ?L := h)"
    "disk_hist u = disk_hist s @ [(unat ?L, h)]" "pinned u = pinned s - {?L}" "recyclable s \<subseteq> recyclable u"
    "(disksize u, ide_state.more u) = (disksize s, ide_state.more s)"
    using bc.rewrite_block [OF assms(1), of ?L "encode_head (log s)"] L assms(3) unfolding h_def fst_conv by blast
  have "upd_buf y (\<lambda>x. x\<lparr>b_data := encode_head (log s) (b_data x)\<rparr>) t1 =
      upd_buf y (\<lambda>x. x\<lparr>b_data := encode_head (log s) (b_data (bufs t1 ! y))\<rparr>) t1" by (rule upd_buf_eqI) simp
  moreover have "ldev (log s) = 1" using assms(2) by (simp add: log_area_def)
  ultimately have "write_head s = Ok () u" using * by (simp add: write_head_def set_data_def kbind_Ok kthen_Ok)
  with u log_of_more [of u s] show thesis by (intro that [of u]) simp_all
qed

section \<open>commit\<close>

text \<open>
  A transaction that is ready to be committed: its blocks, and only they, are dirty in the cache,
  the header on the disk is empty, and one buffer can be recycled.
\<close>

definition commit_ready :: "nat \<Rightarrow> int \<Rightarrow> 'z log_state_scheme \<Rightarrow> bool" where
  "commit_ready c p s \<longleftrightarrow> cache_inv c p {} s \<and> log_area (log s) (disksize s) \<and> 0 < lhn (log s) \<and>
     distinct (home_blocks (log s)) \<and> set (home_blocks (log s)) = pinned s \<and> recyclable s \<noteq> {} \<and>
     length (bview s (lstart (log s))) = BSIZE \<and> get32l (memdisk s (unat (lstart (log s)))) 0 = 0"

definition commit_writes :: "'z log_state_scheme \<Rightarrow> (nat \<times> uchar list) list" where
  "commit_writes s = (let l = log s; n = nat (lhn l); L = unat (lstart l); h = encode_head l (bview s (lstart l)) in
     log_writes l (bview s) n @ [(L, h)] @ home_writes l (bview s) n @ [(L, encode_head (l\<lparr>lhn := 0\<rparr>) h)])"

lemma commit_run:
  assumes "commit_ready c p s"
  obtains t where "commit s = Ok () t" "cache_inv c p {} t" "lhn (log t) = 0" "pinned t = {}"
    "disk_hist t = disk_hist s @ commit_writes s" "memdisk t = apply_writes (commit_writes s) (memdisk s)"
proof -
  let ?l = "log s" and ?n = "nat (lhn (log s))" and ?L = "lstart (log s)"
  let ?h = "encode_head ?l (bview s ?L)"
  note r = assms [unfolded commit_ready_def]
  have la: "log_area ?l (disksize s)" using r by blast
  have pl: "\<forall>b \<in> pinned s. \<not> in_log ?L (unat b)" using r by (auto simp: log_area_def)
  have L: "in_log ?L (unat ?L)" "?L \<notin> pinned s" using pl by (auto simp: in_log_def)
  obtain t1 where t1: "kfor [0..<?n] write_log_one s = Ok () t1" "cache_inv c p {} t1" "log t1 = ?l" "disksize t1 = disksize s"
    "pinned t1 = pinned s" "recyclable t1 \<noteq> {}" "logged (bview s) ?n t1" "bview t1 ?L = bview s ?L"
    "disk_hist t1 = disk_hist s @ log_writes ?l (bview s) ?n" "memdisk t1 = apply_writes (log_writes ?l (bview s) ?n) (memdisk s)"
    using write_log_loop [of c p s ?n] r pl by auto
  have la1: "log_area (log t1) (disksize t1)" using la t1(3,4) by simp
  obtain t2 where t2: "write_head t1 = Ok () t2" "cache_inv c p {} t2" "log t2 = ?l" "disksize t2 = disksize s"
    "bview t2 = (bview t1)(?L := ?h)" "memdisk t2 = (memdisk t1)(unat ?L := ?h)" "disk_hist t2 = disk_hist t1 @ [(unat ?L, ?h)]"
    "pinned t2 = pinned s - {?L}" "recyclable t1 \<subseteq> recyclable t2"
    by (rule write_head_ok [OF t1(2) la1 t1(6), unfolded t1(3,4,5,8)])
  have p2: "pinned t2 = pinned s" "recyclable t2 \<noteq> {}" using t2(8,9) L(2) t1(6) by auto
  have v: "bview t2 (?L + of_nat i + 1) = bview s (home_blocks ?l ! i)" if "i < ?n" for i
    using t1(3,7) t2(5) that log_block(4) [OF la home_block(5) [OF la that]] by (simp add: logged_def)
  have iw: "install_writes ?l (bview t2) ?n = home_writes ?l (bview s) ?n"
    using v by (simp add: install_writes_def home_writes_def)
  obtain t3 where t3: "kfor [0..<?n] install_one t2 = Ok () t3" "cache_inv c p {} t3" "log t3 = ?l" "disksize t3 = disksize s"
    "pinned t3 = pinned s - set (take ?n (home_blocks ?l))" "recyclable t2 \<subseteq> recyclable t3"
    "\<forall>b. in_log ?L (unat b) \<longrightarrow> bview t3 b = bview t2 b"
    "disk_hist t3 = disk_hist t2 @ home_writes ?l (bview s) ?n" "memdisk t3 = apply_writes (home_writes ?l (bview s) ?n) (memdisk t2)"
    using install_loop [OF t2(2), of ?n] t2(3,4) p2 r pl la unfolding iw [symmetric] by auto
  let ?u = "upd_log (\<lambda>l. l\<lparr>lhn := 0\<rparr>) t3"
  have p3: "pinned t3 = {}" using t3(5) r length_home_blocks [OF la] by simp
  have la': "log_area (log ?u) (disksize ?u)" using la t3(3,4) by (simp add: log_area_def home_blocks_def)
  have c3: "cache_inv c p {} ?u" and r3: "recyclable ?u \<noteq> {}" using t3(2,6) p2(2) by auto
  have bL: "bview ?u (lstart (log ?u)) = ?h" using t3(3,7) t2(5) L(1) by simp
  obtain t4 where w: "write_head ?u = Ok () t4" "cache_inv c p {} t4" "log t4 = log ?u"
    "memdisk t4 = (memdisk ?u)(unat (lstart (log ?u)) := encode_head (log ?u) (bview ?u (lstart (log ?u))))"
    "disk_hist t4 = disk_hist ?u @ [(unat (lstart (log ?u)), encode_head (log ?u) (bview ?u (lstart (log ?u))))]"
    "pinned t4 = pinned ?u - {lstart (log ?u)}"
    by (rule write_head_ok [OF c3 la' r3])
  then have t4: "log t4 = ?l\<lparr>lhn := 0\<rparr>" "memdisk t4 = (memdisk t3)(unat ?L := encode_head (?l\<lparr>lhn := 0\<rparr>) ?h)"
    "disk_hist t4 = disk_hist t3 @ [(unat ?L, encode_head (?l\<lparr>lhn := 0\<rparr>) ?h)]" "pinned t4 = {}"
    unfolding bL using t3(3) p3 by simp_all
  have "commit s = Ok () t4"
    using r t1(1,3) t2(1,3) t3(1) w(1) by (simp add: commit_def write_log_def install_trans_def kthen_Ok)
  with w(2) t4 t1 t2 t3 show thesis by (intro that [of t4]) (simp_all add: commit_writes_def Let_def)
qed

section \<open>Recovery\<close>

text \<open>
  A kernel that has just started: nothing is dirty, at least two buffers can be recycled, and the
  log is known from the superblock; the header \<open>d\<close> on its disk describes a transaction.
\<close>

definition booted :: "nat \<Rightarrow> int \<Rightarrow> uint \<Rightarrow> 'z log_state_scheme \<Rightarrow> bool" where
  "booted c p L s \<longleftrightarrow> cache_inv c p {} s \<and> pinned s = {} \<and> (\<forall>b. recyclable s - {b} \<noteq> {}) \<and> ldev (log s) = 1 \<and>
     lstart (log s) = L \<and> length (lhblock (log s)) = LOGSIZE \<and> unat L + LOGSIZE < unat (disksize s)"

definition head_count :: "uchar list \<Rightarrow> nat" where
  "head_count d = nat (sint (get32l d 0))"

definition head_block :: "uchar list \<Rightarrow> nat \<Rightarrow> uint" where
  "head_block d i = get32l d (4 + 4 * i)"

definition head_ok :: "uint \<Rightarrow> uint \<Rightarrow> uchar list \<Rightarrow> bool" where
  "head_ok L n d \<longleftrightarrow> length d = BSIZE \<and> sint (get32l d 0) \<le> int LOGSIZE \<and>
     (\<forall>i < head_count d. head_block d i < n \<and> \<not> in_log L (unat (head_block d i)))"

text \<open>The disk that recovery leaves, outside the log.\<close>

definition replay :: "uint \<Rightarrow> (nat \<Rightarrow> uchar list) \<Rightarrow> nat \<Rightarrow> uchar list" where
  "replay L d = apply_writes (map (\<lambda>i. (unat (head_block (d (unat L)) i), d (unat L + i + 1)))
     [0..<head_count (d (unat L))]) d"

definition with_head :: "uchar list \<Rightarrow> logstate \<Rightarrow> logstate" where
  "with_head d l = l\<lparr>lhn := sint (get32l d 0),
     lhblock := map (\<lambda>i. if i < head_count d then head_block d i else lhblock l ! i) [0..<LOGSIZE]\<rparr>"

lemma read_head_ok:
  assumes "booted c p L s" and "sint (get32l (memdisk s (unat L)) 0) \<le> int LOGSIZE"
  obtains t where "read_head s = Ok () t" "cache_inv c p {} t" "log t = with_head (memdisk s (unat L)) (log s)"
    "disksize t = disksize s" "bview t = bview s" "memdisk t = memdisk s" "pinned t = {}" "recyclable s \<subseteq> recyclable t"
proof -
  note bt = assms(1) [unfolded booted_def]
  let ?d = "memdisk s (unat L)"
  have i: "bview s k = memdisk s (unat k)" for k using bc.idle [of c p s k] bt by simp
  have L: "L < disksize s" using bt by (simp add: word_less_nat_alt)
  have rs: "recyclable s \<noteq> {}" using bt by blast
  obtain b t where b: "bread 1 L s = Ok b t" "cache_inv c p {b} t" "b_blockno (bufs t ! b) = L" "bview t = bview s"
    "memdisk t = memdisk s" "pinned t = {}" "recyclable t = recyclable s - {b}" "disksize t = disksize s"
    "ide_state.more t = ide_state.more s"
    using bc.read [of c p "{}" s L] bt L rs by auto
  have lt: "log t = log s" by (rule log_of_more [OF b(9)])
  have d: "b_data (bufs t ! b) = ?d" using bc.holds [OF b(2), of b] b i by simp
  let ?u = "upd_log (with_head ?d) t"
  have "cache_inv c p {b} ?u" using b(2) by simp
  then obtain v where v: "brelse b ?u = Ok () v" "cache_inv c p {} v" "bview v = bview s" "memdisk v = memdisk s" "pinned v = {}"
    "recyclable v = insert b (recyclable s - {b})" "disksize v = disksize s" "ide_state.more v = ide_state.more ?u"
    using bc.drop [of c p "{b}" ?u b] b(3-8) i by auto
  have lv: "log v = with_head ?d (log s)" using log_of_more [OF v(8)] lt by simp
  have e: "upd_log (\<lambda>l. l\<lparr>lhblock := map (\<lambda>i. if i < nat n then get32l (b_data (bufs t ! b)) (4 + 4 * i) else lhblock l ! i) [0..<LOGSIZE]\<rparr>)
      (upd_log (\<lambda>l. l\<lparr>lhn := n\<rparr>) t) = ?u" if "n = sint (get32l ?d 0)" for n
    unfolding d using that by (simp add: upd_log_def with_head_def head_count_def head_block_def)
  have "read_head s = Ok () v"
    using b(1) bt assms(2) d v(1) by (simp add: read_head_def data_of_def kbind_Ok Let_def e not_less)
  with v lv show thesis by (intro that [of v]) auto
qed

lemma with_head_area:
  assumes "booted c p L s" and "head_ok L (disksize s) d"
  shows "home_blocks (with_head d (log s)) = map (head_block d) [0..<head_count d]"
    and "log_area (with_head d (log s)) (disksize s)" and "nat (lhn (with_head d (log s))) = head_count d"
    and "lstart (with_head d (log s)) = L"
proof -
  have n: "head_count d \<le> LOGSIZE" using assms(2) by (simp add: head_ok_def head_count_def nat_le_iff)
  show h: "home_blocks (with_head d (log s)) = map (head_block d) [0..<head_count d]"
    using n by (auto simp: home_blocks_def with_head_def head_count_def take_map intro!: nth_equalityI)
  show "nat (lhn (with_head d (log s))) = head_count d" "lstart (with_head d (log s)) = L"
    using assms(1) by (simp_all add: with_head_def head_count_def booted_def)
  show "log_area (with_head d (log s)) (disksize s)"
    unfolding log_area_def h using assms by (auto simp: with_head_def booted_def head_ok_def)
qed

lemma recover_run:
  assumes "booted c p L s" and "head_ok L (disksize s) (memdisk s (unat L))"
  obtains t where "recover_from_log s = Ok () t" "cache_inv c p {} t" "lhn (log t) = 0" "get32l (memdisk t (unat L)) 0 = 0"
    "\<And>b. \<not> in_log L b \<Longrightarrow> memdisk t b = replay L (memdisk s) b"
proof -
  let ?d = "memdisk s (unat L)" and ?l = "with_head (memdisk s (unat L)) (log s)"
  note bt = assms(1) [unfolded booted_def] and w = with_head_area [OF assms]
  have i: "bview s k = memdisk s (unat k)" for k using bc.idle [of c p s k] bt by simp
  have hc: "sint (get32l ?d 0) \<le> int LOGSIZE" using assms(2) by (simp add: head_ok_def)
  obtain t where t: "read_head s = Ok () t" "cache_inv c p {} t" "log t = ?l" "disksize t = disksize s" "bview t = bview s"
    "memdisk t = memdisk s" "pinned t = {}" "recyclable s \<subseteq> recyclable t"
    by (rule read_head_ok [OF assms(1) hc])
  have rt: "recyclable t \<noteq> {}" "\<forall>b. recyclable t - {b} \<noteq> {}" using t(8) bt by blast+
  have lt: "log_area (log t) (disksize t)" using w(2) t(3,4) by simp
  obtain u where u: "kfor [0..<head_count ?d] install_one t = Ok () u" "cache_inv c p {} u" "log u = ?l" "disksize u = disksize s"
    "pinned u = {}" "recyclable t \<subseteq> recyclable u" "\<forall>b. in_log L (unat b) \<longrightarrow> bview u b = bview t b"
    "memdisk u = apply_writes (install_writes ?l (bview s) (head_count ?d)) (memdisk s)"
    using install_loop [OF t(2) lt, of "head_count ?d"] w t rt by auto
  have "(unat (home_blocks ?l ! j), bview s (L + of_nat j + 1)) = (unat (head_block ?d j), memdisk s (unat L + j + 1))"
    if "j < head_count ?d" for j
    using that i log_block(1) [OF w(2), of j] home_block(5) [OF w(2), of j] w by simp
  then have iw: "install_writes ?l (bview s) (head_count ?d) = map (\<lambda>j. (unat (head_block ?d j), memdisk s (unat L + j + 1))) [0..<head_count ?d]"
    using w(4) by (simp add: install_writes_def)
  let ?u = "upd_log (\<lambda>l. l\<lparr>lhn := 0\<rparr>) u"
  have c: "cache_inv c p {} ?u" and r: "recyclable ?u \<noteq> {}" using u(2,6) rt(1) by auto
  have lu: "log_area (log ?u) (disksize ?u)" using w(2) u(3,4) by (simp add: log_area_def home_blocks_def)
  obtain v where v: "write_head ?u = Ok () v" "cache_inv c p {} v" "log v = log ?u"
    "memdisk v = (memdisk ?u)(unat (lstart (log ?u)) := encode_head (log ?u) (bview ?u (lstart (log ?u))))"
    by (rule write_head_ok [OF c lu r])
  have L: "in_log L (unat L)" by (simp add: in_log_def)
  have bL: "bview ?u (lstart (log ?u)) = ?d" using u(3,7) w(4) L t(5) i by simp
  have "get32l (encode_head (log ?u) ?d) 0 = 0"
    using encode_head_get(2) [of "log ?u" ?d] assms(2) by (simp add: head_ok_def)
  then have "get32l (memdisk v (unat L)) 0 = 0" using v(4) u(3) w(4) bL by simp
  moreover have "memdisk v b = replay L (memdisk s) b" if "\<not> in_log L b" for b
    using that v(4) u(3,8) w(4) iw L by (auto simp: replay_def)
  moreover have "recover_from_log s = Ok () v"
    using t(1,3) u(1) v(1) w(3) by (simp add: recover_from_log_def install_trans_def kthen_Ok)
  ultimately show thesis using v(2,3) by (intro that [of v]) simp_all
qed

section \<open>A crash during commit\<close>

lemma apply_writes_cong: "d b = d' b \<Longrightarrow> apply_writes ws d b = apply_writes ws d' b"
proof (induction ws arbitrary: d d')
  case (Cons w ws)
  obtain x y where w: "w = (x, y)" by (rule prod.exhaust)
  have "(d(x := y)) b = (d'(x := y)) b" using Cons.prems by simp
  then show ?case unfolding w apply_writes_simps by (rule Cons.IH)
qed simp

lemma apply_writes_covered: "b \<in> fst ` set ws \<Longrightarrow> apply_writes ws d b = apply_writes ws d' b"
proof (induction ws arbitrary: d d')
  case (Cons w ws)
  show ?case
  proof (cases "b \<in> fst ` set ws")
    case False
    with Cons.prems show ?thesis by (cases w) (auto simp: apply_writes_other)
  qed (use Cons.IH in \<open>cases w, simp\<close>)
qed simp

text \<open>Doing part of the writes before all of them changes nothing.\<close>

lemma apply_writes_again: "apply_writes ws (apply_writes (take j ws) d) b = apply_writes ws d b"
proof (cases "b \<in> fst ` set ws")
  case True
  then show ?thesis by (rule apply_writes_covered)
next
  case False
  then have "b \<notin> fst ` set (take j ws)" using set_take_subset [of j ws] by blast
  with False show ?thesis by (simp add: apply_writes_other)
qed

lemma apply_writes_map:
  assumes "i < n" and "inj_on f {..<n}"
  shows "apply_writes (map (\<lambda>i. (f i, g i)) [0..<n]) d (f i) = g i"
  using assms
proof (induction n)
  case (Suc n)
  have "inj_on f {..<n}" by (rule inj_on_subset [OF Suc.prems(2)]) auto
  moreover have "f i \<noteq> f n" if "i < n" using inj_onD [OF Suc.prems(2), of i n] that by auto
  ultimately show ?case using Suc by (cases "i = n") simp_all
qed simp

text \<open>What a header says, and that replaying an empty one does nothing.\<close>

lemma head_empty:
  assumes "length (d (unat L)) = BSIZE" and "get32l (d (unat L)) 0 = 0"
  shows "head_ok L n (d (unat L))" and "replay L d = d"
  using assms by (simp_all add: head_ok_def replay_def head_count_def)

lemma head_full:
  assumes "log_area l n" and "0 \<le> lhn l" and "length e = BSIZE"
  shows "head_count (encode_head l e) = nat (lhn l)" and "head_ok (lstart l) n (encode_head l e)"
    and "i < nat (lhn l) \<Longrightarrow> head_block (encode_head l e) i = home_blocks l ! i"
proof -
  have le: "lhn l \<le> int LOGSIZE" using assms(1) by (simp add: log_area_def)
  note g = encode_head_get [OF le assms(3)]
  have s: "sint (get32l (encode_head l e) 0) = lhn l"
    using le assms(2) by (simp add: g(2) LOGSIZE_def MAXOPBLOCKS_def sint_sbintrunc' signed_take_bit_int_eq_self)
  then show c: "head_count (encode_head l e) = nat (lhn l)" by (simp add: head_count_def)
  show b: "head_block (encode_head l e) i = home_blocks l ! i" if "i < nat (lhn l)" for i
    using that g(3) home_block(1) [OF assms(1)] by (simp add: head_block_def)
  show "head_ok (lstart l) n (encode_head l e)"
    unfolding head_ok_def c s using g(1) le b home_block(2,3) [OF assms(1)] by simp
qed

text \<open>The three shapes of the disk after a crash: logging, installing, done.\<close>

lemma take_append_cases:
  obtains (first) "k \<le> length a" "take k (a @ [x] @ b @ [y]) = take k a"
  | (second) j where "length a < k" "take k (a @ [x] @ b @ [y]) = a @ x # take j b"
  | (all) "length a < k" "take k (a @ [x] @ b @ [y]) = a @ x # b @ [y]"
proof -
  consider "k \<le> length a" | "length a < k" "k \<le> length a + 1 + length b" | "length a + 1 + length b < k" by linarith
  then show thesis
  proof cases
    case 2
    then have "take k (a @ [x] @ b @ [y]) = a @ x # take (k - length a - 1) b" by (simp add: take_Cons')
    with 2(1) show thesis by (rule second)
  qed (simp_all add: first all take_Cons')
qed

lemma log_writes_outside:
  assumes "log_area l n" and "k \<le> nat (lhn l)" and "b \<le> unat (lstart l) \<or> \<not> in_log (lstart l) b"
  shows "apply_writes (take j (log_writes l v k)) d b = d b"
proof (rule apply_writes_other, rule notI)
  assume "b \<in> fst ` set (take j (log_writes l v k))"
  then have "b \<in> fst ` set (log_writes l v k)" using set_take_subset [of j "log_writes l v k"] by blast
  then obtain i where "i < k" "b = unat (lstart l) + i + 1" by (auto simp: log_writes_def)
  moreover have "i < LOGSIZE" using home_block(5) [OF assms(1), of i] \<open>i < k\<close> assms(2) by simp
  ultimately show False using assms(3) by (auto simp: in_log_def)
qed

lemma home_writes_inside:
  assumes "log_area l n" and "k \<le> nat (lhn l)" and "in_log (lstart l) b"
  shows "apply_writes (take j (home_writes l v k)) d b = d b"
proof (rule apply_writes_other, rule notI)
  assume "b \<in> fst ` set (take j (home_writes l v k))"
  then have "b \<in> fst ` set (home_writes l v k)" using set_take_subset [of j "home_writes l v k"] by blast
  then obtain i where "i < k" "b = unat (home_blocks l ! i)" by (auto simp: home_writes_def)
  with home_block(3) [OF assms(1), of i] assms(2,3) show False by simp
qed

lemma log_writes_inside:
  assumes "i < k"
  shows "apply_writes (log_writes l v k) d (unat (lstart l) + i + 1) = v (home_blocks l ! i)"
  unfolding log_writes_def using apply_writes_map [of i k "\<lambda>i. unat (lstart l) + i + 1"] assms by (simp add: inj_on_def)

definition after_commit :: "'z log_state_scheme \<Rightarrow> nat \<Rightarrow> uchar list" where
  "after_commit s = apply_writes (home_writes (log s) (bview s) (nat (lhn (log s)))) (memdisk s)"

text \<open>The disk once the header is written, seen from outside the log.\<close>

lemma logged_outside:
  assumes "log_area l n" and "\<not> in_log (lstart l) b"
  shows "((apply_writes (log_writes l v (nat (lhn l))) d)(unat (lstart l) := h)) b = d b"
proof -
  have "apply_writes (take (length (log_writes l v (nat (lhn l)))) (log_writes l v (nat (lhn l)))) d b = d b"
    by (rule log_writes_outside [OF assms(1) order.refl]) (use assms(2) in simp)
  with assms(2) show ?thesis by (auto simp: in_log_def)
qed

lemma replay_installing:
  fixes d :: "nat \<Rightarrow> uchar list" and v :: "uint \<Rightarrow> uchar list" and j :: nat
  assumes la: "log_area l n" and "0 \<le> lhn l" and "length e = BSIZE"
  defines "m \<equiv> nat (lhn l)" and "L \<equiv> lstart l" and "h \<equiv> encode_head l e"
  defines "D \<equiv> apply_writes (take j (home_writes l v m)) ((apply_writes (log_writes l v m) d)(unat L := h))"
  shows "head_ok L n (D (unat L))" and "\<not> in_log L b \<Longrightarrow> replay L D b = apply_writes (home_writes l v m) d b"
proof -
  let ?E = "(apply_writes (log_writes l v m) d)(unat L := h)"
  note hf = head_full [OF assms(1-3), folded m_def L_def h_def]
  have ih: "D b = ?E b" if "in_log L b" for b
    using home_writes_inside [OF la order.refl, folded m_def L_def, OF that] by (simp add: D_def)
  have DL: "D (unat L) = h" using ih [of "unat L"] by (simp add: in_log_def)
  show "head_ok L n (D (unat L))" using hf(2) by (simp add: DL)
  have "D (unat L + i + 1) = v (home_blocks l ! i)" if "i < m" for i
    using ih [of "unat L + i + 1"] home_block(5) [OF la, of i] log_writes_inside [OF that, of l v] that
    by (simp add: in_log_def L_def m_def)
  then have "map (\<lambda>i. (unat (head_block h i), D (unat L + i + 1))) [0..<m] = home_writes l v m"
    by (auto simp: home_writes_def hf(3))
  then have R: "replay L D = apply_writes (home_writes l v m) D" unfolding replay_def DL hf(1) by (rule arg_cong)
  assume "\<not> in_log L b"
  then have "?E b = d b" using logged_outside [OF la, folded L_def m_def] by simp
  from apply_writes_cong [of ?E b d, OF this] show "replay L D b = apply_writes (home_writes l v m) d b"
    unfolding R unfolding D_def by (simp add: apply_writes_again)
qed

lemma commit_prefix:
  fixes k :: nat
  assumes "commit_ready c p s"
  defines "L \<equiv> lstart (log s)" and "D \<equiv> apply_writes (take k (commit_writes s)) (memdisk s)"
  shows "head_ok L (disksize s) (D (unat L)) \<and>
    (\<forall>b. \<not> in_log L b \<longrightarrow> replay L D b = (if k \<le> nat (lhn (log s)) then memdisk s b else after_commit s b))"
proof -
  let ?l = "log s" and ?n = "nat (lhn (log s))" and ?v = "bview s"
  let ?W = "log_writes ?l ?v ?n" and ?H = "home_writes ?l ?v ?n" and ?h = "encode_head ?l (?v (lstart ?l))"
  let ?z = "encode_head (?l\<lparr>lhn := 0\<rparr>) ?h"
  note r = assms(1) [unfolded commit_ready_def]
  have la: "log_area ?l (disksize s)" and n0: "0 \<le> lhn ?l" and lv: "length (?v (lstart ?l)) = BSIZE" using r by auto
  have "L \<notin> pinned s" using la r by (auto simp: log_area_def L_def in_log_def)
  then have vL: "?v L = memdisk s (unat L)" using bc.idle [of c p s L] r by simp
  have W: "length ?W = ?n" by (simp add: log_writes_def)
  have e: "commit_writes s = ?W @ [(unat L, ?h)] @ ?H @ [(unat L, ?z)]"
    by (simp add: commit_writes_def L_def Let_def)
  show ?thesis
  proof (cases rule: take_append_cases [of k ?W "(unat L, ?h)" ?H "(unat L, ?z)"])
    case first
    then have D: "D = apply_writes (take k ?W) (memdisk s)" by (simp add: D_def e)
    have ol: "D b = memdisk s b" if "b \<le> unat L \<or> \<not> in_log L b" for b
      using log_writes_outside [OF la order.refl] that by (simp add: D L_def)
    from r vL have "length (D (unat L)) = BSIZE" "get32l (D (unat L)) 0 = 0" by (simp_all add: ol) (simp_all add: L_def)
    from head_empty [of D L, OF this] first(1) W show ?thesis by (simp add: ol)
  next
    case (second j)
    then have D: "D = apply_writes (take j ?H) ((apply_writes ?W (memdisk s))(unat L := ?h))" by (simp add: D_def e)
    show ?thesis unfolding D
      using replay_installing [OF la n0 lv] second(1) W by (simp add: L_def after_commit_def)
  next
    case all
    let ?E = "(apply_writes ?W (memdisk s))(unat L := ?h)"
    have D: "D = (apply_writes ?H ?E)(unat L := ?z)" using all by (simp add: D_def e)
    have "length ?h = BSIZE" by (rule encode_head_get(1) [OF _ lv]) (use la in \<open>simp add: log_area_def\<close>)
    then have "length (D (unat L)) = BSIZE" "get32l (D (unat L)) 0 = 0"
      using encode_head_get(1,2) [of "?l\<lparr>lhn := 0\<rparr>" ?h] by (simp_all add: D)
    note emp = head_empty [of D L, OF this]
    have "D b = after_commit s b" if "\<not> in_log L b" for b
    proof -
      have "?E b = memdisk s b" using logged_outside [OF la] that by (simp add: L_def)
      from apply_writes_cong [of ?E b "memdisk s", OF this] show ?thesis using that by (auto simp: D after_commit_def in_log_def)
    qed
    with emp all(1) W show ?thesis by simp
  qed
qed

lemma after_commit_disk:
  assumes "commit_ready c p s" and "\<not> in_log (lstart (log s)) b"
  shows "apply_writes (commit_writes s) (memdisk s) b = after_commit s b"
proof -
  let ?l = "log s" and ?n = "nat (lhn (log s))" and ?h = "encode_head (log s) (bview s (lstart (log s)))"
  let ?E = "(apply_writes (log_writes ?l (bview s) ?n) (memdisk s))(unat (lstart ?l) := ?h)"
  have la: "log_area ?l (disksize s)" using assms(1) by (simp add: commit_ready_def)
  have "?E b = memdisk s b" by (rule logged_outside [OF la assms(2)])
  from apply_writes_cong [of ?E b "memdisk s", OF this] assms(2) show ?thesis
    by (auto simp: commit_writes_def after_commit_def Let_def in_log_def)
qed

lemma after_commit_view:
  assumes "commit_ready c p s"
  shows "after_commit s (unat b) = bview s b"
proof -
  let ?l = "log s" and ?n = "nat (lhn (log s))"
  note r = assms [unfolded commit_ready_def]
  have la: "log_area ?l (disksize s)" using r by blast
  show ?thesis
  proof (cases "b \<in> pinned s")
    case True
    then obtain i where i: "i < ?n" "b = home_blocks ?l ! i"
      using r length_home_blocks [OF la] by (metis in_set_conv_nth)
    have "inj_on (\<lambda>i. unat (home_blocks ?l ! i)) {..<?n}"
      using r length_home_blocks [OF la] by (auto simp: inj_on_def nth_eq_iff_index_eq)
    from apply_writes_map [OF i(1) this] i(2) show ?thesis by (simp add: after_commit_def home_writes_def)
  next
    case False
    have "unat b \<notin> fst ` set (home_writes ?l (bview s) ?n)"
    proof
      assume "unat b \<in> fst ` set (home_writes ?l (bview s) ?n)"
      then obtain i where "i < ?n" "b = home_blocks ?l ! i" by (auto simp: home_writes_def)
      with home_block(4) [OF la, of i] r False show False by simp
    qed
    with False r bc.idle [of c p s b] show ?thesis by (simp add: after_commit_def apply_writes_other)
  qed
qed

text \<open>
  C5. A committed transaction is atomic across a crash. When a transaction is ready, commit()
  returns; its block writes are appended to the history of the disk, and afterwards every block
  outside the log is on the disk as the buffer cache showed it. If the machine stops after any number \<open>k\<close> of these writes and
  a kernel starts on the disk so left, then its recover_from_log() returns, with an empty header on
  the disk, and outside the log the disk is what it was before the
  transaction when the header had not been written (\<open>k \<le> n\<close>), and what commit() would have left
  when it had.
\<close>

theorem commit_crash_safe:
  fixes s :: "'z log_state_scheme"
  assumes "commit_ready c p s"
  shows "\<exists>t. commit s = Ok () t \<and> disk_hist t = disk_hist s @ commit_writes s \<and> lhn (log t) = 0 \<and>
    (\<forall>b. \<not> in_log (lstart (log s)) (unat b) \<longrightarrow> memdisk t (unat b) = bview s b) \<and>
    (\<forall>k c' p' (u :: 'y log_state_scheme). booted c' p' (lstart (log s)) u \<and> disksize u = disksize s \<and>
        memdisk u = apply_writes (take k (commit_writes s)) (memdisk s) \<longrightarrow>
      (\<exists>v. recover_from_log u = Ok () v \<and> get32l (memdisk v (unat (lstart (log s)))) 0 = 0 \<and>
        (\<forall>b. \<not> in_log (lstart (log s)) b \<longrightarrow>
          memdisk v b = (if k \<le> nat (lhn (log s)) then memdisk s b else memdisk t b))))"
proof -
  let ?L = "lstart (log s)" and ?n = "nat (lhn (log s))"
  note pf = commit_prefix [OF assms]
  obtain t where t: "commit s = Ok () t" "lhn (log t) = 0" "disk_hist t = disk_hist s @ commit_writes s"
    "memdisk t = apply_writes (commit_writes s) (memdisk s)" by (rule commit_run [OF assms])
  have ac: "memdisk t b = after_commit s b" if "\<not> in_log ?L b" for b
    using after_commit_disk [OF assms that] t(4) by simp
  have rec: "\<exists>v. recover_from_log u = Ok () v \<and> get32l (memdisk v (unat ?L)) 0 = 0 \<and>
      (\<forall>b. \<not> in_log ?L b \<longrightarrow> memdisk v b = (if k \<le> ?n then memdisk s b else memdisk t b))"
    if u: "booted c' p' ?L u" "disksize u = disksize s" "memdisk u = apply_writes (take k (commit_writes s)) (memdisk s)"
    for k c' p' and u :: "'y log_state_scheme"
  proof -
    have "head_ok ?L (disksize u) (memdisk u (unat ?L))" using pf [of k] u(2,3) by simp
    then obtain v where v: "recover_from_log u = Ok () v" "get32l (memdisk v (unat ?L)) 0 = 0"
      "\<And>b. \<not> in_log ?L b \<Longrightarrow> memdisk v b = replay ?L (memdisk u) b"
      using recover_run [OF u(1)] by metis
    with pf [of k] u(3) ac show ?thesis by (intro exI [of _ v]) auto
  qed
  have "\<forall>b. \<not> in_log ?L (unat b) \<longrightarrow> memdisk t (unat b) = bview s b" using ac after_commit_view [OF assms] by simp
  with t(1-3) rec show ?thesis by blast
qed

end
