(* ===== verification/Diskops.thy ===== *)
theory Diskops
  imports Blockio
begin

text \<open>
  The buffer cache refines a disk. The abstract disk is a map from block numbers to blocks with
  reads and writes; the implementation goes through bread(), bwrite() and brelse() of bio.c, with
  hits, misses and recycled buffers as they come. Any sequence of operations gives the same answers
  and the same disk.
\<close>

section \<open>The abstract disk\<close>

datatype disk_op = Rd uint | Wr uint "uchar list"

primrec op_block :: "disk_op \<Rightarrow> uint" where
  "op_block (Rd a) = a"
| "op_block (Wr a d) = a"

fun disk_run :: "disk_op list \<Rightarrow> (uint \<Rightarrow> uchar list) \<Rightarrow> uchar list list \<times> (uint \<Rightarrow> uchar list)" where
  "disk_run [] v = ([], v)"
| "disk_run (Rd a # ops) v = (let (rs, v') = disk_run ops v in (v a # rs, v'))"
| "disk_run (Wr a d # ops) v = disk_run ops (v(a := d))"

section \<open>The same operations on the buffer cache\<close>

fun cache_op :: "disk_op \<Rightarrow> ('z ide_state_scheme, uchar list list) kM" where
  "cache_op (Rd a) =
     kbind (bread 1 a) (\<lambda>b.
     kbind (kgets (\<lambda>s. b_data (bufs s ! b))) (\<lambda>d.
     kthen (brelse b) (ret [d])))"
| "cache_op (Wr a d) =
     kbind (bread 1 a) (\<lambda>b.
     kthen (kmodify (upd_buf b (\<lambda>x. x\<lparr>b_data := d\<rparr>))) (
     kthen (bwrite b) (
     kthen (brelse b) (ret []))))"

primrec cache_run :: "disk_op list \<Rightarrow> ('z ide_state_scheme, uchar list list) kM" where
  "cache_run [] = ret []"
| "cache_run (x # xs) = kbind (cache_op x) (\<lambda>r. kbind (cache_run xs) (\<lambda>rs. ret (r @ rs)))"

text \<open>One step of the simulation.\<close>

definition disk_step_ok :: "nat \<Rightarrow> int \<Rightarrow> disk_op \<Rightarrow> 'z ide_state_scheme \<Rightarrow> bool" where
  "disk_step_ok c p x s \<longleftrightarrow> (\<exists>t. cache_op x s = Ok (fst (disk_run [x] (bview s))) t \<and> bview t = snd (disk_run [x] (bview s)) \<and>
     cache_inv c p {} t \<and> disksize t = disksize s \<and> pinned t \<subseteq> pinned s \<and> recyclable s \<subseteq> recyclable t)"

lemma cache_write_step:
  assumes "cache_inv c p {} s" and "a < disksize s" and "recyclable s \<noteq> {}"
  shows "disk_step_ok c p (Wr a d) s"
proof -
  obtain y t1 t u where *: "bread 1 a s = Ok y t1" "bwrite y (upd_buf y (\<lambda>x. x\<lparr>b_data := d\<rparr>) t1) = Ok () t" "brelse y t = Ok () u"
    and u: "cache_inv c p {} u" "bview u = (bview s)(a := d)" "pinned u = pinned s - {a}" "recyclable s \<subseteq> recyclable u"
    "(disksize u, ide_state.more u) = (disksize s, ide_state.more s)"
    by (rule bc.rewrite_block [OF assms(1), of a "\<lambda>_. d", unfolded fst_conv, OF assms(2,3)]) blast
  from * have "cache_op (Wr a d) s = Ok [] u" by (simp add: kbind_Ok kthen_Ok)
  with u show ?thesis unfolding disk_step_ok_def by (intro exI [of _ u]) auto
qed

text \<open>A read of a pinned block finds it in its own buffer, which could not be recycled before.\<close>

lemma read_keeps_room:
  assumes "cache_inv c p {} s" and "cache_inv c p {b} t" and "home t b a" and "\<forall>j. j \<noteq> b \<longrightarrow> bufs t ! j = bufs s ! j"
    and "a \<in> pinned s"
  shows "b \<notin> recyclable s"
proof -
  obtain b' where b': "home s b' a" "dirty_buf (bufs s ! b')" using assms(1,5) home_pinned by blast
  have "b' = b"
  proof (rule ccontr)
    assume "b' \<noteq> b"
    then have "home t b' a" using assms(4) b'(1) by (simp add: home_def)
    then show False using cache_inv_unique [OF assms(2,3)] \<open>b' \<noteq> b\<close> by blast
  qed
  then show ?thesis using b'(2) by (simp add: recyclable_def)
qed

lemma cache_read_step:
  assumes "cache_inv c p {} s" and "a < disksize s" and "recyclable s \<noteq> {}"
  shows "disk_step_ok c p (Rd a) s"
proof -
  obtain b t where b: "bread 1 a s = Ok b t" "cache_inv c p {b} t" "home t b a" "bview t = bview s"
    "same_disk s t" "recyclable t = recyclable s - {b}" "pinned t = pinned s" "\<forall>j. j \<noteq> b \<longrightarrow> bufs t ! j = bufs s ! j"
    using bread_ok [OF assms(1,2), of thesis] assms(3) by blast
  have h: "b_blockno (bufs t ! b) = a" and sd: "memdisk t = memdisk s" "disksize t = disksize s"
    using b(3,5) by (simp_all add: home_def same_disk_def)
  have d: "b_data (bufs t ! b) = bview s a" using bc.holds [OF b(2), of b] b(4) h by simp
  have "a \<in> pinned s \<or> bview s a = memdisk s (unat a)" using bc.idle [OF assms(1), of a] by blast
  then have "b_blockno (bufs t ! b) \<in> pinned t \<or> bview t (b_blockno (bufs t ! b)) = memdisk t (unat (b_blockno (bufs t ! b)))"
    unfolding h b(4,7) sd .
  then obtain u where u: "brelse b t = Ok () u" "cache_inv c p {} u" "bview u = bview s" "pinned u = pinned s"
    "recyclable u = recyclable s - {b} \<union> (if a \<in> pinned s then {} else {b})" "disksize u = disksize s"
    using bc.drop [OF b(2), of b] unfolding h b(4,6,7) sd by auto
  have "recyclable s \<subseteq> recyclable u" using read_keeps_room [OF assms(1) b(2,3,8)] u(5) by auto
  moreover from b(1) d u(1) have "cache_op (Rd a) s = Ok [bview s a] u" by (simp add: kbind_Ok kthen_Ok)
  ultimately show ?thesis using u unfolding disk_step_ok_def by (intro exI [of _ u]) auto
qed

lemma disk_run_Cons: "disk_run (x # xs) v = (fst (disk_run [x] v) @ fst (disk_run xs (snd (disk_run [x] v))), snd (disk_run xs (snd (disk_run [x] v))))"
  by (cases x) (simp_all add: case_prod_beta)

text \<open>
  C6. The buffer cache refines a disk: whatever sequence of block reads and writes a process makes
  through bread(), bwrite() and brelse(), it returns, each read gives the block the abstract
  disk has at that point, and the disk the cache shows at the end is the abstract disk. The
  invariant of the cache holds again, and what is not waiting for the log is on the disk itself.
\<close>

theorem cache_refines_disk:
  assumes "cache_inv c p {} s" and "recyclable s \<noteq> {}" and "\<forall>x \<in> set ops. op_block x < disksize s"
  shows "\<exists>t. cache_run ops s = Ok (fst (disk_run ops (bview s))) t \<and> bview t = snd (disk_run ops (bview s)) \<and>
    cache_inv c p {} t \<and> (\<forall>a. a \<notin> pinned s \<longrightarrow> memdisk t (unat a) = snd (disk_run ops (bview s)) a)"
proof -
  have "\<exists>t. cache_run ops s = Ok (fst (disk_run ops (bview s))) t \<and> bview t = snd (disk_run ops (bview s)) \<and>
    cache_inv c p {} t \<and> pinned t \<subseteq> pinned s" using assms
  proof (induction ops arbitrary: s)
    case (Cons x xs)
    have "disk_step_ok c p x s"
      using Cons.prems by (cases x) (simp_all add: cache_read_step cache_write_step del: cache_op.simps)
    then obtain t where t: "cache_op x s = Ok (fst (disk_run [x] (bview s))) t" "bview t = snd (disk_run [x] (bview s))"
      "cache_inv c p {} t" "disksize t = disksize s" "pinned t \<subseteq> pinned s" "recyclable s \<subseteq> recyclable t"
      unfolding disk_step_ok_def by blast
    obtain u where u: "cache_run xs t = Ok (fst (disk_run xs (bview t))) u" "bview u = snd (disk_run xs (bview t))"
      "cache_inv c p {} u" "pinned u \<subseteq> pinned t" using Cons.IH [of t] Cons.prems t(3,4,6) by auto
    then show ?case unfolding disk_run_Cons [of x xs] using t
      by (intro exI [of _ u]) (auto simp: kbind_Ok simp del: cache_op.simps disk_run.simps)
  qed simp
  then show ?thesis using bc.idle by (metis subsetD)
qed

end
