(* ===== verification/Inode.thy ===== *)
theory Inode
  imports Log
begin

text \<open>
  The lower half of fs.c: the block allocator on the free bitmap, the inode cache and the on-disk
  inodes, and the block map of an inode. A \<open>struct inode *\<close> is an index into the cache
  \<open>icache\<close>; where the code tests it for null it is an option. On-disk inodes are decoded from and
  encoded into the bytes of their block.
\<close>

section \<open>On-disk layout (fs.h)\<close>

definition ROOTINO :: uint where "ROOTINO = 1"
definition NDIRECT :: nat where "NDIRECT = 12"
definition NINDIRECT :: nat where "NINDIRECT = BSIZE div 4"
definition MAXFILE :: nat where "MAXFILE = NDIRECT + NINDIRECT"
definition IPB :: nat where "IPB = BSIZE div 64"
definition BPB :: nat where "BPB = BSIZE * 8"

definition IBLOCK :: "uint \<Rightarrow> superblock \<Rightarrow> uint" where
  "IBLOCK i sb = i div of_nat IPB + inodestart sb"

definition BBLOCK :: "uint \<Rightarrow> superblock \<Rightarrow> uint" where
  "BBLOCK b sb = b div of_nat BPB + bmapstart sb"

definition T_DIR :: ushort where "T_DIR = 1"
definition T_FILE :: ushort where "T_FILE = 2"
definition T_DEV :: ushort where "T_DEV = 3"

record dinode =
  di_type :: ushort
  di_major :: ushort
  di_minor :: ushort
  di_nlink :: ushort
  di_size :: uint
  di_addrs :: "uint list"

definition decode_dinode :: "uchar list \<Rightarrow> nat \<Rightarrow> dinode" where
  "decode_dinode d k = \<lparr>di_type = get16l d k, di_major = get16l d (k + 2), di_minor = get16l d (k + 4),
     di_nlink = get16l d (k + 6), di_size = get32l d (k + 8),
     di_addrs = map (\<lambda>i. get32l d (k + 12 + 4 * i)) [0..<NDIRECT + 1]\<rparr>"

definition encode_dinode :: "dinode \<Rightarrow> uchar list" where
  "encode_dinode di = bytes16 (di_type di) @ bytes16 (di_major di) @ bytes16 (di_minor di) @
     bytes16 (di_nlink di) @ bytes32 (di_size di) @ concat (map bytes32 (di_addrs di))"

section \<open>State (file.h)\<close>

record inode =
  i_dev :: uint
  i_inum :: uint
  i_ref :: int
  i_valid :: bool
  i_type :: ushort
  i_major :: ushort
  i_minor :: ushort
  i_nlink :: ushort
  i_size :: uint
  i_addrs :: "uint list"

record fs_state = log_state +
  sb :: superblock
  icache :: "inode list"

definition upd_ino :: "nat \<Rightarrow> (inode \<Rightarrow> inode) \<Rightarrow> 'z fs_state_scheme \<Rightarrow> 'z fs_state_scheme" where
  "upd_ino i f s = s\<lparr>icache := (icache s)[i := f (icache s ! i)]\<rparr>"

section \<open>Blocks\<close>

definition bzero :: "uint \<Rightarrow> uint \<Rightarrow> ('z log_state_scheme, unit) kM" where
  "bzero dev bno =
     kbind (bread dev bno) (\<lambda>bp.
     kthen (set_data bp (\<lambda>_. replicate BSIZE 0)) (
     kthen (log_write bp) (
     brelse bp)))"

definition bit_mask :: "nat \<Rightarrow> uchar" where
  "bit_mask bi = push_bit (bi mod 8) 1"

definition bit_clear :: "uchar list \<Rightarrow> nat \<Rightarrow> bool" where
  "bit_clear d bi \<longleftrightarrow> d ! (bi div 8) AND bit_mask bi = 0"

text \<open>The starts \<open>b = 0, BPB, ...\<close> of the outer loop of balloc(), for \<open>b < sb.size\<close>.\<close>

definition bitmap_starts :: "uint \<Rightarrow> uint list" where
  "bitmap_starts n = map (\<lambda>k. of_nat (k * BPB)) [0..<(unat n + BPB - 1) div BPB]"

primrec balloc_loop :: "uint \<Rightarrow> uint list \<Rightarrow> ('z fs_state_scheme, uint) kM" where
  "balloc_loop dev [] = kfail (Panic ''balloc: out of blocks'')"
| "balloc_loop dev (b # bs) =
     kbind (kgets sb) (\<lambda>sb0.
     kbind (bread dev (BBLOCK b sb0)) (\<lambda>bp.
     kbind (data_of bp) (\<lambda>d.
     case find (bit_clear d) [0..<min BPB (unat (sb_size sb0) - unat b)] of
       Some bi \<Rightarrow>
         kthen (set_data bp (\<lambda>d. d[bi div 8 := d ! (bi div 8) OR bit_mask bi])) (
         kthen (log_write bp) (
         kthen (brelse bp) (
         kthen (bzero dev (b + of_nat bi)) (
         ret (b + of_nat bi)))))
     | None \<Rightarrow> kthen (brelse bp) (balloc_loop dev bs))))"

definition balloc :: "uint \<Rightarrow> ('z fs_state_scheme, uint) kM" where
  "balloc dev = kbind (kgets sb) (\<lambda>sb0. balloc_loop dev (bitmap_starts (sb_size sb0)))"

definition bfree :: "uint \<Rightarrow> uint \<Rightarrow> ('z fs_state_scheme, unit) kM" where
  "bfree dev b =
     kbind (kgets sb) (\<lambda>sb0.
     kbind (bread dev (BBLOCK b sb0)) (\<lambda>bp.
     let bi = unat b mod BPB in
     kbind (data_of bp) (\<lambda>d.
     if bit_clear d bi then kfail (Panic ''freeing free block'')
     else
       kthen (set_data bp (\<lambda>d. d[bi div 8 := d ! (bi div 8) AND NOT (bit_mask bi)])) (
       kthen (log_write bp) (
       brelse bp)))))"

section \<open>Inodes\<close>

definition iinit :: "uint \<Rightarrow> ('z fs_state_scheme, unit) kM" where
  "iinit dev =
     kthen (initlock LkIcache ''icache'') (
     kthen (kfor [0..<NINODE] (\<lambda>i. initsleeplock (SlInode i) ''inode'')) (
     kbind (readsb dev) (\<lambda>x.
     kmodify (\<lambda>s. s\<lparr>sb := x\<rparr>))))"

definition iget :: "uint \<Rightarrow> uint \<Rightarrow> ('z fs_state_scheme, nat) kM" where
  "iget dev inum =
     kthen (acquire LkIcache) (
     kbind (kgets (\<lambda>s. find_idx (\<lambda>ip. i_ref ip > 0 \<and> i_dev ip = dev \<and> i_inum ip = inum) (icache s))) (\<lambda>r.
     case r of
       Some i \<Rightarrow>
         kthen (kmodify (upd_ino i (\<lambda>ip. ip\<lparr>i_ref := i_ref ip + 1\<rparr>))) (
         kthen (release LkIcache) (ret i))
     | None \<Rightarrow>
         kbind (kgets (\<lambda>s. find_idx (\<lambda>ip. i_ref ip = 0) (icache s))) (\<lambda>e.
         case e of
           None \<Rightarrow> kfail (Panic ''iget: no inodes'')
         | Some i \<Rightarrow>
             kthen (kmodify (upd_ino i (\<lambda>ip. ip\<lparr>i_dev := dev, i_inum := inum, i_ref := 1, i_valid := False\<rparr>))) (
             kthen (release LkIcache) (ret i)))))"

primrec ialloc_loop :: "uint \<Rightarrow> ushort \<Rightarrow> uint list \<Rightarrow> ('z fs_state_scheme, nat) kM" where
  "ialloc_loop dev ty [] = kfail (Panic ''ialloc: no inodes'')"
| "ialloc_loop dev ty (inum # is) =
     kbind (kgets sb) (\<lambda>sb0.
     kbind (bread dev (IBLOCK inum sb0)) (\<lambda>bp.
     let k = 64 * (unat inum mod IPB) in
     kbind (data_of bp) (\<lambda>d.
     if get16l d k = 0 then
       kthen (set_data bp (\<lambda>d. splice (splice d k (replicate 64 0)) k (bytes16 ty))) (
       kthen (log_write bp) (
       kthen (brelse bp) (
       iget dev inum)))
     else kthen (brelse bp) (ialloc_loop dev ty is))))"

definition ialloc :: "uint \<Rightarrow> ushort \<Rightarrow> ('z fs_state_scheme, nat) kM" where
  "ialloc dev ty = kbind (kgets sb) (\<lambda>sb0. ialloc_loop dev ty (map of_nat [1..<unat (ninodes sb0)]))"

definition disk_inode :: "inode \<Rightarrow> dinode" where
  "disk_inode ip = \<lparr>di_type = i_type ip, di_major = i_major ip, di_minor = i_minor ip, di_nlink = i_nlink ip,
     di_size = i_size ip, di_addrs = i_addrs ip\<rparr>"

definition iupdate :: "nat \<Rightarrow> ('z fs_state_scheme, unit) kM" where
  "iupdate i =
     kbind (kgets (\<lambda>s. icache s ! i)) (\<lambda>ip.
     kbind (kgets sb) (\<lambda>sb0.
     kbind (bread (i_dev ip) (IBLOCK (i_inum ip) sb0)) (\<lambda>bp.
     kbind (kgets (\<lambda>s. icache s ! i)) (\<lambda>ip.
     kthen (set_data bp (\<lambda>d. splice d (64 * (unat (i_inum ip) mod IPB)) (encode_dinode (disk_inode ip)))) (
     kthen (log_write bp) (
     brelse bp))))))"

definition idup :: "nat \<Rightarrow> ('z fs_state_scheme, nat) kM" where
  "idup i =
     kthen (acquire LkIcache) (
     kthen (kmodify (upd_ino i (\<lambda>ip. ip\<lparr>i_ref := i_ref ip + 1\<rparr>))) (
     kthen (release LkIcache) (ret i)))"

definition load_inode :: "dinode \<Rightarrow> inode \<Rightarrow> inode" where
  "load_inode di ip = ip\<lparr>i_type := di_type di, i_major := di_major di, i_minor := di_minor di,
     i_nlink := di_nlink di, i_size := di_size di, i_addrs := di_addrs di\<rparr>"

definition ilock :: "nat option \<Rightarrow> ('z fs_state_scheme, unit) kM" where
  "ilock p =
     (case p of None \<Rightarrow> kfail (Panic ''ilock'')
      | Some i \<Rightarrow>
        kbind (kgets (\<lambda>s. i_ref (icache s ! i))) (\<lambda>r.
        if r < 1 then kfail (Panic ''ilock'')
        else
          kthen (acquiresleep (SlInode i)) (
          kbind (kgets (\<lambda>s. icache s ! i)) (\<lambda>ip.
          kwhen (\<not> i_valid ip) (
            kbind (kgets sb) (\<lambda>sb0.
            kbind (bread (i_dev ip) (IBLOCK (i_inum ip) sb0)) (\<lambda>bp.
            kbind (data_of bp) (\<lambda>d.
            kthen (kmodify (upd_ino i (load_inode (decode_dinode d (64 * (unat (i_inum ip) mod IPB)))))) (
            kthen (brelse bp) (
            kthen (kmodify (upd_ino i (\<lambda>ip. ip\<lparr>i_valid := True\<rparr>))) (
            kbind (kgets (\<lambda>s. i_type (icache s ! i))) (\<lambda>ty.
            kassert (ty \<noteq> 0) (Panic ''ilock: no type'')))))))))))))"

definition iunlock :: "nat option \<Rightarrow> ('z fs_state_scheme, unit) kM" where
  "iunlock p =
     (case p of None \<Rightarrow> kfail (Panic ''iunlock'')
      | Some i \<Rightarrow>
        kbind (holdingsleep (SlInode i)) (\<lambda>h.
        kbind (kgets (\<lambda>s. i_ref (icache s ! i))) (\<lambda>r.
        if \<not> h \<or> r < 1 then kfail (Panic ''iunlock'') else releasesleep (SlInode i))))"

section \<open>The blocks of an inode\<close>

definition itrunc :: "nat \<Rightarrow> ('z fs_state_scheme, unit) kM" where
  "itrunc i =
     kthen (kfor [0..<NDIRECT] (\<lambda>j.
       kbind (kgets (\<lambda>s. icache s ! i)) (\<lambda>ip.
       kwhen (i_addrs ip ! j \<noteq> 0) (
         kthen (bfree (i_dev ip) (i_addrs ip ! j)) (
         kmodify (upd_ino i (\<lambda>ip. ip\<lparr>i_addrs := (i_addrs ip)[j := 0]\<rparr>))))))) (
     kthen (kbind (kgets (\<lambda>s. icache s ! i)) (\<lambda>ip.
       kwhen (i_addrs ip ! NDIRECT \<noteq> 0) (
         kbind (bread (i_dev ip) (i_addrs ip ! NDIRECT)) (\<lambda>bp.
         kthen (kfor [0..<NINDIRECT] (\<lambda>j.
           kbind (data_of bp) (\<lambda>d.
           kwhen (get32l d (4 * j) \<noteq> 0) (bfree (i_dev ip) (get32l d (4 * j)))))) (
         kthen (brelse bp) (
         kthen (bfree (i_dev ip) (i_addrs ip ! NDIRECT)) (
         kmodify (upd_ino i (\<lambda>ip. ip\<lparr>i_addrs := (i_addrs ip)[NDIRECT := 0]\<rparr>))))))))) (
     kthen (kmodify (upd_ino i (\<lambda>ip. ip\<lparr>i_size := 0\<rparr>))) (
     iupdate i)))"

definition iput :: "nat \<Rightarrow> ('z fs_state_scheme, unit) kM" where
  "iput i =
     kthen (acquiresleep (SlInode i)) (
     kbind (kgets (\<lambda>s. icache s ! i)) (\<lambda>ip.
     kthen (kwhen (i_valid ip \<and> i_nlink ip = 0) (
       kthen (acquire LkIcache) (
       kbind (kgets (\<lambda>s. i_ref (icache s ! i))) (\<lambda>r.
       kthen (release LkIcache) (
       kwhen (r = 1) (
         kthen (itrunc i) (
         kthen (kmodify (upd_ino i (\<lambda>ip. ip\<lparr>i_type := 0\<rparr>))) (
         kthen (iupdate i) (
         kmodify (upd_ino i (\<lambda>ip. ip\<lparr>i_valid := False\<rparr>))))))))))) (
     kthen (releasesleep (SlInode i)) (
     kthen (acquire LkIcache) (
     kthen (kmodify (upd_ino i (\<lambda>ip. ip\<lparr>i_ref := i_ref ip - 1\<rparr>))) (
     release LkIcache))))))"

definition iunlockput :: "nat \<Rightarrow> ('z fs_state_scheme, unit) kM" where
  "iunlockput i = kthen (iunlock (Some i)) (iput i)"

definition bmap :: "nat \<Rightarrow> uint \<Rightarrow> ('z fs_state_scheme, uint) kM" where
  "bmap i bn =
     kbind (kgets (\<lambda>s. icache s ! i)) (\<lambda>ip.
     if unat bn < NDIRECT then
       (if i_addrs ip ! unat bn = 0 then
          kbind (balloc (i_dev ip)) (\<lambda>addr.
          kthen (kmodify (upd_ino i (\<lambda>ip. ip\<lparr>i_addrs := (i_addrs ip)[unat bn := addr]\<rparr>))) (ret addr))
        else ret (i_addrs ip ! unat bn))
     else if unat bn - NDIRECT < NINDIRECT then
       kbind (if i_addrs ip ! NDIRECT = 0 then
           kbind (balloc (i_dev ip)) (\<lambda>addr.
           kthen (kmodify (upd_ino i (\<lambda>ip. ip\<lparr>i_addrs := (i_addrs ip)[NDIRECT := addr]\<rparr>))) (ret addr))
         else ret (i_addrs ip ! NDIRECT)) (\<lambda>ind.
       kbind (bread (i_dev ip) ind) (\<lambda>bp.
       kbind (data_of bp) (\<lambda>d.
       let k = 4 * (unat bn - NDIRECT) in
       if get32l d k = 0 then
         kbind (balloc (i_dev ip)) (\<lambda>addr.
         kthen (set_data bp (\<lambda>d. put32l d k addr)) (
         kthen (log_write bp) (
         kthen (brelse bp) (ret addr))))
       else kthen (brelse bp) (ret (get32l d k)))))
     else kfail (Panic ''bmap: out of range''))"

end
