(* ===== verification/Console.thy ===== *)
theory Console
  imports Inode
begin

text \<open>
  console.c: formatted output to the screen and the serial port, and line-edited input from the
  keyboard and the serial port. The screen memory is the map \<open>crt\<close> of character cells. The bytes
  consoleread() stores through its pointer are part of its result, and consolewrite() takes the
  bytes it prints. A call of panic() is the outcome \<open>Fail (Panic s)\<close>; a CPU that finds
  \<open>panicked\<close> set stops for ever, which is the outcome \<open>NoFuel\<close>.
\<close>

section \<open>State\<close>

definition INPUT_BUF :: nat where "INPUT_BUF = 128"
definition BACKSPACE :: int where "BACKSPACE = 0x100"
definition CONSOLE :: nat where "CONSOLE = 1"

record cons_state = fs_state +
  cons_locking :: bool
  panicked :: bool
  crt :: "nat \<Rightarrow> ushort"
  in_buf :: "uchar list"
  in_r :: uint
  in_w :: uint
  in_e :: uint
  devsw_console :: bool

section \<open>Output\<close>

definition CRTPORT :: ushort where "CRTPORT = 0x3d4"

text \<open>The cursor after a character, before the check of its range.\<close>

definition cga_pos :: "int \<Rightarrow> int \<Rightarrow> int" where
  "cga_pos c pos =
     (if c = 10 then pos + (80 - pos mod 80)
      else if c = BACKSPACE then (if pos > 0 then pos - 1 else pos)
      else pos + 1)"

definition scroll_up :: "(nat \<Rightarrow> ushort) \<Rightarrow> nat \<Rightarrow> (nat \<Rightarrow> ushort)" where
  "scroll_up m pos = (\<lambda>i. if pos \<le> i \<and> i < 24 * 80 then 0 else if i < 23 * 80 then m (i + 80) else m i)"

definition cgaputc :: "int \<Rightarrow> ('z cons_state_scheme, unit) kM" where
  "cgaputc c =
     kthen (outb CRTPORT 14) (
     kbind (inb (CRTPORT + 1)) (\<lambda>hi.
     kthen (outb CRTPORT 15) (
     kbind (inb (CRTPORT + 1)) (\<lambda>lo.
     let pos0 = uint hi * 256 + uint lo; pos = cga_pos c pos0 in
     kthen (kwhen (c \<noteq> 10 \<and> c \<noteq> BACKSPACE)
       (kmodify (\<lambda>s. s\<lparr>crt := (crt s)(nat pos0 := of_int c AND 0xff OR 0x0700)\<rparr>))) (
     if pos < 0 \<or> pos > 25 * 80 then kfail (Panic ''pos under/overflow'')
     else
       (let pos1 = (if pos div 80 \<ge> 24 then pos - 80 else pos) in
        kthen (kwhen (pos div 80 \<ge> 24) (kmodify (\<lambda>s. s\<lparr>crt := scroll_up (crt s) (nat pos1)\<rparr>))) (
        kthen (outb CRTPORT 14) (
        kthen (outb (CRTPORT + 1) (of_int (pos1 div 256))) (
        kthen (outb CRTPORT 15) (
        kthen (outb (CRTPORT + 1) (of_int pos1)) (
        kmodify (\<lambda>s. s\<lparr>crt := (crt s)(nat pos1 := 0x0720)\<rparr>))))))))))))"

definition consputc :: "int \<Rightarrow> ('z cons_state_scheme, unit) kM" where
  "consputc c =
     kbind (kgets panicked) (\<lambda>p.
     if p then kthen cli (kfail NoFuel)
     else
       kthen (if c = BACKSPACE then kthen (uartputc 8) (kthen (uartputc 32) (uartputc 8))
              else uartputc (of_int c)) (
       cgaputc c))"

text \<open>The digits of a number, the least significant first, as the \<open>do ... while\<close> loop fills \<open>buf\<close>.\<close>

function print_digits :: "nat \<Rightarrow> nat \<Rightarrow> nat list" where
  "print_digits base x = x mod base # (if base < 2 \<or> x div base = 0 then [] else print_digits base (x div base))"
  by auto

termination print_digits
  by (relation "measure snd") (auto intro: div_less_dividend simp: div_eq_0_iff not_less)

definition digit_char :: "nat \<Rightarrow> uchar" where
  "digit_char d = (if d < 10 then of_nat (48 + d) else of_nat (97 + d - 10))"

definition printint_chars :: "int \<Rightarrow> nat \<Rightarrow> bool \<Rightarrow> uchar list" where
  "printint_chars xx base sg =
     (let neg = (sg \<and> xx < 0); x = (if neg then of_int (- xx) else of_int xx) :: uint;
          digs = rev (map digit_char (print_digits base (unat x)))
      in if neg then 45 # digs else digs)"

definition printint :: "int \<Rightarrow> nat \<Rightarrow> bool \<Rightarrow> ('z cons_state_scheme, unit) kM" where
  "printint xx base sg = kfor (printint_chars xx base sg) (\<lambda>c. consputc (uint c))"

datatype carg = Num uint | Str "uchar list option"

text \<open>
  The characters of a formatted string. \<open>None\<close> is a call whose arguments do not match its format,
  which would read whatever is on the stack.
\<close>

fun cprintf_chars :: "uchar list \<Rightarrow> carg list \<Rightarrow> uchar list option" where
  "cprintf_chars [] as = Some []"
| "cprintf_chars (c # cs) as =
     (if c \<noteq> 37 then map_option ((#) c) (cprintf_chars cs as)
      else case cs of
        [] \<Rightarrow> Some []
      | d # ds \<Rightarrow>
          if d = 100 then
            (case as of Num v # as' \<Rightarrow> map_option ((@) (printint_chars (sint v) 10 True)) (cprintf_chars ds as') | _ \<Rightarrow> None)
          else if d = 120 \<or> d = 112 then
            (case as of Num v # as' \<Rightarrow> map_option ((@) (printint_chars (sint v) 16 False)) (cprintf_chars ds as') | _ \<Rightarrow> None)
          else if d = 115 then
            (case as of Str so # as' \<Rightarrow>
               map_option ((@) (case so of None \<Rightarrow> ascii ''(null)'' | Some s \<Rightarrow> s)) (cprintf_chars ds as') | _ \<Rightarrow> None)
          else if d = 37 then map_option ((#) 37) (cprintf_chars ds as)
          else map_option (\<lambda>r. 37 # d # r) (cprintf_chars ds as))"

definition cprintf :: "uchar list option \<Rightarrow> carg list \<Rightarrow> ('z cons_state_scheme, unit) kM" where
  "cprintf fmt as =
     kbind (kgets cons_locking) (\<lambda>locking.
     kthen (kwhen locking (acquire LkCons)) (
     case fmt of None \<Rightarrow> kfail (Panic ''null fmt'')
     | Some f \<Rightarrow>
       (case cprintf_chars f as of None \<Rightarrow> kfail (OutOfBounds ''cprintf'')
        | Some cs \<Rightarrow>
          kthen (kfor cs (\<lambda>c. consputc (uint c))) (
          kwhen locking (release LkCons)))))"

definition procdump_print :: "('z cons_state_scheme, unit) kM" where
  "procdump_print =
     kbind (kgets procdump) (\<lambda>ls.
     kfor ls (\<lambda>(p, st, nm, pcs).
       kthen (cprintf (Some (ascii ''%d %s %s'')) [Num (of_int p), Str (Some (ascii st)), Str (Some (takeWhile (\<lambda>c. c \<noteq> 0) nm))]) (
       kthen (kfor pcs (\<lambda>pc. cprintf (Some (ascii '' %p'')) [Num pc])) (
       cprintf (Some [10]) []))))"

section \<open>Input\<close>

definition input_char :: "'z cons_state_scheme \<Rightarrow> uint \<Rightarrow> uchar" where
  "input_char s i = in_buf s ! unat (i mod of_nat INPUT_BUF)"

text \<open>\<open>C('U')\<close>: erase back to the start of the line.\<close>

primrec kill_line :: "nat \<Rightarrow> ('z cons_state_scheme, unit) kM" where
  "kill_line 0 = kfail NoFuel"
| "kill_line (Suc n) =
     kbind (kgets (\<lambda>s. in_e s \<noteq> in_w s \<and> input_char s (in_e s - 1) \<noteq> 10)) (\<lambda>b.
     kwhen b (
       kthen (kmodify (\<lambda>s. s\<lparr>in_e := in_e s - 1\<rparr>)) (
       kthen (consputc BACKSPACE) (
       kill_line n))))"

definition add_char :: "uchar \<Rightarrow> ('z cons_state_scheme, unit) kM" where
  "add_char c =
     kthen (kmodify (\<lambda>s. s\<lparr>in_buf := (in_buf s)[unat (in_e s mod of_nat INPUT_BUF) := c]\<rparr>)) (
     kthen (kmodify (\<lambda>s. s\<lparr>in_e := in_e s + 1\<rparr>)) (
     kthen (consputc (uint c)) (
     kbind (kgets (\<lambda>s. c = 10 \<or> c = 4 \<or> in_e s = in_r s + of_nat INPUT_BUF)) (\<lambda>b.
     kwhen b (
       kthen (kmodify (\<lambda>s. s\<lparr>in_w := in_e s\<rparr>)) (
       wakeup ChInput))))))"

definition handle_char :: "int \<Rightarrow> ('z cons_state_scheme, bool) kM" where
  "handle_char c =
     (if c = 16 then ret True
      else if c = 21 then kthen (kill_line (INPUT_BUF + 1)) (ret False)
      else if c = 8 \<or> c = 0x7f then
        kbind (kgets (\<lambda>s. in_e s \<noteq> in_w s)) (\<lambda>b.
        kthen (kwhen b (kthen (kmodify (\<lambda>s. s\<lparr>in_e := in_e s - 1\<rparr>)) (consputc BACKSPACE))) (ret False))
      else
        kbind (kgets (\<lambda>s. c \<noteq> 0 \<and> in_e s - in_r s < of_nat INPUT_BUF)) (\<lambda>b.
        kthen (kwhen b (add_char (of_int (if c = 13 then 10 else c)))) (ret False)))"

primrec consoleintr_loop :: "nat \<Rightarrow> ('z cons_state_scheme, int) kM \<Rightarrow> bool \<Rightarrow> ('z cons_state_scheme, bool) kM" where
  "consoleintr_loop 0 getc dump = kfail NoFuel"
| "consoleintr_loop (Suc n) getc dump =
     kbind getc (\<lambda>c.
     if c < 0 then ret dump
     else kbind (handle_char c) (\<lambda>d. consoleintr_loop n getc (dump \<or> d)))"

definition consoleintr :: "('z cons_state_scheme, int) kM \<Rightarrow> ('z cons_state_scheme, unit) kM" where
  "consoleintr getc =
     kthen (acquire LkCons) (
     kbind (kgets patience) (\<lambda>n.
     kbind (consoleintr_loop (Suc n) getc False) (\<lambda>dump.
     kthen (release LkCons) (
     kwhen dump procdump_print))))"

definition kbdintr :: "('z cons_state_scheme, unit) kM" where
  "kbdintr = consoleintr kbdgetc"

definition uartintr :: "('z cons_state_scheme, unit) kM" where
  "uartintr = consoleintr uartgetc"

definition is_killed :: "string \<Rightarrow> ('z proc_state_scheme, bool) kM" where
  "is_killed who =
     kbind myproc (\<lambda>p.
     case p of None \<Rightarrow> kfail (NullPointer who) | Some c \<Rightarrow> kgets (\<lambda>s. killed (ptable s ! c)))"

text \<open>
  The two nested loops of consoleread() as one: \<open>n\<close> characters are still wanted of \<open>target\<close>,
  \<open>acc\<close> holds those read so far, the last one first.
\<close>

primrec consoleread_loop :: "nat \<Rightarrow> nat \<Rightarrow> int \<Rightarrow> int \<Rightarrow> uchar list \<Rightarrow> ('z cons_state_scheme, int \<times> uchar list) kM" where
  "consoleread_loop 0 i target n acc = kfail NoFuel"
| "consoleread_loop (Suc k) i target n acc =
     (let finish = (\<lambda>n acc. kthen (release LkCons) (kthen (ilock (Some i)) (ret (target - n, rev acc)))) in
      if n \<le> 0 then finish n acc
      else
        kbind (kgets (\<lambda>s. in_r s = in_w s)) (\<lambda>empty.
        if empty then
          kbind (is_killed ''consoleread'') (\<lambda>kd.
          if kd then kthen (release LkCons) (kthen (ilock (Some i)) (ret (-1, rev acc)))
          else kthen (sleep ChInput (Some LkCons)) (consoleread_loop k i target n acc))
        else
          kbind (kgets (\<lambda>s. input_char s (in_r s))) (\<lambda>c.
          kthen (kmodify (\<lambda>s. s\<lparr>in_r := in_r s + 1\<rparr>)) (
          if c = 4 then
            kthen (kwhen (n < target) (kmodify (\<lambda>s. s\<lparr>in_r := in_r s - 1\<rparr>))) (finish n acc)
          else if c = 10 then finish (n - 1) (c # acc)
          else consoleread_loop k i target (n - 1) (c # acc)))))"

definition consoleread :: "nat \<Rightarrow> int \<Rightarrow> ('z cons_state_scheme, int \<times> uchar list) kM" where
  "consoleread i n =
     kthen (iunlock (Some i)) (
     kthen (acquire LkCons) (
     kbind (kgets patience) (\<lambda>k. consoleread_loop (Suc k + nat n) i n n [])))"

definition consolewrite :: "nat \<Rightarrow> uchar list \<Rightarrow> ('z cons_state_scheme, int) kM" where
  "consolewrite i cs =
     kthen (iunlock (Some i)) (
     kthen (acquire LkCons) (
     kthen (kfor cs (\<lambda>c. consputc (uint c))) (
     kthen (release LkCons) (
     kthen (ilock (Some i)) (
     ret (int (length cs)))))))"

definition consoleinit :: "('z cons_state_scheme, unit) kM" where
  "consoleinit =
     kthen (initlock LkCons ''console'') (
     kthen (kmodify (\<lambda>s. s\<lparr>devsw_console := True\<rparr>)) (
     kthen (kmodify (\<lambda>s. s\<lparr>cons_locking := True\<rparr>)) (
     ioapicenable IRQ_KBD 0)))"

end
