(* ===== verification/Fs.thy ===== *)
theory Fs
  imports Console
begin

text \<open>
  The upper half of fs.c: the contents of inodes, directories and path names. The bytes that
  readi() copies out are part of its result and writei() takes the bytes it copies in; the callers
  load and store them where their pointers point. A path or a name is the list of its bytes
  without the terminating NUL. The loops over a file are bounded by the number of bytes, since
  every round moves at least one.
\<close>

section \<open>Contents\<close>

record stat =
  st_type :: ushort
  st_dev :: uint
  st_ino :: uint
  st_nlink :: ushort
  st_size :: uint

definition stati :: "nat \<Rightarrow> ('z fs_state_scheme, stat) kM" where
  "stati i = kgets (\<lambda>s. let ip = icache s ! i in
     \<lparr>st_type = i_type ip, st_dev = i_dev ip, st_ino = i_inum ip, st_nlink = i_nlink ip, st_size = i_size ip\<rparr>)"

text \<open>Device numbers with a driver: only the console registers one.\<close>

definition has_driver :: "'z cons_state_scheme \<Rightarrow> ushort \<Rightarrow> bool" where
  "has_driver s major \<longleftrightarrow> 0 \<le> sint major \<and> sint major < int NDEV \<and> unat major = CONSOLE \<and> devsw_console s"

primrec readi_loop :: "nat \<Rightarrow> nat \<Rightarrow> nat \<Rightarrow> nat \<Rightarrow> ('z fs_state_scheme, uchar list) kM" where
  "readi_loop 0 i off n = kfail NoFuel"
| "readi_loop (Suc k) i off n =
     (if n = 0 then ret []
      else
        kbind (bmap i (of_nat (off div BSIZE))) (\<lambda>a.
        kbind (kgets (\<lambda>s. i_dev (icache s ! i))) (\<lambda>dev.
        kbind (bread dev a) (\<lambda>bp.
        let m = min n (BSIZE - off mod BSIZE) in
        kbind (data_of bp) (\<lambda>d.
        kthen (brelse bp) (
        kbind (readi_loop k i (off + m) (n - m)) (\<lambda>rest.
        ret (take m (drop (off mod BSIZE) d) @ rest))))))))"

definition readi :: "nat \<Rightarrow> uint \<Rightarrow> uint \<Rightarrow> ('z cons_state_scheme, int \<times> uchar list) kM" where
  "readi i off n =
     kbind (kgets (\<lambda>s. icache s ! i)) (\<lambda>ip.
     if i_type ip = T_DEV then
       kbind (kgets (\<lambda>s. has_driver s (i_major ip))) (\<lambda>h.
       if h then consoleread i (sint n) else ret (-1, []))
     else if off > i_size ip \<or> off + n < off then ret (-1, [])
     else
       (let n' = (if off + n > i_size ip then i_size ip - off else n) in
        kbind (readi_loop (Suc (unat n')) i (unat off) (unat n')) (\<lambda>bs. ret (sint n', bs))))"

primrec writei_loop :: "nat \<Rightarrow> nat \<Rightarrow> nat \<Rightarrow> uchar list \<Rightarrow> ('z fs_state_scheme, unit) kM" where
  "writei_loop 0 i off bs = kfail NoFuel"
| "writei_loop (Suc k) i off bs =
     (if bs = [] then ret ()
      else
        kbind (bmap i (of_nat (off div BSIZE))) (\<lambda>a.
        kbind (kgets (\<lambda>s. i_dev (icache s ! i))) (\<lambda>dev.
        kbind (bread dev a) (\<lambda>bp.
        let m = min (length bs) (BSIZE - off mod BSIZE) in
        kthen (set_data bp (\<lambda>d. splice d (off mod BSIZE) (take m bs))) (
        kthen (log_write bp) (
        kthen (brelse bp) (
        writei_loop k i (off + m) (drop m bs))))))))"

definition writei :: "nat \<Rightarrow> uint \<Rightarrow> uchar list \<Rightarrow> ('z cons_state_scheme, int) kM" where
  "writei i off bs =
     (let n = of_nat (length bs) :: uint in
      kbind (kgets (\<lambda>s. icache s ! i)) (\<lambda>ip.
      if i_type ip = T_DEV then
        kbind (kgets (\<lambda>s. has_driver s (i_major ip))) (\<lambda>h.
        if h then consolewrite i bs else ret (-1))
      else if off > i_size ip \<or> off + n < off then ret (-1)
      else if off + n > of_nat (MAXFILE * BSIZE) then ret (-1)
      else
        kthen (writei_loop (Suc (length bs)) i (unat off) bs) (
        kbind (kgets (\<lambda>s. i_size (icache s ! i))) (\<lambda>sz.
        kthen (kwhen (n > 0 \<and> off + n > sz) (
          kthen (kmodify (upd_ino i (\<lambda>ip. ip\<lparr>i_size := off + n\<rparr>))) (iupdate i))) (
        ret (sint n))))))"

section \<open>Directories\<close>

definition DIRSIZ :: nat where "DIRSIZ = 14"

definition hd0 :: "uchar list \<Rightarrow> uchar" where
  "hd0 s = (case s of [] \<Rightarrow> 0 | c # _ \<Rightarrow> c)"

text \<open>strncmp() of string.c on strings given without their NUL.\<close>

primrec strncmp_list :: "nat \<Rightarrow> uchar list \<Rightarrow> uchar list \<Rightarrow> int" where
  "strncmp_list 0 s t = 0"
| "strncmp_list (Suc n) s t =
     (if hd0 s \<noteq> 0 \<and> hd0 s = hd0 t then strncmp_list n (tl s) (tl t) else uint (hd0 s) - uint (hd0 t))"

definition namecmp :: "uchar list \<Rightarrow> uchar list \<Rightarrow> int" where
  "namecmp s t = strncmp_list DIRSIZ s t"

record dirent =
  d_inum :: ushort
  d_name :: "uchar list"

definition decode_dirent :: "uchar list \<Rightarrow> dirent" where
  "decode_dirent d = \<lparr>d_inum = get16l d 0, d_name = take DIRSIZ (drop 2 d)\<rparr>"

text \<open>\<open>strncpy(de.name, name, DIRSIZ)\<close> cuts the name or fills it up with NULs.\<close>

definition encode_dirent :: "uint \<Rightarrow> uchar list \<Rightarrow> uchar list" where
  "encode_dirent inum name = bytes16 (ucast inum) @ take DIRSIZ (name @ replicate DIRSIZ 0)"

definition dir_offsets :: "uint \<Rightarrow> nat list" where
  "dir_offsets n = map (\<lambda>k. 16 * k) [0..<(unat n + 15) div 16]"

definition read_dirent :: "nat \<Rightarrow> nat \<Rightarrow> string \<Rightarrow> ('z cons_state_scheme, dirent) kM" where
  "read_dirent i off msg =
     kbind (readi i (of_nat off) 16) (\<lambda>(r, bs).
     if r \<noteq> 16 then kfail (Panic msg) else ret (decode_dirent bs))"

primrec dirlookup_loop :: "nat \<Rightarrow> uchar list \<Rightarrow> nat list \<Rightarrow> ('z cons_state_scheme, (nat \<times> nat) option) kM" where
  "dirlookup_loop i name [] = ret None"
| "dirlookup_loop i name (off # offs) =
     kbind (read_dirent i off ''dirlookup read'') (\<lambda>de.
     if d_inum de = 0 then dirlookup_loop i name offs
     else if namecmp name (d_name de) = 0 then
       kbind (kgets (\<lambda>s. i_dev (icache s ! i))) (\<lambda>dev.
       kbind (iget dev (ucast (d_inum de))) (\<lambda>ip. ret (Some (ip, off))))
     else dirlookup_loop i name offs)"

text \<open>The inode found, with the offset of its entry that is stored through \<open>poff\<close>.\<close>

definition dirlookup :: "nat \<Rightarrow> uchar list \<Rightarrow> ('z cons_state_scheme, (nat \<times> nat) option) kM" where
  "dirlookup i name =
     kbind (kgets (\<lambda>s. icache s ! i)) (\<lambda>dp.
     if i_type dp \<noteq> T_DIR then kfail (Panic ''dirlookup not DIR'')
     else dirlookup_loop i name (dir_offsets (i_size dp)))"

primrec empty_slot :: "nat \<Rightarrow> nat list \<Rightarrow> nat \<Rightarrow> ('z cons_state_scheme, nat) kM" where
  "empty_slot i [] past = ret past"
| "empty_slot i (off # offs) past =
     kbind (read_dirent i off ''dirlink read'') (\<lambda>de.
     if d_inum de = 0 then ret off else empty_slot i offs past)"

definition dirlink :: "nat \<Rightarrow> uchar list \<Rightarrow> uint \<Rightarrow> ('z cons_state_scheme, int) kM" where
  "dirlink i name inum =
     kbind (dirlookup i name) (\<lambda>r.
     case r of
       Some (ip, _) \<Rightarrow> kthen (iput ip) (ret (-1))
     | None \<Rightarrow>
         kbind (kgets (\<lambda>s. i_size (icache s ! i))) (\<lambda>sz.
         kbind (empty_slot i (dir_offsets sz) (16 * length (dir_offsets sz))) (\<lambda>off.
         kbind (writei i (of_nat off) (encode_dirent inum name)) (\<lambda>r.
         if r \<noteq> 16 then kfail (Panic ''dirlink'') else ret 0))))"

section \<open>Paths\<close>

definition slash :: uchar where "slash = 47"

definition skipelem :: "uchar list \<Rightarrow> (uchar list \<times> uchar list) option" where
  "skipelem path =
     (let p = dropWhile (\<lambda>c. c = slash) path in
      if p = [] then None
      else
        (let s = takeWhile (\<lambda>c. c \<noteq> slash) p; rest = dropWhile (\<lambda>c. c \<noteq> slash) p in
         Some (take DIRSIZ s, dropWhile (\<lambda>c. c = slash) rest)))"

primrec namex_loop :: "nat \<Rightarrow> nat \<Rightarrow> uchar list \<Rightarrow> bool \<Rightarrow> ('z cons_state_scheme, (nat \<times> uchar list) option) kM" where
  "namex_loop 0 ip path par = kfail NoFuel"
| "namex_loop (Suc k) ip path par =
     (case skipelem path of
        None \<Rightarrow> if par then kthen (iput ip) (ret None) else ret (Some (ip, []))
      | Some (name, path') \<Rightarrow>
          kthen (ilock (Some ip)) (
          kbind (kgets (\<lambda>s. i_type (icache s ! ip))) (\<lambda>ty.
          if ty \<noteq> T_DIR then kthen (iunlockput ip) (ret None)
          else if par \<and> path' = [] then kthen (iunlock (Some ip)) (ret (Some (ip, name)))
          else
            kbind (dirlookup ip name) (\<lambda>r.
            case r of
              None \<Rightarrow> kthen (iunlockput ip) (ret None)
            | Some (next, _) \<Rightarrow> kthen (iunlockput ip) (namex_loop k next path' par)))))"

definition namex :: "uchar list \<Rightarrow> bool \<Rightarrow> ('z cons_state_scheme, (nat \<times> uchar list) option) kM" where
  "namex path par =
     kbind (if path \<noteq> [] \<and> hd path = slash then iget ROOTDEV ROOTINO
       else kbind myproc (\<lambda>p.
         case p of None \<Rightarrow> kfail (NullPointer ''namex'')
         | Some c \<Rightarrow>
           kbind (kgets (\<lambda>s. cwd (ptable s ! c))) (\<lambda>d.
           case d of None \<Rightarrow> kfail (NullPointer ''namex'') | Some i \<Rightarrow> idup i))) (\<lambda>ip.
     namex_loop (Suc (length path)) ip path par)"

definition namei :: "uchar list \<Rightarrow> ('z cons_state_scheme, nat option) kM" where
  "namei path = kbind (namex path False) (\<lambda>r. ret (map_option fst r))"

definition nameiparent :: "uchar list \<Rightarrow> ('z cons_state_scheme, (nat \<times> uchar list) option) kM" where
  "nameiparent path = namex path True"

end
