(* ===== verification/Pipe.thy ===== *)
theory Pipe
  imports Fs
begin

text \<open>
  pipe.c: a ring buffer of \<open>PIPESIZE\<close> bytes with free-running 32-bit counters. A \<open>struct pipe *\<close>
  is the address of the page it was allocated in, and \<open>pipes\<close> maps such addresses to the records
  kept there. pipealloc(), which needs the file table, is in theory File.
\<close>

section \<open>State and operations\<close>

definition PIPESIZE :: nat where "PIPESIZE = 512"

record pipe =
  p_data :: "uchar list"
  nread :: uint
  nwrite :: uint
  readopen :: bool
  writeopen :: bool

datatype fdtype = FD_NONE | FD_PIPE | FD_INODE

record ofile =
  f_type :: fdtype
  f_ref :: int
  readable :: bool
  writable :: bool
  f_pipe :: uint
  f_ip :: nat
  f_off :: uint

record file_state = cons_state +
  pipes :: "uint \<Rightarrow> pipe"
  ftable :: "ofile list"

definition upd_pipe :: "uint \<Rightarrow> (pipe \<Rightarrow> pipe) \<Rightarrow> 'z file_state_scheme \<Rightarrow> 'z file_state_scheme" where
  "upd_pipe p f s = s\<lparr>pipes := (pipes s)(p := f (pipes s p))\<rparr>"

definition pipeclose :: "uint \<Rightarrow> bool \<Rightarrow> ('z file_state_scheme, unit) kM" where
  "pipeclose p wr =
     kthen (acquire (LkPipe p)) (
     kthen (if wr then kthen (kmodify (upd_pipe p (\<lambda>x. x\<lparr>writeopen := False\<rparr>))) (wakeup (ChNread p))
            else kthen (kmodify (upd_pipe p (\<lambda>x. x\<lparr>readopen := False\<rparr>))) (wakeup (ChNwrite p))) (
     kbind (kgets (\<lambda>s. \<not> readopen (pipes s p) \<and> \<not> writeopen (pipes s p))) (\<lambda>b.
     if b then kthen (release (LkPipe p)) (kfree p) else release (LkPipe p))))"

definition put_byte :: "uchar \<Rightarrow> pipe \<Rightarrow> pipe" where
  "put_byte c x = x\<lparr>p_data := (p_data x)[unat (nwrite x mod of_nat PIPESIZE) := c], nwrite := nwrite x + 1\<rparr>"

definition pipe_full :: "pipe \<Rightarrow> bool" where
  "pipe_full x \<longleftrightarrow> nwrite x = nread x + of_nat PIPESIZE"

primrec pipewrite_loop :: "nat \<Rightarrow> uint \<Rightarrow> int \<Rightarrow> uchar list \<Rightarrow> ('z file_state_scheme, int) kM" where
  "pipewrite_loop 0 p n cs = kfail NoFuel"
| "pipewrite_loop (Suc k) p n cs =
     (case cs of
        [] \<Rightarrow> kthen (wakeup (ChNread p)) (kthen (release (LkPipe p)) (ret n))
      | c # cs' \<Rightarrow>
          kbind (kgets (\<lambda>s. pipes s p)) (\<lambda>x.
          if pipe_full x then
            kbind (if \<not> readopen x then ret True else is_killed ''pipewrite'') (\<lambda>stop.
            if stop then kthen (release (LkPipe p)) (ret (-1))
            else
              kthen (wakeup (ChNread p)) (
              kthen (sleep (ChNwrite p) (Some (LkPipe p))) (
              pipewrite_loop k p n cs)))
          else
            kthen (kmodify (upd_pipe p (put_byte c))) (pipewrite_loop k p n cs')))"

definition pipewrite :: "uint \<Rightarrow> uchar list \<Rightarrow> ('z file_state_scheme, int) kM" where
  "pipewrite p cs =
     kthen (acquire (LkPipe p)) (
     kbind (kgets patience) (\<lambda>k. pipewrite_loop (Suc (k + length cs)) p (int (length cs)) cs))"

text \<open>\<open>Inr\<close> when there is something to read or no writer is left, \<open>Inl\<close> the early result.\<close>

primrec piperead_wait :: "nat \<Rightarrow> uint \<Rightarrow> ('z file_state_scheme, int + unit) kM" where
  "piperead_wait 0 p = kfail NoFuel"
| "piperead_wait (Suc k) p =
     kbind (kgets (\<lambda>s. pipes s p)) (\<lambda>x.
     if nread x = nwrite x \<and> writeopen x then
       kbind (is_killed ''piperead'') (\<lambda>kd.
       if kd then kthen (release (LkPipe p)) (ret (Inl (-1)))
       else kthen (sleep (ChNread p) (Some (LkPipe p))) (piperead_wait k p))
     else ret (Inr ()))"

fun take_bytes :: "nat \<Rightarrow> pipe \<Rightarrow> uchar list \<times> pipe" where
  "take_bytes 0 x = ([], x)"
| "take_bytes (Suc n) x =
     (if nread x = nwrite x then ([], x)
      else
        (let c = p_data x ! unat (nread x mod of_nat PIPESIZE);
             (cs, y) = take_bytes n (x\<lparr>nread := nread x + 1\<rparr>)
         in (c # cs, y)))"

definition piperead :: "uint \<Rightarrow> int \<Rightarrow> ('z file_state_scheme, int \<times> uchar list) kM" where
  "piperead p n =
     kthen (acquire (LkPipe p)) (
     kbind (kgets patience) (\<lambda>k.
     kbind (piperead_wait (Suc k) p) (\<lambda>r.
     case r of
       Inl v \<Rightarrow> ret (v, [])
     | Inr _ \<Rightarrow>
         kbind (kgets (\<lambda>s. take_bytes (nat n) (pipes s p))) (\<lambda>(cs, y).
         kthen (kmodify (upd_pipe p (\<lambda>_. y))) (
         kthen (wakeup (ChNwrite p)) (
         kthen (release (LkPipe p)) (
         ret (int (length cs), cs))))))))"

end
