(* ===== verification/Fifo.thy ===== *)
theory Fifo
  imports Pipe
begin

text \<open>
  A pipe is a bounded first-in first-out queue of bytes. The locale states what the readers and
  writers of a pipe rely on; the interpretation shows it for the ring buffer of pipe.c, whose
  32-bit counters run freely and wrap around. What pipewrite() and piperead() do follows, look by
  look at the pipe, whatever other processes do to it while the caller sleeps.
\<close>

section \<open>A bounded queue of bytes\<close>

datatype queue_op = Put uchar | Take nat

locale byte_queue =
  fixes inv :: "'q \<Rightarrow> bool"
    and contents :: "'q \<Rightarrow> uchar list"
    and is_full :: "'q \<Rightarrow> bool"
    and put :: "uchar \<Rightarrow> 'q \<Rightarrow> 'q"
    and takes :: "nat \<Rightarrow> 'q \<Rightarrow> uchar list \<times> 'q"
    and room :: nat
  assumes bounded: "inv q \<Longrightarrow> length (contents q) \<le> room"
    and full_iff: "inv q \<Longrightarrow> is_full q \<longleftrightarrow> length (contents q) = room"
    and put_law: "inv q \<Longrightarrow> \<not> is_full q \<Longrightarrow> inv (put c q) \<and> contents (put c q) = contents q @ [c]"
    and take_law: "inv q \<Longrightarrow> takes n q = (cs, q') \<Longrightarrow> inv q' \<and> cs = take n (contents q) \<and> contents q' = drop n (contents q)"
begin

text \<open>Writes to a full queue are refused; the result is what was accepted and what was taken.\<close>

fun run :: "queue_op list \<Rightarrow> 'q \<Rightarrow> uchar list \<times> uchar list \<times> 'q" where
  "run [] q = ([], [], q)"
| "run (Put c # ops) q =
     (if is_full q then run ops q else (let (i, r, q') = run ops (put c q) in (c # i, r, q')))"
| "run (Take n # ops) q = (let (cs, q1) = takes n q; (i, r, q') = run ops q1 in (i, cs @ r, q'))"

lemma run_stream: "inv q \<Longrightarrow> run ops q = (i, r, q') \<Longrightarrow> inv q' \<and> contents q @ i = r @ contents q'"
proof (induction ops q arbitrary: i r q' rule: run.induct)
  case (2 c ops q)
  then show ?case using put_law [of q c] by (auto simp: split: if_splits prod.splits)
next
  case (3 n ops q)
  obtain cs q1 where t: "takes n q = (cs, q1)" by (cases "takes n q")
  obtain i' r' q2 where r: "run ops q1 = (i', r', q2)" by (cases "run ops q1")
  have e: "i = i'" "r = cs @ r'" "q' = q2" using "3.prems"(2) t r by simp_all
  have l: "inv q1" "cs = take n (contents q)" "contents q1 = drop n (contents q)" using take_law [OF "3.prems"(1) t] by simp_all
  have "inv q2 \<and> contents q1 @ i' = r' @ contents q2" by (rule "3.IH" [OF t [symmetric] refl l(1) r])
  with l e show ?case by (metis append.assoc append_take_drop_id)
qed simp

end

section \<open>The ring buffer\<close>

definition pipe_inv :: "pipe \<Rightarrow> bool" where
  "pipe_inv x \<longleftrightarrow> length (p_data x) = PIPESIZE \<and> unat (nwrite x - nread x) \<le> PIPESIZE"

definition pipe_bytes :: "pipe \<Rightarrow> uchar list" where
  "pipe_bytes x = map (\<lambda>i. p_data x ! unat ((nread x + of_nat i) mod of_nat PIPESIZE)) [0..<unat (nwrite x - nread x)]"

text \<open>512 divides the range of the counters, so positions stay consistent when they wrap around.\<close>

lemma ring_pos: "unat (((a :: uint) + of_nat i) mod of_nat PIPESIZE) = (unat a + i) mod PIPESIZE"
proof -
  have "unat (a + of_nat i) = (unat a + i) mod 2 ^ 32" by (simp add: unat_word_ariths unsigned_of_nat take_bit_eq_mod mod_simps)
  moreover have "(2::nat) ^ 32 = 512 * 2 ^ 23" by simp
  ultimately show ?thesis by (simp add: PIPESIZE_def unat_mod mod_mult2_eq mod_mod_cancel)
qed

lemma ring_pos0: "unat ((a :: uint) mod of_nat PIPESIZE) = unat a mod PIPESIZE"
  using ring_pos [of a 0] by simp

lemma ring_inj:
  assumes "i < j" and "j < i + PIPESIZE"
  shows "(a + i) mod PIPESIZE \<noteq> (a + j) mod PIPESIZE"
proof
  assume "(a + i) mod PIPESIZE = (a + j) mod PIPESIZE"
  then have "PIPESIZE dvd j - i" using mod_eq_dvd_iff_nat [of "a + i" "a + j" PIPESIZE] assms(1) by simp
  then show False using assms nat_dvd_not_less [of "j - i" PIPESIZE] by simp
qed

lemma unat_succ_diff: "unat ((a :: uint) - b) < PIPESIZE \<Longrightarrow> unat (a + 1 - b) = unat (a - b) + 1"
proof -
  assume h: "unat (a - b) < PIPESIZE"
  have "unat (a + 1 - b) = unat ((a - b) + 1)" by (simp add: algebra_simps)
  also have "\<dots> = unat (a - b) + 1" using h by (subst unat_word_ariths(1)) (simp add: PIPESIZE_def)
  finally show ?thesis .
qed

lemma pipe_inv_put:
  assumes "pipe_inv x" and "\<not> pipe_full x"
  shows "pipe_inv (put_byte c x) \<and> pipe_bytes (put_byte c x) = pipe_bytes x @ [c]"
proof -
  let ?d = "unat (nwrite x - nread x)"
  have "?d \<noteq> PIPESIZE"
  proof
    assume "?d = PIPESIZE"
    then have "of_nat ?d = (of_nat PIPESIZE :: uint)" by (rule arg_cong)
    then have "nwrite x - nread x = of_nat PIPESIZE" by (simp only: of_nat_unat ucast_id)
    then show False using assms(2) by (simp add: pipe_full_def algebra_simps)
  qed
  then have d: "?d < PIPESIZE" using assms(1) by (simp add: pipe_inv_def)
  note sd = unat_succ_diff [OF d]
  have w: "nwrite x = nread x + of_nat ?d" by simp
  have p: "unat (nwrite x mod of_nat PIPESIZE) = (unat (nread x) + ?d) mod PIPESIZE"
    using ring_pos [of "nread x" ?d] by (simp del: of_nat_unat flip: w)
  have len: "length (p_data x) = PIPESIZE" using assms(1) by (simp add: pipe_inv_def)
  have pl: "(unat (nread x) + ?d) mod PIPESIZE < PIPESIZE" by (simp add: PIPESIZE_def)
  have ne: "(unat (nread x) + ?d) mod PIPESIZE \<noteq> (unat (nread x) + i) mod PIPESIZE" if "i < ?d" for i
    using ring_inj [OF that, of "unat (nread x)"] d by simp
  have "pipe_bytes (put_byte c x) = pipe_bytes x @ [c]"
    using ne by (simp add: pipe_bytes_def put_byte_def sd ring_pos p len pl)
  then show ?thesis using d sd len by (simp add: pipe_inv_def put_byte_def)
qed

lemma unat_pred_diff: "(a :: uint) \<noteq> b \<Longrightarrow> unat (a - b) = Suc (unat (a - (b + 1)))"
proof -
  assume "a \<noteq> b"
  then have ne: "a - b \<noteq> 0" by simp
  have e: "a - (b + 1) = (a - b) - 1" by simp
  have "0 < unat (a - b)" using ne unat_gt_0 by blast
  then show ?thesis unfolding e unat_minus_one [OF ne] by simp
qed

lemma pipe_inv_takes: "pipe_inv x \<Longrightarrow> take_bytes n x = (cs, y) \<Longrightarrow>
  pipe_inv y \<and> cs = take n (pipe_bytes x) \<and> pipe_bytes y = drop n (pipe_bytes x)"
proof (induction n x arbitrary: cs y rule: take_bytes.induct)
  case (2 n x)
  show ?case
  proof (cases "nread x = nwrite x")
    case True
    with 2 show ?thesis by (simp add: pipe_bytes_def)
  next
    case False
    let ?x = "x\<lparr>nread := nread x + 1\<rparr>" and ?c = "p_data x ! unat (nread x mod of_nat PIPESIZE)"
    obtain ds z where t: "take_bytes n ?x = (ds, z)" by (cases "take_bytes n ?x")
    have s: "unat (nwrite x - nread x) = Suc (unat (nwrite ?x - nread ?x))" using unat_pred_diff [of "nwrite x" "nread x"] False by simp
    have i: "pipe_inv ?x" using "2.prems"(1) s by (simp add: pipe_inv_def)
    have b: "pipe_bytes x = ?c # pipe_bytes ?x"
      unfolding pipe_bytes_def s upt_conv_Cons [OF zero_less_Suc] by (simp add: map_Suc_upt [symmetric] del: upt_Suc) (simp add: algebra_simps)
    have "cs = ?c # ds" "y = z" using "2.prems"(2) False t by (simp_all add: Let_def)
    with "2.IH" [OF False refl i t] b show ?thesis by simp
  qed
qed simp

lemma length_pipe_bytes: "length (pipe_bytes x) = unat (nwrite x - nread x)"
  by (simp add: pipe_bytes_def)

lemma pipe_full_iff: "pipe_full x \<longleftrightarrow> length (pipe_bytes x) = PIPESIZE"
proof -
  have "nwrite x = nread x + of_nat PIPESIZE \<longleftrightarrow> nwrite x - nread x = of_nat PIPESIZE" by (simp add: algebra_simps)
  also have "\<dots> \<longleftrightarrow> unat (nwrite x - nread x) = unat (of_nat PIPESIZE :: uint)" by (rule word_unat_eq_iff)
  finally show ?thesis by (simp add: pipe_full_def length_pipe_bytes PIPESIZE_def)
qed

interpretation pq: byte_queue pipe_inv pipe_bytes pipe_full put_byte take_bytes PIPESIZE
proof unfold_locales
  fix q
  assume "pipe_inv q"
  then show "length (pipe_bytes q) \<le> PIPESIZE" by (simp add: pipe_inv_def length_pipe_bytes)
qed (rule pipe_full_iff, erule (1) pipe_inv_put, erule (1) pipe_inv_takes)

text \<open>
  C7. A pipe refines a first-in first-out queue, however often its counters wrap around: for any
  sequence of single-byte writes (refused when the ring buffer is full) and reads on a pipe
  made by pipealloc(), the bytes the readers got, followed by the bytes still in the buffer, are
  exactly the bytes accepted, in order; and at most \<open>PIPESIZE\<close> bytes wait.
\<close>

theorem pipe_refines_fifo:
  assumes "length (p_data x) = PIPESIZE" and "nread x = nwrite x" and "pq.run ops x = (i, r, y)"
  shows "i = r @ pipe_bytes y \<and> length (pipe_bytes y) \<le> PIPESIZE \<and> pipe_inv y"
proof -
  have "pipe_inv x" "pipe_bytes x = []" using assms(1,2) by (simp_all add: pipe_inv_def pipe_bytes_def)
  with pq.run_stream [OF _ assms(3)] pq.bounded show ?thesis by auto
qed

section \<open>pipewrite\<close>

lemma pipes_frame [simp]:
  "pipes (enter l s) = pipes s" "pipes (leave l s) = pipes s" "pipes (touched s) = pipes s"
  "enter l (pipes_update f s) = pipes_update f (enter l s)" "leave l (pipes_update f s) = pipes_update f (leave l s)" "touched (pipes_update f s) = pipes_update f (touched s)"
  "cpu_at (pipes_update f s) = cpu_at s" "me (pipes_update f s) = me s" "depth (pipes_update f s) = depth s"
  "cur_IF (pipes_update f s) = cur_IF s" "cpu_ok (pipes_update f s) = cpu_ok s" "lock_free (pipes_update f s) l = lock_free s l"
  "lock_mine (pipes_update f s) l = lock_mine s l"
  by (auto simp: frame_defs intro!: machine.equality)

lemma upd_pipe_frame [simp]:
  "enter l (upd_pipe p f s) = upd_pipe p f (enter l s)" "leave l (upd_pipe p f s) = upd_pipe p f (leave l s)"
  "cpu_ok (upd_pipe p f s) = cpu_ok s" "depth (upd_pipe p f s) = depth s" "lock_free (upd_pipe p f s) l = lock_free s l"
  "cur_proc (upd_pipe p f s) = cur_proc s" "ptable (upd_pipe p f s) = ptable s" "may_sleep c (upd_pipe p f s) = may_sleep c s"
  "pipes (upd_pipe p f s) p = f (pipes s p)" "touched (upd_pipe p f s) = upd_pipe p f (touched s)"
  "lock_mine (upd_pipe p f s) l = lock_mine s l"
  by (simp_all add: upd_pipe_def may_sleep_def cur_proc_def)

text \<open>
  What a caller of pipewrite() or piperead() starts from, and the states it may be resumed in after it
  has slept: whatever the others did, the pipe is a sound ring buffer and its lock is free.
\<close>

definition pipe_ready :: "uint \<Rightarrow> nat \<Rightarrow> 'z file_state_scheme \<Rightarrow> bool" where
  "pipe_ready p c s \<longleftrightarrow> may_sleep c s \<and> lock_free s (LkPipe p) \<and> pipe_inv (pipes s p)"

definition pipe_resumed :: "uint \<Rightarrow> nat \<Rightarrow> 'z file_state_scheme \<Rightarrow> bool" where
  "pipe_resumed p c t \<longleftrightarrow> resumed c t \<and> lock_free t (LkPipe p) \<and> pipe_inv (pipes t p)"

definition none_asleep :: "chan \<Rightarrow> 'z proc_state_scheme \<Rightarrow> bool" where
  "none_asleep ch s \<longleftrightarrow> (\<forall>q \<in> set (ptable s). \<not> (pstate q = SLEEPING \<and> chan q = Some ch))"

definition pipe_room :: "uint \<Rightarrow> 'z file_state_scheme \<Rightarrow> nat" where
  "pipe_room p t = PIPESIZE - length (pipe_bytes (pipes t p))"

lemma pipes_awake [simp]: "pipes (awake c b t) = pipes t"
  by (simp add: awake_def upd_proc_def set_intena_def upd_cpu_def)

lemma pipe_awake: "pipe_resumed p c t \<Longrightarrow> pipe_ready p c (awake c b t)"
  by (simp add: pipe_resumed_def pipe_ready_def awake_may_sleep)

lemma pipe_ready_D:
  assumes "pipe_ready p c s"
  shows "cpu_ok s" and "depth s = 0" and "lock_free s LkPtable" and "cur_proc s = Some c" and "c < length (ptable s)"
    and "may_sleep c s" and "lock_free s (LkPipe p)" and "pipe_inv (pipes s p)" and "length (pipe_bytes (pipes s p)) \<le> PIPESIZE"
  using assms pq.bounded by (simp_all add: pipe_ready_def may_sleep_def)

lemma pipe_ready_touched [simp]: "pipe_ready p c (touched s) = pipe_ready p c s"
  by (simp add: pipe_ready_def)

lemma is_killed_run: "cpu_ok s \<Longrightarrow> cur_proc s = Some c \<Longrightarrow> is_killed w s = Ok (killed (ptable s ! c)) (touched s)"
  by (simp add: is_killed_def kbind_Ok [of myproc, OF myproc_run])

text \<open>The state after a wakeup() under the lock of the pipe.\<close>

definition woken :: "chan \<Rightarrow> 'z proc_state_scheme \<Rightarrow> 'z proc_state_scheme" where
  "woken ch s = s\<lparr>ptable := map (wake_proc (Some ch)) (ptable s)\<rparr>"

lemma woken_simps [simp]:
  "pipes (woken ch s) = pipes s" "cur_IF (woken ch s) = cur_IF s" "pipe_ready p c (woken ch s) = pipe_ready p c s"
  "none_asleep ch (woken ch s)" "none_asleep ch (touched s') = none_asleep ch s'"
  "length (ptable (woken ch s)) = length (ptable s)"
  by (auto simp: woken_def pipe_ready_def may_sleep_def cur_proc_def none_asleep_def wake_proc_def)

lemma wakeup_woken: "pipe_ready p c s \<Longrightarrow> wakeup ch (enter (LkPipe p) s) = Ok () (enter (LkPipe p) (woken ch s))"
  by (simp add: pipe_ready_def may_sleep_def wakeup_run woken_def)

lemma release_pipe: "pipe_ready p c s \<Longrightarrow> kthen (release (LkPipe p)) (ret r) (enter (LkPipe p) s) = Ok r (touched s)"
  by (simp add: pipe_ready_def may_sleep_def kthen_Ok)

text \<open>The writer sleeps only while the buffer is full and after it has woken the readers.\<close>

definition wr_waiting :: "uint \<Rightarrow> nat \<Rightarrow> 'z file_state_scheme \<Rightarrow> bool" where
  "wr_waiting p c u \<longleftrightarrow> handed_back u \<and> lock_free u (LkPipe p) \<and> pipe_full (pipes u p) \<and>
     pstate (ptable u ! c) = SLEEPING \<and> chan (ptable u ! c) = Some (ChNwrite p) \<and> none_asleep (ChNread p) u"

text \<open>
  The looks of the writer at the pipe, at its start and at each return from sleep: at each it
  puts as many bytes as there is room for. \<open>wr_left\<close> is what remains to be written after the looks
  of a list, and \<open>wr_sleeps\<close> says that each of them ends in sleep: bytes remain, the other end is
  open and the process has not been killed.
\<close>

primrec wr_left :: "uint \<Rightarrow> uchar list \<Rightarrow> 'z file_state_scheme list \<Rightarrow> uchar list" where
  "wr_left p cs [] = cs"
| "wr_left p cs (t # ts) = wr_left p (drop (pipe_room p t) cs) ts"

primrec wr_sleeps :: "uint \<Rightarrow> nat \<Rightarrow> uchar list \<Rightarrow> 'z file_state_scheme list \<Rightarrow> bool" where
  "wr_sleeps p c cs [] = True"
| "wr_sleeps p c cs (t # ts) =
     (pipe_room p t < length cs \<and> readopen (pipes t p) \<and> \<not> killed (ptable t ! c) \<and>
      wr_sleeps p c (drop (pipe_room p t) cs) ts)"

lemma pipe_puts:
  assumes "pipe_inv x" and "length (pipe_bytes x) + length xs \<le> PIPESIZE"
  shows "pipe_inv (fold put_byte xs x) \<and> pipe_bytes (fold put_byte xs x) = pipe_bytes x @ xs \<and>
    readopen (fold put_byte xs x) = readopen x"
  using assms
proof (induction xs arbitrary: x)
  case (Cons b xs)
  then have "\<not> pipe_full x" by (simp add: pipe_full_iff)
  from pipe_inv_put [OF Cons.prems(1) this, of b] Cons.IH [of "put_byte b x"] Cons.prems(2)
  show ?case by (simp add: put_byte_def)
qed simp

lemma pipewrite_loop_puts:
  assumes "pipe_inv (pipes s p)" and "length (pipe_bytes (pipes s p)) + length xs \<le> PIPESIZE"
  shows "pipewrite_loop (length xs + m) p n (xs @ ds) (enter (LkPipe p) s) =
    pipewrite_loop m p n ds (enter (LkPipe p) (upd_pipe p (fold put_byte xs) s))"
  using assms
proof (induction xs arbitrary: s)
  case Nil
  then show ?case by (simp add: upd_pipe_def)
next
  case (Cons b xs)
  then have f: "\<not> pipe_full (pipes s p)" by (simp add: pipe_full_iff)
  let ?s = "upd_pipe p (put_byte b) s"
  have "pipe_inv (pipes ?s p)" "length (pipe_bytes (pipes ?s p)) + length xs \<le> PIPESIZE"
    using pipe_inv_put [OF Cons.prems(1) f, of b] Cons.prems(2) by simp_all
  note IH = Cons.IH [OF this]
  have "upd_pipe p (fold put_byte xs) ?s = upd_pipe p (fold put_byte (b # xs)) s" by (simp add: upd_pipe_def)
  moreover have "upd_pipe p (put_byte b) (enter (LkPipe p) s) = enter (LkPipe p) ?s" by simp
  ultimately show ?case using f IH by (simp add: comp_def del: upd_pipe_frame(1))
qed

lemma pipewrite_loop_done:
  assumes "pipe_ready p c s"
  shows "pipewrite_loop (Suc m) p n [] (enter (LkPipe p) s) = Ok n (touched (woken (ChNread p) s))"
  using release_pipe [of p c "woken (ChNread p) s" n] assms by (simp add: kthen_Ok [of "wakeup (ChNread p)", OF wakeup_woken [OF assms]])

lemma pipewrite_loop_stop:
  assumes "pipe_ready p c s" and "pipe_full (pipes s p)" and "\<not> readopen (pipes s p) \<or> killed (ptable s ! c)" and "ds \<noteq> []"
  shows "pipewrite_loop (Suc m) p n ds (enter (LkPipe p) s) = Ok (-1) (touched s)"
proof -
  have "(if \<not> readopen (pipes s p) then ret True else is_killed ''pipewrite'') (enter (LkPipe p) s) = Ok True (enter (LkPipe p) s)"
    using assms(3) pipe_ready_D [OF assms(1)] by (simp add: is_killed_run)
  with assms show ?thesis by (cases ds) (simp_all add: kbind_Ok release_pipe [of p c])
qed

lemma pipewrite_loop_sleep:
  assumes "pipe_ready p c s" and "pipe_full (pipes s p)" and "readopen (pipes s p)" and "\<not> killed (ptable s ! c)" and "ds \<noteq> []"
  obtains u k where "pipewrite_loop (Suc m) p n ds (enter (LkPipe p) s) = Switch u k"
    and "wr_waiting p c u" and "pipes u = pipes s"
    and "\<forall>t. pipe_resumed p c t \<longrightarrow> k t = pipewrite_loop m p n ds (enter (LkPipe p) (awake c (cur_IF s) t))"
proof -
  let ?s = "woken (ChNread p) s"
  let ?u = "upd_proc c (\<lambda>q. q\<lparr>chan := Some (ChNwrite p), pstate := SLEEPING\<rparr>) (enter LkPtable ?s)"
  have r: "pipe_ready p c ?s" using assms(1) by simp
  note d = pipe_ready_D [OF assms(1)] and e = pipe_ready_D [OF r]
  obtain k where k: "sleep (ChNwrite p) (Some (LkPipe p)) (enter (LkPipe p) ?s) = Switch ?u k"
    "\<forall>t. resumed c t \<and> lock_free t (LkPipe p) \<longrightarrow> k t = Ok () (enter (LkPipe p) (awake c (cur_IF ?s) t))"
    using sleep_awake [OF e(6,7)] by blast
  have ik: "is_killed ''pipewrite'' (enter (LkPipe p) s) = Ok False (enter (LkPipe p) s)"
    using assms(4) d by (simp add: is_killed_run)
  have "pipewrite_loop (Suc m) p n ds (enter (LkPipe p) s) = Switch ?u (\<lambda>t. kres_bind (k t) (\<lambda>_. pipewrite_loop m p n ds))"
    using assms(2,3,5) by (cases ds) (simp_all add: kbind_Ok [of "is_killed ''pipewrite''", OF ik] kthen_Ok [of "wakeup (ChNread p)", OF wakeup_woken [OF assms(1)]]
      kthen_Switch [of "sleep (ChNwrite p) (Some (LkPipe p))", OF k(1)])
  moreover have "none_asleep (ChNread p) ?u"
    using woken_simps(4) [of "ChNread p" s] set_update_subset_insert [of "ptable ?s" c] by (fastforce simp: none_asleep_def ptable_upd_proc)
  then have "wr_waiting p c ?u"
    using assms(2) e by (simp add: wr_waiting_def handed_back_def) (simp add: upd_proc_def)
  moreover have "pipes ?u = pipes s" by (simp add: upd_proc_def)
  ultimately show thesis
    using k(2) by (intro that [of ?u "\<lambda>t. kres_bind (k t) (\<lambda>_. pipewrite_loop m p n ds)"]) (simp_all add: pipe_resumed_def)
qed

text \<open>One look of the writer.\<close>

definition wr_outcome :: "uint \<Rightarrow> nat \<Rightarrow> int \<Rightarrow> uchar list \<Rightarrow> 'z file_state_scheme \<Rightarrow> ('z file_state_scheme, int) kres \<Rightarrow> bool" where
  "wr_outcome p c n ds t r \<longleftrightarrow>
     (let q = pipe_bytes (pipes t p) @ take (pipe_room p t) ds in
      if length ds \<le> pipe_room p t
      then \<exists>v. r = Ok n v \<and> pipe_ready p c v \<and> pipe_bytes (pipes v p) = q \<and> none_asleep (ChNread p) v
      else if \<not> readopen (pipes t p) \<or> killed (ptable t ! c)
      then \<exists>v. r = Ok (-1) v \<and> pipe_ready p c v \<and> pipe_bytes (pipes v p) = q
      else \<exists>u k. r = Switch u k \<and> wr_waiting p c u \<and> pipe_bytes (pipes u p) = q)"

lemma pipewrite_fill:
  fixes s :: "'z file_state_scheme" and p :: uint and ds :: "uchar list"
  assumes "pipe_ready p c s"
  defines "xs \<equiv> take (pipe_room p s) ds"
  defines "s' \<equiv> upd_pipe p (fold put_byte xs) s"
  shows "pipewrite_loop (length xs + m) p n ds (enter (LkPipe p) s) =
      pipewrite_loop m p n (drop (pipe_room p s) ds) (enter (LkPipe p) s')"
    and "pipe_ready p c s'" and "pipe_bytes (pipes s' p) = pipe_bytes (pipes s p) @ xs"
    and "readopen (pipes s' p) = readopen (pipes s p)" and "ptable s' = ptable s"
    and "pipe_room p s < length ds \<Longrightarrow> pipe_full (pipes s' p)"
proof -
  note d = pipe_ready_D [OF assms(1)]
  have l: "length (pipe_bytes (pipes s p)) + length xs \<le> PIPESIZE" using d(9) by (simp add: xs_def pipe_room_def)
  note q = pipe_puts [OF d(8) l]
  show "pipewrite_loop (length xs + m) p n ds (enter (LkPipe p) s) =
      pipewrite_loop m p n (drop (pipe_room p s) ds) (enter (LkPipe p) s')"
    using pipewrite_loop_puts [OF d(8) l, of m n "drop (pipe_room p s) ds"] by (simp add: s'_def xs_def)
  show b: "pipe_bytes (pipes s' p) = pipe_bytes (pipes s p) @ xs" using q by (simp add: s'_def)
  show "pipe_ready p c s'" "readopen (pipes s' p) = readopen (pipes s p)" "ptable s' = ptable s"
    using q d by (simp_all add: s'_def pipe_ready_def)
  show "pipe_room p s < length ds \<Longrightarrow> pipe_full (pipes s' p)"
    using d(9) by (simp add: pipe_full_iff b) (simp add: xs_def pipe_room_def)
qed

lemma pipewrite_look:
  assumes "pipe_ready p c s"
  shows "wr_outcome p c n ds s (pipewrite_loop (length (take (pipe_room p s) ds) + Suc m) p n ds (enter (LkPipe p) s))"
proof -
  let ?s = "upd_pipe p (fold put_byte (take (pipe_room p s) ds)) s" and ?r = "drop (pipe_room p s) ds"
  note f = pipewrite_fill [OF assms, where ds = ds]
  consider "length ds \<le> pipe_room p s" | "pipe_room p s < length ds" "\<not> readopen (pipes s p) \<or> killed (ptable s ! c)"
    | "pipe_room p s < length ds" "readopen (pipes s p)" "\<not> killed (ptable s ! c)" by linarith
  then show ?thesis
  proof cases
    case 1
    then show ?thesis using f(1) [of "Suc m" n] f(2,3) pipewrite_loop_done [OF f(2), of m n]
      by (simp add: wr_outcome_def del: pipewrite_loop.simps)
  next
    case 2
    then have "pipewrite_loop (Suc m) p n ?r (enter (LkPipe p) ?s) = Ok (-1) (touched ?s)"
      using f(2-6) by (intro pipewrite_loop_stop) simp_all
    with 2 f(1) [of "Suc m" n] f(2,3) show ?thesis
      by (auto simp: wr_outcome_def simp del: pipewrite_loop.simps upd_pipe_frame)
  next
    case 3
    obtain u k where "pipewrite_loop (Suc m) p n ?r (enter (LkPipe p) ?s) = Switch u k" "wr_waiting p c u" "pipes u = pipes ?s"
      by (rule pipewrite_loop_sleep [OF f(2) f(6), where ds = ?r and m = m and n = n]) (use 3 f(4,5) in auto)
    with 3 f(1) [of "Suc m" n] f(3) show ?thesis
      by (auto simp: wr_outcome_def simp del: pipewrite_loop.simps upd_pipe_frame)
  qed
qed

lemma pipewrite_look_sleeps:
  assumes "pipe_ready p c s" and "wr_sleeps p c ds [s]"
  obtains u k b where "pipewrite_loop (length (take (pipe_room p s) ds) + Suc m) p n ds (enter (LkPipe p) s) = Switch u k"
    and "\<forall>t. pipe_resumed p c t \<longrightarrow> k t = pipewrite_loop m p n (drop (pipe_room p s) ds) (enter (LkPipe p) (awake c b t))"
proof -
  let ?s = "upd_pipe p (fold put_byte (take (pipe_room p s) ds)) s" and ?r = "drop (pipe_room p s) ds"
  note f = pipewrite_fill [OF assms(1), where ds = ds]
  obtain u k where "pipewrite_loop (Suc m) p n ?r (enter (LkPipe p) ?s) = Switch u k"
    "\<forall>t. pipe_resumed p c t \<longrightarrow> k t = pipewrite_loop m p n ?r (enter (LkPipe p) (awake c (cur_IF ?s) t))"
    by (rule pipewrite_loop_sleep [OF f(2) f(6), where ds = ?r and m = m and n = n]) (use assms(2) f(4,5) in auto)
  then show thesis using f(1) [of "Suc m" n] by (intro that [of u k "cur_IF ?s"]) (simp_all del: pipewrite_loop.simps)
qed

lemma wr_look_awake:
  "pipe_room p (awake c b t) = pipe_room p t" "wr_outcome p c n ds (awake c b t) = wr_outcome p c n ds t"
  by (simp_all add: pipe_room_def wr_outcome_def awake_simps fun_eq_iff)

lemma wr_looks_awake:
  "wr_left p cs (butlast (awake c b t # ts)) = wr_left p cs (butlast (t # ts))"
  "wr_sleeps p c cs (butlast (awake c b t # ts)) = wr_sleeps p c cs (butlast (t # ts))"
  "wr_outcome p c n ds (last (awake c b t # ts)) = wr_outcome p c n ds (last (t # ts))"
  by (simp_all add: wr_look_awake awake_simps)

lemma pipewrite_loop_resumed:
  assumes "pipe_ready p c s" and "\<forall>t \<in> set ts. pipe_resumed p c t" and "length ts + length cs < k"
    and "wr_sleeps p c cs (butlast (s # ts))"
  shows "wr_outcome p c n (wr_left p cs (butlast (s # ts))) (last (s # ts))
    (resume_with ts (pipewrite_loop k p n cs (enter (LkPipe p) s)))"
  using assms
proof (induction ts arbitrary: s cs k)
  case Nil
  have "k = length (take (pipe_room p s) cs) + Suc (k - length (take (pipe_room p s) cs) - 1)" using Nil.prems(3) by simp
  then show ?case using pipewrite_look [OF Nil.prems(1), of n cs] by (metis butlast.simps(2) last.simps resume_with.simps(1) wr_left.simps(1))
next
  case (Cons t ts)
  let ?m = "k - length (take (pipe_room p s) cs) - 1" and ?r = "drop (pipe_room p s) cs"
  have sl: "wr_sleeps p c cs [s]" "wr_sleeps p c ?r (butlast (t # ts))" using Cons.prems(4) by simp_all
  have k: "k = length (take (pipe_room p s) cs) + Suc ?m" using Cons.prems(3) sl(1) by simp
  have m: "length ts + length ?r < ?m" using Cons.prems(3) sl(1) by (simp add: min_def) linarith
  obtain u j b where u: "pipewrite_loop k p n cs (enter (LkPipe p) s) = Switch u j"
    and j: "\<forall>t. pipe_resumed p c t \<longrightarrow> j t = pipewrite_loop ?m p n ?r (enter (LkPipe p) (awake c b t))"
    using pipewrite_look_sleeps [OF Cons.prems(1) sl(1), of ?m n] k by metis
  have t: "pipe_resumed p c t" using Cons.prems(2) by simp
  note IH = Cons.IH [OF pipe_awake [OF t, of b] _ m, unfolded wr_looks_awake]
  have "resume_with (t # ts) (pipewrite_loop k p n cs (enter (LkPipe p) s)) =
      resume_with ts (pipewrite_loop ?m p n ?r (enter (LkPipe p) (awake c b t)))"
    unfolding u using j t by simp
  moreover have "last (s # t # ts) = last (t # ts)" "butlast (s # t # ts) = s # butlast (t # ts)" by simp_all
  ultimately show ?case using IH sl(2) Cons.prems(2) by (simp only: wr_left.simps list.set insert_iff) simp
qed

text \<open>
  C37. pipewrite() writes its bytes in order and loses none. Let it be called in \<open>s\<close> and, each time
  it has gone to sleep, be resumed in the next of the states \<open>ts\<close>, whatever the others have done to
  the pipe in between. At each look it appends to what it finds in the queue as many of the
  remaining bytes as there is room for and changes nothing else of the queue. If bytes remained at every look but the last one,
  with the other end open and the process not killed, then after the last one: with no byte left it has
  returned the count, every waiting reader runnable; with bytes left and the reader gone or
  the process killed it has returned -1; with bytes left otherwise it is asleep on a full
  pipe, every waiting reader runnable. The lock is free in all three cases.
\<close>

theorem pipewrite_appends:
  assumes "pipe_ready p c s" and "\<forall>t \<in> set ts. pipe_resumed p c t" and "length ts \<le> patience s"
    and "wr_sleeps p c cs (butlast (s # ts))"
  shows "wr_outcome p c (int (length cs)) (wr_left p cs (butlast (s # ts))) (last (s # ts))
    (resume_with ts (pipewrite p cs s))"
proof -
  have a: "pipewrite p cs s = pipewrite_loop (Suc (patience s + length cs)) p (int (length cs)) cs (enter (LkPipe p) s)"
    using pipe_ready_D [OF assms(1)] by (simp add: pipewrite_def kthen_Ok del: pipewrite_loop.simps)
  have "length ts + length cs < Suc (patience s + length cs)" using assms(3) by simp
  then show ?thesis unfolding a by (rule pipewrite_loop_resumed [OF assms(1,2) _ assms(4)])
qed

section \<open>piperead\<close>

definition rd_waiting :: "uint \<Rightarrow> nat \<Rightarrow> 'z file_state_scheme \<Rightarrow> bool" where
  "rd_waiting p c u \<longleftrightarrow> handed_back u \<and> lock_free u (LkPipe p) \<and>
     pstate (ptable u ! c) = SLEEPING \<and> chan (ptable u ! c) = Some (ChNread p)"

text \<open>One look of the reader.\<close>

definition rd_outcome :: "uint \<Rightarrow> nat \<Rightarrow> int \<Rightarrow> 'z file_state_scheme \<Rightarrow> ('z file_state_scheme, int \<times> uchar list) kres \<Rightarrow> bool" where
  "rd_outcome p c n t r \<longleftrightarrow>
     (let q = pipe_bytes (pipes t p) in
      if q = [] \<and> writeopen (pipes t p)
      then if killed (ptable t ! c) then \<exists>v. r = Ok (-1, []) v \<and> pipe_ready p c v \<and> pipes v = pipes t
           else \<exists>u k. r = Switch u k \<and> rd_waiting p c u \<and> pipes u = pipes t
      else \<exists>v. r = Ok (int (length (take (nat n) q)), take (nat n) q) v \<and> pipe_ready p c v \<and>
        pipe_bytes (pipes v p) = drop (nat n) q \<and> none_asleep (ChNwrite p) v)"

lemma pipe_empty_iff: "pipe_bytes x = [] \<longleftrightarrow> nread x = nwrite x"
proof -
  have "pipe_bytes x = [] \<longleftrightarrow> unat (nwrite x - nread x) = 0" by (simp add: pipe_bytes_def)
  also have "\<dots> \<longleftrightarrow> nwrite x - nread x = 0" by (simp only: unat_eq_zero)
  finally show ?thesis by auto
qed

text \<open>What piperead() does once it has stopped waiting.\<close>

definition rd_tail :: "uint \<Rightarrow> int \<Rightarrow> int + unit \<Rightarrow> ('z file_state_scheme, int \<times> uchar list) kM" where
  "rd_tail p n r =
     (case r of Inl v \<Rightarrow> ret (v, []) | Inr _ \<Rightarrow>
        kbind (kgets (\<lambda>s. take_bytes (nat n) (pipes s p))) (\<lambda>(cs, y).
        kthen (kmodify (upd_pipe p (\<lambda>_. y))) (kthen (wakeup (ChNwrite p)) (
        kthen (release (LkPipe p)) (ret (int (length cs), cs))))))"

lemma piperead_run:
  assumes "pipe_ready p c s"
  shows "piperead p n s = kbind (piperead_wait (Suc (patience s)) p) (rd_tail p n) (enter (LkPipe p) s)"
  using pipe_ready_D [OF assms] by (simp add: piperead_def kthen_Ok rd_tail_def [abs_def] del: piperead_wait.simps)

lemma piperead_tail:
  assumes "pipe_ready p c s"
  shows "\<exists>v. rd_tail p n (Inr ()) (enter (LkPipe p) s) =
      Ok (int (length (take (nat n) (pipe_bytes (pipes s p)))), take (nat n) (pipe_bytes (pipes s p))) v \<and>
    pipe_ready p c v \<and> pipe_bytes (pipes v p) = drop (nat n) (pipe_bytes (pipes s p)) \<and> none_asleep (ChNwrite p) v"
proof -
  obtain cs y where t: "take_bytes (nat n) (pipes s p) = (cs, y)" by (cases "take_bytes (nat n) (pipes s p)")
  note d = pipe_ready_D [OF assms]
  have y: "pipe_inv y" "cs = take (nat n) (pipe_bytes (pipes s p))" "pipe_bytes y = drop (nat n) (pipe_bytes (pipes s p))"
    using pipe_inv_takes [OF d(8) t] by auto
  let ?s = "upd_pipe p (\<lambda>_. y) s"
  let ?v = "touched (woken (ChNwrite p) ?s)"
  have r: "pipe_ready p c ?s" using d y(1) by (simp add: pipe_ready_def)
  have "kthen (wakeup (ChNwrite p)) (kthen (release (LkPipe p)) (ret (int (length cs), cs))) (enter (LkPipe p) ?s) = Ok (int (length cs), cs) ?v"
    using release_pipe [of p c "woken (ChNwrite p) ?s" "(int (length cs), cs)"] r
    by (simp add: kthen_Ok [of "wakeup (ChNwrite p)", OF wakeup_woken [OF r]] del: upd_pipe_frame)
  then have "rd_tail p n (Inr ()) (enter (LkPipe p) s) = Ok (int (length cs), cs) ?v" using t by (simp add: rd_tail_def)
  moreover have "pipe_ready p c ?v" "none_asleep (ChNwrite p) ?v" "pipe_bytes (pipes ?v p) = drop (nat n) (pipe_bytes (pipes s p))"
    using r y(3) by (simp_all del: upd_pipe_frame(10))
  ultimately show ?thesis using y(2) by blast
qed

lemma piperead_wait_sleep:
  assumes "pipe_ready p c s" and "pipe_bytes (pipes s p) = []" and "writeopen (pipes s p)" and "\<not> killed (ptable s ! c)"
  obtains u k where "kbind (piperead_wait (Suc m) p) f (enter (LkPipe p) s) = Switch u k"
    and "rd_waiting p c u" and "pipes u = pipes s"
    and "\<forall>t. pipe_resumed p c t \<longrightarrow> k t = kbind (piperead_wait m p) f (enter (LkPipe p) (awake c (cur_IF s) t))"
proof -
  note d = pipe_ready_D [OF assms(1)]
  let ?u = "upd_proc c (\<lambda>q. q\<lparr>chan := Some (ChNread p), pstate := SLEEPING\<rparr>) (enter LkPtable s)"
  obtain k where k: "sleep (ChNread p) (Some (LkPipe p)) (enter (LkPipe p) s) = Switch ?u k"
    "\<forall>t. resumed c t \<and> lock_free t (LkPipe p) \<longrightarrow> k t = Ok () (enter (LkPipe p) (awake c (cur_IF s) t))"
    using sleep_awake [OF d(6,7)] by blast
  have ik: "is_killed ''piperead'' (enter (LkPipe p) s) = Ok False (enter (LkPipe p) s)"
    using assms(4) d by (simp add: is_killed_run)
  have "piperead_wait (Suc m) p (enter (LkPipe p) s) = Switch ?u (\<lambda>t. kres_bind (k t) (\<lambda>_. piperead_wait m p))"
    using assms(2,3) by (simp add: pipe_empty_iff kbind_Ok [of "is_killed ''piperead''", OF ik] kthen_Switch [of "sleep (ChNread p) (Some (LkPipe p))", OF k(1)])
  then have "kbind (piperead_wait (Suc m) p) f (enter (LkPipe p) s) =
      Switch ?u (\<lambda>t. kres_bind (kres_bind (k t) (\<lambda>_. piperead_wait m p)) f)" by (rule kbind_Switch)
  moreover have "rd_waiting p c ?u" using d by (simp add: rd_waiting_def handed_back_def)
  moreover have "pipes ?u = pipes s" by (simp add: upd_proc_def)
  ultimately show thesis
    using k(2) by (intro that [of ?u "\<lambda>t. kres_bind (kres_bind (k t) (\<lambda>_. piperead_wait m p)) f"]) (simp_all add: pipe_resumed_def kbind_def)
qed

lemma piperead_look:
  assumes "pipe_ready p c s"
  shows "rd_outcome p c n s (kbind (piperead_wait (Suc m) p) (rd_tail p n) (enter (LkPipe p) s))"
proof -
  note d = pipe_ready_D [OF assms]
  consider "\<not> (pipe_bytes (pipes s p) = [] \<and> writeopen (pipes s p))"
    | "pipe_bytes (pipes s p) = []" "writeopen (pipes s p)" "killed (ptable s ! c)"
    | "pipe_bytes (pipes s p) = []" "writeopen (pipes s p)" "\<not> killed (ptable s ! c)" by blast
  then show ?thesis
  proof cases
    case 1
    then have "piperead_wait (Suc m) p (enter (LkPipe p) s) = Ok (Inr ()) (enter (LkPipe p) s)" by (auto simp: pipe_empty_iff)
    with 1 piperead_tail [OF assms, of n] show ?thesis
      by (auto simp: rd_outcome_def Let_def kbind_Ok simp del: piperead_wait.simps)
  next
    case 2
    have ik: "is_killed ''piperead'' (enter (LkPipe p) s) = Ok True (enter (LkPipe p) s)" using 2(3) d by (simp add: is_killed_run)
    have "piperead_wait (Suc m) p (enter (LkPipe p) s) = Ok (Inl (-1)) (touched s)"
      using 2(1,2) by (simp add: pipe_empty_iff kbind_Ok [of "is_killed ''piperead''", OF ik] release_pipe [OF assms])
    with 2 assms show ?thesis by (simp add: rd_outcome_def kbind_Ok rd_tail_def del: piperead_wait.simps)
  next
    case 3
    then show ?thesis using piperead_wait_sleep [OF assms 3, of m "rd_tail p n"] by (metis (no_types, lifting) rd_outcome_def)
  qed
qed

lemma rd_outcome_awake: "rd_outcome p c n (last (awake c b t # ts)) = rd_outcome p c n (last (t # ts))"
  by (simp add: rd_outcome_def awake_simps fun_eq_iff)

lemma piperead_wait_resumed:
  assumes "pipe_ready p c s" and "\<forall>t \<in> set ts. pipe_resumed p c t" and "length ts < k"
    and "\<forall>t \<in> set (butlast (s # ts)). pipe_bytes (pipes t p) = [] \<and> writeopen (pipes t p) \<and> \<not> killed (ptable t ! c)"
  shows "rd_outcome p c n (last (s # ts)) (resume_with ts (kbind (piperead_wait k p) (rd_tail p n) (enter (LkPipe p) s)))"
  using assms
proof (induction ts arbitrary: s k)
  case Nil
  then show ?case using piperead_look [OF Nil.prems(1)] by (cases k) (simp_all del: piperead_wait.simps)
next
  case (Cons t ts)
  then obtain m where m: "k = Suc m" by (cases k) auto
  have e: "pipe_bytes (pipes s p) = []" "writeopen (pipes s p)" "\<not> killed (ptable s ! c)" using Cons.prems(4) by simp_all
  obtain u j where u: "kbind (piperead_wait k p) (rd_tail p n) (enter (LkPipe p) s) = Switch u j"
    and j: "\<forall>t. pipe_resumed p c t \<longrightarrow> j t = kbind (piperead_wait m p) (rd_tail p n) (enter (LkPipe p) (awake c (cur_IF s) t))"
    using piperead_wait_sleep [OF Cons.prems(1) e, of m "rd_tail p n"] m by metis
  have t: "pipe_resumed p c t" using Cons.prems(2) by simp
  have "\<forall>x \<in> set (butlast (awake c (cur_IF s) t # ts)). pipe_bytes (pipes x p) = [] \<and> writeopen (pipes x p) \<and> \<not> killed (ptable x ! c)"
    using Cons.prems(4) by (auto simp: awake_simps split: if_splits)
  note IH = Cons.IH [OF pipe_awake [OF t] _ _ this, unfolded rd_outcome_awake]
  have "resume_with (t # ts) (kbind (piperead_wait k p) (rd_tail p n) (enter (LkPipe p) s)) =
      resume_with ts (kbind (piperead_wait m p) (rd_tail p n) (enter (LkPipe p) (awake c (cur_IF s) t)))"
    unfolding u using j t by simp
  moreover have "last (s # t # ts) = last (t # ts)" by simp
  ultimately show ?case using IH [of m] Cons.prems(2,3) m by (simp only: list.set insert_iff list.size) simp
qed

text \<open>
  C38. piperead() returns what is at the front of the queue as soon as there is something. Let it be called in
  \<open>s\<close> and, each time it has gone to sleep, be resumed in the next of the states \<open>ts\<close>, whatever the
  others have done to the pipe in between. If at every look but the last one the queue was empty,
  with a writer left and the process not killed, then after the last one: with the queue still empty
  and a writer left it is asleep, or has returned -1 when the process has been killed, and the pipe
  is untouched; otherwise it has returned the front of the queue it found, all of it
  up to the number of bytes asked for, the rest remains, and every waiting writer is runnable. The
  lock is free in all cases.
\<close>

theorem piperead_takes_front:
  assumes "pipe_ready p c s" and "\<forall>t \<in> set ts. pipe_resumed p c t" and "length ts \<le> patience s"
    and "\<forall>t \<in> set (butlast (s # ts)). pipe_bytes (pipes t p) = [] \<and> writeopen (pipes t p) \<and> \<not> killed (ptable t ! c)"
  shows "rd_outcome p c n (last (s # ts)) (resume_with ts (piperead p n s))"
proof -
  have "length ts < Suc (patience s)" using assms(3) by simp
  then show ?thesis unfolding piperead_run [OF assms(1)] by (rule piperead_wait_resumed [OF assms(1,2) _ assms(4)])
qed

end
