(* ===== verification/Examples_Io.thy ===== *)
theory Examples_Io
  imports Examples Crash Diskops Fifo
begin

text \<open>
  Concrete machines for the theorems on the file system: the machine of theory \<open>Examples\<close> with one
  running process, a memory disk of 100 blocks, a buffer cache in the order binit() leaves it and a
  log at block 2. The last field is open, so that the later states extend the same machine.
\<close>

section \<open>A machine with a disk\<close>

definition ex_buf :: buf where
  "ex_buf = \<lparr>b_flags = 0, b_dev = 0, b_blockno = 0, b_refcnt = 0, b_data = replicate 512 0\<rparr>"

definition ex_dirty :: buf where
  "ex_dirty = \<lparr>b_flags = 6, b_dev = 1, b_blockno = 50, b_refcnt = 0, b_data = replicate 512 7\<rparr>"

definition ex_logst :: "int \<Rightarrow> logstate" where
  "ex_logst n = \<lparr>lstart = 2, lsize = 31, outstanding = 0, committing = True, ldev = 1, lhn = n,
     lhblock = replicate 30 50\<rparr>"

definition ex_io :: "buf list \<Rightarrow> (nat \<Rightarrow> uchar list) \<Rightarrow> logstate \<Rightarrow> 'x \<Rightarrow> 'x log_state_scheme" where
  "ex_io bs d l x = \<lparr>cpus = [ex_cpu], ncpu = 1, lapic_id = 0, eflags_IF = (\<lambda>_. True), cr3 = (\<lambda>_. 0), tr = (\<lambda>_. 0), gdt_loaded = (\<lambda>_. None),
     locks = (\<lambda>_. ex_lock), mem = (\<lambda>_. 0), ticks = 7, rtc_dev = (\<lambda>_ _. 0), rtc_now = 0,
     port_in = (\<lambda>_ _. 0x40), port_now = 0, port_out = [], patience = 8,
     use_lock = True, freelist = ex_page, kernel_end = 0x80100000,
     kpgdir = 0x80500000, sym_data = 0x80108000, sym_ts = (\<lambda>_. 0x80110000),
     ptable = [ex_proc RUNNING 1 0 None], initproc = None, nextpid = 5, sym_trapret = 0x80105000,
     sym_forkret = 0x80103000, forkret_first = False,
     slocks = (\<lambda>_. \<lparr>sl_locked = False, sl_name = '''', sl_pid = 0\<rparr>),
     ioapicid = 0, ioapic_sel = 0, ioapic_regs = (\<lambda>_. 0), lapic_addr = 0, lapic_in = (\<lambda>_ _. 0), lapic_now = 0,
     lapic_out = [], uart = False, kbd_shift = 0,
     bufs = bs, b_prev = (\<lambda>b. if b = 30 then 0 else b + 1), b_next = (\<lambda>b. if b = 0 then 30 else b - 1),
     qnext = (\<lambda>_. None), idequeue = None, havedisk1 = False, memfs = True, memdisk = d, disksize = 100, disk_hist = [],
     log = l, \<dots> = x\<rparr>"

lemma ex_io_simps [simp]:
  "bufs (ex_io bs d l x) = bs" "memdisk (ex_io bs d l x) = d" "disksize (ex_io bs d l x) = 100" "log (ex_io bs d l x) = l"
  "memfs (ex_io bs d l x)" "cur_proc (ex_io bs d l x) = Some 0" "lock_free (ex_io bs d l x) k" "cpu_ok (ex_io bs d l x)"
  "depth (ex_io bs d l x) = 0" "slocks (ex_io bs d l x) i = \<lparr>sl_locked = False, sl_name = '''', sl_pid = 0\<rparr>"
  "ptable (ex_io bs d l x) = [ex_proc RUNNING 1 0 None]" "may_sleep 0 (ex_io bs d l x)" "disk_hist (ex_io bs d l x) = []"
  by (simp_all add: ex_io_def frame_defs ex_cpu_def ex_lock_def cur_proc_def may_sleep_def)

lemma ex_nbuf: "NBUF = 30" "LOGSIZE = 30" by (simp_all add: NBUF_def LOGSIZE_def MAXOPBLOCKS_def)

lemma ex_linked: "k \<le> 30 \<Longrightarrow> linked (\<lambda>b. if b = 0 then 30 else b - 1) (\<lambda>b. if b = 30 then 0 else b + 1) (k # rev [0..<k] @ [30])"
  by (induction k) auto

lemma ex_bcache: "bcache_list (ex_io bs d l x) (rev [0..<NBUF])"
  using ex_linked [of 30] by (simp only: bcache_list_def ex_io_def bhead_def ex_nbuf) simp

lemma ex_flags [simp]: "valid_buf ex_dirty" "dirty_buf ex_dirty" "\<not> valid_buf ex_buf" "\<not> dirty_buf ex_buf"
  by (simp_all add: valid_buf_def dirty_buf_def ex_dirty_def ex_buf_def B_VALID_def B_DIRTY_def)

text \<open>A cache with nothing in it, and one in which buffer 7 holds block 50, changed.\<close>

definition ex_clean :: "buf list" where "ex_clean = replicate 30 ex_buf"
definition ex_changed :: "buf list" where "ex_changed = (replicate 30 ex_buf)[7 := ex_dirty]"

lemma ex_nth: "b < 30 \<Longrightarrow> ex_clean ! b = ex_buf" "b < 30 \<Longrightarrow> ex_changed ! b = (if b = 7 then ex_dirty else ex_buf)"
  by (simp_all add: ex_clean_def ex_changed_def nth_list_update)

lemma ex_clean_inv: "cache_inv 0 1 {} (ex_io ex_clean d l x)"
  unfolding cache_inv_def using ex_bcache [of ex_clean d l x]
  by (auto simp: ex_nbuf ex_nth buf_inv_def home_def ex_clean_def Let_def) (simp_all add: ex_buf_def)

lemma ex_changed_inv: "cache_inv 0 1 {} (ex_io ex_changed d l x)"
  unfolding cache_inv_def using ex_bcache [of ex_changed d l x]
  by (auto simp: ex_nbuf ex_nth buf_inv_def home_def Let_def split: if_splits)
    (simp_all add: ex_buf_def ex_dirty_def ex_changed_def)

section \<open>A crash during commit\<close>

text \<open>Block 50 is to become all sevens; the machine may stop after any of the four writes.\<close>

definition ex_commit :: log_state where
  "ex_commit = ex_io ex_changed (\<lambda>_. replicate 512 0) (ex_logst 1) ()"

definition ex_reboot :: "nat \<Rightarrow> log_state" where
  "ex_reboot k = ex_io ex_clean (apply_writes (take k (commit_writes ex_commit)) (memdisk ex_commit)) (ex_logst 0) ()"

lemma ex_pinned: "pinned (ex_io ex_changed d l x) = {50}" "pinned (ex_io ex_clean d l x) = {}"
proof -
  have "b_blockno ex_dirty = 50" by (simp add: ex_dirty_def)
  then show "pinned (ex_io ex_changed d l x) = {50}" "pinned (ex_io ex_clean d l x) = {}"
    by (auto simp: pinned_def ex_nbuf ex_nth split: if_splits intro!: exI [of _ 7])
qed

lemma ex_recyclable: "recyclable (ex_io ex_clean d l x) = {..<30}" "0 \<in> recyclable (ex_io ex_changed d l x)"
  by (auto simp: recyclable_def ex_nbuf ex_nth) (simp_all add: ex_buf_def)

lemma ex_commit_ready: "commit_ready 0 1 ex_commit"
proof -
  have h: "home_blocks (ex_logst 1) = [50]" by (simp add: home_blocks_def ex_logst_def)
  have v: "bview ex_commit 2 = replicate 512 0"
    using bc.idle [OF ex_changed_inv, of 2] by (simp add: ex_commit_def ex_pinned)
  have lg: "lhn (ex_logst 1) = 1" "lstart (ex_logst 1) = 2" by (simp_all add: ex_logst_def)
  have l: "log_area (ex_logst 1) 100"
    unfolding log_area_def h by (simp add: ex_logst_def ex_nbuf in_log_def)
  show ?thesis
    using h v l ex_changed_inv ex_recyclable(2) [of "\<lambda>_. replicate 512 0" "ex_logst 1" "()"] lg
    by (auto simp: commit_ready_def ex_commit_def ex_pinned BSIZE_def get32l_def)
qed

lemma ex_rebooted: "booted 0 1 2 (ex_reboot k)"
proof -
  have "{..<30} - {b} \<noteq> {}" for b :: nat using card_mono [of "{b}" "{..<30}"] by auto
  then show ?thesis using ex_clean_inv
    by (simp add: booted_def ex_reboot_def ex_pinned ex_recyclable ex_logst_def ex_nbuf)
qed

theorem commit_crash_safe_witness:
  "(\<exists>t. commit ex_commit = Ok () t \<and> memdisk t 50 = replicate 512 7) \<and>
   (\<exists>v. recover_from_log (ex_reboot 1) = Ok () v \<and> memdisk v 50 = replicate 512 0) \<and>
   (\<exists>v. recover_from_log (ex_reboot 2) = Ok () v \<and> memdisk v 50 = replicate 512 7)"
proof -
  have d: "b_data ex_dirty = replicate 512 7" "b_dev ex_dirty = 1" "b_blockno ex_dirty = 50" by (simp_all add: ex_dirty_def)
  have v: "bview ex_commit 50 = replicate 512 7"
    using d bview_hit [OF ex_changed_inv, of _ _ _ 7 50] by (simp add: ex_commit_def home_def ex_nbuf ex_nth)
  have r: "memdisk (ex_reboot k) = apply_writes (take k (commit_writes ex_commit)) (memdisk ex_commit)"
    "disksize (ex_reboot k) = disksize ex_commit" "lstart (log ex_commit) = 2" "nat (lhn (log ex_commit)) = 1"
    "memdisk ex_commit 50 = replicate 512 0" "\<not> in_log 2 50" for k
    by (simp_all add: ex_reboot_def ex_commit_def ex_logst_def in_log_def ex_nbuf)
  obtain t where t: "commit ex_commit = Ok () t" "\<And>b. \<not> in_log 2 (unat b) \<Longrightarrow> memdisk t (unat b) = bview ex_commit b"
    "\<And>k. \<exists>v. recover_from_log (ex_reboot k) = Ok () v \<and>
        (\<forall>b. \<not> in_log 2 b \<longrightarrow> memdisk v b = (if k \<le> 1 then memdisk ex_commit b else memdisk t b))"
    using commit_crash_safe [OF ex_commit_ready, unfolded r(3,4)] ex_rebooted r(1,2) by metis
  have "memdisk t 50 = replicate 512 7" using t(2) [of 50] v r(6) by simp
  with t(1) t(3) [of 1] t(3) [of 2] r(5,6) show ?thesis by auto
qed

section \<open>Sleep-locks and the buffer cache\<close>

theorem sleeplock_cycle_witness:
  "\<exists>t u v. acquiresleep (SlBuf 3) ex_commit = Ok () t \<and> sl_owned (SlBuf 3) 1 t \<and> holdingsleep (SlBuf 3) t = Ok True u \<and>
    releasesleep (SlBuf 3) u = Ok () v \<and> \<not> sl_locked (slocks v (SlBuf 3))"
  using sleeplock_cycle [of 0 ex_commit "SlBuf 3"] by (auto simp: ex_commit_def)

text \<open>The lock is held by process 9 when process 1 asks for it, and free when process 1 is resumed.\<close>

definition ex_held :: log_state where
  "ex_held = upd_sl (SlBuf 3) (\<lambda>l. l\<lparr>sl_locked := True, sl_pid := 9\<rparr>) ex_commit"

lemma ex_resumed: "resumed 0 (enter LkPtable (ex_io bs d l x))"
  by (simp add: resumed_def)

theorem acquiresleep_first_free_witness:
  "(\<exists>u k. acquiresleep (SlBuf 3) ex_held = Switch u k \<and> sl_owned (SlBuf 3) 9 u) \<and>
   (\<exists>v. resume_with [enter LkPtable ex_commit] (acquiresleep (SlBuf 3) ex_held) = Ok () v \<and> sl_owned (SlBuf 3) 1 v)"
proof
  have h: "may_sleep 0 ex_held" "lock_free ex_held (LkSleep (SlBuf 3))" by (simp_all add: ex_held_def ex_commit_def)
  have l: "sl_locked (slocks ex_held (SlBuf 3))" "sl_pid (slocks ex_held (SlBuf 3)) = 9" by (simp_all add: ex_held_def)
  have r: "resumed 0 (enter LkPtable ex_commit)" using ex_resumed by (simp add: ex_commit_def)
  have f: "\<not> sl_locked (slocks ex_commit (SlBuf 3))" "pid (ptable ex_commit ! 0) = 1" "lock_free ex_commit (LkSleep (SlBuf 3))"
    by (simp_all add: ex_commit_def)
  have p: "1 \<le> patience ex_held" by (simp add: ex_held_def ex_commit_def ex_io_def)
  show "\<exists>u k. acquiresleep (SlBuf 3) ex_held = Switch u k \<and> sl_owned (SlBuf 3) 9 u"
    using acquiresleep_first_free [OF h, of "[]"] l by (auto simp: sl_owned_def)
  show "\<exists>v. resume_with [enter LkPtable ex_commit] (acquiresleep (SlBuf 3) ex_held) = Ok () v \<and> sl_owned (SlBuf 3) 1 v"
    using acquiresleep_first_free [OF h, of "[enter LkPtable ex_commit]"] l p r f
    by (auto simp: sl_owned_def simp del: resume_with.simps)
qed

theorem cache_refines_disk_witness:
  "\<exists>t. cache_run [Rd 50, Wr 9 (replicate 512 1), Rd 9] ex_commit = Ok [replicate 512 7, replicate 512 1] t \<and>
    memdisk t 9 = replicate 512 1"
proof -
  have d: "b_data ex_dirty = replicate 512 7" "b_dev ex_dirty = 1" "b_blockno ex_dirty = 50" by (simp_all add: ex_dirty_def)
  have v: "bview ex_commit 50 = replicate 512 7"
    using d bview_hit [OF ex_changed_inv, of _ _ _ 7 50] by (simp add: ex_commit_def home_def ex_nbuf ex_nth)
  have "recyclable ex_commit \<noteq> {}"
    using ex_recyclable(2) [of "\<lambda>_. replicate 512 0" "ex_logst 1" "()"] by (auto simp: ex_commit_def)
  from cache_refines_disk [OF ex_changed_inv [of "\<lambda>_. replicate 512 0" "ex_logst 1" "()", folded ex_commit_def] this,
      of "[Rd 50, Wr 9 (replicate 512 1), Rd 9]"] v
  obtain t where "cache_run [Rd 50, Wr 9 (replicate 512 1), Rd 9] ex_commit = Ok [replicate 512 7, replicate 512 1] t"
    "\<forall>a. a \<notin> pinned ex_commit \<longrightarrow> memdisk t (unat a) = ((bview ex_commit)(9 := replicate 512 1)) a"
    by (auto simp: ex_commit_def simp del: cache_run.simps)
  moreover from this(2) [rule_format, of 9] have "memdisk t 9 = replicate 512 1" by (simp add: ex_commit_def ex_pinned)
  ultimately show ?thesis by auto
qed

section \<open>Pipes\<close>

definition ex_pipe :: pipe where
  "ex_pipe = \<lparr>p_data = replicate 512 0, nread = - 1, nwrite = - 1, readopen = True, writeopen = True\<rparr>"

text \<open>The counters wrap around between the two bytes.\<close>

theorem pipe_refines_fifo_witness:
  "\<exists>y. pq.run [Put 5, Put 6, Take 1] ex_pipe = ([5, 6], [5], y) \<and> pipe_bytes y = [6]"
proof -
  have "\<exists>y. pq.run [Put 5, Put 6, Take 1] ex_pipe = ([5, 6], [5], y)"
    by (simp add: ex_pipe_def pipe_full_def put_byte_def PIPESIZE_def)
  then obtain y where y: "pq.run [Put 5, Put 6, Take 1] ex_pipe = ([5, 6], [5], y)" by blast
  from pipe_refines_fifo [OF _ _ this] have "[5, 6] = [5] @ pipe_bytes y" by (simp add: ex_pipe_def PIPESIZE_def)
  with y show ?thesis by simp
qed

text \<open>A machine whose pipes all are \<open>x\<close>.\<close>

definition ex_pipes :: "pipe \<Rightarrow> file_state" where
  "ex_pipes x = ex_io ex_clean (\<lambda>_. []) (ex_logst 0)
     (fs_state_ext (decode_sb []) [] (cons_state_ext False False (\<lambda>_. 0) [] 0 0 0 True (file_state_ext (\<lambda>_. x) [] ())))"

lemma ex_pipes_simps [simp]: "pipes (ex_pipes x) p = x" "patience (ex_pipes x) = 8"
  "ptable (ex_pipes x) = [ex_proc RUNNING 1 0 None]"
  by (simp_all add: ex_pipes_def) (simp_all add: ex_io_def)

lemma ex_pipes_ready:
  "pipe_inv x \<Longrightarrow> pipe_ready p 0 (ex_pipes x)" "pipe_inv x \<Longrightarrow> pipe_resumed p 0 (enter LkPtable (ex_pipes x))"
  using ex_pipes_simps(1) [of x p] ex_resumed
  by (simp_all add: pipe_ready_def pipe_resumed_def) (simp_all add: ex_pipes_def)

definition ex_full :: pipe where
  "ex_full = ex_pipe\<lparr>nwrite := 511\<rparr>"

lemma ex_pipe_bytes:
  "pipe_inv ex_pipe" "pipe_inv ex_full" "pipe_inv (put_byte 5 ex_pipe)"
  "pipe_bytes ex_pipe = []" "length (pipe_bytes ex_full) = 512" "pipe_bytes (put_byte 5 ex_pipe) = [5]"
proof -
  show e: "pipe_inv ex_pipe" "pipe_bytes ex_pipe = []" by (simp_all add: pipe_inv_def pipe_bytes_def ex_pipe_def PIPESIZE_def)
  show "pipe_inv ex_full" "length (pipe_bytes ex_full) = 512"
    by (simp_all add: pipe_inv_def length_pipe_bytes ex_full_def ex_pipe_def PIPESIZE_def)
  have "\<not> pipe_full ex_pipe" using e(2) by (simp add: pipe_full_iff PIPESIZE_def)
  then show "pipe_inv (put_byte 5 ex_pipe)" "pipe_bytes (put_byte 5 ex_pipe) = [5]" using pipe_inv_put [OF e(1)] e(2) by simp_all
qed

text \<open>The writer finds the pipe full, and empty when it is resumed; the reader the other way round.\<close>

theorem pipewrite_appends_witness:
  "\<exists>v. resume_with [enter LkPtable (ex_pipes ex_pipe)] (pipewrite 0 [65, 66] (ex_pipes ex_full)) = Ok 2 v \<and>
    pipe_bytes (pipes v 0) = [65, 66]"
proof -
  have ts: "\<forall>t \<in> set [enter LkPtable (ex_pipes ex_pipe)]. pipe_resumed 0 0 t" using ex_pipes_ready(2) [OF ex_pipe_bytes(1)] by simp
  have room: "pipe_room 0 (ex_pipes ex_full) = 0" "pipe_room 0 (enter LkPtable (ex_pipes ex_pipe)) = 512"
    using ex_pipe_bytes(4,5) by (simp_all add: pipe_room_def PIPESIZE_def)
  have "wr_sleeps 0 0 [65, 66] (butlast [ex_pipes ex_full, enter LkPtable (ex_pipes ex_pipe)])"
    by (simp add: room) (simp add: ex_full_def ex_pipe_def)
  from pipewrite_appends [OF ex_pipes_ready(1) [OF ex_pipe_bytes(2)] ts _ this]
  show ?thesis using ex_pipe_bytes(4) by (simp add: wr_outcome_def room) blast
qed

theorem piperead_takes_front_witness:
  "\<exists>v. resume_with [enter LkPtable (ex_pipes (put_byte 5 ex_pipe))] (piperead 0 100 (ex_pipes ex_pipe)) = Ok (1, [5]) v \<and>
    pipe_bytes (pipes v 0) = []"
proof -
  let ?t = "enter LkPtable (ex_pipes (put_byte 5 ex_pipe))"
  have ts: "\<forall>t \<in> set [?t]. pipe_resumed 0 0 t" using ex_pipes_ready(2) [OF ex_pipe_bytes(3)] by simp
  have "writeopen ex_pipe" by (simp add: ex_pipe_def)
  then have "\<forall>t \<in> set (butlast [ex_pipes ex_pipe, ?t]). pipe_bytes (pipes t 0) = [] \<and> writeopen (pipes t 0) \<and> \<not> killed (ptable t ! 0)"
    using ex_pipe_bytes(4) by simp
  from piperead_takes_front [OF ex_pipes_ready(1) [OF ex_pipe_bytes(1)] ts _ this, of 100]
  show ?thesis using ex_pipe_bytes(6) by (simp add: rd_outcome_def) blast
qed

end
