(* ===== verification/File.thy ===== *)
theory File
  imports Pipe
begin

text \<open>
  file.c, the table of open files, and pipealloc() of pipe.c. A \<open>struct file *\<close> is an index into
  \<open>ftable\<close>. fileread() returns the bytes it read, filewrite() takes the bytes to write.
\<close>

definition upd_file :: "nat \<Rightarrow> (ofile \<Rightarrow> ofile) \<Rightarrow> 'z file_state_scheme \<Rightarrow> 'z file_state_scheme" where
  "upd_file f g s = s\<lparr>ftable := (ftable s)[f := g (ftable s ! f)]\<rparr>"

definition fileinit :: "('z file_state_scheme, unit) kM" where
  "fileinit = initlock LkFtable ''ftable''"

definition filealloc :: "('z file_state_scheme, nat option) kM" where
  "filealloc =
     kthen (acquire LkFtable) (
     kbind (kgets (\<lambda>s. find_idx (\<lambda>f. f_ref f = 0) (ftable s))) (\<lambda>r.
     case r of
       Some f \<Rightarrow>
         kthen (kmodify (upd_file f (\<lambda>x. x\<lparr>f_ref := 1\<rparr>))) (
         kthen (release LkFtable) (ret (Some f)))
     | None \<Rightarrow> kthen (release LkFtable) (ret None)))"

definition filedup :: "nat \<Rightarrow> ('z file_state_scheme, nat) kM" where
  "filedup f =
     kthen (acquire LkFtable) (
     kbind (kgets (\<lambda>s. f_ref (ftable s ! f))) (\<lambda>r.
     if r < 1 then kfail (Panic ''filedup'')
     else
       kthen (kmodify (upd_file f (\<lambda>x. x\<lparr>f_ref := f_ref x + 1\<rparr>))) (
       kthen (release LkFtable) (ret f))))"

definition fileclose :: "nat \<Rightarrow> ('z file_state_scheme, unit) kM" where
  "fileclose f =
     kthen (acquire LkFtable) (
     kbind (kgets (\<lambda>s. f_ref (ftable s ! f))) (\<lambda>r.
     if r < 1 then kfail (Panic ''fileclose'')
     else
       kthen (kmodify (upd_file f (\<lambda>x. x\<lparr>f_ref := f_ref x - 1\<rparr>))) (
       if r - 1 > 0 then release LkFtable
       else
         kbind (kgets (\<lambda>s. ftable s ! f)) (\<lambda>ff.
         kthen (kmodify (upd_file f (\<lambda>x. x\<lparr>f_ref := 0\<rparr>))) (
         kthen (kmodify (upd_file f (\<lambda>x. x\<lparr>f_type := FD_NONE\<rparr>))) (
         kthen (release LkFtable) (
         if f_type ff = FD_PIPE then pipeclose (f_pipe ff) (writable ff)
         else if f_type ff = FD_INODE then kthen begin_op (kthen (iput (f_ip ff)) end_op)
         else ret ())))))))"

definition filestat :: "nat \<Rightarrow> ('z file_state_scheme, int \<times> stat option) kM" where
  "filestat f =
     kbind (kgets (\<lambda>s. ftable s ! f)) (\<lambda>x.
     if f_type x = FD_INODE then
       kthen (ilock (Some (f_ip x))) (
       kbind (stati (f_ip x)) (\<lambda>st.
       kthen (iunlock (Some (f_ip x))) (ret (0, Some st))))
     else ret (-1, None))"

definition fileread :: "nat \<Rightarrow> int \<Rightarrow> ('z file_state_scheme, int \<times> uchar list) kM" where
  "fileread f n =
     kbind (kgets (\<lambda>s. ftable s ! f)) (\<lambda>x.
     if \<not> readable x then ret (-1, [])
     else if f_type x = FD_PIPE then piperead (f_pipe x) n
     else if f_type x = FD_INODE then
       kthen (ilock (Some (f_ip x))) (
       kbind (kgets (\<lambda>s. f_off (ftable s ! f))) (\<lambda>off.
       kbind (readi (f_ip x) off (of_int n)) (\<lambda>(r, bs).
       kthen (kwhen (r > 0) (kmodify (upd_file f (\<lambda>x. x\<lparr>f_off := f_off x + of_int r\<rparr>)))) (
       kthen (iunlock (Some (f_ip x))) (ret (r, bs))))))
     else kfail (Panic ''fileread''))"

definition max_write :: nat where
  "max_write = ((MAXOPBLOCKS - 1 - 1 - 2) div 2) * 512"

text \<open>The loop of filewrite(): every round writes at least one byte or leaves the loop.\<close>

primrec filewrite_loop :: "nat \<Rightarrow> nat \<Rightarrow> uchar list \<Rightarrow> ('z file_state_scheme, bool) kM" where
  "filewrite_loop 0 f bs = kfail NoFuel"
| "filewrite_loop (Suc k) f bs =
     (if bs = [] then ret True
      else
        (let n1 = min (length bs) max_write in
         kthen begin_op (
         kbind (kgets (\<lambda>s. f_ip (ftable s ! f))) (\<lambda>ip.
         kthen (ilock (Some ip)) (
         kbind (kgets (\<lambda>s. f_off (ftable s ! f))) (\<lambda>off.
         kbind (writei ip off (take n1 bs)) (\<lambda>r.
         kthen (kwhen (r > 0) (kmodify (upd_file f (\<lambda>x. x\<lparr>f_off := f_off x + of_int r\<rparr>)))) (
         kthen (iunlock (Some ip)) (
         kthen end_op (
         if r < 0 then ret False
         else if r \<noteq> int n1 then kfail (Panic ''short filewrite'')
         else filewrite_loop k f (drop n1 bs)))))))))))"

definition filewrite :: "nat \<Rightarrow> uchar list \<Rightarrow> ('z file_state_scheme, int) kM" where
  "filewrite f bs =
     kbind (kgets (\<lambda>s. ftable s ! f)) (\<lambda>x.
     if \<not> writable x then ret (-1)
     else if f_type x = FD_PIPE then pipewrite (f_pipe x) bs
     else if f_type x = FD_INODE then
       kbind (filewrite_loop (Suc (length bs)) f bs) (\<lambda>all.
       ret (if all then int (length bs) else -1))
     else kfail (Panic ''filewrite''))"

section \<open>pipealloc (pipe.c)\<close>

definition pipealloc_bad :: "nat option \<Rightarrow> nat option \<Rightarrow> uint \<Rightarrow> ('z file_state_scheme, (nat \<times> nat) option) kM" where
  "pipealloc_bad f0 f1 p =
     kthen (kwhen (p \<noteq> 0) (kfree p)) (
     kthen (case f0 of None \<Rightarrow> ret () | Some f \<Rightarrow> fileclose f) (
     kthen (case f1 of None \<Rightarrow> ret () | Some f \<Rightarrow> fileclose f) (
     ret None)))"

definition pipealloc :: "('z file_state_scheme, (nat \<times> nat) option) kM" where
  "pipealloc =
     kbind filealloc (\<lambda>f0.
     case f0 of None \<Rightarrow> pipealloc_bad None None 0
     | Some a \<Rightarrow>
       kbind filealloc (\<lambda>f1.
       case f1 of None \<Rightarrow> pipealloc_bad (Some a) None 0
       | Some b \<Rightarrow>
         kbind kalloc (\<lambda>p.
         if p = 0 then pipealloc_bad (Some a) (Some b) 0
         else
           kthen (kmodify (upd_pipe p (\<lambda>x. x\<lparr>readopen := True, writeopen := True, nwrite := 0, nread := 0\<rparr>))) (
           kthen (initlock (LkPipe p) ''pipe'') (
           kthen (kmodify (upd_file a (\<lambda>x. x\<lparr>f_type := FD_PIPE, readable := True, writable := False, f_pipe := p\<rparr>))) (
           kthen (kmodify (upd_file b (\<lambda>x. x\<lparr>f_type := FD_PIPE, readable := False, writable := True, f_pipe := p\<rparr>))) (
           ret (Some (a, b)))))))))"

end
