(* ===== verification/Process.thy ===== *)
theory Process
  imports File
begin

text \<open>
  The operations of proc.c that need the file system: userinit(), fork(), exit() and forkret().
  The machine code of initcode.S, which the build links into the kernel, is an argument of
  \<open>userinit\<close>. A \<open>NullPointer\<close> fault stands for a dereference of \<open>myproc() == 0\<close>.
\<close>

section \<open>Helpers\<close>

definition with_proc :: "string \<Rightarrow> (nat \<Rightarrow> ('z proc_state_scheme, 'a) kM) \<Rightarrow> ('z proc_state_scheme, 'a) kM" where
  "with_proc who f = kbind myproc (\<lambda>p. case p of None \<Rightarrow> kfail (NullPointer who) | Some c \<Rightarrow> f c)"

text \<open>
  safestrcpy() of string.c into an array of \<open>length dst\<close> bytes, the source given without its NUL:
  a source that fits is followed by the NUL it has and by the one stored after the loop.
\<close>

definition safestrcpy_list :: "uchar list \<Rightarrow> uchar list \<Rightarrow> uchar list" where
  "safestrcpy_list dst t =
     (if dst = [] then []
      else splice dst 0 (if length t < length dst - 1 then t @ [0, 0] else take (length dst - 1) t @ [0]))"

definition c_str :: "uchar list \<Rightarrow> uchar list" where
  "c_str = takeWhile (\<lambda>c. c \<noteq> 0)"

definition zero_tf :: trapframe where
  "zero_tf = \<lparr>tf_edi = 0, tf_esi = 0, tf_ebp = 0, tf_oesp = 0, tf_ebx = 0, tf_edx = 0, tf_ecx = 0, tf_eax = 0,
     tf_gs = 0, tf_fs = 0, tf_es = 0, tf_ds = 0, tf_trapno = 0, tf_err = 0, tf_eip = 0, tf_cs = 0,
     tf_eflags = 0, tf_esp = 0, tf_ss = 0\<rparr>"

definition user_tf :: trapframe where
  "user_tf =
     (let ds = ucast ((of_nat SEG_UDATA * 8) OR DPL_USER) :: ushort in
      zero_tf\<lparr>tf_cs := ucast ((of_nat SEG_UCODE * 8) OR DPL_USER), tf_ds := ds, tf_es := ds, tf_ss := ds,
        tf_eflags := FL_IF, tf_esp := PGSIZE, tf_eip := 0\<rparr>)"

section \<open>The first process\<close>

definition userinit :: "uchar list \<Rightarrow> ('z file_state_scheme, unit) kM" where
  "userinit initcode =
     kbind allocproc (\<lambda>r.
     kthen (kmodify (\<lambda>s. s\<lparr>initproc := r\<rparr>)) (
     case r of None \<Rightarrow> kfail (NullPointer ''userinit'')
     | Some i \<Rightarrow>
       kbind setupkvm (\<lambda>pd.
       kthen (kmodify (upd_proc i (\<lambda>p. p\<lparr>pgdir := pd\<rparr>))) (
       if pd = 0 then kfail (Panic ''userinit: out of memory?'')
       else
         kthen (inituvm pd initcode) (
         kthen (kmodify (upd_proc i (\<lambda>p. p\<lparr>sz := PGSIZE\<rparr>))) (
         kthen (kmodify (upd_proc i (\<lambda>p. p\<lparr>tf := user_tf\<rparr>))) (
         kthen (kmodify (upd_proc i (\<lambda>p. p\<lparr>pname := safestrcpy_list (pname p) (map (of_nat o of_char) ''initcode'')\<rparr>))) (
         kbind (namei [slash]) (\<lambda>root.
         kthen (kmodify (upd_proc i (\<lambda>p. p\<lparr>cwd := root\<rparr>))) (
         kthen (acquire LkPtable) (
         kthen (kmodify (upd_proc i (\<lambda>p. p\<lparr>pstate := RUNNABLE\<rparr>))) (
         release LkPtable)))))))))))) "

section \<open>fork\<close>

definition dup_fd :: "nat \<Rightarrow> nat \<Rightarrow> nat \<Rightarrow> ('z file_state_scheme, unit) kM" where
  "dup_fd c n fd =
     kbind (kgets (\<lambda>s. ofile (ptable s ! c) ! fd)) (\<lambda>f.
     case f of None \<Rightarrow> ret ()
     | Some g \<Rightarrow> kbind (filedup g) (\<lambda>h. kmodify (upd_proc n (\<lambda>p. p\<lparr>ofile := (ofile p)[fd := Some h]\<rparr>))))"

definition dup_cwd :: "nat \<Rightarrow> nat \<Rightarrow> ('z file_state_scheme, unit) kM" where
  "dup_cwd c n =
     kbind (kgets (\<lambda>s. cwd (ptable s ! c))) (\<lambda>d.
     case d of None \<Rightarrow> kfail (NullPointer ''fork'')
     | Some i \<Rightarrow> kbind (idup i) (\<lambda>j. kmodify (upd_proc n (\<lambda>p. p\<lparr>cwd := Some j\<rparr>))))"

definition fork :: "('z file_state_scheme, int) kM" where
  "fork = with_proc ''fork'' (\<lambda>c.
     kbind allocproc (\<lambda>r.
     case r of None \<Rightarrow> ret (-1)
     | Some n \<Rightarrow>
       kbind (kgets (\<lambda>s. ptable s ! c)) (\<lambda>cp.
       kbind (copyuvm (pgdir cp) (sz cp)) (\<lambda>pd.
       kthen (kmodify (upd_proc n (\<lambda>p. p\<lparr>pgdir := pd\<rparr>))) (
       if pd = 0 then
         kbind (kgets (\<lambda>s. kstack (ptable s ! n))) (\<lambda>ks.
         kthen (kfree ks) (
         kthen (kmodify (upd_proc n (\<lambda>p. p\<lparr>kstack := 0\<rparr>))) (
         kthen (kmodify (upd_proc n (\<lambda>p. p\<lparr>pstate := UNUSED\<rparr>))) (ret (-1)))))
       else
         kthen (kmodify (upd_proc n (\<lambda>p. p\<lparr>sz := sz cp\<rparr>))) (
         kthen (kmodify (upd_proc n (\<lambda>p. p\<lparr>parent := Some c\<rparr>))) (
         kthen (kmodify (upd_proc n (\<lambda>p. p\<lparr>tf := (tf cp)\<lparr>tf_eax := 0\<rparr>\<rparr>))) (
         kthen (kfor [0..<NOFILE] (dup_fd c n)) (
         kthen (dup_cwd c n) (
         kthen (kmodify (\<lambda>s. upd_proc n (\<lambda>p. p\<lparr>pname := safestrcpy_list (pname p) (c_str (pname (ptable s ! c)))\<rparr>) s)) (
         kbind (kgets (\<lambda>s. pid (ptable s ! n))) (\<lambda>pd'.
         kthen (acquire LkPtable) (
         kthen (kmodify (upd_proc n (\<lambda>p. p\<lparr>pstate := RUNNABLE\<rparr>))) (
         kthen (release LkPtable) (
         ret pd')))))))))))))))"

section \<open>exit\<close>

definition close_fd :: "nat \<Rightarrow> nat \<Rightarrow> ('z file_state_scheme, unit) kM" where
  "close_fd c fd =
     kbind (kgets (\<lambda>s. ofile (ptable s ! c) ! fd)) (\<lambda>f.
     case f of None \<Rightarrow> ret ()
     | Some g \<Rightarrow> kthen (fileclose g) (kmodify (upd_proc c (\<lambda>p. p\<lparr>ofile := (ofile p)[fd := None]\<rparr>))))"

definition orphan :: "nat \<Rightarrow> nat \<Rightarrow> ('z proc_state_scheme, unit) kM" where
  "orphan c k =
     kbind (kgets (\<lambda>s. parent (ptable s ! k))) (\<lambda>p.
     kwhen (p = Some c) (
       kthen (kmodify (\<lambda>s. upd_proc k (\<lambda>q. q\<lparr>parent := initproc s\<rparr>) s)) (
       kbind (kgets (\<lambda>s. pstate (ptable s ! k))) (\<lambda>st.
       kwhen (st = ZOMBIE) (kbind (kgets initproc) (\<lambda>ip. wakeup1 (map_option ChProc ip)))))))"

definition exit :: "('z file_state_scheme, unit) kM" where
  "exit =
     kbind myproc (\<lambda>cp.
     kbind (kgets initproc) (\<lambda>ip.
     if cp = ip then kfail (Panic ''init exiting'')
     else case cp of None \<Rightarrow> kfail (NullPointer ''exit'')
     | Some c \<Rightarrow>
       kthen (kfor [0..<NOFILE] (close_fd c)) (
       kthen begin_op (
       kbind (kgets (\<lambda>s. cwd (ptable s ! c))) (\<lambda>d.
       kthen (case d of None \<Rightarrow> kfail (NullPointer ''exit'') | Some i \<Rightarrow> iput i) (
       kthen end_op (
       kthen (kmodify (upd_proc c (\<lambda>p. p\<lparr>cwd := None\<rparr>))) (
       kthen (acquire LkPtable) (
       kbind (kgets (\<lambda>s. parent (ptable s ! c))) (\<lambda>par.
       kthen (wakeup1 (map_option ChProc par)) (
       kthen (kfor [0..<NPROC] (orphan c)) (
       kthen (kmodify (upd_proc c (\<lambda>p. p\<lparr>pstate := ZOMBIE\<rparr>))) (
       kthen sched (
       kfail (Panic ''zombie exit'')))))))))))))))"

section \<open>The first return to user space\<close>

definition forkret :: "('z file_state_scheme, unit) kM" where
  "forkret =
     kthen (release LkPtable) (
     kbind (kgets forkret_first) (\<lambda>b.
     kwhen b (
       kthen (kmodify (\<lambda>s. s\<lparr>forkret_first := False\<rparr>)) (
       kthen (iinit ROOTDEV) (initlog ROOTDEV)))))"

end
