(* ===== verification/Syscall.thy ===== *)
theory Syscall
  imports Process
begin

text \<open>
  The argument fetching of syscall.c. The kernel reads and writes user memory through the page
  table that is loaded in \<open>cr3\<close>; a page that is not mapped, or not writable for a store, makes the
  kernel trap, which ends in panic("trap"). Strings are handed on as the bytes before their NUL.
\<close>

section \<open>User memory\<close>

definition user_addr :: "'z machine_scheme \<Rightarrow> bool \<Rightarrow> uint \<Rightarrow> uint option" where
  "user_addr s wr va =
     (let need = (if wr then PTE_P OR PTE_W else PTE_P);
          pde = load32 (mem s) (P2V (cr3 s (lapic_id s)) + 4 * PDX va);
          pte = load32 (mem s) (P2V (PTE_ADDR pde) + 4 * PTX va)
      in if pde AND need = need \<and> pte AND need = need
         then Some (P2V (PTE_ADDR pte) + (va AND 0xFFF)) else None)"

definition load_user :: "uint \<Rightarrow> ('z machine_scheme, uchar) kM" where
  "load_user va =
     kbind (kgets (\<lambda>s. user_addr s False va)) (\<lambda>a.
     case a of None \<Rightarrow> kfail (Panic ''trap'') | Some ka \<Rightarrow> kgets (\<lambda>s. mem s ka))"

definition store_user :: "uint \<Rightarrow> uchar \<Rightarrow> ('z machine_scheme, unit) kM" where
  "store_user va c =
     kbind (kgets (\<lambda>s. user_addr s True va)) (\<lambda>a.
     case a of None \<Rightarrow> kfail (Panic ''trap'') | Some ka \<Rightarrow> kmodify (\<lambda>s. s\<lparr>mem := (mem s)(ka := c)\<rparr>))"

primrec load_bytes :: "nat \<Rightarrow> uint \<Rightarrow> ('z machine_scheme, uchar list) kM" where
  "load_bytes 0 va = ret []"
| "load_bytes (Suc n) va = kbind (load_user va) (\<lambda>c. kbind (load_bytes n (va + 1)) (\<lambda>cs. ret (c # cs)))"

primrec store_bytes :: "uint \<Rightarrow> uchar list \<Rightarrow> ('z machine_scheme, unit) kM" where
  "store_bytes va [] = ret ()"
| "store_bytes va (c # cs) = kthen (store_user va c) (store_bytes (va + 1) cs)"

section \<open>Fetching arguments\<close>

text \<open>Where the code returns -1 the result is \<open>None\<close>.\<close>

definition fetchint :: "uint \<Rightarrow> ('z proc_state_scheme, int option) kM" where
  "fetchint addr = with_proc ''fetchint'' (\<lambda>c.
     kbind (kgets (\<lambda>s. sz (ptable s ! c))) (\<lambda>n.
     if addr \<ge> n \<or> addr + 4 > n then ret None
     else kbind (load_bytes 4 addr) (\<lambda>bs. ret (Some (sint (get32l bs 0))))))"

primrec fetchstr_loop :: "nat \<Rightarrow> uint \<Rightarrow> uchar list \<Rightarrow> ('z machine_scheme, uchar list option) kM" where
  "fetchstr_loop 0 a acc = ret None"
| "fetchstr_loop (Suc n) a acc =
     kbind (load_user a) (\<lambda>c. if c = 0 then ret (Some (rev acc)) else fetchstr_loop n (a + 1) (c # acc))"

definition fetchstr :: "uint \<Rightarrow> ('z proc_state_scheme, uchar list option) kM" where
  "fetchstr addr = with_proc ''fetchstr'' (\<lambda>c.
     kbind (kgets (\<lambda>s. sz (ptable s ! c))) (\<lambda>n.
     if addr \<ge> n then ret None else fetchstr_loop (unat n - unat addr) addr []))"

definition argint :: "nat \<Rightarrow> ('z proc_state_scheme, int option) kM" where
  "argint n = with_proc ''argint'' (\<lambda>c.
     kbind (kgets (\<lambda>s. tf_esp (tf (ptable s ! c)))) (\<lambda>sp. fetchint (sp + 4 + 4 * of_nat n)))"

definition argptr :: "nat \<Rightarrow> int \<Rightarrow> ('z proc_state_scheme, uint option) kM" where
  "argptr n len = with_proc ''argptr'' (\<lambda>c.
     kbind (argint n) (\<lambda>r.
     case r of None \<Rightarrow> ret None
     | Some i \<Rightarrow>
       kbind (kgets (\<lambda>s. sz (ptable s ! c))) (\<lambda>lim.
       let a = of_int i :: uint in
       if len < 0 \<or> a \<ge> lim \<or> a + of_int len > lim then ret None else ret (Some a))))"

definition argstr :: "nat \<Rightarrow> ('z proc_state_scheme, uchar list option) kM" where
  "argstr n =
     kbind (argint n) (\<lambda>r. case r of None \<Rightarrow> ret None | Some i \<Rightarrow> fetchstr (of_int i))"

text \<open>\<open>if(... < 0) return -1\<close> on a fetched argument.\<close>

definition need :: "('s, 'a option) kM \<Rightarrow> ('a \<Rightarrow> ('s, int) kM) \<Rightarrow> ('s, int) kM" where
  "need m f = kbind m (\<lambda>r. case r of None \<Rightarrow> ret (-1) | Some x \<Rightarrow> f x)"

end
