(* ===== verification/Sysfile.thy ===== *)
theory Sysfile
  imports Syscall
begin

text \<open>
  The system calls of sysfile.c, up to sys_exec(). Results are the C return values; the kernel's
  copies into user memory are stored after the call that produced the bytes, and the bytes a call
  takes are loaded before it.
\<close>

definition O_RDONLY :: uint where "O_RDONLY = 0"
definition O_WRONLY :: uint where "O_WRONLY = 1"
definition O_RDWR :: uint where "O_RDWR = 2"
definition O_CREATE :: uint where "O_CREATE = 0x200"

section \<open>Descriptors\<close>

definition argfd :: "nat \<Rightarrow> ('z proc_state_scheme, (nat \<times> nat) option) kM" where
  "argfd n =
     kbind (argint n) (\<lambda>r.
     case r of None \<Rightarrow> ret None
     | Some fd \<Rightarrow>
       if fd < 0 \<or> fd \<ge> int NOFILE then ret None
       else with_proc ''argfd'' (\<lambda>c.
         kbind (kgets (\<lambda>s. ofile (ptable s ! c) ! nat fd)) (\<lambda>f.
         ret (map_option (\<lambda>g. (nat fd, g)) f))))"

definition set_fd :: "nat \<Rightarrow> nat \<Rightarrow> nat option \<Rightarrow> 'z proc_state_scheme \<Rightarrow> 'z proc_state_scheme" where
  "set_fd c fd f = upd_proc c (\<lambda>p. p\<lparr>ofile := (ofile p)[fd := f]\<rparr>)"

definition fdalloc :: "nat \<Rightarrow> ('z proc_state_scheme, nat option) kM" where
  "fdalloc f = with_proc ''fdalloc'' (\<lambda>c.
     kbind (kgets (\<lambda>s. find_idx (\<lambda>x. x = None) (ofile (ptable s ! c)))) (\<lambda>r.
     case r of None \<Rightarrow> ret None
     | Some fd \<Rightarrow> kthen (kmodify (set_fd c fd (Some f))) (ret (Some fd))))"

definition sys_dup :: "('z file_state_scheme, int) kM" where
  "sys_dup =
     need (argfd 0) (\<lambda>(_, f).
     need (fdalloc f) (\<lambda>fd.
     kthen (kbind (filedup f) (\<lambda>_. ret ())) (ret (int fd))))"

definition sys_read :: "('z file_state_scheme, int) kM" where
  "sys_read =
     need (argfd 0) (\<lambda>(_, f).
     need (argint 2) (\<lambda>n.
     need (argptr 1 n) (\<lambda>p.
     kbind (fileread f n) (\<lambda>(r, bs). kthen (store_bytes p bs) (ret r)))))"

definition sys_write :: "('z file_state_scheme, int) kM" where
  "sys_write =
     need (argfd 0) (\<lambda>(_, f).
     need (argint 2) (\<lambda>n.
     need (argptr 1 n) (\<lambda>p.
     kbind (load_bytes (nat n) p) (\<lambda>bs. filewrite f bs))))"

definition sys_close :: "('z file_state_scheme, int) kM" where
  "sys_close =
     need (argfd 0) (\<lambda>(fd, f).
     with_proc ''sys_close'' (\<lambda>c.
     kthen (kmodify (set_fd c fd None)) (
     kthen (fileclose f) (ret 0))))"

text \<open>\<open>struct stat\<close> has 20 bytes; its padding is not written.\<close>

definition store_stat :: "uint \<Rightarrow> stat \<Rightarrow> ('z machine_scheme, unit) kM" where
  "store_stat p st =
     kthen (store_bytes (p + 4) (bytes32 (st_dev st))) (
     kthen (store_bytes (p + 8) (bytes32 (st_ino st))) (
     kthen (store_bytes p (bytes16 (st_type st))) (
     kthen (store_bytes (p + 12) (bytes16 (st_nlink st))) (
     store_bytes (p + 16) (bytes32 (st_size st))))))"

definition sys_fstat :: "('z file_state_scheme, int) kM" where
  "sys_fstat =
     need (argfd 0) (\<lambda>(_, f).
     need (argptr 1 20) (\<lambda>p.
     kbind (filestat f) (\<lambda>(r, st).
     kthen (case st of None \<Rightarrow> ret () | Some x \<Rightarrow> store_stat p x) (ret r))))"

section \<open>Links and directories\<close>

definition add_nlink :: "nat \<Rightarrow> ushort \<Rightarrow> ('z cons_state_scheme, unit) kM" where
  "add_nlink i k = kthen (kmodify (upd_ino i (\<lambda>x. x\<lparr>i_nlink := i_nlink x + k\<rparr>))) (iupdate i)"

definition sys_link_bad :: "nat \<Rightarrow> ('z cons_state_scheme, int) kM" where
  "sys_link_bad ip =
     kthen (ilock (Some ip)) (
     kthen (add_nlink ip (-1)) (
     kthen (iunlockput ip) (
     kthen end_op (ret (-1)))))"

definition sys_link :: "('z file_state_scheme, int) kM" where
  "sys_link =
     need (argstr 0) (\<lambda>old.
     need (argstr 1) (\<lambda>new.
     kthen begin_op (
     kbind (namei old) (\<lambda>r.
     case r of None \<Rightarrow> kthen end_op (ret (-1))
     | Some ip \<Rightarrow>
       kthen (ilock (Some ip)) (
       kbind (kgets (\<lambda>s. i_type (icache s ! ip))) (\<lambda>ty.
       if ty = T_DIR then kthen (iunlockput ip) (kthen end_op (ret (-1)))
       else
         kthen (add_nlink ip 1) (
         kthen (iunlock (Some ip)) (
         kbind (nameiparent new) (\<lambda>q.
         case q of None \<Rightarrow> sys_link_bad ip
         | Some (dp, name) \<Rightarrow>
           kthen (ilock (Some dp)) (
           kbind (kgets (\<lambda>s. i_dev (icache s ! dp) \<noteq> i_dev (icache s ! ip))) (\<lambda>far.
           kbind (if far then ret (-1)
                  else kbind (kgets (\<lambda>s. i_inum (icache s ! ip))) (\<lambda>n. dirlink dp name n)) (\<lambda>v.
           if v < 0 then kthen (iunlockput dp) (sys_link_bad ip)
           else
             kthen (iunlockput dp) (
             kthen (iput ip) (
             kthen end_op (ret 0)))))))))))))))"

primrec isdirempty_loop :: "nat \<Rightarrow> nat list \<Rightarrow> ('z cons_state_scheme, bool) kM" where
  "isdirempty_loop i [] = ret True"
| "isdirempty_loop i (off # offs) =
     kbind (read_dirent i off ''isdirempty: readi'') (\<lambda>de.
     if d_inum de \<noteq> 0 then ret False else isdirempty_loop i offs)"

definition isdirempty :: "nat \<Rightarrow> ('z cons_state_scheme, bool) kM" where
  "isdirempty i = kbind (kgets (\<lambda>s. i_size (icache s ! i))) (\<lambda>n. isdirempty_loop i (drop 2 (dir_offsets n)))"

definition dot :: "uchar list" where "dot = [46]"
definition dotdot :: "uchar list" where "dotdot = [46, 46]"

definition sys_unlink_bad :: "nat \<Rightarrow> ('z cons_state_scheme, int) kM" where
  "sys_unlink_bad dp = kthen (iunlockput dp) (kthen end_op (ret (-1)))"

definition sys_unlink :: "('z file_state_scheme, int) kM" where
  "sys_unlink =
     need (argstr 0) (\<lambda>path.
     kthen begin_op (
     kbind (nameiparent path) (\<lambda>q.
     case q of None \<Rightarrow> kthen end_op (ret (-1))
     | Some (dp, name) \<Rightarrow>
       kthen (ilock (Some dp)) (
       if namecmp name dot = 0 \<or> namecmp name dotdot = 0 then sys_unlink_bad dp
       else kbind (dirlookup dp name) (\<lambda>r.
       case r of None \<Rightarrow> sys_unlink_bad dp
       | Some (ip, off) \<Rightarrow>
         kthen (ilock (Some ip)) (
         kbind (kgets (\<lambda>s. icache s ! ip)) (\<lambda>x.
         if sint (i_nlink x) < 1 then kfail (Panic ''unlink: nlink < 1'')
         else kbind (if i_type x = T_DIR then isdirempty ip else ret True) (\<lambda>ok.
         if \<not> ok then kthen (iunlockput ip) (sys_unlink_bad dp)
         else kbind (writei dp (of_nat off) (replicate 16 0)) (\<lambda>n.
         if n \<noteq> 16 then kfail (Panic ''unlink: writei'')
         else
           kthen (kwhen (i_type x = T_DIR) (add_nlink dp (-1))) (
           kthen (iunlockput dp) (
           kthen (add_nlink ip (-1)) (
           kthen (iunlockput ip) (
           kthen end_op (ret 0))))))))))))))"

section \<open>Creating and opening\<close>

definition create :: "uchar list \<Rightarrow> ushort \<Rightarrow> ushort \<Rightarrow> ushort \<Rightarrow> ('z cons_state_scheme, nat option) kM" where
  "create path ty major minor =
     kbind (nameiparent path) (\<lambda>q.
     case q of None \<Rightarrow> ret None
     | Some (dp, name) \<Rightarrow>
       kthen (ilock (Some dp)) (
       kbind (dirlookup dp name) (\<lambda>r.
       case r of
         Some (ip, _) \<Rightarrow>
           kthen (iunlockput dp) (
           kthen (ilock (Some ip)) (
           kbind (kgets (\<lambda>s. i_type (icache s ! ip))) (\<lambda>old.
           if ty = T_FILE \<and> old = T_FILE then ret (Some ip)
           else kthen (iunlockput ip) (ret None))))
       | None \<Rightarrow>
           kbind (kgets (\<lambda>s. i_dev (icache s ! dp))) (\<lambda>dev.
           kbind (ialloc dev ty) (\<lambda>ip.
           kthen (ilock (Some ip)) (
           kthen (kmodify (upd_ino ip (\<lambda>x. x\<lparr>i_major := major, i_minor := minor, i_nlink := 1\<rparr>))) (
           kthen (iupdate ip) (
           kbind (kgets (\<lambda>s. i_inum (icache s ! ip))) (\<lambda>inum.
           kthen (kwhen (ty = T_DIR) (
             kthen (add_nlink dp 1) (
             kbind (dirlink ip dot inum) (\<lambda>a.
             kbind (if a < 0 then ret (-1)
                    else kbind (kgets (\<lambda>s. i_inum (icache s ! dp))) (\<lambda>d. dirlink ip dotdot d)) (\<lambda>b.
             kwhen (b < 0) (kfail (Panic ''create dots''))))))) (
           kbind (dirlink dp name inum) (\<lambda>v.
           if v < 0 then kfail (Panic ''create: dirlink'')
           else kthen (iunlockput dp) (ret (Some ip))))))))))))) "

text \<open>The inode sys_open() works on, locked; \<open>None\<close> after the early \<open>end_op(); return -1\<close>.\<close>

definition open_inode :: "uchar list \<Rightarrow> uint \<Rightarrow> ('z cons_state_scheme, nat option) kM" where
  "open_inode path omode =
     (if omode AND O_CREATE \<noteq> 0 then
        kbind (create path T_FILE 0 0) (\<lambda>r.
        case r of None \<Rightarrow> kthen end_op (ret None) | Some ip \<Rightarrow> ret (Some ip))
      else
        kbind (namei path) (\<lambda>r.
        case r of None \<Rightarrow> kthen end_op (ret None)
        | Some ip \<Rightarrow>
          kthen (ilock (Some ip)) (
          kbind (kgets (\<lambda>s. i_type (icache s ! ip))) (\<lambda>ty.
          if ty = T_DIR \<and> omode \<noteq> O_RDONLY then
            kthen (iunlockput ip) (kthen end_op (ret None))
          else ret (Some ip)))))"

definition sys_open :: "('z file_state_scheme, int) kM" where
  "sys_open =
     need (argstr 0) (\<lambda>path.
     need (argint 1) (\<lambda>om.
     let omode = of_int om :: uint in
     kthen begin_op (
     need (open_inode path omode) (\<lambda>ip.
     kbind filealloc (\<lambda>fo.
     kbind (case fo of None \<Rightarrow> ret None | Some f \<Rightarrow> fdalloc f) (\<lambda>fdo.
     case (fo, fdo) of
       (Some f, Some fd) \<Rightarrow>
         kthen (iunlock (Some ip)) (
         kthen end_op (
         kthen (kmodify (upd_file f (\<lambda>x. x\<lparr>f_type := FD_INODE, f_ip := ip, f_off := 0,
           readable := (omode AND O_WRONLY = 0),
           writable := (omode AND O_WRONLY \<noteq> 0 \<or> omode AND O_RDWR \<noteq> 0)\<rparr>))) (
         ret (int fd))))
     | _ \<Rightarrow>
         kthen (case fo of None \<Rightarrow> ret () | Some f \<Rightarrow> fileclose f) (
         kthen (iunlockput ip) (
         kthen end_op (ret (-1))))))))))"

definition drop_created :: "('z cons_state_scheme, nat option) kM \<Rightarrow> ('z cons_state_scheme, int) kM" where
  "drop_created m =
     kbind m (\<lambda>r.
     case r of None \<Rightarrow> kthen end_op (ret (-1))
     | Some ip \<Rightarrow> kthen (iunlockput ip) (kthen end_op (ret 0)))"

definition sys_mkdir :: "('z file_state_scheme, int) kM" where
  "sys_mkdir =
     kthen begin_op (drop_created (
       kbind (argstr 0) (\<lambda>p. case p of None \<Rightarrow> ret None | Some path \<Rightarrow> create path T_DIR 0 0)))"

definition sys_mknod :: "('z file_state_scheme, int) kM" where
  "sys_mknod =
     kthen begin_op (drop_created (
       kbind (argstr 0) (\<lambda>p. case p of None \<Rightarrow> ret None | Some path \<Rightarrow>
       kbind (argint 1) (\<lambda>a. case a of None \<Rightarrow> ret None | Some major \<Rightarrow>
       kbind (argint 2) (\<lambda>b. case b of None \<Rightarrow> ret None | Some minor \<Rightarrow>
       create path T_DEV (of_int major) (of_int minor))))))"

definition sys_chdir :: "('z file_state_scheme, int) kM" where
  "sys_chdir = with_proc ''sys_chdir'' (\<lambda>c.
     kthen begin_op (
     kbind (kbind (argstr 0) (\<lambda>p. case p of None \<Rightarrow> ret None | Some path \<Rightarrow> namei path)) (\<lambda>r.
     case r of None \<Rightarrow> kthen end_op (ret (-1))
     | Some ip \<Rightarrow>
       kthen (ilock (Some ip)) (
       kbind (kgets (\<lambda>s. i_type (icache s ! ip))) (\<lambda>ty.
       if ty \<noteq> T_DIR then kthen (iunlockput ip) (kthen end_op (ret (-1)))
       else
         kthen (iunlock (Some ip)) (
         kbind (kgets (\<lambda>s. cwd (ptable s ! c))) (\<lambda>d.
         kthen (case d of None \<Rightarrow> kfail (NullPointer ''sys_chdir'') | Some i \<Rightarrow> iput i) (
         kthen end_op (
         kthen (kmodify (upd_proc c (\<lambda>p. p\<lparr>cwd := Some ip\<rparr>))) (ret 0)))))))))) "

definition sys_pipe :: "('z file_state_scheme, int) kM" where
  "sys_pipe =
     need (argptr 0 8) (\<lambda>p.
     need pipealloc (\<lambda>(rf, wf).
     kbind (fdalloc rf) (\<lambda>a.
     kbind (case a of None \<Rightarrow> ret None | Some _ \<Rightarrow> fdalloc wf) (\<lambda>b.
     case (a, b) of
       (Some fd0, Some fd1) \<Rightarrow>
         kthen (store_bytes p (bytes32 (of_nat fd0))) (
         kthen (store_bytes (p + 4) (bytes32 (of_nat fd1))) (ret 0))
     | _ \<Rightarrow>
         kthen (case a of None \<Rightarrow> ret () | Some fd0 \<Rightarrow> with_proc ''sys_pipe'' (\<lambda>c. kmodify (set_fd c fd0 None))) (
         kthen (fileclose rf) (
         kthen (fileclose wf) (ret (-1))))))))"

end
