(* ===== verification/Exec.thy ===== *)
theory Exec
  imports Sysfile
begin

text \<open>
  exec.c with the ELF headers of elf.h, loaduvm() of vm.c and sys_exec() of sysfile.c. An argument
  vector is the list of its strings, each given without its NUL. \<open>None\<close> is \<open>goto bad\<close>.
\<close>

section \<open>ELF headers\<close>

definition ELF_MAGIC :: uint where "ELF_MAGIC = 0x464C457F"
definition ELF_PROG_LOAD :: uint where "ELF_PROG_LOAD = 1"

record elfhdr =
  e_magic :: uint
  e_entry :: uint
  e_phoff :: uint
  e_phnum :: ushort

record proghdr =
  ph_type :: uint
  ph_off :: uint
  ph_vaddr :: uint
  ph_filesz :: uint
  ph_memsz :: uint

text \<open>The fields the loader uses, at their offsets in the 52-byte and 32-byte headers.\<close>

definition decode_elfhdr :: "uchar list \<Rightarrow> elfhdr" where
  "decode_elfhdr d = \<lparr>e_magic = get32l d 0, e_entry = get32l d 24, e_phoff = get32l d 28, e_phnum = get16l d 44\<rparr>"

definition decode_proghdr :: "uchar list \<Rightarrow> proghdr" where
  "decode_proghdr d =
     \<lparr>ph_type = get32l d 0, ph_off = get32l d 4, ph_vaddr = get32l d 8, ph_filesz = get32l d 16, ph_memsz = get32l d 20\<rparr>"

section \<open>Loading the segments\<close>

primrec loaduvm_loop :: "nat \<Rightarrow> uint \<Rightarrow> uint \<Rightarrow> nat \<Rightarrow> uint \<Rightarrow> uint \<Rightarrow> uint \<Rightarrow> ('z cons_state_scheme, int) kM" where
  "loaduvm_loop 0 pd addr ip offset n i = kfail NoFuel"
| "loaduvm_loop (Suc k) pd addr ip offset n i =
     (if i \<ge> n then ret 0
      else
        kbind (walkpgdir pd (addr + i) False) (\<lambda>pte.
        if pte = 0 then kfail (Panic ''loaduvm: address should exist'')
        else
          kbind (get32 pte) (\<lambda>e.
          let pa = PTE_ADDR e; m = (if n - i < PGSIZE then n - i else PGSIZE) in
          kbind (readi ip (offset + i) m) (\<lambda>(r, bs).
          kthen (write_bytes (P2V pa) bs) (
          if of_int r \<noteq> m then ret (-1)
          else loaduvm_loop k pd addr ip offset n (i + PGSIZE))))))"

definition loaduvm :: "uint \<Rightarrow> uint \<Rightarrow> nat \<Rightarrow> uint \<Rightarrow> uint \<Rightarrow> ('z cons_state_scheme, int) kM" where
  "loaduvm pd addr ip offset n =
     (if addr mod PGSIZE \<noteq> 0 then kfail (Panic ''loaduvm: addr must be page aligned'')
      else loaduvm_loop max_pages pd addr ip offset n 0)"

primrec exec_segments :: "nat \<Rightarrow> uint \<Rightarrow> nat \<Rightarrow> uint \<Rightarrow> uint \<Rightarrow> ('z cons_state_scheme, uint option) kM" where
  "exec_segments 0 pd ip off sz0 = ret (Some sz0)"
| "exec_segments (Suc k) pd ip off sz0 =
     kbind (readi ip off 32) (\<lambda>(r, bs).
     if r \<noteq> 32 then ret None
     else
       (let ph = decode_proghdr bs in
        if ph_type ph \<noteq> ELF_PROG_LOAD then exec_segments k pd ip (off + 32) sz0
        else if ph_memsz ph < ph_filesz ph then ret None
        else if ph_vaddr ph + ph_memsz ph < ph_vaddr ph then ret None
        else
          kbind (allocuvm pd sz0 (ph_vaddr ph + ph_memsz ph)) (\<lambda>szn.
          if szn = 0 then ret None
          else if ph_vaddr ph mod PGSIZE \<noteq> 0 then ret None
          else
            kbind (loaduvm pd (ph_vaddr ph) ip (ph_off ph) (ph_filesz ph)) (\<lambda>v.
            if v < 0 then ret None else exec_segments k pd ip (off + 32) szn))))"

section \<open>The argument stack\<close>

primrec exec_args :: "uint \<Rightarrow> nat \<Rightarrow> uchar list list \<Rightarrow> uint \<Rightarrow> uint list \<Rightarrow>
    ('z kmem_state_scheme, (uint \<times> uint list) option) kM" where
  "exec_args pd argc [] stk ptrs = ret (Some (stk, ptrs))"
| "exec_args pd argc (a # as) stk ptrs =
     (if argc \<ge> MAXARG then ret None
      else
        (let stk' = (stk - of_nat (length a + 1)) AND NOT 3 in
         kbind (copyout pd stk' (a @ [0])) (\<lambda>r.
         if r < 0 then ret None else exec_args pd (Suc argc) as stk' (ptrs @ [stk']))))"

definition ustack :: "uint \<Rightarrow> uint list \<Rightarrow> uint list" where
  "ustack stk ptrs = [0xffffffff, of_nat (length ptrs), stk - of_nat ((length ptrs + 1) * 4)] @ ptrs @ [0]"

definition exec_stack :: "uint \<Rightarrow> uint \<Rightarrow> uchar list list \<Rightarrow> ('z kmem_state_scheme, (uint \<times> uint) option) kM" where
  "exec_stack pd sz0 argv =
     kbind (allocuvm pd (PGROUNDUP sz0) (PGROUNDUP sz0 + 2 * PGSIZE)) (\<lambda>szt.
     if szt = 0 then ret None
     else
       kthen (clearpteu pd (szt - 2 * PGSIZE)) (
       kbind (exec_args pd 0 argv szt []) (\<lambda>r.
       case r of None \<Rightarrow> ret None
       | Some (stk, ptrs) \<Rightarrow>
         (let stk' = stk - of_nat ((3 + length ptrs + 1) * 4) in
          kbind (copyout pd stk' (concat (map bytes32 (ustack stk ptrs)))) (\<lambda>v.
          if v < 0 then ret None else ret (Some (szt, stk')))))))"

text \<open>The file name of a path: what follows its last slash.\<close>

definition last_name :: "uchar list \<Rightarrow> uchar list" where
  "last_name path = rev (takeWhile (\<lambda>c. c \<noteq> slash) (rev path))"

section \<open>exec\<close>

definition exec_bad :: "uint \<Rightarrow> nat option \<Rightarrow> ('z cons_state_scheme, int) kM" where
  "exec_bad pd ip =
     kthen (kwhen (pd \<noteq> 0) (freevm pd)) (
     kthen (case ip of None \<Rightarrow> ret () | Some i \<Rightarrow> kthen (iunlockput i) end_op) (
     ret (-1)))"

text \<open>The new image in a fresh page directory: entry point, size and stack pointer.\<close>

definition exec_load :: "nat \<Rightarrow> uchar list list \<Rightarrow> ('z cons_state_scheme, (uint \<times> uint \<times> uint \<times> uint) option) kM" where
  "exec_load ip argv =
     kbind (readi ip 0 52) (\<lambda>(r, bs).
     let elf = decode_elfhdr bs in
     if r \<noteq> 52 \<or> e_magic elf \<noteq> ELF_MAGIC then kbind (exec_bad 0 (Some ip)) (\<lambda>_. ret None)
     else kbind setupkvm (\<lambda>pd.
     if pd = 0 then kbind (exec_bad 0 (Some ip)) (\<lambda>_. ret None)
     else kbind (exec_segments (unat (e_phnum elf)) pd ip (e_phoff elf) 0) (\<lambda>sz1.
     case sz1 of None \<Rightarrow> kbind (exec_bad pd (Some ip)) (\<lambda>_. ret None)
     | Some sz0 \<Rightarrow>
       kthen (iunlockput ip) (
       kthen end_op (
       kbind (exec_stack pd sz0 argv) (\<lambda>st.
       case st of None \<Rightarrow> kbind (exec_bad pd None) (\<lambda>_. ret None)
       | Some (szt, stk) \<Rightarrow> ret (Some (pd, e_entry elf, szt, stk))))))))"

definition exec :: "uchar list \<Rightarrow> uchar list list \<Rightarrow> ('z file_state_scheme, int) kM" where
  "exec path argv = with_proc ''exec'' (\<lambda>c.
     kthen begin_op (
     kbind (namei path) (\<lambda>r.
     case r of None \<Rightarrow> kthen end_op (ret (-1))
     | Some ip \<Rightarrow>
       kthen (ilock (Some ip)) (
       kbind (exec_load ip argv) (\<lambda>img.
       case img of None \<Rightarrow> ret (-1)
       | Some (pd, entry, szt, stk) \<Rightarrow>
         kthen (kmodify (upd_proc c (\<lambda>p. p\<lparr>pname := safestrcpy_list (pname p) (last_name path)\<rparr>))) (
         kbind (kgets (\<lambda>s. pgdir (ptable s ! c))) (\<lambda>oldpgdir.
         kthen (kmodify (upd_proc c (\<lambda>p. p\<lparr>pgdir := pd, sz := szt,
           tf := (tf p)\<lparr>tf_eip := entry, tf_esp := stk\<rparr>\<rparr>))) (
         kbind (kgets (\<lambda>s. ptable s ! c)) (\<lambda>p.
         kthen (switchuvm (Some (kstack p, pgdir p))) (
         kthen (freevm oldpgdir) (ret 0)))))))))))"

section \<open>sys_exec (sysfile.c)\<close>

text \<open>\<open>fetch_argv k a acc\<close> reads the remaining \<open>k\<close> slots of the vector from address \<open>a\<close> on.\<close>

primrec fetch_argv :: "nat \<Rightarrow> uint \<Rightarrow> uchar list list \<Rightarrow> ('z proc_state_scheme, uchar list list option) kM" where
  "fetch_argv 0 a acc = ret None"
| "fetch_argv (Suc k) a acc =
     kbind (fetchint a) (\<lambda>r.
     case r of None \<Rightarrow> ret None
     | Some uarg \<Rightarrow>
       if uarg = 0 then ret (Some (rev acc))
       else kbind (fetchstr (of_int uarg)) (\<lambda>q.
         case q of None \<Rightarrow> ret None | Some str \<Rightarrow> fetch_argv k (a + 4) (str # acc)))"

definition sys_exec :: "('z file_state_scheme, int) kM" where
  "sys_exec =
     need (argstr 0) (\<lambda>path.
     need (argint 1) (\<lambda>uargv.
     need (fetch_argv MAXARG (of_int uargv) []) (\<lambda>argv. exec path argv)))"

end
