(* ===== verification/Trap.thy ===== *)
theory Trap
  imports Exec Scheduler
begin

text \<open>
  The system calls of sysproc.c, the dispatch of syscall.c and trap.c. The entry points of the
  interrupt vectors, which vectors.pl generates, are the parameter \<open>sym_vectors\<close> of the state.
\<close>

record trap_state = file_state +
  idt :: "gatedesc list"
  idtr :: "uchar \<Rightarrow> bool"
  sym_vectors :: "nat \<Rightarrow> uint"

section \<open>sysproc.c\<close>

definition sys_fork :: "('z file_state_scheme, int) kM" where "sys_fork = fork"

definition sys_exit :: "('z file_state_scheme, int) kM" where
  "sys_exit = kthen exit (ret 0)"

definition sys_wait :: "('z file_state_scheme, int) kM" where
  "sys_wait = kbind (kgets patience) (\<lambda>k. wait (Suc k))"

definition sys_kill :: "('z file_state_scheme, int) kM" where
  "sys_kill = need (argint 0) kill"

definition sys_getpid :: "('z file_state_scheme, int) kM" where
  "sys_getpid = with_proc ''sys_getpid'' (\<lambda>c. kgets (\<lambda>s. pid (ptable s ! c)))"

definition sys_sbrk :: "('z file_state_scheme, int) kM" where
  "sys_sbrk =
     need (argint 0) (\<lambda>n.
     with_proc ''sys_sbrk'' (\<lambda>c.
     kbind (kgets (\<lambda>s. sint (sz (ptable s ! c)))) (\<lambda>addr.
     kbind (growproc n) (\<lambda>r. ret (if r < 0 then -1 else addr)))))"

text \<open>\<open>ticks - ticks0 < n\<close> compares unsigned numbers, \<open>n\<close> converted to one.\<close>

primrec sys_sleep_loop :: "nat \<Rightarrow> uint \<Rightarrow> uint \<Rightarrow> ('z file_state_scheme, int) kM" where
  "sys_sleep_loop 0 n ticks0 = kfail NoFuel"
| "sys_sleep_loop (Suc k) n ticks0 =
     kbind (kgets ticks) (\<lambda>t.
     if t - ticks0 < n then
       kbind (is_killed ''sys_sleep'') (\<lambda>kd.
       if kd then kthen (release LkTicks) (ret (-1))
       else kthen (sleep ChTicks (Some LkTicks)) (sys_sleep_loop k n ticks0))
     else kthen (release LkTicks) (ret 0))"

definition sys_sleep :: "('z file_state_scheme, int) kM" where
  "sys_sleep =
     need (argint 0) (\<lambda>n.
     kthen (acquire LkTicks) (
     kbind (kgets ticks) (\<lambda>t0.
     kbind (kgets patience) (\<lambda>k. sys_sleep_loop (Suc k) (of_int n) t0))))"

definition sys_uptime :: "('z file_state_scheme, int) kM" where
  "sys_uptime =
     kthen (acquire LkTicks) (
     kbind (kgets ticks) (\<lambda>t.
     kthen (release LkTicks) (ret (sint t))))"

definition sys_ssm :: "('z file_state_scheme, int) kM" where
  "sys_ssm s =
     (case cmostimes (rtc_dev s) (rtc_now s) of
        None \<Rightarrow> Fail NoFuel
      | Some (r, t) \<Rightarrow>
          Ok (sint ((second r + minute r * 60 + hour r * 60 * 60 + 5 * 3600 + 30 * 60) mod 86400)) (s\<lparr>rtc_now := t\<rparr>))"

definition sys_getpriority :: "('z file_state_scheme, int) kM" where
  "sys_getpriority = with_proc ''sys_getpriority'' (\<lambda>c. kbind (kgets (\<lambda>s. pid (ptable s ! c))) gp)"

definition sys_setpriority :: "('z file_state_scheme, int) kM" where
  "sys_setpriority =
     need (argint 0) (\<lambda>pr.
     with_proc ''sys_setpriority'' (\<lambda>c.
     kbind (kgets (\<lambda>s. pid (ptable s ! c))) (\<lambda>pd. sp pd pr)))"

section \<open>syscall.c\<close>

definition syscalls :: "int \<Rightarrow> ('z file_state_scheme, int) kM option" where
  "syscalls n =
     (if 0 < n then map_of (zip [1..<25] [sys_fork, sys_exit, sys_wait, sys_pipe, sys_read, sys_kill, sys_exec,
        sys_fstat, sys_chdir, sys_dup, sys_getpid, sys_sbrk, sys_sleep, sys_uptime, sys_open, sys_write,
        sys_mknod, sys_unlink, sys_link, sys_mkdir, sys_close, sys_ssm, sys_getpriority, sys_setpriority]) (nat n)
      else None)"

definition set_eax :: "nat \<Rightarrow> int \<Rightarrow> 'z proc_state_scheme \<Rightarrow> 'z proc_state_scheme" where
  "set_eax c v = upd_proc c (\<lambda>p. p\<lparr>tf := (tf p)\<lparr>tf_eax := of_int v\<rparr>\<rparr>)"

definition syscall :: "('z file_state_scheme, unit) kM" where
  "syscall = with_proc ''syscall'' (\<lambda>c.
     kbind (kgets (\<lambda>s. sint (tf_eax (tf (ptable s ! c))))) (\<lambda>num.
     case syscalls num of
       Some f \<Rightarrow> kbind f (\<lambda>r. kmodify (set_eax c r))
     | None \<Rightarrow>
         kbind (kgets (\<lambda>s. ptable s ! c)) (\<lambda>p.
         kthen (cprintf (Some (ascii ''%d %s: unknown sys call %d'' @ [10]))
           [Num (of_int (pid p)), Str (Some (takeWhile (\<lambda>x. x \<noteq> 0) (pname p))), Num (of_int num)]) (
         kmodify (set_eax c (-1))))))"

section \<open>trap.c\<close>

definition tvinit :: "('z trap_state_scheme, unit) kM" where
  "tvinit =
     kthen (kmodify (\<lambda>s. s\<lparr>idt := map (\<lambda>i. SETGATE False (of_nat SEG_KCODE * 8) (sym_vectors s i) 0) [0..<256]\<rparr>)) (
     kthen (kmodify (\<lambda>s. s\<lparr>idt := (idt s)[T_SYSCALL :=
       SETGATE True (of_nat SEG_KCODE * 8) (sym_vectors s T_SYSCALL) DPL_USER]\<rparr>)) (
     initlock LkTicks ''time''))"

definition idtinit :: "('z trap_state_scheme, unit) kM" where
  "idtinit = kmodify (\<lambda>s. s\<lparr>idtr := (idtr s)(lapic_id s := True)\<rparr>)"

definition exit_if_killed :: "bool \<Rightarrow> ('z file_state_scheme, unit) kM" where
  "exit_if_killed b =
     kbind myproc (\<lambda>p.
     case p of None \<Rightarrow> ret ()
     | Some c \<Rightarrow> kbind (kgets (\<lambda>s. killed (ptable s ! c))) (\<lambda>kd. kwhen (kd \<and> b) exit))"

definition trap_syscall :: "uint \<Rightarrow> trapframe \<Rightarrow> ('z file_state_scheme, unit) kM" where
  "trap_syscall a f =
     kbind (is_killed ''trap'') (\<lambda>kd.
     kthen (kwhen kd exit) (
     kthen (with_proc ''trap'' (\<lambda>c. kmodify (upd_proc c (\<lambda>p. p\<lparr>tf := f, tf_at := a\<rparr>)))) (
     kthen syscall (
     kbind (is_killed ''trap'') (\<lambda>kd'. kwhen kd' exit)))))"

text \<open>The switch of trap() on the interrupt number, with its default branch.\<close>

definition tick :: "('z file_state_scheme, unit) kM" where
  "tick =
     kthen (acquire LkTicks) (
     kthen (kmodify (\<lambda>s. s\<lparr>ticks := ticks s + 1\<rparr>)) (
     kthen (wakeup ChTicks) (
     release LkTicks)))"

definition trap_irq :: "trapframe \<Rightarrow> ('z file_state_scheme, unit) kM" where
  "trap_irq f =
     (let n = unat (tf_trapno f) in
      if n = T_IRQ0 + IRQ_TIMER then kbind cpuid (\<lambda>c. kthen (kwhen (c = 0) tick) lapiceoi)
      else if n = T_IRQ0 + IRQ_IDE then kthen ideintr lapiceoi
      else if n = T_IRQ0 + IRQ_IDE + 1 then ret ()
      else if n = T_IRQ0 + IRQ_KBD then kthen kbdintr lapiceoi
      else if n = T_IRQ0 + IRQ_COM1 then kthen uartintr lapiceoi
      else if n = T_IRQ0 + 7 \<or> n = T_IRQ0 + IRQ_SPURIOUS then lapiceoi
      else
        kbind myproc (\<lambda>p.
        case p of None \<Rightarrow> kfail (Panic ''trap'')
        | Some c \<Rightarrow>
          if tf_cs f AND 3 = 0 then kfail (Panic ''trap'')
          else kmodify (upd_proc c (\<lambda>q. q\<lparr>killed := True\<rparr>))))"

definition trap :: "uint \<Rightarrow> trapframe \<Rightarrow> ('z file_state_scheme, unit) kM" where
  "trap a f =
     (if unat (tf_trapno f) = T_SYSCALL then trap_syscall a f
      else
        (let user = (tf_cs f AND 3 = ucast DPL_USER) in
         kthen (trap_irq f) (
         kthen (exit_if_killed user) (
         kbind myproc (\<lambda>p.
         kthen (case p of None \<Rightarrow> ret ()
            | Some c \<Rightarrow>
              kbind (kgets (\<lambda>s. pstate (ptable s ! c))) (\<lambda>st.
              kwhen (st = RUNNING \<and> unat (tf_trapno f) = T_IRQ0 + IRQ_TIMER) yield)) (
         exit_if_killed user))))))"

end
