(* ===== verification/Boot.thy ===== *)
theory Boot
  imports Trap
begin

text \<open>
  mp.c, the search for the multiprocessor tables, and main.c, the start of the kernel. What the
  build links into the kernel (the code of initcode.S and entryother.S, the file system image of
  the memory disk) and the addresses of symbols of main.c are the record \<open>boot_image\<close>.

  Shown here: a table entry of an unknown type keeps mpinit() in its loop for ever, so its last
  panic is never reached (\<open>mpinit_never_unsuitable\<close>); the table of CPUs never overflows
  (\<open>mp_entries_ncpu\<close>).
\<close>

section \<open>mp.c\<close>

definition MPPROC :: uchar where "MPPROC = 0"
definition MPBUS :: uchar where "MPBUS = 1"
definition MPIOAPIC :: uchar where "MPIOAPIC = 2"
definition MPIOINTR :: uchar where "MPIOINTR = 3"
definition MPLINTR :: uchar where "MPLINTR = 4"

primrec sum_bytes :: "(uint \<Rightarrow> uchar) \<Rightarrow> uint \<Rightarrow> nat \<Rightarrow> int" where
  "sum_bytes m a 0 = 0"
| "sum_bytes m a (Suc n) = uint (m a) + sum_bytes m (a + 1) n"

text \<open>The \<open>int\<close> is returned as a \<open>uchar\<close>.\<close>

definition mp_sum :: "(uint \<Rightarrow> uchar) \<Rightarrow> uint \<Rightarrow> nat \<Rightarrow> uchar" where
  "mp_sum m a n = of_int (sum_bytes m a n)"

definition bytes_at :: "(uint \<Rightarrow> uchar) \<Rightarrow> uint \<Rightarrow> nat \<Rightarrow> uchar list" where
  "bytes_at m a n = map (\<lambda>k. m (a + of_nat k)) [0..<n]"

definition load16 :: "(uint \<Rightarrow> uchar) \<Rightarrow> uint \<Rightarrow> ushort" where
  "load16 m a = ucast (m a) OR push_bit 8 (ucast (m (a + 1)))"

definition mpsearch1 :: "(uint \<Rightarrow> uchar) \<Rightarrow> uint \<Rightarrow> nat \<Rightarrow> uint option" where
  "mpsearch1 m a n =
     find (\<lambda>p. bytes_at m p 4 = [95, 77, 80, 95] \<and> mp_sum m p 16 = 0)
       (map (\<lambda>k. P2V a + 16 * of_nat k) [0..<(n + 15) div 16])"

definition mpsearch :: "(uint \<Rightarrow> uchar) \<Rightarrow> uint option" where
  "mpsearch m =
     (let bda = P2V 0x400;
          p = push_bit 4 (push_bit 8 (ucast (m (bda + 0x0F))) OR ucast (m (bda + 0x0E))) :: uint;
          q = (push_bit 8 (ucast (m (bda + 0x14))) OR ucast (m (bda + 0x13))) * 1024 :: uint;
          r = (if p \<noteq> 0 then mpsearch1 m p 1024 else mpsearch1 m (q - 1024) 1024)
      in case r of Some mp \<Rightarrow> Some mp | None \<Rightarrow> mpsearch1 m 0xF0000 0x10000)"

text \<open>The floating pointer structure and the configuration table it points to.\<close>

definition mpconfig :: "(uint \<Rightarrow> uchar) \<Rightarrow> (uint \<times> uint) option" where
  "mpconfig m =
     (case mpsearch m of None \<Rightarrow> None
      | Some mp \<Rightarrow>
        if load32 m (mp + 4) = 0 then None
        else
          (let conf = P2V (load32 m (mp + 4)) in
           if bytes_at m conf 4 \<noteq> [80, 67, 77, 80] then None
           else if m (conf + 6) \<noteq> 1 \<and> m (conf + 6) \<noteq> 4 then None
           else if mp_sum m conf (unat (load16 m (conf + 4))) \<noteq> 0 then None
           else Some (mp, conf)))"

definition add_cpu :: "uchar \<Rightarrow> 'z machine_scheme \<Rightarrow> 'z machine_scheme" where
  "add_cpu a s =
     (if ncpu s < NCPU then (upd_cpu (ncpu s) (\<lambda>c. c\<lparr>apicid := a\<rparr>) s)\<lparr>ncpu := ncpu s + 1\<rparr> else s)"

text \<open>
  The loop over the table, from \<open>p\<close> to \<open>e\<close>, with the flag \<open>ismp\<close>. The \<open>break\<close> of the default
  branch leaves the switch, not the loop, and the branch does not move \<open>p\<close>.
\<close>

partial_function (option) mp_entries ::
  "'z dev_state_scheme \<Rightarrow> uint \<Rightarrow> uint \<Rightarrow> bool \<Rightarrow> ('z dev_state_scheme \<times> bool) option" where
  "mp_entries s p e ismp =
     (if p < e then
        (if mem s p = MPPROC then mp_entries (add_cpu (mem s (p + 1)) s) (p + 20) e ismp
         else if mem s p = MPIOAPIC then mp_entries (s\<lparr>ioapicid := mem s (p + 1)\<rparr>) (p + 8) e ismp
         else if mem s p = MPBUS \<or> mem s p = MPIOINTR \<or> mem s p = MPLINTR then mp_entries s (p + 8) e ismp
         else mp_entries s p e False)
      else Some (s, ismp))"

definition mpinit :: "('z dev_state_scheme, unit) kM" where
  "mpinit s =
     (case mpconfig (mem s) of None \<Rightarrow> Fail (Panic ''Expect to run on an SMP'')
      | Some (mp, conf) \<Rightarrow>
        (case mp_entries (s\<lparr>lapic_addr := load32 (mem s) (conf + 36)\<rparr>) (conf + 44)
            (conf + ucast (load16 (mem s) (conf + 4))) True of
           None \<Rightarrow> Fail NoFuel
         | Some (s', ismp) \<Rightarrow>
             if \<not> ismp then Fail (Panic ''Didn't find a suitable machine'')
             else
               kwhen (mem s' (mp + 12) \<noteq> 0) (
                 kthen (outb 0x22 0x70) (
                 kbind (inb 0x23) (\<lambda>v. outb 0x23 (v OR 1)))) s'))"

section \<open>main.c\<close>

record boot_image =
  initcode :: "uchar list"
  entryother :: "uchar list"
  fs_img :: "nat \<Rightarrow> uchar list"
  fs_img_size :: uint
  sym_mpenter :: uint
  sym_entrypgdir :: uint

definition entrypgdir :: "uint list" where
  "entrypgdir = (replicate NPDENTRIES 0)
     [0 := PTE_P OR PTE_W OR PTE_PS, unat (drop_bit PDXSHIFT KERNBASE) := PTE_P OR PTE_W OR PTE_PS]"

text \<open>
  \<open>kswitch\<close> is where other CPUs run while this one spins on their \<open>started\<close> flag.
\<close>

primrec await_started :: "nat \<Rightarrow> nat \<Rightarrow> ('z machine_scheme, unit) kM" where
  "await_started 0 c = kfail NoFuel"
| "await_started (Suc k) c =
     kbind (kgets (\<lambda>s. started (cpus s ! c))) (\<lambda>b.
     if b then ret () else kthen kswitch (await_started k c))"

definition start_cpu :: "boot_image \<Rightarrow> uint \<Rightarrow> nat \<Rightarrow> ('z dev_state_scheme, unit) kM" where
  "start_cpu img code c =
     kbind mycpu (\<lambda>me.
     kwhen (c \<noteq> me) (
       kbind kalloc (\<lambda>stack.
       kthen (put32 (code - 4) (stack + KSTACKSIZE)) (
       kthen (put32 (code - 8) (sym_mpenter img)) (
       kthen (put32 (code - 12) (V2P (sym_entrypgdir img))) (
       kbind (kgets (\<lambda>s. apicid (cpus s ! c))) (\<lambda>a.
       kthen (lapicstartap a (V2P code)) (
       kbind (kgets patience) (\<lambda>k. await_started (Suc k) c)))))))))"

definition startothers :: "boot_image \<Rightarrow> ('z dev_state_scheme, unit) kM" where
  "startothers img =
     (let code = P2V 0x7000 in
      kthen (write_bytes code (entryother img)) (
      kbind (kgets ncpu) (\<lambda>n. kfor [0..<n] (start_cpu img code))))"

text \<open>The scheduler never returns; \<open>n\<close> is the number of its rounds that are followed.\<close>

definition mpmain :: "nat \<Rightarrow> ('z trap_state_scheme, unit) kM" where
  "mpmain n =
     kbind cpuid (\<lambda>i.
     kbind cpuid (\<lambda>j.
     kthen (cprintf (Some (ascii ''cpu%d: starting %d'' @ [10])) [Num (of_nat i), Num (of_nat j)]) (
     kthen idtinit (
     kbind mycpu (\<lambda>c.
     kthen (kmodify (upd_cpu c (\<lambda>q. q\<lparr>started := True\<rparr>))) (
     scheduler n))))))"

definition mpenter :: "nat \<Rightarrow> ('z trap_state_scheme, unit) kM" where
  "mpenter n = kthen switchkvm (kthen seginit (kthen lapicinit (mpmain n)))"

definition main :: "boot_image \<Rightarrow> nat \<Rightarrow> ('z trap_state_scheme, unit) kM" where
  "main img n =
     kbind (kgets kernel_end) (\<lambda>e.
     kthen (kinit1 e (P2V (4 * 1024 * 1024))) (
     kthen kvmalloc (
     kthen mpinit (
     kthen lapicinit (
     kthen seginit (
     kthen picinit (
     kthen ioapicinit (
     kthen consoleinit (
     kthen uartinit (
     kthen pinit (
     kthen tvinit (
     kthen binit (
     kthen fileinit (
     kbind (kgets memfs) (\<lambda>mf.
     kthen (if mf then ideinit_mem (fs_img img) (fs_img_size img) else ideinit) (
     kthen (startothers img) (
     kthen (kinit2 (P2V (4 * 1024 * 1024)) (P2V PHYSTOP)) (
     kthen (userinit (initcode img)) (
     mpmain n)))))))))))))))))))"

section \<open>Facts about the tables\<close>

definition known_entry :: "uchar \<Rightarrow> bool" where
  "known_entry t \<longleftrightarrow> t \<in> {MPPROC, MPBUS, MPIOAPIC, MPIOINTR, MPLINTR}"

lemma mp_entries_flag:
  assumes "mp_entries s p e i = Some r"
  shows "snd r = i \<and> (p < e \<longrightarrow> known_entry (mem s p))"
  by (rule mp_entries.raw_induct [where P = "\<lambda>s p e i r. snd r = i \<and> (p < e \<longrightarrow> known_entry (mem s p))", OF _ assms])
    (auto simp: known_entry_def split: if_splits, blast)

lemma mp_entries_ncpu:
  assumes "mp_entries s p e i = Some r"
  shows "ncpu s \<le> NCPU \<longrightarrow> ncpu (fst r) \<le> NCPU"
  by (rule mp_entries.raw_induct [where P = "\<lambda>s p e i r. ncpu s \<le> NCPU \<longrightarrow> ncpu (fst r) \<le> NCPU", OF _ assms])
    (auto simp: add_cpu_def upd_cpu_def split: if_splits)

text \<open>
  C40. mpinit() never reports an unsuitable machine: on an entry of unknown type the \<open>break\<close> leaves
  only the switch, the pointer stays where it is, and the loop goes on for ever instead of
  reaching the panic that the code has for this case.
\<close>

theorem mpinit_never_unsuitable:
  "mpinit s \<noteq> Fail (Panic ''Didn't find a suitable machine'')"
proof
  assume h: "mpinit s = Fail (Panic ''Didn't find a suitable machine'')"
  then obtain mp conf where c: "mpconfig (mem s) = Some (mp, conf)"
    by (cases "mpconfig (mem s)") (auto simp: mpinit_def)
  let ?m = "mp_entries (s\<lparr>lapic_addr := load32 (mem s) (conf + 36)\<rparr>) (conf + 44)
    (conf + ucast (load16 (mem s) (conf + 4))) True"
  show False
  proof (cases ?m)
    case None
    then show False using h c by (simp add: mpinit_def)
  next
    case (Some r)
    then have "snd r" using mp_entries_flag by blast
    then show False using h c Some
      by (auto simp: mpinit_def kwhen_def kthen_def inb_def in_port_def outb_def out_port_def kmonad split: prod.splits if_splits)
  qed
qed

end
