(* ===== verification/Usys.thy ===== *)
theory Usys
  imports Sysfile
begin

text \<open>
  User programs. A program is a tree of system calls: what it does next depends on what the kernel
  answers. exit() and a successful exec() do not return, so \<open>UExit\<close> is a leaf and what follows an
  exec() is what the program does when it failed; after fork() the tree is run twice, with the pid and
  with 0. \<open>UWrong\<close> stands for behaviour the C program leaves undefined and \<open>UFuel\<close> for a loop that has
  used up the number of turns it is given. The stubs of usys.S are the constructors of \<open>ucall\<close>.
\<close>

section \<open>System calls (user.h, usys.S, fcntl.h)\<close>

datatype ucall =
    CFork
  | CWait
  | CWrite int "uchar list"
  | CClose int
  | CKill int
  | CExec "uchar list" "uchar list list"
  | COpen "uchar list" uint
  | CMknod "uchar list" int int
  | CUnlink "uchar list"
  | CLink "uchar list" "uchar list"
  | CMkdir "uchar list"
  | CChdir "uchar list"
  | CDup int
  | CGetpid
  | CSbrk int
  | CSleep int
  | CUptime
  | CSsm
  | CGetpriority
  | CSetpriority int

datatype 'a uprog =
    UDone 'a
  | UExit
  | UWrong
  | UFuel
  | USys ucall "int \<Rightarrow> 'a uprog"
  | URead int nat "int \<times> uchar list \<Rightarrow> 'a uprog"
  | UStat int "int \<times> stat \<Rightarrow> 'a uprog"
  | UPipe "int \<times> int \<times> int \<Rightarrow> 'a uprog"

primrec ubind :: "'a uprog \<Rightarrow> ('a \<Rightarrow> 'b uprog) \<Rightarrow> 'b uprog" where
  "ubind (UDone a) f = f a"
| "ubind UExit f = UExit"
| "ubind UWrong f = UWrong"
| "ubind UFuel f = UFuel"
| "ubind (USys c k) f = USys c (\<lambda>r. ubind (k r) f)"
| "ubind (URead fd n k) f = URead fd n (\<lambda>r. ubind (k r) f)"
| "ubind (UStat fd k) f = UStat fd (\<lambda>r. ubind (k r) f)"
| "ubind (UPipe k) f = UPipe (\<lambda>r. ubind (k r) f)"

definition uthen :: "'a uprog \<Rightarrow> 'b uprog \<Rightarrow> 'b uprog" where
  "uthen p q = ubind p (\<lambda>_. q)"

definition usys :: "ucall \<Rightarrow> int uprog" where
  "usys c = USys c UDone"

definition udo :: "ucall \<Rightarrow> unit uprog" where
  "udo c = USys c (\<lambda>_. UDone ())"

primrec ufor :: "'a list \<Rightarrow> ('a \<Rightarrow> unit uprog) \<Rightarrow> unit uprog" where
  "ufor [] f = UDone ()"
| "ufor (x # xs) f = uthen (f x) (ufor xs f)"

section \<open>Running a program against a kernel\<close>

record 'w os =
  os_sys :: "ucall \<Rightarrow> 'w \<Rightarrow> int \<times> 'w"
  os_read :: "int \<Rightarrow> nat \<Rightarrow> 'w \<Rightarrow> (int \<times> uchar list) \<times> 'w"
  os_stat :: "int \<Rightarrow> 'w \<Rightarrow> (int \<times> stat) \<times> 'w"
  os_pipe :: "'w \<Rightarrow> (int \<times> int \<times> int) \<times> 'w"

datatype 'a uout = Returned 'a | Exited | Undefined | OutOfFuel

primrec urun :: "'w os \<Rightarrow> 'a uprog \<Rightarrow> 'w \<Rightarrow> 'a uout \<times> 'w" where
  "urun k (UDone a) w = (Returned a, w)"
| "urun k UExit w = (Exited, w)"
| "urun k UWrong w = (Undefined, w)"
| "urun k UFuel w = (OutOfFuel, w)"
| "urun k (USys c f) w = (case os_sys k c w of (r, w') \<Rightarrow> urun k (f r) w')"
| "urun k (URead fd n f) w = (case os_read k fd n w of (r, w') \<Rightarrow> urun k (f r) w')"
| "urun k (UStat fd f) w = (case os_stat k fd w of (r, w') \<Rightarrow> urun k (f r) w')"
| "urun k (UPipe f) w = (case os_pipe k w of (r, w') \<Rightarrow> urun k (f r) w')"

lemma ubind_assoc: "ubind (ubind p f) g = ubind p (\<lambda>a. ubind (f a) g)"
  by (induction p) simp_all

lemma ubind_done [simp]: "ubind p UDone = p"
  by (induction p) simp_all

lemma uthen_simps [simp]:
  "uthen (UDone a) q = q" "uthen UExit q = UExit" "uthen UWrong q = UWrong" "uthen UFuel q = UFuel"
  "uthen (USys c f) q = USys c (\<lambda>r. uthen (f r) q)" "uthen (URead fd n g) q = URead fd n (\<lambda>r. uthen (g r) q)"
  "uthen (UStat fd h) q = UStat fd (\<lambda>r. uthen (h r) q)" "uthen (UPipe i) q = UPipe (\<lambda>r. uthen (i r) q)"
  "uthen (uthen p q) r = uthen p (uthen q r)"
  by (simp_all add: uthen_def ubind_assoc)

lemma urun_ubind:
  "urun k (ubind p f) w = (case urun k p w of (Returned a, w') \<Rightarrow> urun k (f a) w'
     | (Exited, w') \<Rightarrow> (Exited, w') | (Undefined, w') \<Rightarrow> (Undefined, w') | (OutOfFuel, w') \<Rightarrow> (OutOfFuel, w'))"
  by (induction p arbitrary: w) (simp_all split: prod.split)

lemma urun_uthen:
  "urun k (uthen p q) w = (case urun k p w of (Returned a, w') \<Rightarrow> urun k q w'
     | (Exited, w') \<Rightarrow> (Exited, w') | (Undefined, w') \<Rightarrow> (Undefined, w') | (OutOfFuel, w') \<Rightarrow> (OutOfFuel, w'))"
  by (simp add: uthen_def urun_ubind)

text \<open>\<open>ends_in P p\<close>: however the kernel answers, \<open>p\<close> ends in an outcome that satisfies \<open>P\<close>.\<close>

primrec ends_in :: "('a uout \<Rightarrow> bool) \<Rightarrow> 'a uprog \<Rightarrow> bool" where
  "ends_in P (UDone a) \<longleftrightarrow> P (Returned a)"
| "ends_in P UExit \<longleftrightarrow> P Exited"
| "ends_in P UWrong \<longleftrightarrow> P Undefined"
| "ends_in P UFuel \<longleftrightarrow> P OutOfFuel"
| "ends_in P (USys c f) \<longleftrightarrow> (\<forall>r. ends_in P (f r))"
| "ends_in P (URead fd n f) \<longleftrightarrow> (\<forall>r. ends_in P (f r))"
| "ends_in P (UStat fd f) \<longleftrightarrow> (\<forall>r. ends_in P (f r))"
| "ends_in P (UPipe f) \<longleftrightarrow> (\<forall>r. ends_in P (f r))"

lemma ends_in_run: "ends_in P p \<Longrightarrow> P (fst (urun k p w))"
  by (induction p arbitrary: w) (simp_all split: prod.split)

lemma ends_in_ubind:
  "ends_in (\<lambda>x. case x of Returned a \<Rightarrow> ends_in P (f a) | Exited \<Rightarrow> P Exited | Undefined \<Rightarrow> P Undefined | OutOfFuel \<Rightarrow> P OutOfFuel) p \<Longrightarrow>
    ends_in P (ubind p f)"
  by (induction p) simp_all

lemma ends_in_uthen:
  "ends_in (\<lambda>x. case x of Returned a \<Rightarrow> ends_in P q | Exited \<Rightarrow> P Exited | Undefined \<Rightarrow> P Undefined | OutOfFuel \<Rightarrow> P OutOfFuel) p \<Longrightarrow>
    ends_in P (uthen p q)"
  unfolding uthen_def by (rule ends_in_ubind)

lemma ends_in_mono: "ends_in P p \<Longrightarrow> (\<And>x. P x \<Longrightarrow> Q x) \<Longrightarrow> ends_in Q p"
  by (induction p) simp_all

end
