(* ===== verification/Ulib.thy ===== *)
theory Ulib
  imports Usys
begin

text \<open>
  ulib.c and printf.c. A C string is the list of its bytes without the terminating NUL, so that
  \<open>*s\<close> is \<open>at0 s\<close>; advancing the pointer takes the tail. memset() and memmove() work on the byte
  memory. The names that the kernel also uses carry the prefix \<open>u_\<close>.
\<close>

section \<open>ulib.c\<close>

definition at0 :: "uchar list \<Rightarrow> uchar" where
  "at0 s = (case s of [] \<Rightarrow> 0 | c # _ \<Rightarrow> c)"

text \<open>\<open>None\<close>: the string does not fit into the destination.\<close>

fun u_strcpy :: "uchar list \<Rightarrow> uchar list \<Rightarrow> uchar list option" where
  "u_strcpy [] t = None"
| "u_strcpy (_ # s) [] = Some (0 # s)"
| "u_strcpy (_ # s) (c # t) = map_option ((#) c) (u_strcpy s t)"

fun u_strcmp :: "uchar list \<Rightarrow> uchar list \<Rightarrow> int" where
  "u_strcmp [] q = - uint (at0 q)"
| "u_strcmp (c # p) q =
     (if c \<noteq> 0 \<and> c = at0 q then u_strcmp p (tl q) else uint c - uint (at0 q))"

fun u_strlen_from :: "nat \<Rightarrow> uchar list \<Rightarrow> nat" where
  "u_strlen_from n [] = n"
| "u_strlen_from n (c # s) = (if c = 0 then n else u_strlen_from (Suc n) s)"

definition u_strlen :: "uchar list \<Rightarrow> nat" where
  "u_strlen s = u_strlen_from 0 s"

definition u_memset :: "(uint \<Rightarrow> uchar) \<Rightarrow> uint \<Rightarrow> uchar \<Rightarrow> nat \<Rightarrow> (uint \<Rightarrow> uchar)" where
  "u_memset m dst c n = stosb m dst c n"

fun u_strchr :: "uchar list \<Rightarrow> uchar \<Rightarrow> uchar list option" where
  "u_strchr [] c = None"
| "u_strchr (d # s) c = (if d = 0 then None else if d = c then Some (d # s) else u_strchr s c)"

fun gets_loop :: "nat \<Rightarrow> uchar list \<Rightarrow> uchar list uprog" where
  "gets_loop 0 acc = UDone (rev acc)"
| "gets_loop (Suc n) acc =
     URead 0 1 (\<lambda>(cc, d).
       if cc < 1 then UDone (rev acc)
       else case d of
         [] \<Rightarrow> UWrong
       | c # _ \<Rightarrow> if c = 10 \<or> c = 13 then UDone (rev (c # acc)) else gets_loop n (c # acc))"

definition gets :: "int \<Rightarrow> uchar list uprog" where
  "gets mx = gets_loop (nat (mx - 1)) []"

definition u_stat :: "uchar list \<Rightarrow> (int \<times> stat option) uprog" where
  "u_stat n =
     ubind (usys (COpen n O_RDONLY)) (\<lambda>fd.
     if fd < 0 then UDone (-1, None)
     else UStat fd (\<lambda>(r, st). uthen (udo (CClose fd)) (UDone (r, Some st))))"

fun atoi_loop :: "uint \<Rightarrow> uchar list \<Rightarrow> uint" where
  "atoi_loop n [] = n"
| "atoi_loop n (c # s) = (if 48 \<le> c \<and> c \<le> 57 then atoi_loop (n * 10 + ucast c - 48) s else n)"

definition atoi :: "uchar list \<Rightarrow> int" where
  "atoi s = sint (atoi_loop 0 s)"

definition u_memmove :: "(uint \<Rightarrow> uchar) \<Rightarrow> uint \<Rightarrow> uint \<Rightarrow> int \<Rightarrow> (uint \<Rightarrow> uchar)" where
  "u_memmove m vdst vsrc n = copy_up m vdst vsrc (nat n)"

section \<open>printf.c\<close>

definition putc :: "int \<Rightarrow> uchar \<Rightarrow> unit uprog" where
  "putc fd c = udo (CWrite fd [c])"

definition u_digit :: "nat \<Rightarrow> uchar" where
  "u_digit d = (if d < 10 then of_nat (48 + d) else of_nat (65 + d - 10))"

definition u_printint_chars :: "int \<Rightarrow> nat \<Rightarrow> bool \<Rightarrow> uchar list" where
  "u_printint_chars xx base sg =
     (let neg = (sg \<and> xx < 0); x = (if neg then of_int (- xx) else of_int xx) :: uint;
          digs = rev (map u_digit (print_digits base (unat x)))
      in if neg then 45 # digs else digs)"

definition u_printint :: "int \<Rightarrow> int \<Rightarrow> nat \<Rightarrow> bool \<Rightarrow> unit uprog" where
  "u_printint fd xx base sg = ufor (u_printint_chars xx base sg) (putc fd)"

text \<open>A call whose arguments do not match its format reads whatever is on the stack.\<close>

fun printf :: "int \<Rightarrow> uchar list \<Rightarrow> carg list \<Rightarrow> unit uprog" where
  "printf fd [] as = UDone ()"
| "printf fd (c # cs) as =
     (if c \<noteq> 37 then uthen (putc fd c) (printf fd cs as)
      else case cs of
        [] \<Rightarrow> UDone ()
      | d # ds \<Rightarrow>
          if d = 100 then
            (case as of Num v # as' \<Rightarrow> uthen (u_printint fd (sint v) 10 True) (printf fd ds as') | _ \<Rightarrow> UWrong)
          else if d = 120 \<or> d = 112 then
            (case as of Num v # as' \<Rightarrow> uthen (u_printint fd (sint v) 16 False) (printf fd ds as') | _ \<Rightarrow> UWrong)
          else if d = 115 then
            (case as of Str so # as' \<Rightarrow>
               uthen (ufor (case so of None \<Rightarrow> ascii ''(null)'' | Some s \<Rightarrow> s) (putc fd)) (printf fd ds as') | _ \<Rightarrow> UWrong)
          else if d = 99 then
            (case as of Num v # as' \<Rightarrow> uthen (putc fd (ucast v)) (printf fd ds as') | _ \<Rightarrow> UWrong)
          else if d = 37 then uthen (putc fd 37) (printf fd ds as)
          else uthen (putc fd 37) (uthen (putc fd d) (printf fd ds as)))"

section \<open>Strings\<close>

lemma at0_simps [simp]: "at0 [] = 0" "at0 (c # s) = c"
  by (simp_all add: at0_def)

lemma u_strlen_eq: "0 \<notin> set s \<Longrightarrow> u_strlen s = length s"
proof -
  have "0 \<notin> set s \<Longrightarrow> u_strlen_from n s = n + length s" for n
    by (induction s arbitrary: n) auto
  then show "0 \<notin> set s \<Longrightarrow> u_strlen s = length s" by (simp add: u_strlen_def)
qed

lemma u_strchr_eq: "0 \<notin> set s \<Longrightarrow> u_strchr s c = (if c \<in> set s then Some (dropWhile (\<lambda>x. x \<noteq> c) s) else None)"
  by (induction s) auto

lemma u_strcmp_eq: "0 \<notin> set p \<Longrightarrow> 0 \<notin> set q \<Longrightarrow> u_strcmp p q = 0 \<longleftrightarrow> p = q"
proof (induction p arbitrary: q)
  case (Cons c p)
  then show ?case by (cases q) (auto simp: unsigned_eq_0_iff)
next
  case Nil
  then show ?case by (cases q) (auto simp: unsigned_eq_0_iff)
qed

lemma u_strcpy_fits: "length t < length s \<Longrightarrow> u_strcpy s t = Some (t @ 0 # drop (Suc (length t)) s)"
  by (induction s t rule: u_strcpy.induct) auto

section \<open>Numbers\<close>

lemma u_digit_dec:
  assumes "d < 10"
  shows "48 \<le> u_digit d" "u_digit d \<le> 57" "(ucast (u_digit d) :: uint) = of_nat (48 + d)"
proof -
  have n: "unat (u_digit d) = 48 + d" using assms by (simp add: u_digit_def unsigned_of_nat take_bit_nat_eq_self del: of_nat_add)
  then show "48 \<le> u_digit d" "u_digit d \<le> 57" using assms by (simp_all add: word_le_nat_alt)
  show "(ucast (u_digit d) :: uint) = of_nat (48 + d)" using of_nat_unat [of "u_digit d", symmetric] unfolding n .
qed

lemma atoi_loop_digits:
  assumes "\<forall>d \<in> set ds. d < 10"
  shows "atoi_loop (of_nat v) (map u_digit ds @ r) = atoi_loop (of_nat (foldl (\<lambda>v d. v * 10 + d) v ds)) r"
  using assms
proof (induction ds arbitrary: v)
  case (Cons d ds)
  have d: "d < 10" "\<forall>d \<in> set ds. d < 10" using Cons.prems by simp_all
  have e: "of_nat v * 10 + ucast (u_digit d) - 48 = (of_nat (v * 10 + d) :: uint)"
    unfolding u_digit_dec(3) [OF d(1)] by simp
  have "atoi_loop (of_nat v) (map u_digit (d # ds) @ r) = atoi_loop (of_nat v * 10 + ucast (u_digit d) - 48) (map u_digit ds @ r)"
    using u_digit_dec(1,2) [OF d(1)] by simp
  then show ?case unfolding e Cons.IH [OF d(2)] by simp
qed simp

lemma print_digits_10: "print_digits 10 x = x mod 10 # (if x < 10 then [] else print_digits 10 (x div 10))"
  by (subst print_digits.simps) (simp add: div_eq_0_iff del: print_digits.simps)

lemma print_digits_spec: "foldl (\<lambda>v d. v * 10 + d) 0 (rev (print_digits 10 x)) = x \<and> (\<forall>d \<in> set (print_digits 10 x). d < 10)"
proof (induction x rule: less_induct)
  case (less x)
  show ?case
  proof (cases "x < 10")
    case True
    then show ?thesis unfolding print_digits_10 [of x] by simp
  next
    case False
    with less [of "x div 10"] show ?thesis unfolding print_digits_10 [of x] by (simp del: print_digits.simps)
  qed
qed

text \<open>
  C20. printf() and atoi() agree: the text that printint() makes of a number with base 10, followed by
  the end of the string or by any byte that is not a digit, is read back by atoi() as the same number.
\<close>

theorem atoi_printint:
  assumes "0 \<le> n" and "n < 2 ^ 31" and "at0 r < 48 \<or> 57 < at0 r"
  shows "atoi (u_printint_chars n 10 True @ r) = n"
proof -
  have u: "unat (word_of_int n :: uint) = nat n" using assms by (simp add: unat_eq_nat_uint uint_word_of_int_eq take_bit_int_eq_self)
  have e: "u_printint_chars n 10 True = map u_digit (rev (print_digits 10 (nat n)))"
    using assms(1) u by (simp add: u_printint_chars_def rev_map Let_def del: print_digits.simps)
  have "\<forall>d \<in> set (rev (print_digits 10 (nat n))). d < 10" using print_digits_spec [of "nat n"] by (simp del: print_digits.simps)
  from atoi_loop_digits [OF this, of 0 r] have "atoi_loop 0 (u_printint_chars n 10 True @ r) = atoi_loop (of_nat (nat n)) r"
    using print_digits_spec [of "nat n"] by (simp add: e del: print_digits.simps)
  also have "\<dots> = of_nat (nat n)" using assms(3) by (cases r) auto
  finally have "atoi (u_printint_chars n 10 True @ r) = sint (word_of_int n :: uint)"
    using assms(1) by (simp add: atoi_def)
  then show ?thesis using assms by (simp add: sint_sbintrunc' signed_take_bit_int_eq_self)
qed

theorem atoi_printint_witness: "atoi (u_printint_chars 407 10 True @ [32]) = 407"
  by (rule atoi_printint) simp_all

section \<open>What printf writes\<close>

lemma ends_in_putc [simp]:
  "ends_in P (ubind (putc fd c) k) \<longleftrightarrow> ends_in P (k ())" "ends_in P (ubind (ufor s (putc fd)) k) \<longleftrightarrow> ends_in P (k ())"
proof -
  show p: "ends_in P (ubind (putc fd c) k) \<longleftrightarrow> ends_in P (k ())" for c k by (simp add: putc_def udo_def)
  show "ends_in P (ubind (ufor s (putc fd)) k) \<longleftrightarrow> ends_in P (k ())"
    by (induction s) (simp_all add: uthen_def ubind_assoc p)
qed

lemma ufor_append: "ufor (xs @ ys) f = uthen (ufor xs f) (ufor ys f)"
  by (induction xs) (simp_all add: uthen_def ubind_assoc)

lemma printf_text: "37 \<notin> set cs \<Longrightarrow> printf fd (cs @ fmt) as = uthen (ufor cs (putc fd)) (printf fd fmt as)"
  by (induction cs) (auto simp: uthen_def ubind_assoc)

lemma printf_plain: "37 \<notin> set cs \<Longrightarrow> printf fd cs as = ufor cs (putc fd)"
  using printf_text [of cs fd "[]" as] by (simp add: uthen_def ubind_done)

lemma printf_string:
  assumes "37 \<notin> set a" and "37 \<notin> set b"
  shows "printf fd (a @ 37 # 115 # b) [Str (Some s)] = ufor (a @ s @ b) (putc fd)"
  using assms by (simp add: printf_text printf_plain ufor_append)

end
