(* ===== verification/Ustream.thy ===== *)
theory Ustream
  imports Ulib
begin

text \<open>
  A kernel for programs that read one input and write: the input comes in chunks, cut as the
  kernel likes, and what is written to a descriptor is appended to its output. Any other call
  fails. Programs that copy and filter are run against it.
\<close>

record stream =
  s_in :: "uchar list list"
  s_out :: "int \<Rightarrow> uchar list"

definition put_out :: "int \<Rightarrow> uchar list \<Rightarrow> stream \<Rightarrow> stream" where
  "put_out fd bs w = w\<lparr>s_out := (s_out w)(fd := s_out w fd @ bs)\<rparr>"

fun stream_sys :: "ucall \<Rightarrow> stream \<Rightarrow> int \<times> stream" where
  "stream_sys (CWrite fd bs) w = (int (length bs), put_out fd bs w)"
| "stream_sys c w = (-1, w)"

definition stream_read :: "int \<Rightarrow> nat \<Rightarrow> stream \<Rightarrow> (int \<times> uchar list) \<times> stream" where
  "stream_read fd n w =
     (case s_in w of
        [] \<Rightarrow> ((0, []), w)
      | c # cs \<Rightarrow>
          if length c \<le> n then ((int (length c), c), w\<lparr>s_in := cs\<rparr>)
          else ((int n, take n c), w\<lparr>s_in := drop n c # cs\<rparr>))"

definition stream_os :: "stream os" where
  "stream_os = \<lparr>os_sys = stream_sys, os_read = stream_read, 
     os_stat = (\<lambda>_ w. ((-1, \<lparr>st_type = 0, st_dev = 0, st_ino = 0, st_nlink = 0, st_size = 0\<rparr>), w)),
     os_pipe = (\<lambda>w. ((-1, 0, 0), w))\<rparr>"

lemma put_out_simps [simp]:
  "put_out fd [] w = w" "put_out fd bs (put_out fd cs w) = put_out fd (cs @ bs) w" "s_in (put_out fd bs w) = s_in w"
  "put_out fd bs w\<lparr>s_in := xs\<rparr> = put_out fd bs (w\<lparr>s_in := xs\<rparr>)" "s_out (put_out fd bs w) fd = s_out w fd @ bs"
  by (simp_all add: put_out_def)

lemma stream_os_simps [simp]:
  "os_sys stream_os = stream_sys" "os_read stream_os = stream_read"
  by (simp_all add: stream_os_def)

lemma urun_write [simp]: "urun stream_os (udo (CWrite fd bs)) w = (Returned (), put_out fd bs w)"
  by (simp add: udo_def)

lemma urun_putcs [simp]: "urun stream_os (ufor bs (putc fd)) w = (Returned (), put_out fd bs w)"
  by (induction bs arbitrary: w) (simp_all add: putc_def urun_uthen)

lemma stream_read_chunk:
  "s_in w = c # cs \<Longrightarrow> length c \<le> n \<Longrightarrow> stream_read fd n w = ((int (length c), c), w\<lparr>s_in := cs\<rparr>)"
  "s_in w = [] \<Longrightarrow> stream_read fd n w = ((0, []), w)"
  by (simp_all add: stream_read_def)

end
