(* ===== verification/Grep.thy ===== *)
theory Grep
  imports Ustream
begin

text \<open>
  grep.c. The matcher works on C strings; its meaning is given by the words a pattern denotes. The
  loop over the input keeps the unfinished line in \<open>buf\<close>; \<open>fuel\<close> bounds the number of reads. The
  outcome is stated for a kernel that hands out the input in chunks.
\<close>

section \<open>The matcher\<close>

function matchhere :: "uchar list \<Rightarrow> uchar list \<Rightarrow> bool"
  and matchstar :: "uchar \<Rightarrow> uchar list \<Rightarrow> uchar list \<Rightarrow> bool" where
  "matchhere re ts =
     (case re of
        [] \<Rightarrow> True
      | c # re' \<Rightarrow>
          if at0 re' = 42 then matchstar c (tl re') ts
          else if c = 36 \<and> re' = [] then ts = []
          else case ts of [] \<Rightarrow> False | t # ts' \<Rightarrow> if c = 46 \<or> c = t then matchhere re' ts' else False)"
| "matchstar c re ts =
     (if matchhere re ts then True
      else case ts of [] \<Rightarrow> False | t # ts' \<Rightarrow> if t = c \<or> c = 46 then matchstar c re ts' else False)"
  by pat_completeness auto

termination
  by (relation "measure (\<lambda>x. case x of Inl (re, ts) \<Rightarrow> 2 * (length re + length ts)
      | Inr (c, re, ts) \<Rightarrow> 2 * (length re + length ts) + 1)") auto

lemmas matcher_simps [simp del] = matchhere.simps matchstar.simps

primrec match_from :: "uchar list \<Rightarrow> uchar list \<Rightarrow> bool" where
  "match_from re [] = matchhere re []"
| "match_from re (t # ts) = (if matchhere re (t # ts) then True else match_from re ts)"

definition match :: "uchar list \<Rightarrow> uchar list \<Rightarrow> bool" where
  "match re ts = (if at0 re = 94 then matchhere (tl re) ts else match_from re ts)"

section \<open>grep\<close>

lemma u_strchr_suffix: "u_strchr p c = Some q \<Longrightarrow> \<exists>u q'. p = u @ q \<and> q = c # q' \<and> c \<notin> set u"
proof (induction p)
  case (Cons d p)
  then show ?case by (cases "d = c") (auto split: if_splits intro: exI [of _ "[]"] exI [of _ "d # _"])
qed simp

text \<open>The lines that are complete; the result is what \<open>p\<close> points to in the end.\<close>

function grep_lines :: "uchar list \<Rightarrow> uchar list \<Rightarrow> uchar list uprog" where
  "grep_lines pattern p =
     (case u_strchr p 10 of
        None \<Rightarrow> UDone p
      | Some q \<Rightarrow>
          let line = take (length p - length q) p in
          uthen (if match pattern line then udo (CWrite 1 (line @ [10])) else UDone ())
            (grep_lines pattern (tl q)))"
  by auto

termination
  by (relation "measure (\<lambda>(pat, p). length p)") (auto dest: u_strchr_suffix)

lemmas grep_lines_unfold [simp del] = grep_lines.simps

definition GREPBUF :: nat where "GREPBUF = 1024"

primrec grep_loop :: "nat \<Rightarrow> uchar list \<Rightarrow> int \<Rightarrow> uchar list \<Rightarrow> unit uprog" where
  "grep_loop 0 pattern fd b = UFuel"
| "grep_loop (Suc k) pattern fd b =
     URead fd (GREPBUF - length b - 1) (\<lambda>(n, d).
       if n > 0 then
         let data = b @ take (nat n) d in
         ubind (grep_lines pattern data) (\<lambda>p.
         grep_loop k pattern fd (if length p = length data then [] else p))
       else UDone ())"

definition grep :: "nat \<Rightarrow> uchar list \<Rightarrow> int \<Rightarrow> unit uprog" where
  "grep k pattern fd = grep_loop k pattern fd []"

definition grep_main :: "nat \<Rightarrow> uchar list list \<Rightarrow> unit uprog" where
  "grep_main k argv =
     (if length argv \<le> 1 then uthen (printf 2 (ascii ''usage: grep pattern [file ...]'' @ [10]) []) UExit
      else let pattern = argv ! 1 in
      if length argv \<le> 2 then uthen (grep k pattern 0) UExit
      else
        uthen (ufor (drop 2 argv) (\<lambda>a.
          ubind (usys (COpen a 0)) (\<lambda>fd.
          if fd < 0 then uthen (printf 1 (ascii ''grep: cannot open %s'' @ [10]) [Str (Some a)]) UExit
          else uthen (grep k pattern fd) (udo (CClose fd))))) UExit)"

section \<open>What a pattern means\<close>

text \<open>An item matches one character, or any number of them.\<close>

datatype item = One "uchar \<Rightarrow> bool" | Star "uchar \<Rightarrow> bool"

definition accepts :: "uchar \<Rightarrow> uchar \<Rightarrow> bool" where
  "accepts c t \<longleftrightarrow> c = 46 \<or> c = t"

text \<open>The items of a pattern and whether it ends in \<open>$\<close>.\<close>

fun re_items :: "uchar list \<Rightarrow> item list" where
  "re_items [] = []"
| "re_items [c] = (if c = 36 then [] else [One (accepts c)])"
| "re_items (c # d # re) = (if d = 42 then Star (accepts c) # re_items re else One (accepts c) # re_items (d # re))"

fun re_end :: "uchar list \<Rightarrow> bool" where
  "re_end [] = False"
| "re_end [c] = (c = 36)"
| "re_end (c # d # re) = (if d = 42 then re_end re else re_end (d # re))"

fun lang :: "item list \<Rightarrow> uchar list set" where
  "lang [] = {[]}"
| "lang (One p # is) = {t # w | t w. p t \<and> w \<in> lang is}"
| "lang (Star p # is) = {u @ w | u w. (\<forall>t \<in> set u. p t) \<and> w \<in> lang is}"

definition items_here :: "item list \<Rightarrow> bool \<Rightarrow> uchar list \<Rightarrow> bool" where
  "items_here is e ts \<longleftrightarrow> (\<exists>w r. ts = w @ r \<and> w \<in> lang is \<and> (e \<longrightarrow> r = []))"

definition here :: "uchar list \<Rightarrow> uchar list \<Rightarrow> bool" where
  "here re ts \<longleftrightarrow> items_here (re_items re) (re_end re) ts"

lemma items_here_Nil: "items_here [] e ts \<longleftrightarrow> (e \<longrightarrow> ts = [])"
  by (simp add: items_here_def)

lemma items_here_One: "items_here (One p # is) e ts \<longleftrightarrow> (\<exists>t ts'. ts = t # ts' \<and> p t \<and> items_here is e ts')" (is "?l \<longleftrightarrow> ?r")
proof
  assume ?l
  then obtain x r where "ts = x @ r" "x \<in> lang (One p # is)" and r: "e \<longrightarrow> r = []" unfolding items_here_def by blast
  then obtain t w where "ts = t # w @ r" "p t" "w \<in> lang is" by auto
  with r show ?r unfolding items_here_def by blast
next
  assume ?r
  then obtain t w r where "ts = t # w @ r" "p t" "w \<in> lang is" "e \<longrightarrow> r = []" unfolding items_here_def by blast
  then show ?l unfolding items_here_def by (intro exI [of _ "t # w"] exI [of _ r]) simp
qed

lemma items_here_Star:
  "items_here (Star p # is) e ts \<longleftrightarrow> (\<exists>u v. ts = u @ v \<and> (\<forall>t \<in> set u. p t) \<and> items_here is e v)" (is "?l \<longleftrightarrow> ?r")
proof
  assume ?l
  then obtain x r where "ts = x @ r" "x \<in> lang (Star p # is)" and r: "e \<longrightarrow> r = []" unfolding items_here_def by blast
  then obtain u w where "ts = u @ w @ r" "\<forall>t \<in> set u. p t" "w \<in> lang is" by auto
  with r show ?r unfolding items_here_def by blast
next
  assume ?r
  then obtain u w r where "ts = u @ w @ r" "\<forall>t \<in> set u. p t" "w \<in> lang is" "e \<longrightarrow> r = []" unfolding items_here_def by blast
  then show ?l unfolding items_here_def by (intro exI [of _ "u @ w"] exI [of _ r]) auto
qed

lemmas items_here_simps = items_here_Nil items_here_One items_here_Star

lemma here_simps:
  "here [] ts" "here [36] ts \<longleftrightarrow> ts = []"
  "c \<noteq> 36 \<or> re \<noteq> [] \<Longrightarrow> at0 re \<noteq> 42 \<Longrightarrow> here (c # re) ts \<longleftrightarrow> (\<exists>t ts'. ts = t # ts' \<and> accepts c t \<and> here re ts')"
  "here (c # 42 # re) ts \<longleftrightarrow> (\<exists>u v. ts = u @ v \<and> (\<forall>t \<in> set u. accepts c t) \<and> here re v)"
  by (simp_all add: here_def items_here_simps) (cases re; auto simp: items_here_simps)

lemma star_step:
  "(\<exists>u v. ts = u @ v \<and> (\<forall>t \<in> set u. p t) \<and> P v) \<longleftrightarrow>
     P ts \<or> (\<exists>t ts'. ts = t # ts' \<and> p t \<and> (\<exists>u v. ts' = u @ v \<and> (\<forall>t \<in> set u. p t) \<and> P v))"
  (is "?l \<longleftrightarrow> ?r")
proof
  assume ?l
  then obtain u v where "ts = u @ v" "\<forall>t \<in> set u. p t" "P v" by blast
  then show ?r by (cases u) auto
next
  assume ?r
  then show ?l
  proof (elim disjE exE conjE)
    assume "P ts"
    then show ?thesis by (intro exI [of _ "[]"] exI [of _ ts]) simp
  next
    fix t ts' u v
    assume "ts = t # ts'" "p t" "ts' = u @ v" "\<forall>t \<in> set u. p t" "P v"
    then show ?thesis by (intro exI [of _ "t # u"] exI [of _ v]) simp
  qed
qed

lemma matcher_correct:
  "matchhere re ts \<longleftrightarrow> here re ts"
  "matchstar c re' ts' \<longleftrightarrow> (\<exists>u v. ts' = u @ v \<and> (\<forall>t \<in> set u. accepts c t) \<and> here re' v)"
proof (induction re ts and c re' ts' rule: matchhere_matchstar.induct)
  case (1 re ts)
  show ?case
  proof (cases re)
    case (Cons c r)
    consider "at0 r = 42" | "at0 r \<noteq> 42" "c = 36" "r = []" | "at0 r \<noteq> 42" "c \<noteq> 36 \<or> r \<noteq> []" by blast
    then show ?thesis
    proof cases
      case 1
      then obtain r' where r: "r = 42 # r'" by (cases r) auto
      then show ?thesis unfolding matchhere.simps [of re] using "1.IH" Cons by (simp add: here_simps(4))
    next
      case 2
      then show ?thesis unfolding matchhere.simps [of re] using Cons by (simp add: here_simps)
    next
      case 3
      then show ?thesis unfolding matchhere.simps [of re] using "1.IH" Cons
        by (cases ts) (auto simp: here_simps(3) accepts_def)
    qed
  qed (simp add: matchhere.simps [of "[]"] here_simps)
next
  case (2 c re ts)
  have "matchstar c re ts \<longleftrightarrow> here re ts \<or> (\<exists>t ts'. ts = t # ts' \<and> accepts c t \<and>
      (\<exists>u v. ts' = u @ v \<and> (\<forall>t \<in> set u. accepts c t) \<and> here re v))"
    unfolding matchstar.simps [of c re ts] using 2 by (cases ts) (auto simp: accepts_def)
  then show ?case unfolding star_step [of ts "accepts c" "here re"] .
qed

text \<open>
  C14. The matcher decides the meaning of the pattern: match() answers yes exactly when a word
  that the pattern denotes occurs in the text, at its beginning if the pattern starts with
  \<open>^\<close>, and at its end if the pattern ends with \<open>$\<close>. A star repeats the character before it, a
  dot stands for any character.
\<close>

theorem match_correct:
  "match re ts \<longleftrightarrow>
    (\<exists>u w r. ts = u @ w @ r \<and> (at0 re = 94 \<longrightarrow> u = []) \<and>
      w \<in> lang (re_items (if at0 re = 94 then tl re else re)) \<and>
      (re_end (if at0 re = 94 then tl re else re) \<longrightarrow> r = []))"
proof -
  have m: "match_from q ts \<longleftrightarrow> (\<exists>u v. ts = u @ v \<and> here q v)" for q ts
  proof (induction ts)
    case (Cons t ts)
    have "(\<exists>u v. t # ts = u @ v \<and> here q v) \<longleftrightarrow> here q (t # ts) \<or> (\<exists>u v. ts = u @ v \<and> here q v)"
      by (auto simp: Cons_eq_append_conv intro: exI [of _ "[]"])
    with Cons show ?case by (simp add: matcher_correct)
  qed (simp add: matcher_correct)
  show ?thesis
    by (cases "at0 re = 94") (auto simp: match_def m matcher_correct here_def items_here_def)
qed

theorem match_correct_witness:
  "match [97, 42, 98, 36] [120, 97, 97, 98] \<and>
    (\<exists>u w. [120, 97, 97, 98] = u @ w \<and> w \<in> lang (re_items [97, 42, 98, 36]))"
proof -
  have m: "match [97, 42, 98, 36] [120, 97, 97, 98]" by code_simp
  then obtain u w r where u: "[120, 97, 97, 98] = u @ w @ r" and w: "w \<in> lang (re_items [97, 42, 98, 36])"
    and r: "re_end [97, 42, 98, 36] \<longrightarrow> r = []"
    using match_correct [of "[97, 42, 98, 36]" "[120, 97, 97, 98]"] by (simp del: lang.simps re_items.simps re_end.simps) blast
  have "[120, 97, 97, 98] = u @ w" using u r by simp
  with m w show ?thesis by blast
qed

section \<open>What grep prints\<close>

fun lines_of :: "uchar list \<Rightarrow> uchar list \<Rightarrow> uchar list list \<times> uchar list" where
  "lines_of acc [] = ([], acc)"
| "lines_of acc (c # cs) =
     (if c = 10 then (let (ls, r) = lines_of [] cs in (acc # ls, r)) else lines_of (acc @ [c]) cs)"

definition matching :: "uchar list \<Rightarrow> uchar list list \<Rightarrow> uchar list" where
  "matching pattern ls = concat (map (\<lambda>l. l @ [10]) (filter (match pattern) ls))"

lemma lines_of_line: "10 \<notin> set u \<Longrightarrow> lines_of a (u @ q) = lines_of (a @ u) q"
  by (induction u arbitrary: a) auto

lemma lines_of_append:
  "lines_of a (x @ y) = (fst (lines_of a x) @ fst (lines_of (snd (lines_of a x)) y), snd (lines_of (snd (lines_of a x)) y))"
  by (induction a x rule: lines_of.induct) (auto simp: Let_def split: prod.split)

lemma lines_of_rest: "10 \<notin> set a \<Longrightarrow> set (snd (lines_of a x)) \<subseteq> set a \<union> set x - {10}"
  by (induction a x rule: lines_of.induct) (auto simp: Let_def split: prod.split)

lemma lines_of_len: "10 \<in> set x \<Longrightarrow> length (snd (lines_of a x)) < length x"
proof -
  have "length (snd (lines_of a x)) \<le> length a + length x" for a x
    by (induction a x rule: lines_of.induct) (auto simp: Let_def split: prod.split)
  then have "length (snd (lines_of [] x)) \<le> length x" for x by (metis add_0 list.size(3))
  then show "10 \<in> set x \<Longrightarrow> length (snd (lines_of a x)) < length x"
    by (induction a x rule: lines_of.induct) (auto simp: case_prod_beta less_Suc_eq_le)
qed

lemma grep_lines_run:
  "0 \<notin> set p \<Longrightarrow> urun stream_os (grep_lines pattern p) w =
    (Returned (snd (lines_of [] p)), put_out 1 (matching pattern (fst (lines_of [] p))) w)"
proof (induction pattern p arbitrary: w rule: grep_lines.induct)
  case (1 pattern p)
  show ?case
  proof (cases "u_strchr p 10")
    case None
    then have "10 \<notin> set p" using u_strchr_eq [of p 10] 1 by (auto split: if_splits)
    then show ?thesis unfolding grep_lines.simps [of pattern p]
      using None lines_of_line [of p "[]" "[]"] by (simp add: matching_def)
  next
    case (Some q)
    then obtain u q' where p: "p = u @ q" "q = 10 # q'" "10 \<notin> set u" using u_strchr_suffix by blast
    have "lines_of [] p = (u # fst (lines_of [] q'), snd (lines_of [] q'))"
      using p lines_of_line [of u "[]" q] by (simp add: case_prod_beta)
    moreover have "0 \<notin> set q'" using 1 p by simp
    moreover from this have "urun stream_os (grep_lines pattern q') w =
        (Returned (snd (lines_of [] q')), put_out 1 (matching pattern (fst (lines_of [] q'))) w)" for w
      using "1.IH" [OF Some refl, of w] p by simp
    ultimately show ?thesis unfolding grep_lines.simps [of pattern p]
      using Some p by (simp add: urun_uthen matching_def)
  qed
qed

lemma grep_loop_run:
  assumes "\<forall>c \<in> set cs. 10 \<in> set c \<and> 0 \<notin> set c \<and> length c \<le> 512" and "length cs < k"
    and "10 \<notin> set b" and "0 \<notin> set b" and "length b \<le> 511" and "s_in w = cs"
  shows "urun stream_os (grep_loop k pattern fd b) w =
    (Returned (), put_out 1 (matching pattern (fst (lines_of b (concat cs)))) (w\<lparr>s_in := []\<rparr>))"
  using assms
proof (induction cs arbitrary: k b w)
  case Nil
  then obtain k' where "k = Suc k'" by (cases k) auto
  moreover have "w\<lparr>s_in := []\<rparr> = w" using Nil by simp
  ultimately show ?case using Nil by (simp add: stream_read_chunk(2) matching_def)
next
  case (Cons c cs)
  obtain k' where k: "k = Suc k'" "length cs < k'" using Cons.prems(2) by (cases k) auto
  have c: "10 \<in> set c" "0 \<notin> set c" "length c \<le> 512" using Cons.prems(1) by simp_all
  let ?p = "snd (lines_of b c)" and ?w = "put_out 1 (matching pattern (fst (lines_of b c))) (w\<lparr>s_in := cs\<rparr>)"
  have e: "lines_of [] (b @ c) = lines_of b c" using lines_of_line [OF Cons.prems(3), of "[]" c] by simp
  have g: "urun stream_os (grep_lines pattern (b @ c)) (w\<lparr>s_in := cs\<rparr>) = (Returned ?p, ?w)"
    using grep_lines_run [of "b @ c"] Cons.prems(4) c(2) by (simp add: e)
  have l: "length ?p < length c" by (rule lines_of_len [OF c(1)])
  have r: "10 \<notin> set ?p" "0 \<notin> set ?p" using lines_of_rest [OF Cons.prems(3), of c] Cons.prems(4) c(2) by auto
  have rd: "stream_read fd (GREPBUF - length b - 1) w = ((int (length c), c), w\<lparr>s_in := cs\<rparr>)"
    by (rule stream_read_chunk(1)) (use Cons.prems(5,6) c(3) in \<open>simp_all add: GREPBUF_def\<close>)
  have "length c > 0" using l by linarith
  then have "urun stream_os (grep_loop k pattern fd b) w = urun stream_os (grep_loop k' pattern fd ?p) ?w"
    using rd g l by (simp add: k(1) urun_ubind)
  also have "\<dots> = (Returned (), put_out 1 (matching pattern (fst (lines_of ?p (concat cs)))) (?w\<lparr>s_in := []\<rparr>))"
    by (rule Cons.IH) (use Cons.prems(1) k(2) r l c(3) in auto)
  finally show ?case by (simp add: lines_of_append [of b c] matching_def)
qed

text \<open>
  C18. grep prints the lines that match, in order: when every read returns at most 512 bytes, among them a
  newline and no NUL, the output is exactly the complete lines of the input that the
  pattern matches, each with its newline, however the input is cut into reads. The loop ends after as many
  reads as there are pieces and one more.
\<close>

theorem grep_prints_matching_lines:
  assumes "\<forall>c \<in> set (s_in w). 10 \<in> set c \<and> 0 \<notin> set c \<and> length c \<le> 512" and "length (s_in w) < k"
  shows "urun stream_os (grep k pattern fd) w =
    (Returned (), put_out 1 (matching pattern (fst (lines_of [] (concat (s_in w))))) (w\<lparr>s_in := []\<rparr>))"
  unfolding grep_def by (rule grep_loop_run) (use assms in auto)

theorem grep_prints_matching_lines_witness:
  "urun stream_os (grep 3 [98] 0) \<lparr>s_in = [[97, 98, 10, 99], [99, 10]], s_out = (\<lambda>_. [])\<rparr> =
    (Returned (), \<lparr>s_in = [], s_out = (\<lambda>_. [])(1 := [97, 98, 10])\<rparr>)"
proof -
  have m: "match [98] [97, 98]" "\<not> match [98] [99, 99]"
    by (simp_all add: match_def matchhere.simps)
  show ?thesis
    using grep_prints_matching_lines [of "\<lparr>s_in = [[97, 98, 10, 99], [99, 10]], s_out = (\<lambda>_. [])\<rparr>" 3 "[98]" 0]
    by (simp add: matching_def put_out_def m)
qed

text \<open>
  C19. grep loses a line that arrives in pieces: when the bytes in the buffer together with those just
  read contain no newline, all of them are discarded and the loop goes on with an
  empty buffer, so the beginning of the line is never matched and never printed.
\<close>

theorem grep_loses_partial_line:
  assumes "s_in w = c # cs" and "c \<noteq> []" and "length b + length c < GREPBUF" and "10 \<notin> set (b @ c)" and "0 \<notin> set (b @ c)"
  shows "urun stream_os (grep_loop (Suc k) pattern fd b) w = urun stream_os (grep_loop k pattern fd []) (w\<lparr>s_in := cs\<rparr>)"
proof -
  have "lines_of [] (b @ c) = ([], b @ c)" using lines_of_line [OF assms(4), of "[]" "[]"] by simp
  then have "urun stream_os (grep_lines pattern (b @ c)) (w\<lparr>s_in := cs\<rparr>) = (Returned (b @ c), w\<lparr>s_in := cs\<rparr>)"
    using grep_lines_run [OF assms(5)] by (simp add: matching_def)
  moreover have "stream_read fd (GREPBUF - length b - 1) w = ((int (length c), c), w\<lparr>s_in := cs\<rparr>)"
    by (rule stream_read_chunk(1)) (use assms(1,3) in simp_all)
  ultimately show ?thesis using assms(2) by (simp add: urun_ubind)
qed

theorem grep_loses_partial_line_witness:
  "urun stream_os (grep_loop (Suc 1) [97] 0 []) \<lparr>s_in = [[97]], s_out = (\<lambda>_. [])\<rparr> =
   urun stream_os (grep_loop 1 [97] 0 []) (\<lparr>s_in = [[97]], s_out = (\<lambda>_. [])\<rparr>\<lparr>s_in := []\<rparr>)"
  by (rule grep_loses_partial_line [where c = "[97]"]) (simp_all add: GREPBUF_def)

end
