(* ===== verification/Shell.thy ===== *)
theory Shell
  imports Ustream
begin

text \<open>
  sh.c. The parser works on the command line as a C string: a pointer into it is the rest of the
  string, the end \<open>es\<close> the empty rest. A parsed command keeps the two pointers of each word, as the
  code does, and nulterminate() writes the NULs into the line. \<open>Panics\<close> is the exit through
  panic() with its message, \<open>Looping\<close> an exhausted bound on the recursion, which does not occur
  (\<open>parsecmd_returns\<close>). Memory for the commands is taken to be available.
\<close>

section \<open>Commands\<close>

definition MAXARGS :: nat where "MAXARGS = 10"

type_synonym ptr = "uchar list"

datatype 'w cmd =
    EXEC "'w list"
  | REDIR "'w cmd" 'w uint int
  | PIPE "'w cmd" "'w cmd"
  | LIST "'w cmd" "'w cmd"
  | BACK "'w cmd"

section \<open>Tokens\<close>

definition whitespace :: "uchar list" where "whitespace = [32, 9, 13, 10, 11]"
definition symbols :: "uchar list" where "symbols = [60, 124, 62, 38, 59, 40, 41]"

fun skip_space :: "ptr \<Rightarrow> ptr" where
  "skip_space [] = []"
| "skip_space (c # s) = (if u_strchr whitespace c \<noteq> None then skip_space s else c # s)"

fun skip_word :: "ptr \<Rightarrow> ptr" where
  "skip_word [] = []"
| "skip_word (c # s) = (if u_strchr whitespace c = None \<and> u_strchr symbols c = None then skip_word s else c # s)"

definition scan_token :: "ptr \<Rightarrow> uchar \<times> ptr" where
  "scan_token q =
     (case q of
        [] \<Rightarrow> (0, q)
      | c # s \<Rightarrow>
          if c = 0 then (0, q)
          else if c = 124 \<or> c = 40 \<or> c = 41 \<or> c = 59 \<or> c = 38 \<or> c = 60 then (c, s)
          else if c = 62 then (if at0 s = 62 then (43, tl s) else (62, s))
          else (97, skip_word q))"

text \<open>The token, its two ends, and the rest of the line.\<close>

definition gettoken :: "ptr \<Rightarrow> uchar \<times> ptr \<times> ptr \<times> ptr" where
  "gettoken ps = (let q = skip_space ps; (r, eq) = scan_token q in (r, q, eq, skip_space eq))"

definition peek :: "ptr \<Rightarrow> uchar list \<Rightarrow> bool \<times> ptr" where
  "peek ps toks = (let s = skip_space ps in (at0 s \<noteq> 0 \<and> u_strchr toks (at0 s) \<noteq> None, s))"

section \<open>The parser\<close>

datatype 'a pres = Parsed 'a ptr | Panics string | Looping

primrec pbind :: "'a pres \<Rightarrow> ('a \<Rightarrow> ptr \<Rightarrow> 'b pres) \<Rightarrow> 'b pres" where
  "pbind (Parsed a s) f = f a s"
| "pbind (Panics m) f = Panics m"
| "pbind Looping f = Looping"

type_synonym word_cmd = "(ptr \<times> ptr) cmd"

text \<open>\<open>cmd->argv[argc++] = q\<close>, through the pointer to the innermost command.\<close>

primrec add_arg :: "'w \<Rightarrow> 'w cmd \<Rightarrow> 'w cmd" where
  "add_arg w (EXEC ws) = EXEC (ws @ [w])"
| "add_arg w (REDIR c f m d) = REDIR (add_arg w c) f m d"
| "add_arg w (PIPE l r) = PIPE l r"
| "add_arg w (LIST l r) = LIST l r"
| "add_arg w (BACK c) = BACK c"

primrec parseredirs :: "nat \<Rightarrow> word_cmd \<Rightarrow> ptr \<Rightarrow> word_cmd pres" where
  "parseredirs 0 cmd ps = Looping"
| "parseredirs (Suc n) cmd ps =
     (case peek ps [60, 62] of (yes, ps) \<Rightarrow>
      if \<not> yes then Parsed cmd ps
      else
        (case gettoken ps of (tok, _, _, ps) \<Rightarrow>
         case gettoken ps of (r, q, eq, ps) \<Rightarrow>
         if r \<noteq> 97 then Panics ''missing file for redirection''
         else if tok = 60 then parseredirs n (REDIR cmd (q, eq) O_RDONLY 0) ps
         else if tok = 62 \<or> tok = 43 then parseredirs n (REDIR cmd (q, eq) (O_WRONLY OR O_CREATE) 1) ps
         else parseredirs n cmd ps))"

primrec parseargs :: "nat \<Rightarrow> nat \<Rightarrow> word_cmd \<Rightarrow> ptr \<Rightarrow> word_cmd pres" where
  "parseargs 0 argc cmd ps = Looping"
| "parseargs (Suc n) argc cmd ps =
     (case peek ps [124, 41, 38, 59] of (stop, ps) \<Rightarrow>
      if stop then Parsed cmd ps
      else
        (case gettoken ps of (tok, q, eq, ps) \<Rightarrow>
         if tok = 0 then Parsed cmd ps
         else if tok \<noteq> 97 then Panics ''syntax''
         else if argc + 1 \<ge> MAXARGS then Panics ''too many args''
         else pbind (parseredirs n (add_arg (q, eq) cmd) ps) (parseargs n (argc + 1))))"

primrec parsebacks :: "nat \<Rightarrow> word_cmd \<Rightarrow> ptr \<Rightarrow> word_cmd pres" where
  "parsebacks 0 cmd ps = Looping"
| "parsebacks (Suc n) cmd ps =
     (case peek ps [38] of (yes, ps) \<Rightarrow>
      if yes then (case gettoken ps of (_, _, _, ps) \<Rightarrow> parsebacks n (BACK cmd) ps) else Parsed cmd ps)"

fun parseline :: "nat \<Rightarrow> ptr \<Rightarrow> word_cmd pres"
  and parsepipe :: "nat \<Rightarrow> ptr \<Rightarrow> word_cmd pres"
  and parseexec :: "nat \<Rightarrow> ptr \<Rightarrow> word_cmd pres"
  and parseblock :: "nat \<Rightarrow> ptr \<Rightarrow> word_cmd pres" where
  "parseline 0 ps = Looping"
| "parseline (Suc n) ps =
     pbind (parsepipe n ps) (\<lambda>cmd ps.
     pbind (parsebacks n cmd ps) (\<lambda>cmd ps.
     case peek ps [59] of (yes, ps) \<Rightarrow>
     if yes then
       (case gettoken ps of (_, _, _, ps) \<Rightarrow> pbind (parseline n ps) (\<lambda>r ps. Parsed (LIST cmd r) ps))
     else Parsed cmd ps))"
| "parsepipe 0 ps = Looping"
| "parsepipe (Suc n) ps =
     pbind (parseexec n ps) (\<lambda>cmd ps.
     case peek ps [124] of (yes, ps) \<Rightarrow>
     if yes then
       (case gettoken ps of (_, _, _, ps) \<Rightarrow> pbind (parsepipe n ps) (\<lambda>r ps. Parsed (PIPE cmd r) ps))
     else Parsed cmd ps)"
| "parseexec 0 ps = Looping"
| "parseexec (Suc n) ps =
     (case peek ps [40] of (block, ps) \<Rightarrow>
      if block then parseblock n ps
      else pbind (parseredirs n (EXEC []) ps) (parseargs n 0))"
| "parseblock 0 ps = Looping"
| "parseblock (Suc n) ps =
     (case peek ps [40] of (block, ps) \<Rightarrow>
      if \<not> block then Panics ''parseblock''
      else
        (case gettoken ps of (_, _, _, ps) \<Rightarrow>
         pbind (parseline n ps) (\<lambda>cmd ps.
         case peek ps [41] of (close, ps) \<Rightarrow>
         if \<not> close then Panics ''syntax - missing )''
         else (case gettoken ps of (_, _, _, ps) \<Rightarrow> parseredirs n cmd ps))))"

section \<open>Words in the line\<close>

text \<open>A line of length \<open>es\<close> is kept in \<open>buf\<close> with a NUL behind it.\<close>

definition ptr_pos :: "nat \<Rightarrow> ptr \<Rightarrow> nat" where
  "ptr_pos es s = es - length s"

primrec nulterminate :: "nat \<Rightarrow> word_cmd \<Rightarrow> uchar list \<Rightarrow> uchar list" where
  "nulterminate es (EXEC ws) buf = foldl (\<lambda>b w. b[ptr_pos es (snd w) := 0]) buf ws"
| "nulterminate es (REDIR c f m d) buf = (nulterminate es c buf)[ptr_pos es (snd f) := 0]"
| "nulterminate es (PIPE l r) buf = nulterminate es r (nulterminate es l buf)"
| "nulterminate es (LIST l r) buf = nulterminate es r (nulterminate es l buf)"
| "nulterminate es (BACK c) buf = nulterminate es c buf"

definition word_at :: "nat \<Rightarrow> uchar list \<Rightarrow> ptr \<times> ptr \<Rightarrow> uchar list" where
  "word_at es buf w = takeWhile (\<lambda>c. c \<noteq> 0) (drop (ptr_pos es (fst w)) buf)"

section \<open>Running commands\<close>

definition sh_panic :: "string \<Rightarrow> 'a uprog" where
  "sh_panic m = ubind (printf 2 (ascii ''%s'' @ [10]) [Str (Some (ascii m))]) (\<lambda>_. UExit)"

definition fork1 :: "int uprog" where
  "fork1 = ubind (usys CFork) (\<lambda>pid. if pid = -1 then sh_panic ''fork'' else UDone pid)"

primrec runcmd :: "('w \<Rightarrow> uchar list) \<Rightarrow> 'w cmd \<Rightarrow> unit uprog" where
  "runcmd str (EXEC ws) =
     (case ws of
        [] \<Rightarrow> UExit
      | w # _ \<Rightarrow>
          uthen (udo (CExec (str w) (map str ws))) (
          uthen (printf 2 (ascii ''exec %s failed'' @ [10]) [Str (Some (str w))])
          UExit))"
| "runcmd str (REDIR c f m d) =
     uthen (udo (CClose d)) (
     ubind (usys (COpen (str f) m)) (\<lambda>r.
     if r < 0 then uthen (printf 2 (ascii ''open %s failed'' @ [10]) [Str (Some (str f))]) UExit
     else uthen (runcmd str c) UExit))"
| "runcmd str (LIST l r) =
     ubind fork1 (\<lambda>pid.
     uthen (if pid = 0 then runcmd str l else UDone ()) (
     uthen (udo CWait) (
     uthen (runcmd str r) UExit)))"
| "runcmd str (PIPE l r) =
     UPipe (\<lambda>(res, p0, p1).
     if res < 0 then sh_panic ''pipe''
     else
       ubind fork1 (\<lambda>pid.
       uthen (if pid = 0 then
                uthen (udo (CClose 1)) (
                uthen (udo (CDup p1)) (
                uthen (udo (CClose p0)) (
                uthen (udo (CClose p1)) (
                runcmd str l))))
              else UDone ()) (
       ubind fork1 (\<lambda>pid.
       uthen (if pid = 0 then
                uthen (udo (CClose 0)) (
                uthen (udo (CDup p0)) (
                uthen (udo (CClose p0)) (
                uthen (udo (CClose p1)) (
                runcmd str r))))
              else UDone ()) (
       uthen (udo (CClose p0)) (
       uthen (udo (CClose p1)) (
       uthen (udo CWait) (
       uthen (udo CWait)
       UExit))))))))"
| "runcmd str (BACK c) =
     ubind fork1 (\<lambda>pid. uthen (if pid = 0 then runcmd str c else UDone ()) UExit)"

definition parsecmd :: "uchar list \<Rightarrow> (word_cmd \<times> uchar list) uprog" where
  "parsecmd s =
     (case parseline (5 * length s + 6) s of
        Looping \<Rightarrow> UFuel
      | Panics m \<Rightarrow> sh_panic m
      | Parsed cmd ps \<Rightarrow>
          let ps = snd (peek ps []) in
          if ps \<noteq> [] then ubind (printf 2 (ascii ''leftovers: %s'' @ [10]) [Str (Some ps)]) (\<lambda>_. sh_panic ''syntax'')
          else UDone (cmd, nulterminate (length s) cmd (s @ [0])))"

text \<open>The line read, as a C string; \<open>None\<close> at the end of the input.\<close>

definition getcmd :: "int \<Rightarrow> uchar list option uprog" where
  "getcmd nbuf =
     uthen (printf 2 (ascii ''$ '') []) (
     ubind (gets nbuf) (\<lambda>l.
     let s = takeWhile (\<lambda>c. c \<noteq> 0) l in UDone (if s = [] then None else Some s)))"

primrec open_console :: "nat \<Rightarrow> unit uprog" where
  "open_console 0 = UFuel"
| "open_console (Suc k) =
     ubind (usys (COpen (ascii ''console'') O_RDWR)) (\<lambda>fd.
     if fd \<ge> 0 then (if fd \<ge> 3 then udo (CClose fd) else open_console k) else UDone ())"

primrec sh_loop :: "nat \<Rightarrow> unit uprog" where
  "sh_loop 0 = UFuel"
| "sh_loop (Suc k) =
     ubind (getcmd 100) (\<lambda>l.
     case l of
       None \<Rightarrow> UExit
     | Some s \<Rightarrow>
         if take 3 s = [99, 100, 32] then
           let dir = drop 3 (butlast s) in
           ubind (usys (CChdir dir)) (\<lambda>r.
           uthen (if r < 0 then printf 2 (ascii ''cannot cd %s'' @ [10]) [Str (Some dir)] else UDone ())
           (sh_loop k))
         else
           ubind fork1 (\<lambda>pid.
           uthen (if pid = 0 then ubind (parsecmd s) (\<lambda>(cmd, buf). runcmd (word_at (length s) buf) cmd) else UDone ()) (
           uthen (udo CWait)
           (sh_loop k))))"

definition sh_main :: "nat \<Rightarrow> unit uprog" where
  "sh_main k = uthen (open_console k) (sh_loop k)"

section \<open>The parser returns\<close>

definition within :: "nat \<Rightarrow> 'a pres \<Rightarrow> bool" where
  "within m r \<longleftrightarrow> r \<noteq> Looping \<and> (\<forall>c s. r = Parsed c s \<longrightarrow> length s \<le> m)"

lemma within_simps [simp]:
  "within m (Parsed c s) \<longleftrightarrow> length s \<le> m" "within m (Panics e)" "\<not> within m Looping"
  by (simp_all add: within_def)

lemma within_bind:
  assumes "within m r" and "\<And>c s. r = Parsed c s \<Longrightarrow> length s \<le> m \<Longrightarrow> within m' (f c s)"
  shows "within m' (pbind r f)"
  using assms by (cases r) simp_all

lemma within_mono: "within m r \<Longrightarrow> m \<le> m' \<Longrightarrow> within m' r"
  by (auto simp: within_def)

lemma special_chars:
  "u_strchr whitespace c = None \<longleftrightarrow> c \<notin> set whitespace" "u_strchr symbols c = None \<longleftrightarrow> c \<notin> set symbols"
  by (auto simp: whitespace_def symbols_def)

definition word_char :: "uchar \<Rightarrow> bool" where
  "word_char c \<longleftrightarrow> c \<notin> set whitespace \<and> c \<notin> set symbols"

lemma skip_space_Cons [simp]: "skip_space (c # s) = (if c \<in> set whitespace then skip_space s else c # s)"
  by (auto simp: special_chars)

lemma skip_word_Cons [simp]: "skip_word (c # s) = (if word_char c then skip_word s else c # s)"
  by (auto simp: special_chars word_char_def)

declare skip_space.simps(2) [simp del] skip_word.simps(2) [simp del]

lemma length_skip_space: "length (skip_space s) \<le> length s"
  by (induction s) auto

lemma length_skip_word: "length (skip_word s) \<le> length s"
  by (induction s) auto

lemma skip_space_hd: "skip_space s = c # r \<Longrightarrow> c \<notin> set whitespace"
  by (induction s) (auto split: if_splits)

lemma skip_space_idem [simp]: "skip_space (skip_space s) = skip_space s"
  by (induction s) auto

lemma scan_token_length:
  assumes "scan_token q = (tok, eq)" and "skip_space q = q"
  shows "length eq \<le> length q" and "tok \<noteq> 0 \<Longrightarrow> length eq < length q"
proof -
  have "length eq \<le> length q \<and> (tok \<noteq> 0 \<longrightarrow> length eq < length q)"
  proof (cases q)
    case Nil
    then show ?thesis using assms by (simp add: scan_token_def)
  next
    case (Cons c s)
    have "c \<notin> set whitespace" using skip_space_hd [of q c s] assms(2) Cons by simp
    moreover have "c \<in> set symbols \<longleftrightarrow> c = 124 \<or> c = 40 \<or> c = 41 \<or> c = 59 \<or> c = 38 \<or> c = 60 \<or> c = 62" by (auto simp: symbols_def)
    ultimately show ?thesis
      using assms(1) Cons length_skip_word [of s] by (auto simp: scan_token_def word_char_def split: if_splits)
  qed
  then show "length eq \<le> length q" "tok \<noteq> 0 \<Longrightarrow> length eq < length q" by auto
qed

lemma gettoken_length:
  assumes "gettoken ps = (tok, q, eq, r)"
  shows "length r \<le> length ps" and "tok \<noteq> 0 \<Longrightarrow> length r < length ps"
proof -
  obtain t e where s: "scan_token (skip_space ps) = (t, e)" by (cases "scan_token (skip_space ps)")
  then have g: "tok = t" "r = skip_space e" using assms by (auto simp: gettoken_def)
  note l = scan_token_length [OF s skip_space_idem] length_skip_space [of e] length_skip_space [of ps]
  show "length r \<le> length ps" using l(1,3,4) g(2) by simp
  show "tok \<noteq> 0 \<Longrightarrow> length r < length ps" using l(2,3,4) g by simp
qed

lemma peek_length: "peek ps ts = (yes, s) \<Longrightarrow> length s \<le> length ps"
  using length_skip_space [of ps] by (auto simp: peek_def Let_def)

lemma scan_token_0: "scan_token q = (0, e) \<Longrightarrow> at0 q = 0"
  by (auto simp: scan_token_def split: list.splits if_splits)

lemma peek_gettoken:
  assumes "peek ps ts = (True, s)" and "gettoken s = (tok, q, e, r)"
  shows "length r < length ps"
proof -
  have s: "s = skip_space ps" "at0 s \<noteq> 0" using assms(1) by (auto simp: peek_def Let_def)
  have "tok \<noteq> 0" using assms(2) s scan_token_0 [of s] by (auto simp: gettoken_def Let_def split: prod.splits)
  then have "length r < length s" by (rule gettoken_length(2) [OF assms(2)])
  then show ?thesis using peek_length [OF assms(1)] by simp
qed

lemma within_opt:
  assumes "length s \<le> m" and "\<And>s2. length s2 < length s \<Longrightarrow> within m (g s2)"
  shows "within m (case peek s ts of (yes, ps) \<Rightarrow>
    if yes then (case gettoken ps of (_, _, _, ps) \<Rightarrow> g ps) else Parsed c ps)"
proof -
  obtain yes s1 where p: "peek s ts = (yes, s1)" by (cases "peek s ts")
  obtain tok q e s2 where g: "gettoken s1 = (tok, q, e, s2)" by (cases "gettoken s1")
  show ?thesis
  proof (cases yes)
    case True
    then have "length s2 < length s" using peek_gettoken [of s ts s1 tok q e s2] p g by simp
    with True p g assms(2) show ?thesis by simp
  qed (use p peek_length [OF p] assms(1) in simp)
qed

lemma parseredirs_within: "length ps < n \<Longrightarrow> within (length ps) (parseredirs n cmd ps)"
proof (induction n arbitrary: cmd ps)
  case (Suc n)
  obtain yes s where p: "peek ps [60, 62] = (yes, s)" by (cases "peek ps [60, 62]")
  obtain tok q e s1 where g: "gettoken s = (tok, q, e, s1)" by (cases "gettoken s")
  obtain r q' e' s2 where g': "gettoken s1 = (r, q', e', s2)" by (cases "gettoken s1")
  show ?case
  proof (cases yes)
    case True
    then have "length s1 < length ps" using peek_gettoken [of ps "[60, 62]" s tok q e s1] p g by simp
    then have "length s2 < length ps" using gettoken_length(1) [OF g'] by simp
    then have "within (length ps) (parseredirs n c s2)" for c
      using within_mono [OF Suc.IH [of s2 c]] Suc.prems by simp
    then show ?thesis using p g g' True by simp
  qed (use p peek_length [OF p] in simp)
qed simp

lemma parseargs_within: "length ps + 1 < n \<Longrightarrow> within (length ps) (parseargs n argc cmd ps)"
proof (induction n arbitrary: argc cmd ps)
  case (Suc n)
  obtain yes s where p: "peek ps [124, 41, 38, 59] = (yes, s)" by (cases "peek ps [124, 41, 38, 59]")
  obtain tok q e s1 where g: "gettoken s = (tok, q, e, s1)" by (cases "gettoken s")
  note l = peek_length [OF p] gettoken_length [OF g]
  have "within (length ps) (pbind (parseredirs n c s1) (parseargs n m))" if t: "tok \<noteq> 0" for c m
  proof (rule within_bind)
    have s1: "length s1 < length ps" using l(1) l(3) [OF t] by simp
    then show "within (length s1) (parseredirs n c s1)" using parseredirs_within Suc.prems by simp
    show "within (length ps) (parseargs n m c' s2)" if "length s2 \<le> length s1" for c' s2
      using within_mono [OF Suc.IH [of s2 m c']] s1 that Suc.prems by simp
  qed
  then show ?case using p g l by simp
qed simp

lemma parsebacks_within: "length ps < n \<Longrightarrow> within (length ps) (parsebacks n cmd ps)"
proof (induction n arbitrary: cmd ps)
  case (Suc n)
  show ?case unfolding parsebacks.simps
  proof (rule within_opt [OF order.refl])
    fix s :: ptr
    assume s: "length s < length ps"
    then have "within (length s) (parsebacks n (BACK cmd) s)" using Suc by simp
    then show "within (length ps) (parsebacks n (BACK cmd) s)" by (rule within_mono) (use s in simp)
  qed
qed simp

text \<open>Five steps of recursion for each character of the line are enough.\<close>

lemma parse_within:
  "(5 * length ps + 5 \<le> n \<longrightarrow> within (length ps) (parseline n ps)) \<and>
   (5 * length ps + 4 \<le> n \<longrightarrow> within (length ps) (parsepipe n ps)) \<and>
   (5 * length ps + 3 \<le> n \<longrightarrow> within (length ps) (parseexec n ps)) \<and>
   (5 * length ps + 2 \<le> n \<longrightarrow> within (length ps) (parseblock n ps))"
proof (induction n arbitrary: ps)
  case (Suc n)
  have sub: "within m (pbind (parseline n s) (\<lambda>r ps. Parsed (f r) ps))" "within m (pbind (parsepipe n s) (\<lambda>r ps. Parsed (f r) ps))"
    if "length s < length ps" "5 * length ps \<le> n" "length ps \<le> m" for s m and f :: "word_cmd \<Rightarrow> word_cmd"
    using that Suc.IH [of s] by (auto intro!: within_bind [of "length s"])
  have line: "within (length ps) (parseline (Suc n) ps)" if n: "5 * length ps + 4 \<le> n" unfolding parseline.simps
  proof (rule within_bind)
    show "within (length ps) (parsepipe n ps)" using Suc.IH n by simp
    fix c :: word_cmd and s :: ptr
    assume s: "length s \<le> length ps"
    show "within (length ps) (pbind (parsebacks n c s) (\<lambda>c s. case peek s [59] of (yes, ps) \<Rightarrow>
       if yes then (case gettoken ps of (_, _, _, ps) \<Rightarrow> pbind (parseline n ps) (\<lambda>r ps. Parsed (LIST c r) ps)) else Parsed c ps))"
    proof (rule within_bind)
      show "within (length ps) (parsebacks n c s)" using within_mono [OF parsebacks_within s] s n by simp
    qed (rule within_opt, assumption, rule sub, use n in auto)
  qed
  have pipe: "within (length ps) (parsepipe (Suc n) ps)" if n: "5 * length ps + 3 \<le> n" unfolding parsepipe.simps
  proof (rule within_bind)
    show "within (length ps) (parseexec n ps)" using Suc.IH n by simp
  qed (rule within_opt, assumption, rule sub, use n in auto)
  have exec: "within (length ps) (parseexec (Suc n) ps)" if n: "5 * length ps + 2 \<le> n"
  proof -
    obtain yes s where p: "peek ps [40] = (yes, s)" by (cases "peek ps [40]")
    note l = peek_length [OF p]
    have "within (length s) (parseblock n s)" using Suc.IH [of s] n l by simp
    then have "within (length ps) (parseblock n s)" by (rule within_mono [OF _ l])
    moreover have "within (length ps) (pbind (parseredirs n (EXEC []) s) (parseargs n 0))"
    proof (rule within_bind)
      show "within (length s) (parseredirs n (EXEC []) s)" using parseredirs_within l n by simp
      show "within (length ps) (parseargs n 0 c s')" if "length s' \<le> length s" for c s'
        using within_mono [OF parseargs_within] that l n by simp
    qed
    ultimately show ?thesis using p by simp
  qed
  have block: "within (length ps) (parseblock (Suc n) ps)" if n: "5 * length ps + 1 \<le> n"
  proof -
    obtain yes s where p: "peek ps [40] = (yes, s)" by (cases "peek ps [40]")
    obtain tok q e s1 where g: "gettoken s = (tok, q, e, s1)" by (cases "gettoken s")
    have "within (length ps) (pbind (parseline n s1) (\<lambda>cmd ps. case peek ps [41] of (close, ps) \<Rightarrow>
        if \<not> close then Panics ''syntax - missing )'' else (case gettoken ps of (_, _, _, ps) \<Rightarrow> parseredirs n cmd ps)))" if yes
    proof (rule within_bind)
      have s1: "length s1 < length ps" using peek_gettoken [of ps "[40]" s tok q e s1] p g that by simp
      then show "within (length s1) (parseline n s1)" using Suc.IH n by simp
      fix c :: word_cmd and s2 :: ptr
      assume s2: "length s2 \<le> length s1"
      obtain yes' s3 where p': "peek s2 [41] = (yes', s3)" by (cases "peek s2 [41]")
      obtain tok' q' e' s4 where g': "gettoken s3 = (tok', q', e', s4)" by (cases "gettoken s3")
      have "length s4 \<le> length ps" using peek_length [OF p'] gettoken_length(1) [OF g'] s1 s2 by simp
      then have "within (length ps) (parseredirs n c s4)" using within_mono [OF parseredirs_within] n by simp
      then show "within (length ps) (case peek s2 [41] of (close, ps) \<Rightarrow>
        if \<not> close then Panics ''syntax - missing )'' else (case gettoken ps of (_, _, _, ps) \<Rightarrow> parseredirs n c ps))"
        using p' g' by simp
    qed
    then show ?thesis using p g by simp
  qed
  show ?case using line pipe exec block by simp
qed simp

end
