(* ===== verification/Shell_Words.thy ===== *)
theory Shell_Words
  imports Shell "HOL-Library.Sublist"
begin

text \<open>
  What the shell's parser makes of a line: every word of a parsed command is a maximal run of
  ordinary characters of the line, and after nulterminate() the pointers to the words are C
  strings with exactly these characters.
\<close>

section \<open>Words\<close>

definition word_ok :: "uchar list \<Rightarrow> ptr \<times> ptr \<Rightarrow> bool" where
  "word_ok L w \<longleftrightarrow> suffix (fst w) L \<and> (\<exists>tx. fst w = tx @ snd w \<and> tx \<noteq> [] \<and> (\<forall>c \<in> set tx. word_char c)) \<and>
     (snd w = [] \<or> \<not> word_char (hd (snd w)))"

definition parsed_ok :: "uchar list \<Rightarrow> word_cmd pres \<Rightarrow> bool" where
  "parsed_ok L r \<longleftrightarrow> (\<forall>c s. r = Parsed c s \<longrightarrow> suffix s L \<and> (\<forall>w \<in> set_cmd c. word_ok L w))"

lemma parsed_ok_simps [simp]:
  "parsed_ok L (Parsed c s) \<longleftrightarrow> suffix s L \<and> (\<forall>w \<in> set_cmd c. word_ok L w)" "parsed_ok L (Panics e)" "parsed_ok L Looping"
  by (auto simp: parsed_ok_def)

lemma parsed_ok_bind:
  assumes "parsed_ok L r" and "\<And>c s. suffix s L \<Longrightarrow> \<forall>w \<in> set_cmd c. word_ok L w \<Longrightarrow> parsed_ok L (f c s)"
  shows "parsed_ok L (pbind r f)"
  using assms by (cases r) auto

lemma suffix_skip_space: "suffix (skip_space s) s"
  by (induction s) (auto intro: suffix_ConsI)

lemma skip_word_run: "\<exists>tx. s = tx @ skip_word s \<and> (\<forall>c \<in> set tx. word_char c) \<and> (skip_word s = [] \<or> \<not> word_char (hd (skip_word s)))"
proof (induction s)
  case (Cons c s)
  then obtain tx where "s = tx @ skip_word s" "\<forall>c \<in> set tx. word_char c" "skip_word s = [] \<or> \<not> word_char (hd (skip_word s))" by blast
  then show ?case by (intro exI [of _ "if word_char c then c # tx else []"]) auto
qed simp

lemma scan_token_suffix: "scan_token q = (tok, e) \<Longrightarrow> suffix e q"
proof -
  have w: "suffix (skip_word q) q" for q using skip_word_run [of q] by (auto simp: suffix_def)
  assume "scan_token q = (tok, e)"
  then show ?thesis using w [of q]
    by (auto simp: scan_token_def suffix_ConsI suffix_tl split: list.splits if_splits)
qed

lemma gettoken_suffix:
  assumes "gettoken ps = (tok, q, e, r)"
  shows "suffix q ps" and "suffix r ps"
proof -
  have s: "scan_token (skip_space ps) = (tok, e)" "q = skip_space ps" "r = skip_space e"
    using assms by (auto simp: gettoken_def Let_def split: prod.splits)
  show "suffix q ps" using s(2) suffix_skip_space by simp
  have "suffix e (skip_space ps)" by (rule scan_token_suffix [OF s(1)])
  then show "suffix r ps" using s(3) suffix_skip_space [of e] suffix_skip_space [of ps] by (meson suffix_order.trans)
qed

lemma gettoken_word:
  assumes "gettoken ps = (97, q, e, r)" and "suffix ps L"
  shows "word_ok L (q, e)"
proof -
  have s: "scan_token q = (97, e)" "q = skip_space ps"
    using assms(1) by (auto simp: gettoken_def Let_def split: prod.splits)
  obtain c t where q: "q = c # t" "e = skip_word q" "c \<notin> set symbols"
    using s(1) by (auto simp: scan_token_def symbols_def split: list.splits if_splits)
  have "c \<notin> set whitespace" using skip_space_hd [of ps c t] s(2) q(1) by simp
  then have wc: "word_char c" using q(3) by (simp add: word_char_def)
  obtain tx where tx: "q = tx @ skip_word q" "\<forall>c \<in> set tx. word_char c" "skip_word q = [] \<or> \<not> word_char (hd (skip_word q))"
    using skip_word_run [of q] by blast
  have "tx \<noteq> []" using tx(1,3) wc q(1) by (metis append_Nil list.distinct(1) list.sel(1))
  moreover have "suffix q L" using suffix_skip_space [of ps] s(2) assms(2) by (meson suffix_order.trans)
  ultimately show ?thesis unfolding word_ok_def fst_conv snd_conv q(2) using tx by blast
qed

lemma peek_suffix: "peek ps ts = (yes, s) \<Longrightarrow> suffix s ps"
  using suffix_skip_space [of ps] by (auto simp: peek_def Let_def)

lemma parsed_ok_opt:
  assumes "suffix s L" and "\<And>s2. suffix s2 L \<Longrightarrow> parsed_ok L (g s2)" and "\<forall>w \<in> set_cmd c. word_ok L w"
  shows "parsed_ok L (case peek s ts of (yes, ps) \<Rightarrow>
    if yes then (case gettoken ps of (_, _, _, ps) \<Rightarrow> g ps) else Parsed c ps)"
proof -
  obtain yes s1 where p: "peek s ts = (yes, s1)" by (cases "peek s ts")
  obtain tok q e s2 where g: "gettoken s1 = (tok, q, e, s2)" by (cases "gettoken s1")
  have s1: "suffix s1 L" using peek_suffix [OF p] assms(1) by (rule suffix_order.trans)
  have "suffix s2 L" using gettoken_suffix(2) [OF g] s1 by (rule suffix_order.trans)
  with p g s1 assms(2,3) show ?thesis by simp
qed

lemma parseredirs_ok:
  "suffix ps L \<Longrightarrow> \<forall>w \<in> set_cmd cmd. word_ok L w \<Longrightarrow> parsed_ok L (parseredirs n cmd ps)"
proof (induction n arbitrary: cmd ps)
  case (Suc n)
  obtain yes s where p: "peek ps [60, 62] = (yes, s)" by (cases "peek ps [60, 62]")
  obtain tok q e s1 where g: "gettoken s = (tok, q, e, s1)" by (cases "gettoken s")
  obtain r q' e' s2 where g': "gettoken s1 = (r, q', e', s2)" by (cases "gettoken s1")
  have s: "suffix s L" using peek_suffix [OF p] Suc.prems(1) by (rule suffix_order.trans)
  have s1: "suffix s1 L" using gettoken_suffix(2) [OF g] s by (rule suffix_order.trans)
  have s2: "suffix s2 L" using gettoken_suffix(2) [OF g'] s1 by (rule suffix_order.trans)
  have w: "word_ok L (q', e')" if "r = 97" using gettoken_word g' s1 that by blast
  show ?case using p g g' s s2 w Suc by simp
qed simp

lemma set_add_arg: "set_cmd (add_arg w c) \<subseteq> insert w (set_cmd c)"
  by (induction c) auto

lemma parseargs_ok:
  "suffix ps L \<Longrightarrow> \<forall>w \<in> set_cmd cmd. word_ok L w \<Longrightarrow> parsed_ok L (parseargs n argc cmd ps)"
proof (induction n arbitrary: argc cmd ps)
  case (Suc n)
  obtain yes s where p: "peek ps [124, 41, 38, 59] = (yes, s)" by (cases "peek ps [124, 41, 38, 59]")
  obtain tok q e s1 where g: "gettoken s = (tok, q, e, s1)" by (cases "gettoken s")
  have s: "suffix s L" using peek_suffix [OF p] Suc.prems(1) by (rule suffix_order.trans)
  have s1: "suffix s1 L" using gettoken_suffix(2) [OF g] s by (rule suffix_order.trans)
  have "parsed_ok L (pbind (parseredirs n (add_arg (q, e) cmd) s1) (parseargs n m))" if "tok = 97" for m
  proof (rule parsed_ok_bind)
    have "word_ok L (q, e)" using gettoken_word g s that by blast
    then show "parsed_ok L (parseredirs n (add_arg (q, e) cmd) s1)"
      using parseredirs_ok [OF s1] set_add_arg [of "(q, e)" cmd] Suc.prems(2) by blast
  qed (rule Suc.IH)
  then show ?case using p g s s1 Suc.prems(2) by simp
qed simp

lemma parsebacks_ok:
  "suffix ps L \<Longrightarrow> \<forall>w \<in> set_cmd cmd. word_ok L w \<Longrightarrow> parsed_ok L (parsebacks n cmd ps)"
proof (induction n arbitrary: cmd ps)
  case (Suc n)
  show ?case unfolding parsebacks.simps by (rule parsed_ok_opt) (use Suc in auto)
qed simp

lemma parse_ok:
  "suffix ps L \<Longrightarrow> parsed_ok L (parseline n ps) \<and> parsed_ok L (parsepipe n ps) \<and> parsed_ok L (parseexec n ps) \<and> parsed_ok L (parseblock n ps)"
proof (induction n arbitrary: ps)
  case (Suc n)
  have "parsed_ok L (parseline (Suc n) ps)" unfolding parseline.simps
    by (intro parsed_ok_bind parsed_ok_opt parsebacks_ok) (use Suc in auto)
  moreover have "parsed_ok L (parsepipe (Suc n) ps)" unfolding parsepipe.simps
    by (intro parsed_ok_bind parsed_ok_opt) (use Suc in auto)
  moreover have "parsed_ok L (parseexec (Suc n) ps)"
  proof -
    obtain yes s where p: "peek ps [40] = (yes, s)" by (cases "peek ps [40]")
    have s: "suffix s L" using peek_suffix [OF p] Suc.prems by (rule suffix_order.trans)
    then have "parsed_ok L (pbind (parseredirs n (EXEC []) s) (parseargs n 0))"
      by (intro parsed_ok_bind parseredirs_ok parseargs_ok) auto
    with p s Suc.IH show ?thesis by simp
  qed
  moreover have "parsed_ok L (parseblock (Suc n) ps)"
  proof -
    obtain yes s where p: "peek ps [40] = (yes, s)" by (cases "peek ps [40]")
    obtain tok q e s1 where g: "gettoken s = (tok, q, e, s1)" by (cases "gettoken s")
    have s: "suffix s L" using peek_suffix [OF p] Suc.prems by (rule suffix_order.trans)
    have s1: "suffix s1 L" using gettoken_suffix(2) [OF g] s by (rule suffix_order.trans)
    have "parsed_ok L (pbind (parseline n s1) (\<lambda>cmd ps. case peek ps [41] of (close, ps) \<Rightarrow>
        if \<not> close then Panics ''syntax - missing )'' else (case gettoken ps of (_, _, _, ps) \<Rightarrow> parseredirs n cmd ps)))"
    proof (rule parsed_ok_bind)
      show "parsed_ok L (parseline n s1)" using Suc.IH [OF s1] by blast
      fix c :: word_cmd and s2 :: ptr
      assume s2: "suffix s2 L" and c: "\<forall>w \<in> set_cmd c. word_ok L w"
      obtain yes' s3 where p': "peek s2 [41] = (yes', s3)" by (cases "peek s2 [41]")
      obtain tok' q' e' s4 where g': "gettoken s3 = (tok', q', e', s4)" by (cases "gettoken s3")
      have "suffix s4 L" using gettoken_suffix(2) [OF g'] peek_suffix [OF p'] s2 by (meson suffix_order.trans)
      then show "parsed_ok L (case peek s2 [41] of (close, ps) \<Rightarrow>
          if \<not> close then Panics ''syntax - missing )'' else (case gettoken ps of (_, _, _, ps) \<Rightarrow> parseredirs n c ps))"
        using p' g' parseredirs_ok c by simp
    qed
    with p g show ?thesis by simp
  qed
  ultimately show ?case by blast
qed simp

section \<open>nulterminate\<close>

definition cut_points :: "nat \<Rightarrow> word_cmd \<Rightarrow> nat set" where
  "cut_points es c = (\<lambda>w. ptr_pos es (snd w)) ` set_cmd c"

lemma cut_points_simps [simp]:
  "cut_points es (EXEC ws) = (\<lambda>w. ptr_pos es (snd w)) ` set ws"
  "cut_points es (REDIR c f m d) = insert (ptr_pos es (snd f)) (cut_points es c)"
  "cut_points es (PIPE l r) = cut_points es l \<union> cut_points es r"
  "cut_points es (LIST l r) = cut_points es l \<union> cut_points es r"
  "cut_points es (BACK c) = cut_points es c"
  by (simp_all add: cut_points_def image_Un)

lemma foldl_cut:
  "length (foldl (\<lambda>b w. b[f w := 0]) buf ws) = length buf"
  "i < length buf \<Longrightarrow> foldl (\<lambda>b w. b[f w := 0]) buf ws ! i = (if i \<in> f ` set ws then 0 else buf ! i)"
  by (induction ws arbitrary: buf) (auto simp: nth_list_update)

lemma length_nulterminate [simp]: "length (nulterminate es c buf) = length buf"
  by (induction c arbitrary: buf) (simp_all add: foldl_cut)

lemma nulterminate_nth:
  "i < length buf \<Longrightarrow> nulterminate es c buf ! i = (if i \<in> cut_points es c then 0 else buf ! i)"
proof (induction c arbitrary: buf)
  case (REDIR c f m d)
  then show ?case by (cases "i = ptr_pos es (snd f)") auto
qed (auto simp: foldl_cut)

lemma word_ok_split:
  assumes "word_ok L w"
  obtains u tx where "L = u @ tx @ snd w" "fst w = tx @ snd w" "tx \<noteq> []" "\<forall>x \<in> set tx. word_char x"
    "snd w = [] \<or> \<not> word_char (hd (snd w))"
proof -
  obtain u where "L = u @ fst w" using assms by (auto simp: word_ok_def suffix_def)
  with assms show thesis unfolding word_ok_def by (metis that)
qed

text \<open>No cut falls into a word, and there is one at its end.\<close>

lemma cut_not_in_word:
  assumes "\<forall>w \<in> set_cmd c. word_ok L w" and "L = u @ tx @ v" and "\<forall>x \<in> set tx. word_char x" and "i < length tx"
  shows "length u + i \<notin> cut_points (length L) c"
proof
  assume "length u + i \<in> cut_points (length L) c"
  then obtain w where w: "w \<in> set_cmd c" "length u + i = ptr_pos (length L) (snd w)" by (auto simp: cut_points_def)
  obtain u' tx' where s: "L = u' @ tx' @ snd w" "snd w = [] \<or> \<not> word_char (hd (snd w))"
    using word_ok_split assms(1) w(1) by metis
  have "L ! (length u + i) = tx ! i" using assms(2,4) by (simp add: nth_append)
  then have "word_char (L ! (length u + i))" using assms(3,4) by simp
  moreover have p: "length u + i = length u' + length tx'" using w(2) arg_cong [OF s(1), of length] by (simp add: ptr_pos_def)
  moreover have "length u + i < length L" using assms(2,4) by simp
  ultimately show False using s by (cases "snd w") (auto simp: nth_append)
qed

lemma takeWhile_cut: "\<forall>x \<in> set tx. x \<noteq> 0 \<Longrightarrow> takeWhile (\<lambda>c. c \<noteq> 0) (tx @ 0 # r) = tx"
  by (induction tx) auto

lemma word_after_cut:
  assumes "0 \<notin> set L" and "\<forall>w \<in> set_cmd c. word_ok L w" and "w \<in> set_cmd c"
  shows "fst w = word_at (length L) (nulterminate (length L) c (L @ [0])) w @ snd w"
proof -
  let ?es = "length L" and ?nb = "nulterminate (length L) c (L @ [0])"
  obtain u tx where q: "L = u @ tx @ snd w" "fst w = tx @ snd w" "\<forall>x \<in> set tx. word_char x"
    using word_ok_split assms(2,3) by metis
  have pos: "ptr_pos ?es (fst w) = length u" "ptr_pos ?es (snd w) = length u + length tx"
    using arg_cong [OF q(1), of length] by (simp_all add: ptr_pos_def q(2))
  have len: "length ?nb = Suc (length u + length tx + length (snd w))" using arg_cong [OF q(1), of length] by simp
  have nb: "?nb ! (length u + i) = (tx @ [0]) ! i" if "i \<le> length tx" for i
  proof (cases "i < length tx")
    case True
    then show ?thesis using nulterminate_nth [of "length u + i" "L @ [0]" ?es c] cut_not_in_word [OF assms(2) q(1,3) True] q(1)
      by (simp add: nth_append)
  next
    case False
    have "length u + length tx \<in> cut_points ?es c" using assms(3) pos(2) by (force simp: cut_points_def)
    then show ?thesis using nulterminate_nth [of "length u + i" "L @ [0]" ?es c] False that q(1) by (simp add: nth_append)
  qed
  have "take (Suc (length tx)) (drop (length u) ?nb) = tx @ [0]"
  proof (rule nth_equalityI)
    show "length (take (Suc (length tx)) (drop (length u) ?nb)) = length (tx @ [0])" by (simp add: len del: length_nulterminate)
    fix i assume "i < length (take (Suc (length tx)) (drop (length u) ?nb))"
    then have "i \<le> length tx" by simp
    then show "take (Suc (length tx)) (drop (length u) ?nb) ! i = (tx @ [0]) ! i"
      using nb [of i] len by (simp del: length_nulterminate)
  qed
  then obtain r where r: "drop (length u) ?nb = tx @ 0 # r"
    by (metis append.assoc append_Cons append_Nil append_take_drop_id)
  have "\<forall>x \<in> set tx. x \<noteq> 0" using assms(1) q(1) by auto
  then have "word_at ?es ?nb w = tx" unfolding word_at_def pos(1) r by (rule takeWhile_cut)
  with q(2) show ?thesis by simp
qed

section \<open>The parser as a whole\<close>

lemma sh_panic_eq: "sh_panic m = ubind (ufor (ascii m @ [10]) (putc 2)) (\<lambda>_. UExit)"
  using printf_string [of "[]" "[10]" 2 "ascii m"] by (simp add: sh_panic_def ascii_def del: printf.simps ufor.simps)

lemma printf_failed: "printf 2 (ascii ''exec %s failed'' @ [10]) [Str (Some s)] = ufor (ascii ''exec '' @ s @ ascii '' failed'' @ [10]) (putc 2)"
  "printf 2 (ascii ''open %s failed'' @ [10]) [Str (Some s)] = ufor (ascii ''open '' @ s @ ascii '' failed'' @ [10]) (putc 2)"
  "printf 2 (ascii ''leftovers: %s'' @ [10]) [Str (Some s)] = ufor (ascii ''leftovers: '' @ s @ [10]) (putc 2)"
  using printf_string [of "ascii ''exec ''" "ascii '' failed'' @ [10]" 2 s] printf_string [of "ascii ''open ''" "ascii '' failed'' @ [10]" 2 s]
    printf_string [of "ascii ''leftovers: ''" "[10]" 2 s]
  by (simp_all add: ascii_def del: printf.simps ufor.simps)

lemma ends_in_sh_panic [simp]: "ends_in P (ubind (sh_panic m) k) \<longleftrightarrow> P Exited" "ends_in P (sh_panic m) \<longleftrightarrow> P Exited"
  by (simp_all add: sh_panic_eq ubind_assoc del: ufor.simps)

lemma parsecmd_done:
  assumes "parsecmd s = UDone (cmd, buf)"
  obtains ps where "parseline (5 * length s + 6) s = Parsed cmd ps" and "buf = nulterminate (length s) cmd (s @ [0])"
proof (cases "parseline (5 * length s + 6) s")
  case (Parsed c ps)
  have "ends_in (\<lambda>x. x = Returned (cmd, buf)) (parsecmd s)" unfolding assms by simp
  then show ?thesis using Parsed that by (auto simp: parsecmd_def printf_failed Let_def simp del: printf.simps split: if_splits)
next
  case (Panics m)
  have "ends_in (\<lambda>x. x = Returned (cmd, buf)) (parsecmd s)" unfolding assms by simp
  then show ?thesis using Panics by (simp add: parsecmd_def)
next
  case Looping
  then show ?thesis using assms by (simp add: parsecmd_def)
qed

text \<open>
  C15. The commands the shell runs are well-formed: when parsecmd() accepts a line, every word of the command, read as
  a C string from the line that nulterminate() has cut, is a nonempty run of characters that are neither blanks nor operators; it
  stands in the line where its pointer points, and the character behind it does not belong to a word.
\<close>

theorem parsecmd_words:
  assumes "0 \<notin> set s" and "parsecmd s = UDone (cmd, buf)" and "w \<in> set_cmd cmd"
  shows "\<exists>u v. s = u @ word_at (length s) buf w @ v \<and> ptr_pos (length s) (fst w) = length u \<and>
    word_at (length s) buf w \<noteq> [] \<and> (\<forall>c \<in> set (word_at (length s) buf w). word_char c) \<and> (v = [] \<or> \<not> word_char (hd v))"
proof -
  obtain ps where p: "parseline (5 * length s + 6) s = Parsed cmd ps" "buf = nulterminate (length s) cmd (s @ [0])"
    by (rule parsecmd_done [OF assms(2)])
  then have ok: "\<forall>w \<in> set_cmd cmd. word_ok s w" using parse_ok [of s s "5 * length s + 6"] by simp
  have f: "fst w = word_at (length s) buf w @ snd w" using word_after_cut [OF assms(1) ok assms(3)] p(2) by simp
  obtain u tx where q: "s = u @ tx @ snd w" "fst w = tx @ snd w" "tx \<noteq> []" "\<forall>x \<in> set tx. word_char x"
    "snd w = [] \<or> \<not> word_char (hd (snd w))" using word_ok_split ok assms(3) by metis
  have tx: "word_at (length s) buf w = tx" using q(2) f by simp
  have "ptr_pos (length s) (fst w) = length u"
    using arg_cong [OF q(1), of length] q(2) by (simp add: ptr_pos_def)
  then show ?thesis unfolding tx using q(1,3-5) by (intro exI [of _ u] exI [of _ "snd w"]) simp
qed

definition ex_ls :: "uchar list" where "ex_ls = [108, 115]"
definition ex_ls_word :: "ptr \<times> ptr" where "ex_ls_word = ([108, 115], [])"

lemma ex_ls_parse: "parsecmd ex_ls = UDone (EXEC [ex_ls_word], [108, 115, 0])"
proof -
  have "parseline 16 [108, 115] = Parsed (EXEC [([108, 115], [])]) []" by code_simp
  then show ?thesis by (simp add: parsecmd_def ex_ls_def ex_ls_word_def peek_def ptr_pos_def)
qed

theorem parsecmd_words_witness:
  "\<exists>u v. ex_ls = u @ word_at (length ex_ls) [108, 115, 0] ex_ls_word @ v \<and> word_at (length ex_ls) [108, 115, 0] ex_ls_word \<noteq> []"
  using parsecmd_words [OF _ ex_ls_parse, of ex_ls_word] by (auto simp: ex_ls_def)

text \<open>
  C16. The parser always comes to an end: five levels of recursion for each character of the line
  are enough for parsecmd(), whatever the line is; it never runs out of them, so the
  shell either gets a command or exits with a message about the syntax.
\<close>

theorem parsecmd_returns:
  "ends_in (\<lambda>x. x = Exited \<or> (\<exists>cmd. x = Returned (cmd, nulterminate (length s) cmd (s @ [0])))) (parsecmd s)"
proof -
  have "parseline (5 * length s + 6) s \<noteq> Looping"
    using parse_within [of s "5 * length s + 6"] by (auto simp: within_def)
  then show ?thesis
    by (cases "parseline (5 * length s + 6) s") (simp_all add: parsecmd_def printf_failed Let_def del: printf.simps)
qed

lemma ends_in_fork1 [simp]: "(\<And>pid. ends_in P (g pid)) \<Longrightarrow> P Exited \<Longrightarrow> ends_in P (ubind fork1 g)"
  by (simp add: fork1_def usys_def ubind_assoc)

lemma exits_uthen [simp]: "ends_in (\<lambda>x. x = Exited) p \<Longrightarrow> ends_in (\<lambda>x. x = Exited) (uthen p q)"
  by (rule ends_in_uthen, erule ends_in_mono) simp

lemma exits_if [simp]:
  "ends_in (\<lambda>x. x = Exited) p \<Longrightarrow> ends_in (\<lambda>x. x = Exited) q \<Longrightarrow> ends_in (\<lambda>x. x = Exited) (uthen (if b then p else UDone ()) q)"
  by simp

text \<open>
  C17. runcmd() never returns to its caller, as its comment says: whatever the command is and however the kernel answers, a
  process that runs it ends by exit() - unless exec() has replaced it by another program.
\<close>

theorem runcmd_never_returns: "ends_in (\<lambda>x. x = Exited) (runcmd str c)"
proof (induction c)
  case (EXEC ws)
  show ?case by (cases ws) (simp_all add: udo_def printf_failed uthen_def del: printf.simps ufor.simps)
next
  case (REDIR c x m d)
  have "ends_in (\<lambda>x. x = Exited) (uthen (ufor xs (putc 2)) UExit :: unit uprog)" for xs by (simp add: uthen_def)
  with REDIR show ?case by (simp add: udo_def usys_def printf_failed del: printf.simps ufor.simps)
qed (simp_all add: udo_def split: prod.split)

end
