(* ===== verification/Shell_Print.thy ===== *)
theory Shell_Print
  imports Shell_Words
begin

text \<open>
  The shell parses what a printer of commands prints: for every command whose words are made of
  ordinary characters there is a line that parsecmd() turns into exactly this command. The
  printer puts every part of a compound command in parentheses.
\<close>

section \<open>A printer for commands\<close>

primrec show_cmd :: "uchar list cmd \<Rightarrow> uchar list" where
  "show_cmd (EXEC ws) = concat (map (\<lambda>w. w @ [32]) ws)"
| "show_cmd (REDIR c f m d) = 40 # show_cmd c @ 41 # (if d = 0 then 60 else 62) # f @ [32]"
| "show_cmd (PIPE l r) = 40 # show_cmd l @ 41 # 124 # 40 # show_cmd r @ [41]"
| "show_cmd (LIST l r) = 40 # show_cmd l @ 41 # 59 # 40 # show_cmd r @ [41]"
| "show_cmd (BACK c) = 40 # show_cmd c @ [41, 38]"

definition plain_word :: "uchar list \<Rightarrow> bool" where
  "plain_word w \<longleftrightarrow> w \<noteq> [] \<and> (\<forall>c \<in> set w. word_char c \<and> c \<noteq> 0)"

primrec printable :: "uchar list cmd \<Rightarrow> bool" where
  "printable (EXEC ws) \<longleftrightarrow> length ws < MAXARGS \<and> (\<forall>w \<in> set ws. plain_word w)"
| "printable (REDIR c f m d) \<longleftrightarrow> printable c \<and> plain_word f \<and> (m = O_RDONLY \<and> d = 0 \<or> m = O_WRONLY OR O_CREATE \<and> d = 1)"
| "printable (PIPE l r) \<longleftrightarrow> printable l \<and> printable r"
| "printable (LIST l r) \<longleftrightarrow> printable l \<and> printable r"
| "printable (BACK c) \<longleftrightarrow> printable c"

definition word_text :: "ptr \<times> ptr \<Rightarrow> uchar list" where
  "word_text w = take (length (fst w) - length (snd w)) (fst w)"

section \<open>Tokens of a printed command\<close>

lemma space_simps [simp]: "32 \<in> set whitespace" "40 \<notin> set whitespace" "41 \<notin> set whitespace" "124 \<notin> set whitespace"
  "59 \<notin> set whitespace" "38 \<notin> set whitespace" "60 \<notin> set whitespace" "62 \<notin> set whitespace" "\<not> word_char 32"
  "0 \<notin> set whitespace" "0 \<notin> set symbols"
  by (simp_all add: whitespace_def word_char_def symbols_def)

lemma peek_Cons: "c \<notin> set whitespace \<Longrightarrow> c \<noteq> 0 \<Longrightarrow> 0 \<notin> set ts \<Longrightarrow> peek (c # s) ts = (c \<in> set ts, c # s)"
  by (auto simp: peek_def u_strchr_eq Let_def)

lemma peek_Nil [simp]: "peek [] ts = (False, [])"
  by (simp add: peek_def)

lemma gettoken_symbol: "c \<in> {124, 40, 41, 59, 38, 60} \<Longrightarrow> gettoken (c # s) = (c, c # s, s, skip_space s)"
  by (auto simp: gettoken_def scan_token_def)

lemma gettoken_gt: "at0 s \<noteq> 62 \<Longrightarrow> gettoken (62 # s) = (62, 62 # s, s, skip_space s)"
  by (auto simp: gettoken_def scan_token_def)

lemma word_char_not: "word_char c \<Longrightarrow> c \<notin> {124, 40, 41, 59, 38, 60, 62}" "word_char c \<Longrightarrow> c \<notin> set whitespace"
  by (auto simp: word_char_def symbols_def)

lemma skip_plain: "\<forall>c \<in> set w. word_char c \<Longrightarrow> skip_word (w @ 32 # s) = 32 # s"
  by (induction w) auto

lemma gettoken_word_text:
  assumes "plain_word w"
  shows "gettoken (w @ 32 # s) = (97, w @ 32 # s, 32 # s, skip_space s)" and "word_text (w @ 32 # s, 32 # s) = w"
    and "ts \<subseteq> {124, 40, 41, 59, 38, 60, 62} \<Longrightarrow> set tl' = ts \<Longrightarrow> peek (w @ 32 # s) tl' = (False, w @ 32 # s)"
proof -
  obtain c w' where w: "w = c # w'" "word_char c" "c \<noteq> 0" using assms by (cases w) (auto simp: plain_word_def)
  have "skip_word (w @ 32 # s) = 32 # s" using assms by (intro skip_plain) (simp add: plain_word_def)
  then show "gettoken (w @ 32 # s) = (97, w @ 32 # s, 32 # s, skip_space s)"
    using w word_char_not [OF w(2)] by (auto simp: gettoken_def scan_token_def)
  show "word_text (w @ 32 # s, 32 # s) = w" by (simp add: word_text_def)
  assume ts: "ts \<subseteq> {124, 40, 41, 59, 38, 60, 62}" "set tl' = ts"
  have "0 \<notin> set tl'" "c \<notin> set tl'" using ts word_char_not(1) [OF w(2)] by auto
  then show "peek (w @ 32 # s) tl' = (False, w @ 32 # s)" using w word_char_not(2) [OF w(2)] by (simp add: peek_Cons)
qed

lemma at0_plain: "plain_word w \<Longrightarrow> at0 (w @ s) \<noteq> 62" "plain_word w \<Longrightarrow> skip_space (w @ s) = w @ s"
  by (cases w; auto simp: plain_word_def word_char_def symbols_def)+

text \<open>What may follow a command.\<close>

definition follow :: "uchar set \<Rightarrow> ptr \<Rightarrow> bool" where
  "follow cs r \<longleftrightarrow> r = [] \<or> (\<exists>c s. r = c # s \<and> c \<in> cs)"

lemma follow_peek:
  assumes "follow cs r" and "cs \<subseteq> {41, 124, 59, 38}" and "0 \<notin> set ts"
  shows "skip_space r = r" and "peek r ts = (r \<noteq> [] \<and> at0 r \<in> set ts, r)"
  using assms by (auto simp: follow_def peek_Cons)

lemma skip_show: "printable c \<Longrightarrow> follow {41} r \<Longrightarrow> skip_space (show_cmd c @ r) = show_cmd c @ r"
proof (cases c)
  case (EXEC ws)
  assume "printable c" "follow {41} r"
  with EXEC show ?thesis by (cases ws) (auto simp: at0_plain follow_def)
qed simp_all

section \<open>Parsing it\<close>

lemma parseredirs_none: "follow cs r \<Longrightarrow> cs \<subseteq> {41, 124, 59, 38} \<Longrightarrow> parseredirs (Suc n) cmd r = Parsed cmd r"
  by (auto simp: follow_peek follow_def)

lemma parseredirs_plain: "plain_word w \<Longrightarrow> parseredirs (Suc n) cmd (w @ 32 # s) = Parsed cmd (w @ 32 # s)"
  using gettoken_word_text(3) [of w "{60, 62}" "[60, 62]" s] by simp

lemma parseargs_words:
  assumes "\<forall>w \<in> set ws. plain_word w" and "argc + length ws < MAXARGS" and "follow {41} r" and "length ws + 1 < n"
  shows "\<exists>toks. parseargs n argc (EXEC ds) (concat (map (\<lambda>w. w @ [32]) ws) @ r) = Parsed (EXEC (ds @ toks)) r \<and> map word_text toks = ws"
  using assms
proof (induction ws arbitrary: n argc ds)
  case Nil
  obtain m where n: "n = Suc m" using Nil by (cases n) auto
  show ?case using Nil(3) by (auto simp: n follow_def peek_Cons gettoken_def scan_token_def)
next
  case (Cons w ws)
  obtain m where n: "n = Suc (Suc m)" using Cons.prems(4) by (cases n; cases "n - 1") auto
  have w: "plain_word w" using Cons.prems(1) by simp
  let ?s = "concat (map (\<lambda>w. w @ [32]) ws) @ r"
  have sk: "skip_space ?s = ?s" using skip_show [of "EXEC ws" r] Cons.prems(1-3) by simp
  note tk = gettoken_word_text [OF w, where s = ?s]
  have p: "peek (w @ 32 # ?s) [124, 41, 38, 59] = (False, w @ 32 # ?s)" by (rule tk(3) [OF _ refl]) simp
  have rd: "parseredirs (Suc m) c ?s = Parsed c ?s" for c
    using parseredirs_plain [of "hd ws" m c] parseredirs_none [OF Cons.prems(3), of m c] Cons.prems(1) by (cases ws) simp_all
  obtain toks where t: "parseargs (Suc m) (argc + 1) (EXEC (ds @ [(w @ 32 # ?s, 32 # ?s)])) ?s = Parsed (EXEC ((ds @ [(w @ 32 # ?s, 32 # ?s)]) @ toks)) r"
    "map word_text toks = ws"
    using Cons.IH [of "argc + 1" "Suc m" "ds @ [(w @ 32 # ?s, 32 # ?s)]"] Cons.prems n by auto
  have "parseargs n argc (EXEC ds) (w @ 32 # ?s) = Parsed (EXEC (ds @ (w @ 32 # ?s, 32 # ?s) # toks)) r"
    unfolding n parseargs.simps(2) [of "Suc m"] using t(1) Cons.prems(2)
    by (simp add: p tk(1) sk rd del: parseargs.simps parseredirs.simps)
  then show ?case using tk(2) t(2) by (intro exI [of _ "(w @ 32 # ?s, 32 # ?s) # toks"]) simp
qed

definition parses :: "uchar list cmd \<Rightarrow> bool" where
  "parses c \<longleftrightarrow> (\<forall>r n. follow {41} r \<and> 5 * length (show_cmd c @ r) + 5 \<le> n \<longrightarrow>
     (\<exists>c'. parseline n (show_cmd c @ r) = Parsed c' r \<and> map_cmd word_text c' = c))"

text \<open>A command in parentheses.\<close>

lemma parseexec_block:
  assumes "parses c" and "printable c" and "skip_space r = r" and "5 * length (40 # show_cmd c @ 41 # r) + 3 \<le> n"
  obtains c' m where "parseexec n (40 # show_cmd c @ 41 # r) = parseredirs (Suc (Suc m)) c' r" "map_cmd word_text c' = c"
proof -
  obtain m where n: "n = Suc (Suc (Suc (Suc m)))" "5 * length (show_cmd c @ 41 # r) + 5 \<le> Suc (Suc m)"
    using assms(4) by (intro that [of "n - 4"]) simp_all
  have f: "follow {41} (41 # r)" by (simp add: follow_def)
  obtain c' where c': "parseline (Suc (Suc m)) (show_cmd c @ 41 # r) = Parsed c' (41 # r)" "map_cmd word_text c' = c"
    using assms(1) f n(2) unfolding parses_def by blast
  have "parseblock (Suc (Suc (Suc m))) (40 # show_cmd c @ 41 # r) = parseredirs (Suc (Suc m)) c' r"
    unfolding parseblock.simps using c'(1) skip_show [OF assms(2) f] assms(3)
    by (simp add: peek_Cons gettoken_symbol del: parseline.simps parseredirs.simps)
  then have "parseexec n (40 # show_cmd c @ 41 # r) = parseredirs (Suc (Suc m)) c' r"
    unfolding n(1) parseexec.simps by (simp add: peek_Cons del: parseblock.simps parseredirs.simps)
  with c'(2) show thesis by (rule that [rotated])
qed

lemma parsepipe_block:
  assumes "parses c" and "printable c" and "follow {41, 59, 38} r" and "5 * length (40 # show_cmd c @ 41 # r) + 4 \<le> n"
  shows "\<exists>c'. parsepipe n (40 # show_cmd c @ 41 # r) = Parsed c' r \<and> map_cmd word_text c' = c"
proof -
  obtain n' where n: "n = Suc n'" using assms(4) by (cases n) auto
  have r: "skip_space r = r" "peek r [124] = (False, r)" using follow_peek [OF assms(3)] assms(3) by (auto simp: follow_def)
  have le: "5 * length (40 # show_cmd c @ 41 # r) + 3 \<le> n'" using assms(4) n by simp
  obtain c' m where c': "parseexec n' (40 # show_cmd c @ 41 # r) = parseredirs (Suc (Suc m)) c' r" "map_cmd word_text c' = c"
    by (rule parseexec_block [OF assms(1,2) r(1) le])
  have "parseredirs (Suc (Suc m)) c' r = Parsed c' r" by (rule parseredirs_none [OF assms(3)]) auto
  with c' r(2) show ?thesis unfolding n parsepipe.simps by (simp del: parseredirs.simps parseexec.simps)
qed

lemma parseline_tail:
  assumes "parsepipe n s = Parsed c r" and "follow {41} r" and "0 < n"
  shows "parseline (Suc n) s = Parsed c r"
proof -
  obtain m where n: "n = Suc m" using assms(3) by (cases n) auto
  have "peek r [38] = (False, r)" "peek r [59] = (False, r)" using assms(2) by (auto simp: follow_def peek_Cons)
  then show ?thesis unfolding parseline.simps using assms(1) by (simp add: n del: parsepipe.simps)
qed

lemma parses_EXEC:
  assumes "printable (EXEC ws)"
  shows "parses (EXEC ws)"
  unfolding parses_def
proof (intro allI impI)
  fix r n
  let ?s = "concat (map (\<lambda>w. w @ [32]) ws) @ r"
  assume h: "follow {41} r \<and> 5 * length (show_cmd (EXEC ws) @ r) + 5 \<le> n"
  from h have "4 \<le> n" by simp
  then obtain m where n: "n = Suc (Suc (Suc (Suc m)))" by (intro that [of "n - 4"]) simp
  have pw: "\<forall>w \<in> set ws. plain_word w" "length ws < MAXARGS" using assms by simp_all
  have "length ws \<le> length (concat (map (\<lambda>w. w @ [32 :: uchar]) ws))" by (induction ws) auto
  then have len: "length ws + 1 < Suc m" using h n by simp
  have p: "peek ?s [40] = (False, ?s)"
  proof (cases ws)
    case Nil
    then show ?thesis using h by (auto simp: follow_def peek_Cons)
  next
    case (Cons w ws')
    then show ?thesis using gettoken_word_text(3) [of w "{40}" "[40]"] pw(1) by simp
  qed
  have rd: "parseredirs (Suc m) c ?s = Parsed c ?s" for c
    using parseredirs_plain [of "hd ws" m c] parseredirs_none [of "{41}" r m c] pw(1) h by (cases ws) simp_all
  obtain toks where t: "parseargs (Suc m) 0 (EXEC []) ?s = Parsed (EXEC toks) r" "map word_text toks = ws"
    using parseargs_words [OF pw(1), of 0 r "Suc m" "[]"] pw(2) h len by auto
  have "parseexec (Suc (Suc m)) ?s = Parsed (EXEC toks) r"
    unfolding parseexec.simps using t(1) by (simp add: p rd del: parseargs.simps parseredirs.simps)
  moreover have "peek r [124] = (False, r)" using h by (auto simp: follow_def peek_Cons)
  ultimately have "parsepipe (Suc (Suc (Suc m))) ?s = Parsed (EXEC toks) r"
    unfolding parsepipe.simps by (simp del: parseexec.simps)
  from parseline_tail [OF this] h n t(2)
  show "\<exists>c'. parseline n (show_cmd (EXEC ws) @ r) = Parsed c' r \<and> map_cmd word_text c' = EXEC ws" by auto
qed

lemma follow_mono: "follow cs r \<Longrightarrow> cs \<subseteq> ds \<Longrightarrow> follow ds r"
  by (auto simp: follow_def)

lemma parses_PIPE:
  assumes "parses a" "printable a" and "parses b" "printable b"
  shows "parses (PIPE a b)"
  unfolding parses_def
proof (intro allI impI)
  fix r n
  let ?t = "40 # show_cmd b @ 41 # r"
  let ?s = "40 # show_cmd a @ 41 # 124 # ?t"
  assume h: "follow {41} r \<and> 5 * length (show_cmd (PIPE a b) @ r) + 5 \<le> n"
  from h have "5 * length ?s + 5 \<le> n" by simp
  then obtain m where n: "n = Suc (Suc m)" and le: "5 * length ?s + 3 \<le> m" by (intro that [of "n - 2"]) simp_all
  obtain a' k where a': "parseexec m ?s = parseredirs (Suc (Suc k)) a' (124 # ?t)" "map_cmd word_text a' = a"
    by (rule parseexec_block [OF assms(1,2) _ le]) simp
  have "parseredirs (Suc (Suc k)) a' (124 # ?t) = Parsed a' (124 # ?t)" by (rule parseredirs_none [of "{124}"]) (simp_all add: follow_def)
  then have e: "parseexec m ?s = Parsed a' (124 # ?t)" using a'(1) by (simp only:)
  obtain b' where b': "parsepipe m ?t = Parsed b' r" "map_cmd word_text b' = b"
    using parsepipe_block [OF assms(3,4) follow_mono, of "{41}" r m] h le by auto
  have "parsepipe (Suc m) ?s = Parsed (PIPE a' b') r"
    unfolding parsepipe.simps using e b'(1) by (simp add: peek_Cons gettoken_symbol del: parseexec.simps parsepipe.simps)
  from parseline_tail [OF this] h a'(2) b'(2) n
  show "\<exists>c'. parseline n (show_cmd (PIPE a b) @ r) = Parsed c' r \<and> map_cmd word_text c' = PIPE a b" by auto
qed

lemma parseline_block:
  assumes "parses c" and "printable c" and "follow {41} r" and "5 * length (40 # show_cmd c @ 41 # r) + 5 \<le> n"
  shows "\<exists>c'. parseline n (40 # show_cmd c @ 41 # r) = Parsed c' r \<and> map_cmd word_text c' = c"
proof -
  obtain m where n: "n = Suc m" "0 < m" using assms(4) by (cases n) auto
  show ?thesis using parsepipe_block [OF assms(1,2) follow_mono [OF assms(3)], of m] parseline_tail [OF _ assms(3) n(2)] assms(4) n(1) by auto
qed

lemma parses_LIST:
  assumes "parses a" "printable a" and "parses b" "printable b"
  shows "parses (LIST a b)"
  unfolding parses_def
proof (intro allI impI)
  fix r n
  let ?t = "40 # show_cmd b @ 41 # r"
  let ?s = "40 # show_cmd a @ 41 # 59 # ?t"
  assume h: "follow {41} r \<and> 5 * length (show_cmd (LIST a b) @ r) + 5 \<le> n"
  from h have "5 * length ?s + 5 \<le> n" by simp
  then obtain m where n: "n = Suc (Suc m)" and le: "5 * length ?s + 4 \<le> Suc m" by (intro that [of "n - 2"]) simp_all
  obtain a' where a': "parsepipe (Suc m) ?s = Parsed a' (59 # ?t)" "map_cmd word_text a' = a"
    using parsepipe_block [OF assms(1,2) _ le] by (auto simp: follow_def)
  have "parsebacks (Suc m) a' (59 # ?t) = Parsed a' (59 # ?t)" by (simp add: peek_Cons)
  moreover obtain b' where b': "parseline (Suc m) ?t = Parsed b' r" "map_cmd word_text b' = b"
    using parseline_block [OF assms(3,4), of r "Suc m"] h le by auto
  ultimately have "parseline (Suc (Suc m)) ?s = Parsed (LIST a' b') r"
    unfolding parseline.simps(2) [of "Suc m"] using a'(1)
    by (simp add: peek_Cons gettoken_symbol del: parsepipe.simps parsebacks.simps parseline.simps)
  with a'(2) b'(2) n
  show "\<exists>c'. parseline n (show_cmd (LIST a b) @ r) = Parsed c' r \<and> map_cmd word_text c' = LIST a b" by auto
qed

lemma parses_BACK:
  assumes "parses a" "printable a"
  shows "parses (BACK a)"
  unfolding parses_def
proof (intro allI impI)
  fix r n
  let ?s = "40 # show_cmd a @ 41 # 38 # r"
  assume h: "follow {41} r \<and> 5 * length (show_cmd (BACK a) @ r) + 5 \<le> n"
  from h have "5 * length ?s + 5 \<le> n" by simp
  then obtain m where n: "n = Suc (Suc (Suc m))" and le: "5 * length ?s + 4 \<le> Suc (Suc m)" by (intro that [of "n - 3"]) simp_all
  obtain a' where a': "parsepipe (Suc (Suc m)) ?s = Parsed a' (38 # r)" "map_cmd word_text a' = a"
    using parsepipe_block [OF assms _ le] by (auto simp: follow_def)
  have r: "skip_space r = r" "peek r [38] = (False, r)" "peek r [59] = (False, r)" using h by (auto simp: follow_def peek_Cons)
  then have "parsebacks (Suc (Suc m)) a' (38 # r) = Parsed (BACK a') r" by (simp add: peek_Cons gettoken_symbol)
  then have "parseline n ?s = Parsed (BACK a') r"
    unfolding n parseline.simps(2) [of "Suc (Suc m)"] using a'(1) r(3) by (simp del: parsepipe.simps parsebacks.simps)
  with a'(2) show "\<exists>c'. parseline n (show_cmd (BACK a) @ r) = Parsed c' r \<and> map_cmd word_text c' = BACK a" by auto
qed

lemma parses_REDIR:
  assumes "parses a" "printable a" and "plain_word f" and "m = O_RDONLY \<and> d = 0 \<or> m = O_WRONLY OR O_CREATE \<and> d = 1"
  shows "parses (REDIR a f m d)"
  unfolding parses_def
proof (intro allI impI)
  fix r n
  let ?c = "if d = 0 then 60 else 62 :: uchar"
  let ?f = "f @ 32 # r"
  let ?s = "40 # show_cmd a @ 41 # ?c # ?f"
  assume h: "follow {41} r \<and> 5 * length (show_cmd (REDIR a f m d) @ r) + 5 \<le> n"
  from h have "5 * length ?s + 5 \<le> n" by simp
  then obtain k where n: "n = Suc (Suc k)" and le: "5 * length ?s + 3 \<le> k" by (intro that [of "n - 2"]) simp_all
  have r: "skip_space r = r" "peek r [124] = (False, r)" using h by (auto simp: follow_def peek_Cons)
  obtain a' j where a': "parseexec k ?s = parseredirs (Suc (Suc j)) a' (?c # ?f)" "map_cmd word_text a' = a"
    by (rule parseexec_block [OF assms(1,2) _ le]) simp
  note tk = gettoken_word_text [OF assms(3), where s = r]
  let ?a = "REDIR a' (?f, 32 # r) m d"
  have g: "gettoken (?c # ?f) = (?c, ?c # ?f, ?f, ?f)"
    using at0_plain [OF assms(3), of "32 # r"] by (auto simp: gettoken_symbol gettoken_gt)
  have "parseredirs (Suc (Suc j)) a' (?c # ?f) = parseredirs (Suc j) ?a r"
    unfolding parseredirs.simps(2) [of "Suc j"] using assms(4)
    by (auto simp: peek_Cons g tk(1) r(1) simp del: parseredirs.simps)
  also have "\<dots> = Parsed ?a r" by (rule parseredirs_none [of "{41}"]) (use h in simp_all)
  finally have "parsepipe (Suc k) ?s = Parsed ?a r" unfolding parsepipe.simps using a'(1) r(2) by (simp del: parseexec.simps parseredirs.simps)
  from parseline_tail [OF this] h a'(2) tk(2) n
  show "\<exists>c'. parseline n (show_cmd (REDIR a f m d) @ r) = Parsed c' r \<and> map_cmd word_text c' = REDIR a f m d" by auto
qed

lemma printable_parses: "printable c \<Longrightarrow> parses c"
  by (induction c) (simp_all add: parses_EXEC parses_REDIR parses_PIPE parses_LIST parses_BACK del: printable.simps(1))

lemma show_no_nul: "printable c \<Longrightarrow> 0 \<notin> set (show_cmd c)"
  by (induction c) (auto simp: plain_word_def)

lemma word_text_split: "fst w = x @ snd w \<Longrightarrow> word_text w = x"
  by (simp add: word_text_def)

text \<open>
  C13. The shell understands every command: for every command, however nested, whose words are nonempty and made of
  ordinary characters and that has at most nine words per program, the line that show_cmd prints is parsed by parsecmd() without
  error into a command which, with the words read as C strings from the line after nulterminate(), is
  exactly the command printed.
\<close>

theorem parsecmd_show_roundtrip:
  assumes "printable c"
  shows "\<exists>cmd buf. parsecmd (show_cmd c) = UDone (cmd, buf) \<and> map_cmd (word_at (length (show_cmd c)) buf) cmd = c"
proof -
  let ?s = "show_cmd c"
  have "follow {41} []" by (simp add: follow_def)
  moreover have "5 * length (?s @ []) + 5 \<le> 5 * length ?s + 6" by simp
  ultimately obtain c' where c': "parseline (5 * length ?s + 6) ?s = Parsed c' []" "map_cmd word_text c' = c"
    using printable_parses [OF assms] unfolding parses_def by (metis append_Nil2)
  let ?buf = "nulterminate (length ?s) c' (?s @ [0])"
  have "\<forall>w \<in> set_cmd c'. word_ok ?s w" using parse_ok [of ?s ?s "5 * length ?s + 6"] c'(1) by simp
  then have "word_at (length ?s) ?buf w = word_text w" if "w \<in> set_cmd c'" for w
    using word_text_split [OF word_after_cut [OF show_no_nul [OF assms] _ that]] by simp
  then have "map_cmd (word_at (length ?s) ?buf) c' = c" using c'(2) by (metis cmd.map_cong0)
  moreover have "parsecmd ?s = UDone (c', ?buf)" using c'(1) by (simp add: parsecmd_def Let_def)
  ultimately show ?thesis by blast
qed

definition ex_cmd :: "uchar list cmd" where
  "ex_cmd = BACK (PIPE (EXEC [ascii ''cat'', ascii ''f'']) (REDIR (EXEC [ascii ''wc'']) (ascii ''out'') (O_WRONLY OR O_CREATE) 1))"

definition ex_line :: "uchar list" where "ex_line = ascii ''((cat f )|((wc )>out ))&''"

theorem parsecmd_show_roundtrip_witness:
  "\<exists>cmd buf. parsecmd ex_line = UDone (cmd, buf) \<and> map_cmd (word_at (length ex_line) buf) cmd = ex_cmd"
proof -
  have s: "show_cmd ex_cmd = ex_line" by (simp add: ex_cmd_def ex_line_def ascii_def)
  have "printable ex_cmd"
    by (simp add: ex_cmd_def plain_word_def ascii_def word_char_def whitespace_def symbols_def MAXARGS_def)
  from parsecmd_show_roundtrip [OF this] show ?thesis unfolding s .
qed

end
