(* ===== verification/Programs.thy ===== *)
theory Programs
  imports Ustream
begin

text \<open>
  The small user programs: cat, echo, wc, ln, rm, mkdir, kill, ls, init with initcode.S, zombie, stressfs, forktest and the
  programs my_prog, my_prog0 and my_prog1 that exercise the priority calls. Each is the tree of its system
  calls; arguments of main() are the list \<open>argv\<close> with the name of the program in front. Where C leaves the
  order of the evaluation of arguments open they are evaluated from left to right. A loop that reads until
  the end of its input is given fuel.

  cat copies its input and wc counts the lines, words and bytes of it, however it is cut into reads;
  forktest reports success on every kernel that grants fewer than 1000 children.
\<close>

section \<open>cat.c, echo.c, wc.c\<close>

primrec cat :: "nat \<Rightarrow> int \<Rightarrow> unit uprog" where
  "cat 0 fd = UFuel"
| "cat (Suc k) fd =
     URead fd 512 (\<lambda>(n, buf).
     if n > 0 then
       ubind (usys (CWrite 1 (take (nat n) buf))) (\<lambda>r.
       if r \<noteq> n then uthen (printf 1 (ascii ''cat: write error'' @ [10]) []) UExit
       else cat k fd)
     else if n < 0 then uthen (printf 1 (ascii ''cat: read error'' @ [10]) []) UExit
     else UDone ())"

definition cat_main :: "nat \<Rightarrow> uchar list list \<Rightarrow> unit uprog" where
  "cat_main k argv =
     (if length argv \<le> 1 then uthen (cat k 0) UExit
      else
        uthen (ufor (tl argv) (\<lambda>path.
          ubind (usys (COpen path 0)) (\<lambda>fd.
          if fd < 0 then uthen (printf 1 (ascii ''cat: cannot open %s'' @ [10]) [Str (Some path)]) UExit
          else uthen (cat k fd) (udo (CClose fd)))))
        UExit)"

fun echo_args :: "uchar list list \<Rightarrow> unit uprog" where
  "echo_args [] = UDone ()"
| "echo_args (a # as) =
     uthen (printf 1 (ascii ''%s%s'') [Str (Some a), Str (Some (if as \<noteq> [] then [32] else [10]))]) (echo_args as)"

definition echo_main :: "uchar list list \<Rightarrow> unit uprog" where
  "echo_main argv = uthen (echo_args (tl argv)) UExit"

record wc_count =
  wc_l :: int
  wc_w :: int
  wc_c :: int
  inword :: bool

definition wc_char :: "wc_count \<Rightarrow> uchar \<Rightarrow> wc_count" where
  "wc_char x b =
     (let x = x\<lparr>wc_c := wc_c x + 1\<rparr>;
          x = (if b = 10 then x\<lparr>wc_l := wc_l x + 1\<rparr> else x)
      in if u_strchr [32, 13, 9, 10, 11] b \<noteq> None then x\<lparr>inword := False\<rparr>
         else if \<not> inword x then x\<lparr>wc_w := wc_w x + 1, inword := True\<rparr>
         else x)"

primrec wc_loop :: "nat \<Rightarrow> int \<Rightarrow> wc_count \<Rightarrow> wc_count uprog" where
  "wc_loop 0 fd x = UFuel"
| "wc_loop (Suc k) fd x =
     URead fd 512 (\<lambda>(n, buf).
     if n > 0 then wc_loop k fd (foldl wc_char x (take (nat n) buf))
     else if n < 0 then uthen (printf 1 (ascii ''wc: read error'' @ [10]) []) UExit
     else UDone x)"

definition wc :: "nat \<Rightarrow> int \<Rightarrow> uchar list \<Rightarrow> unit uprog" where
  "wc k fd name =
     ubind (wc_loop k fd \<lparr>wc_l = 0, wc_w = 0, wc_c = 0, inword = False\<rparr>) (\<lambda>x.
     printf 1 (ascii ''%d %d %d %s'' @ [10]) [Num (of_int (wc_l x)), Num (of_int (wc_w x)), Num (of_int (wc_c x)), Str (Some name)])"

definition wc_main :: "nat \<Rightarrow> uchar list list \<Rightarrow> unit uprog" where
  "wc_main k argv =
     (if length argv \<le> 1 then uthen (wc k 0 []) UExit
      else
        uthen (ufor (tl argv) (\<lambda>path.
          ubind (usys (COpen path 0)) (\<lambda>fd.
          if fd < 0 then uthen (printf 1 (ascii ''wc: cannot open %s'' @ [10]) [Str (Some path)]) UExit
          else uthen (wc k fd path) (udo (CClose fd)))))
        UExit)"

section \<open>ln.c, rm.c, mkdir.c, kill.c\<close>

definition ln_main :: "uchar list list \<Rightarrow> unit uprog" where
  "ln_main argv =
     (case argv of
        [_, old, new] \<Rightarrow>
          ubind (usys (CLink old new)) (\<lambda>r.
          uthen (if r < 0 then printf 2 (ascii ''link %s %s: failed'' @ [10]) [Str (Some old), Str (Some new)] else UDone ())
          UExit)
      | _ \<Rightarrow> uthen (printf 2 (ascii ''Usage: ln old new'' @ [10]) []) UExit)"

primrec rm_args :: "uchar list list \<Rightarrow> unit uprog" where
  "rm_args [] = UDone ()"
| "rm_args (a # as) =
     ubind (usys (CUnlink a)) (\<lambda>r.
     if r < 0 then printf 2 (ascii ''rm: %s failed to delete'' @ [10]) [Str (Some a)] else rm_args as)"

definition rm_main :: "uchar list list \<Rightarrow> unit uprog" where
  "rm_main argv =
     (if length argv < 2 then uthen (printf 2 (ascii ''Usage: rm files...'' @ [10]) []) UExit
      else uthen (rm_args (tl argv)) UExit)"

primrec mkdir_args :: "uchar list list \<Rightarrow> unit uprog" where
  "mkdir_args [] = UDone ()"
| "mkdir_args (a # as) =
     ubind (usys (CMkdir a)) (\<lambda>r.
     if r < 0 then printf 2 (ascii ''mkdir: %s failed to create'' @ [10]) [Str (Some a)] else mkdir_args as)"

definition mkdir_main :: "uchar list list \<Rightarrow> unit uprog" where
  "mkdir_main argv =
     (if length argv < 2 then uthen (printf 2 (ascii ''Usage: mkdir files...'' @ [10]) []) UExit
      else uthen (mkdir_args (tl argv)) UExit)"

definition kill_main :: "uchar list list \<Rightarrow> unit uprog" where
  "kill_main argv =
     (if length argv < 2 then uthen (printf 2 (ascii ''usage: kill pid...'' @ [10]) []) UExit
      else uthen (ufor (tl argv) (\<lambda>a. udo (CKill (atoi a)))) UExit)"

section \<open>ls.c\<close>

definition fmtname :: "uchar list \<Rightarrow> uchar list" where
  "fmtname path =
     (let p = rev (takeWhile (\<lambda>c. c \<noteq> slash) (rev path)) in
      if length p \<ge> DIRSIZ then p else p @ replicate (DIRSIZ - length p) 32)"

definition ls_line :: "uchar list \<Rightarrow> stat \<Rightarrow> unit uprog" where
  "ls_line path st =
     printf 1 (ascii ''%s %d %d %d'' @ [10])
       [Str (Some (fmtname path)), Num (scast (st_type st)), Num (st_ino st), Num (st_size st)]"

primrec ls_dir :: "nat \<Rightarrow> int \<Rightarrow> uchar list \<Rightarrow> unit uprog" where
  "ls_dir 0 fd path = UFuel"
| "ls_dir (Suc k) fd path =
     URead fd 16 (\<lambda>(n, bs).
     if n \<noteq> 16 then UDone ()
     else
       let de = decode_dirent bs in
       if d_inum de = 0 then ls_dir k fd path
       else
         let buf = path @ slash # takeWhile (\<lambda>c. c \<noteq> 0) (d_name de) in
         ubind (u_stat buf) (\<lambda>(r, st).
         case st of
           Some st \<Rightarrow>
             if r < 0 then uthen (printf 1 (ascii ''ls: cannot stat %s'' @ [10]) [Str (Some buf)]) (ls_dir k fd path)
             else uthen (ls_line buf st) (ls_dir k fd path)
         | None \<Rightarrow> uthen (printf 1 (ascii ''ls: cannot stat %s'' @ [10]) [Str (Some buf)]) (ls_dir k fd path)))"

definition ls :: "nat \<Rightarrow> uchar list \<Rightarrow> unit uprog" where
  "ls k path =
     ubind (usys (COpen path 0)) (\<lambda>fd.
     if fd < 0 then printf 2 (ascii ''ls: cannot open %s'' @ [10]) [Str (Some path)]
     else
       UStat fd (\<lambda>(r, st).
       if r < 0 then
         uthen (printf 2 (ascii ''ls: cannot stat %s'' @ [10]) [Str (Some path)]) (udo (CClose fd))
       else
         uthen (if st_type st = T_FILE then ls_line path st
           else if st_type st = T_DIR then
             (if length path + 1 + DIRSIZ + 1 > 512 then printf 1 (ascii ''ls: path too long'' @ [10]) []
              else ls_dir k fd path)
           else UDone ()) (
         udo (CClose fd))))"

definition ls_main :: "nat \<Rightarrow> uchar list list \<Rightarrow> unit uprog" where
  "ls_main k argv =
     (if length argv < 2 then uthen (ls k (ascii ''.'')) UExit else uthen (ufor (tl argv) (ls k)) UExit)"

section \<open>init.c, zombie.c\<close>

primrec init_wait :: "nat \<Rightarrow> int \<Rightarrow> unit uprog" where
  "init_wait 0 child = UFuel"
| "init_wait (Suc k) child =
     ubind (usys CWait) (\<lambda>wpid.
     if wpid \<ge> 0 \<and> wpid \<noteq> child then uthen (printf 1 (ascii ''zombie!'' @ [10]) []) (init_wait k child)
     else UDone ())"

primrec init_loop :: "nat \<Rightarrow> unit uprog" where
  "init_loop 0 = UFuel"
| "init_loop (Suc k) =
     uthen (printf 1 (ascii ''init: starting sh'' @ [10]) []) (
     ubind (usys CFork) (\<lambda>pid.
     if pid < 0 then uthen (printf 1 (ascii ''init: fork failed'' @ [10]) []) UExit
     else if pid = 0 then
       uthen (udo (CExec (ascii ''sh'') [ascii ''sh''])) (
       uthen (printf 1 (ascii ''init: exec sh failed'' @ [10]) []) UExit)
     else uthen (init_wait k pid) (init_loop k)))"

text \<open>initcode.S, the first code in user space, which becomes init.\<close>

definition initcode_main :: "unit uprog" where
  "initcode_main = uthen (udo (CExec (ascii ''/init'') [ascii ''/init''])) UExit"

definition init_main :: "nat \<Rightarrow> unit uprog" where
  "init_main k =
     ubind (usys (COpen (ascii ''console'') O_RDWR)) (\<lambda>r.
     uthen (if r < 0 then
         uthen (udo (CMknod (ascii ''console'') 1 1)) (udo (COpen (ascii ''console'') O_RDWR))
       else UDone ()) (
     uthen (udo (CDup 0)) (
     uthen (udo (CDup 0)) (
     init_loop k))))"

definition zombie_main :: "unit uprog" where
  "zombie_main = ubind (usys CFork) (\<lambda>pid. uthen (if pid > 0 then udo (CSleep 5) else UDone ()) UExit)"

section \<open>my_prog.c, my_prog0.c, my_prog1.c\<close>

text \<open>A line with the pid and the priority of the process, and the sum of the squares below 3000, added up 1000 times.\<close>

definition print_prio :: "string \<Rightarrow> unit uprog" where
  "print_prio fmt =
     ubind (usys CGetpid) (\<lambda>pid.
     ubind (usys CGetpriority) (\<lambda>prio.
     printf 1 (ascii fmt @ [10]) [Num (of_int pid), Num (of_int prio)]))"

definition sum_squares :: "uint \<Rightarrow> uint" where
  "sum_squares s = foldl (\<lambda>s j. s + of_nat (j * j)) s (concat (replicate 1000 [0..<3000]))"

primrec my_prog_loop :: "nat \<Rightarrow> uint \<Rightarrow> uint uprog" where
  "my_prog_loop 0 s = UDone s"
| "my_prog_loop (Suc k) s =
     uthen (print_prio ''(%d) during computation, prio: %d'') (my_prog_loop k (sum_squares s))"

definition my_prog_main :: "unit uprog" where
  "my_prog_main =
     uthen (udo (CSetpriority 1)) (
     ubind (usys CFork) (\<lambda>k.
     if k = 0 then
       uthen (udo (CSetpriority 9)) (
       uthen (print_prio ''(%d) before sleeping, prio : %d'') (
       uthen (udo (CSetpriority 9)) (
       uthen (udo (CSleep 5)) (
       uthen (print_prio ''(%d) after wake-up, prio : %d'') UExit))))
     else
       uthen (udo (CSetpriority 1)) (
       uthen (print_prio ''(pid: %d) before computation, prio: %d'') (
       uthen (udo (CSetpriority 1)) (
       ubind (my_prog_loop 10 0) (\<lambda>sum.
       uthen (udo (CSleep 1)) (
       ubind (usys CGetpid) (\<lambda>pid.
       ubind (usys CGetpriority) (\<lambda>prio.
       uthen (printf 1 (ascii ''(%d) after execution, prio: %d, sum: %d'' @ [10]) [Num (of_int pid), Num (of_int prio), Num sum]) (
       uthen (udo CWait) UExit))))))))))"

definition my_prog0_main :: "unit uprog" where
  "my_prog0_main =
     uthen (udo (CSetpriority 9)) (
     uthen (print_prio ''(pid: %d) priority: %d'') (
     uthen (udo (CSleep 6)) (
     uthen (print_prio ''(pid: %d) priority: %d'') UExit)))"

definition my_prog1_main :: "unit uprog" where
  "my_prog1_main =
     uthen (udo (CSetpriority 2)) (
     uthen (print_prio ''(pid: %d) priority: %d'') (
     uthen (printf 1 (ascii ''sum: %d'' @ [10]) [Num (sum_squares 0)]) (
     uthen (print_prio ''(pid: %d) priority: %d'') UExit)))"

section \<open>stressfs.c, forktest.c\<close>

text \<open>The number of the process: how often fork() answered that it is a child.\<close>

primrec stress_forks :: "nat \<Rightarrow> nat \<Rightarrow> nat uprog" where
  "stress_forks 0 i = UDone i"
| "stress_forks (Suc k) i = ubind (usys CFork) (\<lambda>pid. if pid > 0 then UDone i else stress_forks k (Suc i))"

definition stressfs_main :: "unit uprog" where
  "stressfs_main =
     uthen (printf 1 (ascii ''stressfs starting'' @ [10]) []) (
     ubind (stress_forks 4 0) (\<lambda>i.
     uthen (printf 1 (ascii ''write %d'' @ [10]) [Num (of_nat i)]) (
     let path = ascii ''stressfs'' @ [48 + of_nat i] in
     ubind (usys (COpen path (O_CREATE OR O_RDWR))) (\<lambda>fd.
     uthen (ufor [0..<20] (\<lambda>_. udo (CWrite fd (replicate 512 97)))) (
     uthen (udo (CClose fd)) (
     uthen (printf 1 (ascii ''read'' @ [10]) []) (
     ubind (usys (COpen path O_RDONLY)) (\<lambda>fd.
     uthen (ufor [0..<20] (\<lambda>_. URead fd 512 (\<lambda>_. UDone ()))) (
     uthen (udo (CClose fd)) (
     uthen (udo CWait) UExit))))))))))"

definition ft_printf :: "int \<Rightarrow> uchar list \<Rightarrow> unit uprog" where
  "ft_printf fd s = udo (CWrite fd (take (u_strlen s) s))"

definition FORKTEST_N :: nat where "FORKTEST_N = 1000"

text \<open>\<open>forks k n\<close>: the children that could be made, with \<open>k\<close> turns left and \<open>n\<close> made.\<close>

primrec forks :: "nat \<Rightarrow> nat \<Rightarrow> nat uprog" where
  "forks 0 n = UDone n"
| "forks (Suc k) n =
     ubind (usys CFork) (\<lambda>pid.
     if pid < 0 then UDone n
     else if pid = 0 then UExit
     else forks k (Suc n))"

primrec waits :: "nat \<Rightarrow> unit uprog" where
  "waits 0 = UDone ()"
| "waits (Suc n) =
     ubind (usys CWait) (\<lambda>r.
     if r < 0 then uthen (ft_printf 1 (ascii ''wait stopped early'' @ [10])) UExit else waits n)"

definition forktest :: "unit uprog" where
  "forktest =
     uthen (ft_printf 1 (ascii ''fork test'' @ [10])) (
     ubind (forks FORKTEST_N 0) (\<lambda>n.
     if n = FORKTEST_N then uthen (ft_printf 1 (ascii ''fork claimed to work N times!'' @ [10])) UExit
     else
       uthen (waits n) (
       ubind (usys CWait) (\<lambda>r.
       if r \<noteq> -1 then uthen (ft_printf 1 (ascii ''wait got too many'' @ [10])) UExit
       else ft_printf 1 (ascii ''fork test OK'' @ [10])))))"

definition forktest_main :: "unit uprog" where
  "forktest_main = uthen forktest UExit"

section \<open>What the programs do\<close>

lemma cat_run:
  "\<forall>c \<in> set (s_in w). c \<noteq> [] \<and> length c \<le> 512 \<Longrightarrow> length (s_in w) < k \<Longrightarrow>
    urun stream_os (cat k fd) w = (Returned (), put_out 1 (concat (s_in w)) (w\<lparr>s_in := []\<rparr>))"
proof (induction k arbitrary: w)
  case (Suc k)
  show ?case
  proof (cases "s_in w")
    case Nil
    then have "w\<lparr>s_in := []\<rparr> = w" by simp
    with Nil show ?thesis by (simp add: stream_read_chunk)
  next
    case (Cons c cs)
    let ?w = "put_out 1 c (w\<lparr>s_in := cs\<rparr>)"
    have c: "c \<noteq> []" "length c \<le> 512" using Suc.prems(1) Cons by simp_all
    have "urun stream_os (cat (Suc k) fd) w = urun stream_os (cat k fd) ?w"
      using c Cons stream_read_chunk(1) [OF Cons c(2)] by (simp add: usys_def)
    also have "\<dots> = (Returned (), put_out 1 (concat (s_in ?w)) (?w\<lparr>s_in := []\<rparr>))"
      by (rule Suc.IH) (use Suc.prems Cons in auto)
    finally show ?thesis using Cons by simp
  qed
qed simp

text \<open>The words of a text: the maximal runs of characters that are not blanks.\<close>

definition blank :: "uchar \<Rightarrow> bool" where
  "blank b \<longleftrightarrow> b \<in> {32, 13, 9, 10, 11}"

function text_words :: "uchar list \<Rightarrow> uchar list list" where
  "text_words [] = []"
| "text_words (b # bs) =
     (if blank b then text_words bs else (b # takeWhile (\<lambda>x. \<not> blank x) bs) # text_words (dropWhile (\<lambda>x. \<not> blank x) bs))"
  by pat_completeness auto

termination
  by (relation "measure length") (auto simp: le_imp_less_Suc length_dropWhile_le)

lemma blank_strchr: "u_strchr [32, 13, 9, 10, 11] b \<noteq> None \<longleftrightarrow> blank b"
  by (auto simp: blank_def)

lemma wc_char_eq:
  "wc_char x b = \<lparr>wc_l = wc_l x + (if b = 10 then 1 else 0), wc_w = wc_w x + (if blank b \<or> inword x then 0 else 1),
    wc_c = wc_c x + 1, inword = (\<not> blank b)\<rparr>"
proof -
  have b10: "blank 10" by (simp add: blank_def)
  show ?thesis unfolding wc_char_def blank_strchr by (cases x) (auto simp: Let_def b10)
qed

lemma wc_chars:
  "foldl wc_char x bs = \<lparr>wc_l = wc_l x + int (length (filter (\<lambda>b. b = 10) bs)),
    wc_w = wc_w x + int (length (text_words (if inword x then dropWhile (\<lambda>b. \<not> blank b) bs else bs))),
    wc_c = wc_c x + int (length bs), inword = (if bs = [] then inword x else \<not> blank (last bs))\<rparr>"
proof (induction bs arbitrary: x)
  case (Cons b bs)
  show ?case unfolding foldl_Cons Cons.IH by (simp add: wc_char_eq)
qed simp

lemma wc_loop_run:
  "\<forall>c \<in> set (s_in w). c \<noteq> [] \<and> length c \<le> 512 \<Longrightarrow> length (s_in w) < k \<Longrightarrow>
    urun stream_os (wc_loop k fd x) w = (Returned (foldl wc_char x (concat (s_in w))), w\<lparr>s_in := []\<rparr>)"
proof (induction k arbitrary: w x)
  case (Suc k)
  show ?case
  proof (cases "s_in w")
    case Nil
    then have "w\<lparr>s_in := []\<rparr> = w" by simp
    with Nil show ?thesis by (simp add: stream_read_chunk)
  next
    case (Cons c cs)
    have c: "c \<noteq> []" "length c \<le> 512" using Suc.prems(1) Cons by simp_all
    show ?thesis
      using c Cons Suc.prems stream_read_chunk(1) [OF Cons c(2)] Suc.IH [of "w\<lparr>s_in := cs\<rparr>" "foldl wc_char x c"] by simp
  qed
qed simp

lemma sint_small: "n < 2147483648 \<Longrightarrow> sint (of_int (int n) :: uint) = int n"
  by (simp add: signed_of_nat signed_take_bit_int_eq_self)

lemma length_text_words: "length (text_words bs) \<le> length bs"
proof (induction bs rule: text_words.induct)
  case (2 b bs)
  have "length (dropWhile (\<lambda>x. \<not> blank x) bs) \<le> length bs" by (rule length_dropWhile_le)
  with 2 show ?case by auto
qed simp

text \<open>
  cat copies its input: whatever pieces the reads return, up to the size of its buffer, everything is written to the
  standard output in order and nothing else, and the loop ends with the input.
\<close>

theorem cat_copies:
  assumes "\<forall>c \<in> set (s_in w). c \<noteq> [] \<and> length c \<le> 512" and "length (s_in w) < k"
  shows "urun stream_os (cat k fd) w = (Returned (), put_out 1 (concat (s_in w)) (w\<lparr>s_in := []\<rparr>))"
  using assms by (rule cat_run)

theorem cat_copies_witness:
  "urun stream_os (cat 3 0) \<lparr>s_in = [[1, 2], [3]], s_out = (\<lambda>_. [])\<rparr> =
    (Returned (), \<lparr>s_in = [], s_out = (\<lambda>_. [])(1 := [1, 2, 3])\<rparr>)"
  by (subst cat_copies) (simp_all add: put_out_def)

text \<open>
  C25. wc counts correctly: it prints the number of newlines, of words - the maximal runs of characters that are not
  blanks - and of bytes of its whole input, in decimal, although a word may be cut by the end of a read.
\<close>

theorem wc_counts:
  assumes "\<forall>c \<in> set (s_in w). c \<noteq> [] \<and> length c \<le> 512" and "length (s_in w) < k" and "length (concat (s_in w)) < 2147483648"
  shows "urun stream_os (wc k fd name) w =
    (Returned (), put_out 1
      (u_printint_chars (int (length (filter (\<lambda>b. b = 10) (concat (s_in w))))) 10 True @ [32] @
       u_printint_chars (int (length (text_words (concat (s_in w))))) 10 True @ [32] @
       u_printint_chars (int (length (concat (s_in w)))) 10 True @ [32] @ name @ [10]) (w\<lparr>s_in := []\<rparr>))"
proof -
  let ?t = "concat (s_in w)"
  have s: "sint (of_int (int (length ?t)) :: uint) = int (length ?t)"
    "sint (of_int (int (length (text_words ?t))) :: uint) = int (length (text_words ?t))"
    "sint (of_int (int (length (filter (\<lambda>b. b = 10) ?t))) :: uint) = int (length (filter (\<lambda>b. b = 10) ?t))"
    using assms(3) length_text_words [of ?t] length_filter_le [of "\<lambda>b. b = 10" ?t] by (intro sint_small; linarith)+
  show ?thesis
    using s by (simp add: wc_def urun_ubind wc_loop_run [OF assms(1,2)] wc_chars u_printint_def urun_uthen ascii_def putc_def)
qed

theorem wc_counts_witness:
  "urun stream_os (wc 3 0 [120]) \<lparr>s_in = [[97, 98], [97, 32, 99, 10]], s_out = (\<lambda>_. [])\<rparr> =
    (Returned (), \<lparr>s_in = [], s_out = (\<lambda>_. [])(1 := [49, 32, 50, 32, 54, 32, 120, 10])\<rparr>)"
proof -
  have d: "u_printint_chars 1 10 True = [49]" "u_printint_chars 2 10 True = [50]" "u_printint_chars 6 10 True = [54]"
    by code_simp+
  have "text_words [97, 98, 97, 32, 99, 10] = [[97, 98, 97], [99]]" by (simp add: blank_def)
  then show ?thesis by (subst wc_counts) (simp_all add: put_out_def d)
qed

section \<open>forktest on a kernel that keeps count of children\<close>

text \<open>
  What forktest relies on: fork() answers with a new child, of which there are never more than \<open>lim\<close>, or fails; wait() answers
  for one child after the other and fails when there is none; write() appends to the output.
\<close>

definition counts_children :: "'w os \<Rightarrow> ('w \<Rightarrow> nat) \<Rightarrow> ('w \<Rightarrow> uchar list) \<Rightarrow> nat \<Rightarrow> bool" where
  "counts_children k kids out lim \<longleftrightarrow>
     (\<forall>w r w'. os_sys k CFork w = (r, w') \<longrightarrow> out w' = out w \<and>
        (if r > 0 then kids w' = Suc (kids w) \<and> kids w' \<le> lim else r < 0 \<and> kids w' = kids w)) \<and>
     (\<forall>w r w'. os_sys k CWait w = (r, w') \<longrightarrow> out w' = out w \<and>
        (if kids w = 0 then r = -1 \<and> kids w' = 0 else r \<ge> 0 \<and> Suc (kids w') = kids w)) \<and>
     (\<forall>w s r w'. os_sys k (CWrite 1 s) w = (r, w') \<longrightarrow> out w' = out w @ s \<and> kids w' = kids w)"

lemma counts_D:
  assumes "counts_children k kids out lim"
  shows "os_sys k CFork w = (r, w') \<Longrightarrow> out w' = out w \<and>
      (if r > 0 then kids w' = Suc (kids w) \<and> kids w' \<le> lim else r < 0 \<and> kids w' = kids w)"
    and "os_sys k CWait w = (r, w') \<Longrightarrow> out w' = out w \<and>
      (if kids w = 0 then r = -1 \<and> kids w' = 0 else r \<ge> 0 \<and> Suc (kids w') = kids w)"
    and "os_sys k (CWrite 1 s) w = (r, w') \<Longrightarrow> out w' = out w @ s \<and> kids w' = kids w"
  using assms unfolding counts_children_def by blast+

lemma forks_run:
  assumes k: "counts_children k kids out lim" and "kids w = n" and "lim < n + j"
  shows "\<exists>n' w'. urun k (forks j n) w = (Returned n', w') \<and> kids w' = n' \<and> n' \<le> max n lim \<and> out w' = out w"
  using assms(2-)
proof (induction j arbitrary: n w)
  case (Suc j)
  obtain r w1 where f: "os_sys k CFork w = (r, w1)" by fastforce
  have o: "out w1 = out w" and c: "if r > 0 then kids w1 = Suc n \<and> Suc n \<le> lim else r < 0 \<and> kids w1 = n"
    using counts_D(1) [OF k f] Suc.prems(1) by (auto split: if_splits)
  show ?case
  proof (cases "r > 0")
    case True
    with c have "kids w1 = Suc n" "Suc n \<le> lim" by simp_all
    with Suc.IH [of w1 "Suc n"] Suc.prems(2) True f o show ?thesis by (simp add: usys_def max_absorb2)
  qed (use c f o in \<open>simp add: usys_def\<close>)
qed auto

lemma waits_run:
  assumes k: "counts_children k kids out lim" and "kids w = n"
  shows "\<exists>w'. urun k (waits n) w = (Returned (), w') \<and> kids w' = 0 \<and> out w' = out w"
  using assms(2)
proof (induction n arbitrary: w)
  case (Suc n)
  obtain r w1 where f: "os_sys k CWait w = (r, w1)" by fastforce
  have c: "out w1 = out w" "r \<ge> 0" "kids w1 = n" using counts_D(2) [OF k f] Suc.prems by simp_all
  with Suc.IH [of w1] f show ?case by (simp add: usys_def)
qed auto

lemma ft_printf_run:
  assumes "counts_children k kids out lim" and "0 \<notin> set s"
  shows "\<exists>w'. urun k (ft_printf 1 s) w = (Returned (), w') \<and> kids w' = kids w \<and> out w' = out w @ s"
proof -
  obtain r w' where "os_sys k (CWrite 1 s) w = (r, w')" by fastforce
  with assms(2) counts_D(3) [OF assms(1) this] show ?thesis by (simp add: ft_printf_def udo_def u_strlen_eq)
qed

text \<open>
  C26. forktest passes on every kernel that keeps count: where fork() gives at most 999 children and then fails
  gracefully, and wait() answers once for every child, forktest makes as many children as it can, waits for all of
  them, reports OK and exits; no other message is printed.
\<close>

theorem forktest_passes:
  assumes k: "counts_children k kids out lim" and "lim < FORKTEST_N" and "kids w = 0"
  shows "\<exists>w'. urun k forktest_main w = (Exited, w') \<and> kids w' = 0 \<and>
    out w' = out w @ ascii ''fork test'' @ [10] @ ascii ''fork test OK'' @ [10]"
proof -
  have n: "0 \<notin> set (ascii ''fork test'' @ [10])" "0 \<notin> set (ascii ''fork test OK'' @ [10])" by (simp_all add: ascii_def)
  obtain w1 where 1: "urun k (ft_printf 1 (ascii ''fork test'' @ [10])) w = (Returned (), w1)" "kids w1 = 0"
    "out w1 = out w @ ascii ''fork test'' @ [10]" using ft_printf_run [OF k n(1), of w] assms(3) by auto
  obtain m w2 where 2: "urun k (forks FORKTEST_N 0) w1 = (Returned m, w2)" "kids w2 = m" "m \<le> lim" "out w2 = out w1"
    using forks_run [OF k 1(2), of FORKTEST_N] assms(2) by auto
  obtain w3 where 3: "urun k (waits m) w2 = (Returned (), w3)" "kids w3 = 0" "out w3 = out w2" using waits_run [OF k 2(2)] by blast
  obtain r w4 where 4: "os_sys k CWait w3 = (r, w4)" by fastforce
  have c: "r = -1" "kids w4 = 0" "out w4 = out w3" using counts_D(2) [OF k 4] 3(2) by simp_all
  obtain w5 where 5: "urun k (ft_printf 1 (ascii ''fork test OK'' @ [10])) w4 = (Returned (), w5)" "kids w5 = 0"
    "out w5 = out w4 @ ascii ''fork test OK'' @ [10]" using ft_printf_run [OF k n(2), of w4] c(2) by auto
  have "urun k forktest_main w = (Exited, w5)"
    using 1(1) 2(1,3) 3(1) 4 5(1) c(1) assms(2)
    by (simp add: forktest_main_def forktest_def urun_uthen urun_ubind usys_def)
  with 1(3) 2(4) 3(3) c(3) 5(2,3) show ?thesis by simp
qed

definition ex_table :: "(nat \<times> uchar list) os" where
  "ex_table = \<lparr>os_sys = (\<lambda>c (n, ws). case c of
       CFork \<Rightarrow> if n < 3 then (int n + 2, n + 1, ws) else (-1, n, ws)
     | CWait \<Rightarrow> if n > 0 then (int n + 1, n - 1, ws) else (-1, n, ws)
     | CWrite fd s \<Rightarrow> (int (length s), n, ws @ s)
     | _ \<Rightarrow> (-1, n, ws)),
     os_read = (\<lambda>_ _ w. ((-1, []), w)),
     os_stat = (\<lambda>_ w. ((-1, \<lparr>st_type = 0, st_dev = 0, st_ino = 0, st_nlink = 0, st_size = 0\<rparr>), w)), os_pipe = (\<lambda>w. ((-1, 0, 0), w))\<rparr>"

theorem forktest_passes_witness:
  "counts_children ex_table fst snd 3 \<and>
    (\<exists>w'. urun ex_table forktest_main (0, []) = (Exited, w') \<and> snd w' = ascii ''fork test'' @ [10] @ ascii ''fork test OK'' @ [10])"
proof -
  have c: "counts_children ex_table fst snd 3" by (auto simp: counts_children_def ex_table_def split: if_splits)
  then show ?thesis using forktest_passes [OF c, of "(0, [])"] by (auto simp: FORKTEST_N_def)
qed

end
