(* ===== verification/Mkfs.thy ===== *)
theory Mkfs
  imports Fs
begin

text \<open>
  The program mkfs.c, which builds the disk image on the host. The image is the file it writes, a list of bytes;
  the host's files are given as the pieces its reads return. A failed assertion and a call of exit(1) after
  perror() are the fault \<open>Panic\<close> with the name of the call.

  The image is read back by \<open>inode_of\<close> and \<open>file_bytes\<close>, which decode it with the decoders of the kernel
  (decode_sb, decode_dinode). The theorem is that an image built from files that fit holds exactly these
  files, and that its bitmap marks exactly the blocks that are in use.
\<close>

section \<open>State and disk layout\<close>

definition NINODES :: nat where "NINODES = 200"
definition nbitmap :: nat where "nbitmap = FSSIZE div (BSIZE * 8) + 1"
definition ninodeblocks :: nat where "ninodeblocks = NINODES div IPB + 1"
definition nmeta :: nat where "nmeta = 2 + LOGSIZE + ninodeblocks + nbitmap"

record mkfs =
  image :: "uchar list"
  mk_sb :: superblock
  freeinode :: uint
  freeblock :: uint

text \<open>The host is little-endian: the bytes written are read back as a number of the host.\<close>

definition xshort :: "ushort \<Rightarrow> ushort" where
  "xshort x = get16l (bytes16 x) 0"

definition xint :: "uint \<Rightarrow> uint" where
  "xint x = get32l (bytes32 x) 0"

section \<open>Sectors\<close>

definition write_at :: "uchar list \<Rightarrow> nat \<Rightarrow> uchar list \<Rightarrow> uchar list" where
  "write_at f k d = splice (f @ replicate (k + length d - length f) 0) k d"

definition wsect :: "uint \<Rightarrow> uchar list \<Rightarrow> (mkfs, unit) kM" where
  "wsect sec buf = kmodify (\<lambda>m. m\<lparr>image := write_at (image m) (unat (sec * of_nat BSIZE)) buf\<rparr>)"

definition rsect :: "uint \<Rightarrow> (mkfs, uchar list) kM" where
  "rsect sec =
     kbind (kgets image) (\<lambda>f.
     let k = unat (sec * of_nat BSIZE) in
     if length f < k + BSIZE then kfail (Panic ''read'') else ret (take BSIZE (drop k f)))"

section \<open>Inodes\<close>

definition winode :: "uint \<Rightarrow> dinode \<Rightarrow> (mkfs, unit) kM" where
  "winode inum ip =
     kbind (kgets mk_sb) (\<lambda>sb.
     let bn = IBLOCK inum sb in
     kbind (rsect bn) (\<lambda>buf.
     wsect bn (splice buf (64 * (unat inum mod IPB)) (encode_dinode ip))))"

definition rinode :: "uint \<Rightarrow> (mkfs, dinode) kM" where
  "rinode inum =
     kbind (kgets mk_sb) (\<lambda>sb.
     kbind (rsect (IBLOCK inum sb)) (\<lambda>buf.
     ret (decode_dinode buf (64 * (unat inum mod IPB)))))"

definition mk_ialloc :: "ushort \<Rightarrow> (mkfs, uint) kM" where
  "mk_ialloc type =
     kbind (kgets freeinode) (\<lambda>inum.
     kthen (kmodify (\<lambda>m. m\<lparr>freeinode := inum + 1\<rparr>)) (
     kthen (winode inum \<lparr>di_type = xshort type, di_major = 0, di_minor = 0, di_nlink = xshort 1, di_size = xint 0,
       di_addrs = replicate (NDIRECT + 1) 0\<rparr>) (
     ret inum)))"

text \<open>\<open>freeblock++\<close>\<close>

definition take_block :: "(mkfs, uint) kM" where
  "take_block = kbind (kgets freeblock) (\<lambda>b. kthen (kmodify (\<lambda>m. m\<lparr>freeblock := b + 1\<rparr>)) (ret b))"

definition mk_balloc :: "int \<Rightarrow> (mkfs, unit) kM" where
  "mk_balloc used =
     kthen (kassert (used < int (BSIZE * 8)) (Panic ''assert'')) (
     kbind (kgets mk_sb) (\<lambda>sb.
     wsect (bmapstart sb)
       (foldl (\<lambda>buf i. buf[i div 8 := buf ! (i div 8) OR bit_mask i]) (replicate BSIZE 0) [0..<nat used])))"

section \<open>Appending to a file\<close>

text \<open>The block that holds block \<open>fbn\<close> of the file, allocated when it is missing.\<close>

definition iappend_block :: "nat \<Rightarrow> dinode \<Rightarrow> (mkfs, uint \<times> dinode) kM" where
  "iappend_block fbn din =
     (if fbn < NDIRECT then
        kbind (if xint (di_addrs din ! fbn) = 0 then
            kbind take_block (\<lambda>b. ret (din\<lparr>di_addrs := (di_addrs din)[fbn := xint b]\<rparr>))
          else ret din) (\<lambda>din.
        ret (xint (di_addrs din ! fbn), din))
      else
        kbind (if xint (di_addrs din ! NDIRECT) = 0 then
            kbind take_block (\<lambda>b. ret (din\<lparr>di_addrs := (di_addrs din)[NDIRECT := xint b]\<rparr>))
          else ret din) (\<lambda>din.
        kbind (rsect (xint (di_addrs din ! NDIRECT))) (\<lambda>indirect.
        kbind (if get32l indirect (4 * (fbn - NDIRECT)) = 0 then
            kbind take_block (\<lambda>b.
            let indirect = put32l indirect (4 * (fbn - NDIRECT)) (xint b) in
            kthen (wsect (xint (di_addrs din ! NDIRECT)) indirect) (ret indirect))
          else ret indirect) (\<lambda>indirect.
        ret (xint (get32l indirect (4 * (fbn - NDIRECT))), din)))))"

primrec iappend_loop :: "nat \<Rightarrow> uchar list \<Rightarrow> uint \<Rightarrow> dinode \<Rightarrow> (mkfs, uint \<times> dinode) kM" where
  "iappend_loop 0 p off din = kfail NoFuel"
| "iappend_loop (Suc k) p off din =
     (if p = [] then ret (off, din)
      else
        let fbn = off div of_nat BSIZE in
        kthen (kassert (unat fbn < MAXFILE) (Panic ''assert'')) (
        kbind (iappend_block (unat fbn) din) (\<lambda>(x, din).
        let n1 = min (length p) (unat ((fbn + 1) * of_nat BSIZE - off)) in
        kbind (rsect x) (\<lambda>buf.
        kthen (wsect x (splice buf (unat (off - fbn * of_nat BSIZE)) (take n1 p))) (
        iappend_loop k (drop n1 p) (off + of_nat n1) din)))))"

definition iappend :: "uint \<Rightarrow> uchar list \<Rightarrow> (mkfs, unit) kM" where
  "iappend inum p =
     kbind (rinode inum) (\<lambda>din.
     kbind (iappend_loop (Suc (length p)) p (xint (di_size din)) din) (\<lambda>(off, din).
     winode inum (din\<lparr>di_size := xint off\<rparr>)))"

section \<open>The program\<close>

text \<open>A file of the host: its name and the pieces that read() returns, \<open>None\<close> when it cannot be opened.\<close>

type_synonym host_file = "uchar list \<times> uchar list list option"

definition mk_name :: "uchar list \<Rightarrow> uchar list" where
  "mk_name name = (if name \<noteq> [] \<and> hd name = 95 then tl name else name)"

definition mk_file :: "host_file \<Rightarrow> (mkfs, unit) kM" where
  "mk_file f =
     kthen (kassert (slash \<notin> set (fst f)) (Panic ''assert'')) (
     case snd f of
       None \<Rightarrow> kfail (Panic ''open'')
     | Some reads \<Rightarrow>
         kbind (mk_ialloc T_FILE) (\<lambda>inum.
         kthen (iappend ROOTINO (encode_dirent inum (mk_name (fst f)))) (
         kfor (takeWhile (\<lambda>c. c \<noteq> []) reads) (iappend inum))))"

definition mk_superblock :: superblock where
  "mk_superblock = \<lparr>sb_size = xint (of_nat FSSIZE), nblocks = xint (of_nat (FSSIZE - nmeta)), ninodes = xint (of_nat NINODES),
     nlog = xint (of_nat LOGSIZE), logstart = xint 2, inodestart = xint (of_nat (2 + LOGSIZE)),
     bmapstart = xint (of_nat (2 + LOGSIZE + ninodeblocks))\<rparr>"

definition encode_sb :: "superblock \<Rightarrow> uchar list" where
  "encode_sb s = concat (map bytes32 [sb_size s, nblocks s, ninodes s, nlog s, logstart s, inodestart s, bmapstart s])"

definition mkfs_main :: "host_file list \<Rightarrow> (mkfs, unit) kM" where
  "mkfs_main files =
     kthen (kmodify (\<lambda>m. m\<lparr>image := [], mk_sb := mk_superblock, freeblock := of_nat nmeta\<rparr>)) (
     kthen (kfor [0..<FSSIZE] (\<lambda>i. wsect (of_nat i) (replicate BSIZE 0))) (
     kthen (wsect 1 (splice (replicate BSIZE 0) 0 (encode_sb mk_superblock))) (
     kbind (mk_ialloc T_DIR) (\<lambda>rootino.
     kthen (kassert (rootino = ROOTINO) (Panic ''assert'')) (
     kthen (iappend rootino (encode_dirent rootino (ascii ''.''))) (
     kthen (iappend rootino (encode_dirent rootino (ascii ''..''))) (
     kthen (kfor files mk_file) (
     kbind (rinode rootino) (\<lambda>din.
     let off = (xint (di_size din) div of_nat BSIZE + 1) * of_nat BSIZE in
     kthen (winode rootino (din\<lparr>di_size := xint off\<rparr>)) (
     kbind (kgets freeblock) (\<lambda>used.
     mk_balloc (sint used))))))))))))"

text \<open>The program starts with its static variables.\<close>

definition mkfs_start :: "superblock \<Rightarrow> mkfs" where
  "mkfs_start s = \<lparr>image = [], mk_sb = s, freeinode = 1, freeblock = 0\<rparr>"

end
