(* ===== verification/Mkfs_Image.thy ===== *)
theory Mkfs_Image
  imports Mkfs
begin

text \<open>
  What mkfs.c has written, read back. \<open>holds f di nb c\<close> says that the inode \<open>di\<close> has \<open>nb\<close> blocks in the
  image \<open>f\<close> and that \<open>c\<close> stands at their front; \<open>alloc_ok\<close> that no block belongs to two
  files or twice to one, that all are below the next free block and that the blocks from
  there on are still zero. Every call of iappend() keeps \<open>mk_ok\<close> and appends to the contents of one file.
\<close>

section \<open>Reading the image\<close>

definition sector :: "uchar list \<Rightarrow> nat \<Rightarrow> uchar list" where
  "sector f b = take BSIZE (drop (BSIZE * b) f)"

definition inode_of :: "uchar list \<Rightarrow> nat \<Rightarrow> dinode" where
  "inode_of f inum = decode_dinode (sector f (unat (IBLOCK (of_nat inum) (decode_sb (sector f 1))))) (64 * (inum mod IPB))"

definition block_of :: "uchar list \<Rightarrow> dinode \<Rightarrow> nat \<Rightarrow> nat" where
  "block_of f di n = unat (if n < NDIRECT then di_addrs di ! n
     else get32l (sector f (unat (di_addrs di ! NDIRECT))) (4 * (n - NDIRECT)))"

definition file_bytes :: "uchar list \<Rightarrow> dinode \<Rightarrow> uchar list" where
  "file_bytes f di = map (\<lambda>i. sector f (block_of f di (i div BSIZE)) ! (i mod BSIZE)) [0..<unat (di_size di)]"

definition blocks_of :: "uchar list \<Rightarrow> dinode \<Rightarrow> nat \<Rightarrow> nat list" where
  "blocks_of f di nb = map (block_of f di) [0..<nb] @ (if NDIRECT < nb then [unat (di_addrs di ! NDIRECT)] else [])"

text \<open>The number of blocks of a file of \<open>n\<close> bytes, and the same with the indirect block.\<close>

definition bcount :: "nat \<Rightarrow> nat" where
  "bcount n = (n + (BSIZE - 1)) div BSIZE"

definition room :: "nat \<Rightarrow> nat" where
  "room nb = (if NDIRECT < nb then nb + 1 else nb)"

section \<open>Numbers\<close>

lemma mk_nums: "BSIZE = 512" "FSSIZE = 1000" "NDIRECT = 12" "NINDIRECT = 128" "MAXFILE = 140" "IPB = 8" "NINODES = 200"
    "LOGSIZE = 30" "nmeta = 59" "ninodeblocks = 26"
  by (simp_all add: BSIZE_def FSSIZE_def NDIRECT_def NINDIRECT_def MAXFILE_def IPB_def NINODES_def LOGSIZE_def MAXOPBLOCKS_def
    nmeta_def ninodeblocks_def nbitmap_def)

lemma xint_id [simp]: "xint x = x" "xshort y = y"
  using get32l_bytes [of x "[]"] get16l_bytes [of y "[]"] by (simp_all add: xint_def xshort_def)

lemma unat_small: "n < 4294967296 \<Longrightarrow> unat (of_nat n :: uint) = n"
  by (simp add: unsigned_of_nat take_bit_nat_eq_self)

lemma unat_sector: "b < FSSIZE \<Longrightarrow> unat (of_nat b * of_nat BSIZE :: uint) = BSIZE * b"
  using unat_small [of "b * 512"] by (simp add: mk_nums)

section \<open>Sectors\<close>

lemma length_sector: "length f = FSSIZE * BSIZE \<Longrightarrow> b < FSSIZE \<Longrightarrow> length (sector f b) = BSIZE"
  by (simp add: sector_def mk_nums)

lemma length_write_at: "k + length d \<le> length f \<Longrightarrow> length (write_at f k d) = length f"
  by (simp add: write_at_def)

lemma sector_write_at:
  assumes "length f = FSSIZE * BSIZE" and "b < FSSIZE" and "length d = BSIZE"
  shows "sector (write_at f (BSIZE * b) d) b' = (if b' = b then d else sector f b')"
proof -
  have in_f: "BSIZE * b + length d \<le> length f" using assms by (simp add: mk_nums)
  have d: "write_at f (BSIZE * b) d = splice f (BSIZE * b) d" using in_f by (simp add: write_at_def)
  show ?thesis
  proof (cases "b' < FSSIZE")
    case True
    then show ?thesis unfolding d
      using assms in_f by (auto simp: sector_def mk_nums nth_splice intro!: nth_equalityI)
  next
    case False
    then show ?thesis using assms in_f unfolding d by (auto simp: sector_def mk_nums)
  qed
qed

lemma rsect_run: "length (image m) = FSSIZE * BSIZE \<Longrightarrow> b < FSSIZE \<Longrightarrow> rsect (of_nat b) m = Ok (sector (image m) b) m"
  using unat_sector [of b] by (simp add: rsect_def Let_def sector_def) (simp add: mk_nums)

lemma wsect_run: "b < FSSIZE \<Longrightarrow> wsect (of_nat b) d m = Ok () (m\<lparr>image := write_at (image m) (BSIZE * b) d\<rparr>)"
  using unat_sector [of b] by (simp add: wsect_def)

section \<open>What belongs to a file\<close>

definition holds :: "uchar list \<Rightarrow> dinode \<Rightarrow> nat \<Rightarrow> uchar list \<Rightarrow> bool" where
  "holds f di nb c \<longleftrightarrow> length (di_addrs di) = NDIRECT + 1 \<and> length c \<le> nb * BSIZE \<and> nb \<le> MAXFILE \<and>
     (\<forall>i < length c. sector f (block_of f di (i div BSIZE)) ! (i mod BSIZE) = c ! i) \<and>
     (\<forall>n < NDIRECT. nb \<le> n \<longrightarrow> di_addrs di ! n = 0) \<and> (nb \<le> NDIRECT \<longrightarrow> di_addrs di ! NDIRECT = 0) \<and>
     (NDIRECT < nb \<longrightarrow> (\<forall>n. nb \<le> n \<and> n < MAXFILE \<longrightarrow> block_of f di n = 0))"

definition alloc_ok ::
  "uchar list \<Rightarrow> nat \<Rightarrow> nat \<Rightarrow> (nat \<Rightarrow> dinode) \<Rightarrow> (nat \<Rightarrow> nat) \<Rightarrow> (nat \<Rightarrow> uchar list) \<Rightarrow> bool" where
  "alloc_ok f fb N D nb c \<longleftrightarrow> length f = FSSIZE * BSIZE \<and> nmeta \<le> fb \<and> fb \<le> FSSIZE \<and>
     (\<forall>i \<in> {1..N}. holds f (D i) (nb i) (c i) \<and> distinct (blocks_of f (D i) (nb i)) \<and>
       set (blocks_of f (D i) (nb i)) \<subseteq> {nmeta..<fb}) \<and>
     (\<forall>i \<in> {1..N}. \<forall>j \<in> {1..N}. i \<noteq> j \<longrightarrow> set (blocks_of f (D i) (nb i)) \<inter> set (blocks_of f (D j) (nb j)) = {}) \<and>
     (\<forall>b. fb \<le> b \<and> b < FSSIZE \<longrightarrow> sector f b = replicate BSIZE 0)"

lemma block_of_cong:
  "(NDIRECT \<le> n \<Longrightarrow> sector g (unat (di_addrs di ! NDIRECT)) = sector f (unat (di_addrs di ! NDIRECT))) \<Longrightarrow>
    block_of g di n = block_of f di n"
  by (simp add: block_of_def)

lemma blocks_frame:
  assumes "\<forall>b \<in> set (blocks_of f di nb). sector g b = sector f b"
  shows "blocks_of g di nb = blocks_of f di nb"
proof -
  have "block_of g di n = block_of f di n" if "n < nb" for n
    by (rule block_of_cong) (use that assms in \<open>auto simp: blocks_of_def\<close>)
  then show ?thesis by (simp add: blocks_of_def)
qed

lemma holds_frame:
  assumes "\<forall>b \<in> set (blocks_of f di nb). sector g b = sector f b" and "holds f di nb c"
  shows "holds g di nb c"
proof -
  have n: "block_of g di n = block_of f di n" if "n < nb \<or> NDIRECT < nb" for n
    by (rule block_of_cong) (use that assms in \<open>auto simp: blocks_of_def\<close>)
  have i: "i div BSIZE < nb" if "i < length c" for i
    using that assms(2) by (simp add: holds_def mk_nums) linarith
  have "sector g (block_of g di (i div BSIZE)) = sector f (block_of f di (i div BSIZE))" if "i < length c" for i
    using n i [OF that] assms(1) by (simp add: blocks_of_def)
  with assms(2) n show ?thesis unfolding holds_def by auto
qed

text \<open>
  Changing one file: what is written lies in its own blocks or in blocks that were free.
\<close>

lemma alloc_update:
  assumes ok: "alloc_ok f fb N D nb c" and j: "j \<in> {1..N}"
    and len: "length g = FSSIZE * BSIZE" and fb: "fb \<le> fb'" "fb' \<le> FSSIZE"
    and out: "\<And>b. b \<notin> set (blocks_of f (D j) (nb j)) \<Longrightarrow> b < fb \<or> fb' \<le> b \<Longrightarrow> sector g b = sector f b"
    and new: "holds g di n v" "distinct (blocks_of g di n)"
      "set (blocks_of g di n) \<subseteq> set (blocks_of f (D j) (nb j)) \<union> {fb..<fb'}"
  shows "alloc_ok g fb' N (D(j := di)) (nb(j := n)) (c(j := v))"
proof -
  let ?B = "\<lambda>i. set (blocks_of f (D i) (nb i))"
  have old: "holds f (D i) (nb i) (c i)" "distinct (blocks_of f (D i) (nb i))" "?B i \<subseteq> {nmeta..<fb}" if "i \<in> {1..N}" for i
    using ok that by (auto simp: alloc_ok_def)
  have dis: "?B i \<inter> ?B k = {}" if "i \<in> {1..N}" "k \<in> {1..N}" "i \<noteq> k" for i k
    using ok that unfolding alloc_ok_def by blast
  have same: "sector g b = sector f b" if "i \<in> {1..N}" "i \<noteq> j" "b \<in> ?B i" for i b
    by (rule out) (use dis [of i j] old(3) [of i] j that in auto)
  have fr: "blocks_of g (D i) (nb i) = blocks_of f (D i) (nb i)" "holds g (D i) (nb i) (c i)" if "i \<in> {1..N}" "i \<noteq> j" for i
    using blocks_frame holds_frame same that old(1) by blast+
  have z: "sector g b = replicate BSIZE 0" if "fb' \<le> b" "b < FSSIZE" for b
  proof -
    have "b \<notin> ?B j" using old(3) [OF j] that fb by auto
    then show ?thesis using out that ok fb by (simp add: alloc_ok_def)
  qed
  have nj: "set (blocks_of g di n) \<subseteq> {nmeta..<fb'}" using new(3) old(3) [OF j] ok fb by (fastforce simp: alloc_ok_def)
  have sep: "?B i \<inter> set (blocks_of g di n) = {}" if "i \<in> {1..N}" "i \<noteq> j" for i
    using dis [of i j] old(3) [of i] new(3) j that by fastforce
  have up: "?B i \<subseteq> {nmeta..<fb'}" if "i \<in> {1..N}" for i using old(3) [OF that] fb by auto
  show ?thesis
    unfolding alloc_ok_def
  proof (intro conjI ballI impI allI)
    show "length g = FSSIZE * BSIZE" "nmeta \<le> fb'" "fb' \<le> FSSIZE" using len fb ok by (simp_all add: alloc_ok_def)
  next
    fix i assume i: "i \<in> {1..N}"
    show "holds g ((D(j := di)) i) ((nb(j := n)) i) ((c(j := v)) i)"
      "distinct (blocks_of g ((D(j := di)) i) ((nb(j := n)) i))"
      "set (blocks_of g ((D(j := di)) i) ((nb(j := n)) i)) \<subseteq> {nmeta..<fb'}"
      using i fr [OF i] old(2) [OF i] up [OF i] new(1,2) nj by (cases "i = j"; simp)+
  next
    fix i k assume i: "i \<in> {1..N}" and k: "k \<in> {1..N}" and ik: "i \<noteq> k"
    show "set (blocks_of g ((D(j := di)) i) ((nb(j := n)) i)) \<inter> set (blocks_of g ((D(j := di)) k) ((nb(j := n)) k)) = {}"
      using fr(1) [OF i] fr(1) [OF k] sep [OF i] sep [OF k] dis [OF i k ik] ik by (cases "i = j"; cases "k = j") auto
  next
    fix b assume "fb' \<le> b \<and> b < FSSIZE"
    then show "sector g b = replicate BSIZE 0" using z by blast
  qed
qed

section \<open>Allocating blocks\<close>

lemma take_block_run [simp]: "take_block m = Ok (freeblock m) (m\<lparr>freeblock := freeblock m + 1\<rparr>)"
  by (simp add: take_block_def)

lemma alloc_D:
  assumes "alloc_ok f fb N D nb c" and "j \<in> {1..N}"
  shows "length f = FSSIZE * BSIZE" "nmeta \<le> fb" "fb \<le> FSSIZE" "holds f (D j) (nb j) (c j)"
    "distinct (blocks_of f (D j) (nb j))" "set (blocks_of f (D j) (nb j)) \<subseteq> {nmeta..<fb}"
    "\<And>b. fb \<le> b \<Longrightarrow> b < FSSIZE \<Longrightarrow> sector f b = replicate BSIZE 0"
  using assms by (auto simp: alloc_ok_def)

lemma alloc_block_range:
  assumes "alloc_ok f fb N D nb c" and "j \<in> {1..N}" and "n < nb j"
  shows "nmeta \<le> block_of f (D j) n" "block_of f (D j) n < fb"
  using alloc_D(6) [OF assms(1,2)] assms(3) by (auto simp: blocks_of_def image_subset_iff)

lemma alloc_ind_range:
  assumes "alloc_ok f fb N D nb c" and "j \<in> {1..N}" and "NDIRECT < nb j"
  shows "nmeta \<le> unat (di_addrs (D j) ! NDIRECT)" "unat (di_addrs (D j) ! NDIRECT) < fb" "unat (di_addrs (D j) ! NDIRECT) < FSSIZE"
    "di_addrs (D j) ! NDIRECT \<noteq> 0"
proof -
  show a: "nmeta \<le> unat (di_addrs (D j) ! NDIRECT)" "unat (di_addrs (D j) ! NDIRECT) < fb"
    using alloc_D(6) [OF assms(1,2)] assms(3) by (auto simp: blocks_of_def)
  then show "unat (di_addrs (D j) ! NDIRECT) < FSSIZE" using alloc_D(3) [OF assms(1,2)] by linarith
  show "di_addrs (D j) ! NDIRECT \<noteq> 0" using a(1) by (auto simp: mk_nums)
qed

lemma iappend_block_old:
  assumes ok: "alloc_ok (image m) fb N D nb c" "j \<in> {1..N}" and n: "n < nb j"
  shows "iappend_block n (D j) m = Ok (of_nat (block_of (image m) (D j) n), D j) m"
proof -
  have nz: "block_of (image m) (D j) n \<noteq> 0" using alloc_block_range(1) [OF ok n] by (simp add: mk_nums)
  show ?thesis
  proof (cases "n < NDIRECT")
    case True
    then have "di_addrs (D j) ! n \<noteq> 0" using nz by (auto simp: block_of_def)
    then show ?thesis using True by (simp add: iappend_block_def block_of_def)
  next
    case False
    then have i: "NDIRECT < nb j" using n by simp
    note r = alloc_ind_range [OF ok i]
    have "rsect (di_addrs (D j) ! NDIRECT) m = Ok (sector (image m) (unat (di_addrs (D j) ! NDIRECT))) m"
      using rsect_run [OF alloc_D(1) [OF ok] r(3)] by simp
    moreover have "get32l (sector (image m) (unat (di_addrs (D j) ! NDIRECT))) (4 * (n - NDIRECT)) \<noteq> 0"
      using nz False by (auto simp: block_of_def)
    ultimately show ?thesis using False r(4) by (simp add: iappend_block_def block_of_def kmonad)
  qed
qed

lemma holds_extend:
  assumes "holds f di nb c" and "length (di_addrs di') = NDIRECT + 1" and "Suc nb \<le> MAXFILE"
    and "\<And>n. n < nb \<Longrightarrow> block_of g di' n = block_of f di n"
    and "\<And>n. n < nb \<Longrightarrow> sector g (block_of f di n) = sector f (block_of f di n)"
    and "\<And>n. n < NDIRECT \<Longrightarrow> Suc nb \<le> n \<Longrightarrow> di_addrs di' ! n = 0" and "Suc nb \<le> NDIRECT \<Longrightarrow> di_addrs di' ! NDIRECT = 0"
    and "\<And>n. NDIRECT < Suc nb \<Longrightarrow> Suc nb \<le> n \<Longrightarrow> n < MAXFILE \<Longrightarrow> block_of g di' n = 0"
  shows "holds g di' (Suc nb) c"
proof -
  have "i div BSIZE < nb" if "i < length c" for i
    using that assms(1) by (simp add: holds_def mk_nums) linarith
  then show ?thesis using assms unfolding holds_def by auto
qed

definition grown :: "mkfs \<Rightarrow> nat \<Rightarrow> nat \<Rightarrow> (nat \<Rightarrow> dinode) \<Rightarrow> (nat \<Rightarrow> nat) \<Rightarrow> (nat \<Rightarrow> uchar list) \<Rightarrow> nat \<Rightarrow>
    uchar list \<Rightarrow> dinode \<Rightarrow> nat \<Rightarrow> bool" where
  "grown m fb N D nb c j g di fb' \<longleftrightarrow>
     iappend_block (nb j) (D j) m = Ok (of_nat (block_of g di (nb j)), di) (m\<lparr>image := g, freeblock := of_nat fb'\<rparr>) \<and>
     alloc_ok g fb' N (D(j := di)) (nb(j := Suc (nb j))) c \<and> (\<forall>b < nmeta. sector g b = sector (image m) b) \<and>
     (\<exists>as. di = (D j)\<lparr>di_addrs := as\<rparr>) \<and> fb' + room (nb j) = fb + room (Suc (nb j))"

lemma grow_direct:
  assumes ok: "alloc_ok (image m) fb N D nb c" "j \<in> {1..N}" and fr: "freeblock m = of_nat fb" "fb < FSSIZE" and n: "nb j < NDIRECT"
  shows "grown m fb N D nb c j (image m) ((D j)\<lparr>di_addrs := (di_addrs (D j))[nb j := of_nat fb]\<rparr>) (Suc fb)"
proof -
  let ?f = "image m" and ?di = "(D j)\<lparr>di_addrs := (di_addrs (D j))[nb j := of_nat fb]\<rparr>"
  note h = alloc_D(4) [OF ok]
  have len: "length (di_addrs (D j)) = NDIRECT + 1" and z: "di_addrs (D j) ! nb j = 0" using h n by (simp_all add: holds_def)
  have u: "unat (of_nat fb :: uint) = fb" using fr(2) by (intro unat_small) (simp add: mk_nums)
  have b: "block_of ?f ?di k = block_of ?f (D j) k" if "k < nb j" for k using that n len by (simp add: block_of_def)
  have nw: "block_of ?f ?di (nb j) = fb" using n len u by (simp add: block_of_def)
  have bl: "blocks_of ?f ?di (Suc (nb j)) = blocks_of ?f (D j) (nb j) @ [fb]" using n b nw by (simp add: blocks_of_def)
  have "alloc_ok ?f (Suc fb) N (D(j := ?di)) (nb(j := Suc (nb j))) (c(j := c j))"
  proof (rule alloc_update [OF ok alloc_D(1) [OF ok]])
    show "holds ?f ?di (Suc (nb j)) (c j)"
      by (rule holds_extend [OF h]) (use h n len b in \<open>auto simp: holds_def mk_nums\<close>)
    show "distinct (blocks_of ?f ?di (Suc (nb j)))" using bl alloc_D(5,6) [OF ok] by auto
  qed (use fr bl in auto)
  moreover have "iappend_block (nb j) (D j) m = Ok (of_nat fb, ?di) (m\<lparr>freeblock := of_nat (Suc fb)\<rparr>)"
    using n z len fr by (simp add: iappend_block_def kmonad add.commute)
  ultimately show ?thesis using n nw by (auto simp: grown_def room_def)
qed

lemma get_zeroes: "k + 4 \<le> n \<Longrightarrow> get32l (replicate n 0) k = 0"
  by (simp add: get32l_def)

lemma grow_first_indirect:
  assumes ok: "alloc_ok (image m) fb N D nb c" "j \<in> {1..N}" and fr: "freeblock m = of_nat fb" "Suc fb < FSSIZE" and n: "nb j = NDIRECT"
  shows "grown m fb N D nb c j (write_at (image m) (BSIZE * fb) (put32l (replicate BSIZE 0) 0 (of_nat (Suc fb))))
    ((D j)\<lparr>di_addrs := (di_addrs (D j))[NDIRECT := of_nat fb]\<rparr>) (Suc (Suc fb))"
proof -
  let ?f = "image m" and ?di = "(D j)\<lparr>di_addrs := (di_addrs (D j))[NDIRECT := of_nat fb]\<rparr>"
  let ?e = "put32l (replicate BSIZE 0) 0 (of_nat (Suc fb)) :: uchar list"
  let ?g = "write_at ?f (BSIZE * fb) ?e"
  note h = alloc_D(4) [OF ok] and lf = alloc_D(1) [OF ok]
  have len: "length (di_addrs (D j)) = NDIRECT + 1" and z: "di_addrs (D j) ! NDIRECT = 0" using h n by (simp_all add: holds_def)
  have u: "unat (of_nat fb :: uint) = fb" "unat (of_nat (Suc fb) :: uint) = Suc fb"
    using fr(2) by (intro unat_small; simp add: mk_nums)+
  have le: "length ?e = BSIZE" by (simp add: mk_nums)
  have sg: "sector ?g b = (if b = fb then ?e else sector ?f b)" for b by (rule sector_write_at) (use lf fr le in auto)
  have lg: "length ?g = FSSIZE * BSIZE" using length_write_at [of "BSIZE * fb" ?e ?f] lf le fr by (simp add: mk_nums)
  have b: "block_of ?g ?di k = block_of ?f (D j) k" if "k < nb j" for k using that n len by (simp add: block_of_def)
  have nw: "block_of ?g ?di (nb j) = Suc fb" using n len u sg by (simp add: block_of_def mk_nums)
  have zz: "block_of ?g ?di k = 0" if "Suc (nb j) \<le> k" "k < MAXFILE" for k
    using that n len u sg get_put32l_other [of 0 "replicate BSIZE 0" "4 * (k - NDIRECT)" "of_nat (Suc fb)"]
      get_zeroes [of "4 * (k - NDIRECT)" BSIZE] by (simp add: block_of_def mk_nums)
  have bl: "blocks_of ?g ?di (Suc (nb j)) = blocks_of ?f (D j) (nb j) @ [Suc fb, fb]"
    using n b nw len u by (simp add: blocks_of_def)
  have "alloc_ok ?g (Suc (Suc fb)) N (D(j := ?di)) (nb(j := Suc (nb j))) (c(j := c j))"
  proof (rule alloc_update [OF ok lg])
    show "holds ?g ?di (Suc (nb j)) (c j)"
    proof (rule holds_extend [OF h])
      show "sector ?g (block_of ?f (D j) k) = sector ?f (block_of ?f (D j) k)" if "k < nb j" for k
        using alloc_block_range(2) [OF ok that] sg by auto
    qed (use n len b zz in \<open>auto simp: mk_nums\<close>)
    show "distinct (blocks_of ?g ?di (Suc (nb j)))" using bl alloc_D(5,6) [OF ok] by auto
  qed (use fr bl sg in auto)
  moreover have "rsect (of_nat fb) (m\<lparr>freeblock := of_nat fb + 1\<rparr>) = Ok (replicate BSIZE 0) (m\<lparr>freeblock := of_nat fb + 1\<rparr>)"
    using rsect_run [of "m\<lparr>freeblock := of_nat fb + 1\<rparr>" fb] lf fr alloc_D(7) [OF ok, of fb] by simp
  then have "iappend_block (nb j) (D j) m = Ok (of_nat (Suc fb), ?di) (m\<lparr>image := ?g, freeblock := of_nat (Suc (Suc fb))\<rparr>)"
    using n z len fr get_zeroes [of 0 BSIZE] wsect_run [of fb]
    by (simp add: iappend_block_def kmonad add.commute mk_nums Let_def)
  moreover have "\<forall>b < nmeta. sector ?g b = sector ?f b" using sg alloc_D(2) [OF ok] by simp
  ultimately show ?thesis using n nw by (auto simp: grown_def room_def)
qed

lemma grow_indirect:
  assumes ok: "alloc_ok (image m) fb N D nb c" "j \<in> {1..N}" and fr: "freeblock m = of_nat fb" "fb < FSSIZE"
    and n: "NDIRECT < nb j" "nb j < MAXFILE"
  shows "grown m fb N D nb c j (write_at (image m) (BSIZE * unat (di_addrs (D j) ! NDIRECT))
      (put32l (sector (image m) (unat (di_addrs (D j) ! NDIRECT))) (4 * (nb j - NDIRECT)) (of_nat fb))) (D j) (Suc fb)"
proof -
  let ?f = "image m" and ?di = "D j" and ?i = "unat (di_addrs (D j) ! NDIRECT)" and ?k = "4 * (nb j - NDIRECT)"
  let ?e = "put32l (sector ?f ?i) ?k (of_nat fb)"
  let ?g = "write_at ?f (BSIZE * ?i) ?e"
  note h = alloc_D(4) [OF ok] and lf = alloc_D(1) [OF ok] and r = alloc_ind_range [OF ok n(1)]
  have u: "unat (of_nat fb :: uint) = fb" using fr(2) by (intro unat_small) (simp add: mk_nums)
  have ls: "length (sector ?f ?i) = BSIZE" using length_sector [OF lf r(3)] .
  have k: "?k + 4 \<le> BSIZE" using n by (simp add: mk_nums)
  have le: "length ?e = BSIZE" using ls k by simp
  have sg: "sector ?g b = (if b = ?i then ?e else sector ?f b)" for b by (rule sector_write_at) (use lf r le in auto)
  have lg: "length ?g = FSSIZE * BSIZE" using length_write_at [of "BSIZE * ?i" ?e ?f] lf le r(3) by (simp add: mk_nums)
  have b: "block_of ?g ?di q = block_of ?f ?di q" if "q \<noteq> nb j" "q < MAXFILE" for q
  proof (cases "q < NDIRECT")
    case False
    then have "4 * (q - NDIRECT) + 4 \<le> BSIZE" "4 * (q - NDIRECT) + 4 \<le> ?k \<or> ?k + 4 \<le> 4 * (q - NDIRECT)"
      using that n by (auto simp: mk_nums)
    then have "get32l ?e (4 * (q - NDIRECT)) = get32l (sector ?f ?i) (4 * (q - NDIRECT))"
      by (intro get_put32l_other) (use k ls in auto)
    with False sg show ?thesis by (simp add: block_of_def)
  qed (simp add: block_of_def)
  have nw: "block_of ?g ?di (nb j) = fb" using n u sg k ls by (simp add: block_of_def)
  have bl: "blocks_of ?g ?di (Suc (nb j)) = map (block_of ?f ?di) [0..<nb j] @ [fb, ?i]"
    using n b nw by (simp add: blocks_of_def)
  have ob: "blocks_of ?f ?di (nb j) = map (block_of ?f ?di) [0..<nb j] @ [?i]" using n by (simp add: blocks_of_def)
  have "?i \<notin> block_of ?f ?di ` {0..<nb j}" using alloc_D(5) [OF ok] unfolding ob by simp
  then have own: "block_of ?f ?di q \<noteq> ?i" if "q < nb j" for q using that by (metis atLeastLessThan_iff image_eqI le0)
  have zz: "block_of ?f ?di q = 0" if "nb j \<le> q" "q < MAXFILE" for q using h n that by (simp add: holds_def)
  have "alloc_ok ?g (Suc fb) N (D(j := ?di)) (nb(j := Suc (nb j))) (c(j := c j))"
  proof (rule alloc_update [OF ok lg])
    show "holds ?g ?di (Suc (nb j)) (c j)"
    proof (rule holds_extend [OF h])
      show "sector ?g (block_of ?f ?di q) = sector ?f (block_of ?f ?di q)" if "q < nb j" for q using own [OF that] sg by simp
      show "block_of ?g ?di q = 0" if "Suc (nb j) \<le> q" "q < MAXFILE" for q using b zz that by simp
    qed (use n b h in \<open>auto simp: holds_def\<close>)
    show "distinct (blocks_of ?g ?di (Suc (nb j)))" using bl ob alloc_D(5,6) [OF ok] r(2) by auto
    show "sector ?g x = sector ?f x" if "x \<notin> set (blocks_of ?f ?di (nb j))" for x using that sg ob by simp
  qed (use fr bl ob in auto)
  moreover have "rsect (di_addrs ?di ! NDIRECT) m = Ok (sector ?f ?i) m" using rsect_run [OF lf r(3)] by simp
  moreover have "wsect (di_addrs ?di ! NDIRECT) ?e m' = Ok () (m'\<lparr>image := write_at (image m') (BSIZE * ?i) ?e\<rparr>)" for m'
    using wsect_run [OF r(3)] by simp
  moreover have "get32l (sector ?f ?i) ?k = 0" using zz [of "nb j"] n by (simp add: block_of_def unsigned_eq_0_iff)
  ultimately have "iappend_block (nb j) ?di m = Ok (of_nat fb, ?di) (m\<lparr>image := ?g, freeblock := of_nat (Suc fb)\<rparr>)"
    and a: "alloc_ok ?g (Suc fb) N (D(j := ?di)) (nb(j := Suc (nb j))) c"
    using n r(4) fr k ls by (simp_all add: iappend_block_def kmonad add.commute Let_def)
  moreover have "\<forall>b < nmeta. sector ?g b = sector ?f b" using sg r(1) by simp
  ultimately show ?thesis using n nw by (auto simp: grown_def room_def intro: exI [of _ "di_addrs ?di"])
qed

lemma iappend_block_new:
  assumes ok: "alloc_ok (image m) fb N D nb c" "j \<in> {1..N}" and fr: "freeblock m = of_nat fb"
    and n: "nb j < MAXFILE" and sp: "fb + room (Suc (nb j)) \<le> FSSIZE + room (nb j)"
  obtains g di fb' where "grown m fb N D nb c j g di fb'"
proof (cases "nb j < NDIRECT")
  case True
  with sp have "fb < FSSIZE" by (simp add: room_def)
  with grow_direct [OF ok fr _ True] that show ?thesis by blast
next
  case False
  show ?thesis
  proof (cases "nb j = NDIRECT")
    case True
    with sp have "Suc fb < FSSIZE" by (simp add: room_def)
    with grow_first_indirect [OF ok fr _ True] that show ?thesis by blast
  next
    case 2: False
    with False have "NDIRECT < nb j" by simp
    moreover from this sp have "fb < FSSIZE" by (simp add: room_def)
    ultimately show ?thesis using grow_indirect [OF ok fr _ _ n] that by blast
  qed
qed

section \<open>Appending to a file\<close>

lemma bytes_of_write:
  assumes "i < off + length p" and "off mod BSIZE + length p \<le> BSIZE" and "length d = BSIZE" and "i div BSIZE = off div BSIZE"
  shows "splice d (off mod BSIZE) p ! (i mod BSIZE) = (if i < off then d ! (i mod BSIZE) else p ! (i - off))"
proof -
  have i: "i mod BSIZE + off = i + off mod BSIZE" using assms(4) by (metis div_mult_mod_eq add.commute add.left_commute)
  have "i mod BSIZE < BSIZE" by (simp add: mk_nums)
  then show ?thesis using assms i by (subst nth_splice) (auto intro: arg_cong [of _ _ "(!) p"])
qed

lemma close_le:
  assumes "n mod BSIZE + k \<le> BSIZE" and "n div BSIZE < b"
  shows "n + k \<le> b * BSIZE"
proof -
  have "n div BSIZE * BSIZE + n mod BSIZE = n" "Suc (n div BSIZE) * BSIZE \<le> b * BSIZE" using assms(2) by (simp, intro mult_le_mono1) simp
  moreover have "Suc (n div BSIZE) * BSIZE = n div BSIZE * BSIZE + BSIZE" by simp
  ultimately show ?thesis using assms(1) by linarith
qed

lemma close_div:
  assumes "i < n + k" and "n mod BSIZE + k \<le> BSIZE"
  shows "i div BSIZE \<le> n div BSIZE"
proof -
  have "n + k \<le> Suc (n div BSIZE) * BSIZE" by (rule close_le) (use assms in auto)
  then show ?thesis using assms(1) less_mult_imp_div_less [of i "Suc (n div BSIZE)" BSIZE] by simp
qed

lemma alloc_append:
  assumes ok: "alloc_ok f fb N D nb c" "j \<in> {1..N}" and o: "length (c j) div BSIZE < nb j"
    and p: "length (c j) mod BSIZE + length p \<le> BSIZE" and x: "x = block_of f (D j) (length (c j) div BSIZE)"
  shows "alloc_ok (write_at f (BSIZE * x) (splice (sector f x) (length (c j) mod BSIZE) p)) fb N D nb (c(j := c j @ p))"
    "b < nmeta \<Longrightarrow> sector (write_at f (BSIZE * x) (splice (sector f x) (length (c j) mod BSIZE) p)) b = sector f b"
proof -
  let ?d = "splice (sector f x) (length (c j) mod BSIZE) p" and ?off = "length (c j)" and ?di = "D j"
  let ?g = "write_at f (BSIZE * x) ?d"
  note h = alloc_D(4) [OF ok] and lf = alloc_D(1) [OF ok]
  have xr: "nmeta \<le> x" "x < FSSIZE" using alloc_block_range [OF ok o] alloc_D(3) [OF ok] x by auto
  have xb: "x \<in> set (blocks_of f ?di (nb j))" using o x by (simp add: blocks_of_def)
  have ld: "length ?d = BSIZE" "length (sector f x) = BSIZE" using length_sector [OF lf xr(2)] p by simp_all
  have sg: "sector ?g b = (if b = x then ?d else sector f b)" for b by (rule sector_write_at) (use lf xr ld in auto)
  have lg: "length ?g = FSSIZE * BSIZE" using length_write_at [of "BSIZE * x" ?d f] lf ld xr by (simp add: mk_nums)
  have dj: "distinct (map (block_of f ?di) [0..<nb j])" "NDIRECT < nb j \<Longrightarrow> unat (di_addrs ?di ! NDIRECT) \<notin> block_of f ?di ` {0..<nb j}"
    using alloc_D(5) [OF ok] by (auto simp: blocks_of_def)
  have ind: "unat (di_addrs ?di ! NDIRECT) \<noteq> x" if "NDIRECT < nb j" using dj(2) [OF that] o x by (metis atLeastLessThan_iff image_eqI le0)
  have b: "block_of ?g ?di n = block_of f ?di n" if "n < nb j \<or> NDIRECT < nb j" for n
    by (rule block_of_cong) (use that ind sg in auto)
  have inj: "block_of f ?di n = x \<longleftrightarrow> n = ?off div BSIZE" if "n < nb j" for n
    using dj(1) that o unfolding x by (auto simp: distinct_map inj_on_def)
  have bl: "blocks_of ?g ?di (nb j) = blocks_of f ?di (nb j)" using b by (simp add: blocks_of_def)
  have i: "i div BSIZE < nb j" "\<not> i < ?off \<Longrightarrow> i div BSIZE = ?off div BSIZE" if "i < ?off + length p" for i
    using close_div [OF that p] o div_le_mono [of ?off i BSIZE] by auto
  have "sector ?g (block_of ?g ?di (i div BSIZE)) ! (i mod BSIZE) = (c j @ p) ! i" if "i < ?off + length p" for i
    using b i [OF that] inj [OF i(1) [OF that]] sg bytes_of_write [OF that p ld(2)] h that
    by (cases "i div BSIZE = ?off div BSIZE") (auto simp: holds_def nth_append)
  moreover have "?off + length p \<le> nb j * BSIZE" by (rule close_le [OF p o])
  ultimately have "holds ?g ?di (nb j) (c j @ p)" using h b by (auto simp: holds_def)
  then have "alloc_ok ?g fb N (D(j := ?di)) (nb(j := nb j)) (c(j := c j @ p))"
    by (intro alloc_update [OF ok lg]) (use bl sg alloc_D(3,5) [OF ok] xb in auto)
  then show "alloc_ok ?g fb N D nb (c(j := c j @ p))" by simp
  show "sector ?g b = sector f b" if "b < nmeta" using that xr sg by simp
qed

lemma bcount_parts: "bcount n = n div BSIZE + (if n mod BSIZE = 0 then 0 else 1)"
proof -
  have "(n + 511) div 512 = n div 512 + (n mod 512 + 511) div 512"
    using div_mult_self3 [of 512 "n div 512" "n mod 512 + 511"] div_mult_mod_eq [of n 512] by (simp add: add.assoc [symmetric])
  moreover have "(n mod 512 + 511) div 512 = (if n mod 512 = 0 then 0 else 1)"
    by (auto simp: div_nat_eqI)
  ultimately show ?thesis by (simp add: bcount_def mk_nums)
qed

lemma bcount_step:
  assumes "0 < k" and "n mod BSIZE + k \<le> BSIZE"
  shows "bcount (n + k) = Suc (n div BSIZE)"
proof -
  have "(n + k + 511) div 512 = n div 512 + (n mod 512 + k + 511) div 512"
    using div_mult_self3 [of 512 "n div 512" "n mod 512 + k + 511"] div_mult_mod_eq [of n 512] by (simp add: add.assoc [symmetric])
  moreover have "(n mod 512 + k + 511) div 512 = 1" using assms by (intro div_nat_eqI) (auto simp: mk_nums)
  ultimately show ?thesis by (simp add: bcount_def mk_nums)
qed

lemma bcount_mono: "n \<le> k \<Longrightarrow> bcount n \<le> bcount k"
  by (simp add: bcount_def div_le_mono)

lemma room_mono: "n \<le> k \<Longrightarrow> room n \<le> room k"
  by (simp add: room_def)

definition extended :: "mkfs \<Rightarrow> nat \<Rightarrow> nat \<Rightarrow> (nat \<Rightarrow> dinode) \<Rightarrow> (nat \<Rightarrow> nat) \<Rightarrow> (nat \<Rightarrow> uchar list) \<Rightarrow> nat \<Rightarrow>
    nat \<Rightarrow> uchar list \<Rightarrow> uchar list \<Rightarrow> dinode \<Rightarrow> nat \<Rightarrow> bool" where
  "extended m fb N D nb c j n v g di fb' \<longleftrightarrow>
     alloc_ok g fb' N (D(j := di)) (nb(j := n)) (c(j := v)) \<and> (\<forall>b < nmeta. sector g b = sector (image m) b) \<and>
     (\<exists>as. di = (D j)\<lparr>di_addrs := as\<rparr>) \<and> fb' + room (nb j) = fb + room n"

lemma iappend_block_run:
  assumes ok: "alloc_ok (image m) fb N D nb c" "j \<in> {1..N}" and fr: "freeblock m = of_nat fb"
    and n: "nb j = bcount (length (c j))" "length (c j) < MAXFILE * BSIZE"
    and sp: "fb + room (Suc (length (c j) div BSIZE)) \<le> FSSIZE + room (nb j)"
  obtains g di fb' where
    "iappend_block (length (c j) div BSIZE) (D j) m =
      Ok (of_nat (block_of g di (length (c j) div BSIZE)), di) (m\<lparr>image := g, freeblock := of_nat fb'\<rparr>)"
    "extended m fb N D nb c j (Suc (length (c j) div BSIZE)) (c j) g di fb'"
proof (cases "length (c j) mod BSIZE = 0")
  case True
  then have e: "nb j = length (c j) div BSIZE" using n(1) by (simp add: bcount_parts)
  have l: "nb j < MAXFILE" using n(2) e by (simp add: less_mult_imp_div_less)
  obtain g di fb' where "grown m fb N D nb c j g di fb'"
    by (rule iappend_block_new [OF ok fr l]) (use sp e in simp)
  with that [of g di fb'] e show ?thesis by (simp add: grown_def extended_def)
next
  case False
  then have e: "nb j = Suc (length (c j) div BSIZE)" using n(1) by (simp add: bcount_parts)
  have "m\<lparr>image := image m, freeblock := of_nat fb\<rparr> = m" using fr by (cases m) simp
  with iappend_block_old [OF ok, of "length (c j) div BSIZE"] e ok show ?thesis
    by (intro that [of "image m" "D j" fb]) (auto simp: extended_def fun_upd_idem intro: exI [of _ "di_addrs (D j)"])
qed

lemma word_div_bsize: "n < 4294967296 \<Longrightarrow> (of_nat n div of_nat BSIZE :: uint) = of_nat (n div BSIZE)"
proof -
  assume "n < 4294967296"
  then have "unat (of_nat n div of_nat BSIZE :: uint) = n div BSIZE"
    using unat_small [of n] unat_small [of BSIZE] by (simp add: unat_div mk_nums)
  from arg_cong [OF this, of "of_nat :: nat \<Rightarrow> uint"] show ?thesis by (simp only: of_nat_unat ucast_id)
qed

lemma unat_of_bytes:
  assumes "n < MAXFILE * BSIZE"
  shows "unat (of_nat n div of_nat BSIZE :: uint) = n div BSIZE"
    "unat ((of_nat n div of_nat BSIZE + 1) * of_nat BSIZE - of_nat n :: uint) = BSIZE - n mod BSIZE"
    "unat (of_nat n - of_nat n div of_nat BSIZE * of_nat BSIZE :: uint) = n mod BSIZE"
proof -
  have u: "unat (of_nat n :: uint) = n" "unat (of_nat BSIZE :: uint) = BSIZE" by (rule unat_small, use assms in \<open>simp add: mk_nums\<close>)+
  have small: "BSIZE - n mod BSIZE < 4294967296" "n mod BSIZE < 4294967296"
    using mod_less_divisor [of BSIZE n] by (simp_all add: BSIZE_def)
  show d: "unat (of_nat n div of_nat BSIZE :: uint) = n div BSIZE" by (simp add: unat_div u)
  have q: "(of_nat n div of_nat BSIZE :: uint) = of_nat (n div BSIZE)" by (rule word_div_bsize) (use assms in \<open>simp add: mk_nums\<close>)
  have "(of_nat n div of_nat BSIZE + 1) * of_nat BSIZE - of_nat n = (of_nat ((n div BSIZE + 1) * BSIZE) - of_nat n :: uint)"
    unfolding q by (simp add: algebra_simps)
  also have "\<dots> = of_nat ((n div BSIZE + 1) * BSIZE - n)"
    by (rule of_nat_diff [symmetric]) (use close_le [of n 0 "n div BSIZE + 1"] in \<open>simp add: mk_nums\<close>)
  also have "(n div BSIZE + 1) * BSIZE - n = BSIZE - n mod BSIZE"
    using div_mult_mod_eq [of n BSIZE] unfolding add_mult_distrib by linarith
  finally show "unat ((of_nat n div of_nat BSIZE + 1) * of_nat BSIZE - of_nat n :: uint) = BSIZE - n mod BSIZE"
    using unat_small [OF small(1)] by (simp only:)
  have "of_nat n - of_nat n div of_nat BSIZE * of_nat BSIZE = (of_nat n - of_nat (n div BSIZE * BSIZE) :: uint)" unfolding q by simp
  also have "\<dots> = of_nat (n - n div BSIZE * BSIZE)" by (rule of_nat_diff [symmetric]) simp
  finally show "unat (of_nat n - of_nat n div of_nat BSIZE * of_nat BSIZE :: uint) = n mod BSIZE"
    using unat_small [OF small(2)] by (simp only: minus_div_mult_eq_mod)
qed

lemma extended_trans:
  assumes "extended m fb N D nb c j n v g di fb'" and "image m' = g'" and "\<And>b. b < nmeta \<Longrightarrow> sector g' b = sector g b"
    and "extended m' fb' N (D(j := di)) (nb(j := n)) c' j n' v' g2 di' fb2" and "c'(j := v') = c(j := v')"
  shows "extended m fb N D nb c j n' v' g2 di' fb2"
  using assms by (auto simp: extended_def)

lemma iappend_loop_step:
  assumes "p \<noteq> []" and lt: "off < MAXFILE * BSIZE" and n: "n1 = min (length p) (BSIZE - off mod BSIZE)"
    and b: "iappend_block (off div BSIZE) din m = Ok (x, di) m1" and r: "rsect x m1 = Ok buf m1"
    and w: "wsect x (splice buf (off mod BSIZE) (take n1 p)) m1 = Ok () m2"
  shows "iappend_loop (Suc k) p (of_nat off) din m = iappend_loop k (drop n1 p) (of_nat (off + n1)) di m2"
proof -
  have l: "off div BSIZE < MAXFILE" using lt by (rule less_mult_imp_div_less)
  have "iappend_loop (Suc k) p (of_nat off) din m =
      kthen (wsect x (splice buf (off mod BSIZE) (take n1 p))) (iappend_loop k (drop n1 p) (of_nat off + of_nat n1) di) m1"
    using assms(1) l unfolding iappend_loop.simps Let_def unat_of_bytes [OF lt]
    by (simp add: kbind_Ok [of "iappend_block (off div BSIZE) din", OF b] kbind_Ok [of "rsect x", OF r] flip: n)
  then show ?thesis using kthen_Ok [of "wsect x (splice buf (off mod BSIZE) (take n1 p))", OF w] by simp
qed

definition appended :: "nat \<Rightarrow> mkfs \<Rightarrow> nat \<Rightarrow> nat \<Rightarrow> (nat \<Rightarrow> dinode) \<Rightarrow> (nat \<Rightarrow> nat) \<Rightarrow> (nat \<Rightarrow> uchar list) \<Rightarrow> nat \<Rightarrow>
    uchar list \<Rightarrow> uchar list \<Rightarrow> dinode \<Rightarrow> nat \<Rightarrow> bool" where
  "appended k m fb N D nb c j p g di fb' \<longleftrightarrow>
     iappend_loop k p (of_nat (length (c j))) (D j) m =
       Ok (of_nat (length (c j) + length p), di) (m\<lparr>image := g, freeblock := of_nat fb'\<rparr>) \<and>
     extended m fb N D nb c j (bcount (length (c j) + length p)) (c j @ p) g di fb'"

lemma iappend_loop_run:
  assumes "alloc_ok (image m) fb N D nb c" and j: "j \<in> {1..N}" and "freeblock m = of_nat fb"
    and "nb j = bcount (length (c j))" and "length (c j) + length p \<le> MAXFILE * BSIZE"
    and "fb + room (bcount (length (c j) + length p)) \<le> FSSIZE + room (nb j)" and "length p < k"
  shows "\<exists>g di fb'. appended k m fb N D nb c j p g di fb'"
  using assms(1,3-)
proof (induction k arbitrary: m fb D nb c p)
  case (Suc k)
  note ok = Suc.prems(1) j and fr = Suc.prems(2) and n = Suc.prems(3) and mx = Suc.prems(4) and sp = Suc.prems(5)
  let ?off = "length (c j)"
  show ?case
  proof (cases "p = []")
    case True
    have "m\<lparr>image := image m, freeblock := of_nat fb\<rparr> = m" using fr by (cases m) simp
    with True ok n show ?thesis
      by (intro exI [of _ "image m"] exI [of _ "D j"] exI [of _ fb])
        (auto simp: appended_def extended_def fun_upd_idem intro: exI [of _ "di_addrs (D j)"])
  next
    case False
    define n1 where "n1 = min (length p) (BSIZE - ?off mod BSIZE)"
    define p1 p2 where "p1 = take n1 p" and "p2 = drop n1 p"
    have lt: "?off < MAXFILE * BSIZE" using False mx by (cases p) auto
    have n1: "0 < n1" "?off mod BSIZE + n1 \<le> BSIZE" "n1 \<le> length p" using False by (auto simp: n1_def mk_nums)
    have p: "p1 @ p2 = p" "length p1 = n1" "length p2 + n1 = length p" using n1(3) by (simp_all add: p1_def p2_def)
    have bc: "bcount (?off + n1) = Suc (?off div BSIZE)" by (rule bcount_step [OF n1(1,2)])
    have "room (Suc (?off div BSIZE)) \<le> room (bcount (?off + length p))"
      unfolding bc [symmetric] by (intro room_mono bcount_mono) (use n1 in simp)
    with sp have sp1: "fb + room (Suc (?off div BSIZE)) \<le> FSSIZE + room (nb j)" by linarith
    obtain g di fb' where r: "iappend_block (?off div BSIZE) (D j) m =
        Ok (of_nat (block_of g di (?off div BSIZE)), di) (m\<lparr>image := g, freeblock := of_nat fb'\<rparr>)"
      and e: "extended m fb N D nb c j (Suc (?off div BSIZE)) (c j) g di fb'"
      by (rule iappend_block_run [OF ok fr n lt sp1])
    let ?m1 = "m\<lparr>image := g, freeblock := of_nat fb'\<rparr>" and ?D = "D(j := di)" and ?nb = "nb(j := Suc (?off div BSIZE))"
    let ?x = "block_of g di (?off div BSIZE)"
    let ?g = "write_at g (BSIZE * ?x) (splice (sector g ?x) (?off mod BSIZE) p1)"
    let ?m2 = "m\<lparr>image := ?g, freeblock := of_nat fb'\<rparr>" and ?c = "c(j := c j @ p1)"
    have a: "alloc_ok g fb' N ?D ?nb c" using e by (simp add: extended_def fun_upd_idem)
    have w: "alloc_ok ?g fb' N ?D ?nb ?c" "\<And>b. b < nmeta \<Longrightarrow> sector ?g b = sector g b"
      using alloc_append [OF a j, of p1 ?x] n1(2) p(2) by simp_all
    have x: "?x < FSSIZE" using alloc_block_range(2) [OF a j, of "?off div BSIZE"] alloc_D(3) [OF a j] by simp
    have rs: "rsect (of_nat ?x) ?m1 = Ok (sector g ?x) ?m1" using rsect_run [of ?m1 ?x] alloc_D(1) [OF a j] x by simp
    have ws: "wsect (of_nat ?x) d ?m1 = Ok () (m\<lparr>image := write_at g (BSIZE * ?x) d, freeblock := of_nat fb'\<rparr>)" for d
      using wsect_run [OF x, of d ?m1] by simp
    have tot: "length (?c j) + length p2 = ?off + length p" using p by simp
    have "\<exists>g2 di2 fb2. appended k ?m2 fb' N ?D ?nb ?c j p2 g2 di2 fb2"
    proof (rule Suc.IH)
      show "fb' + room (bcount (length (?c j) + length p2)) \<le> FSSIZE + room (?nb j)"
        unfolding tot using e sp by (simp add: extended_def)
      show "alloc_ok (image ?m2) fb' N ?D ?nb ?c" using w(1) by simp
      show "?nb j = bcount (length (?c j))" using bc p(2) by simp
      show "length (?c j) + length p2 \<le> MAXFILE * BSIZE" unfolding tot by (rule mx)
    qed (use n1(1) p(3) Suc.prems(6) in simp_all)
    then obtain g2 di2 fb2 where ap: "appended k ?m2 fb' N ?D ?nb ?c j p2 g2 di2 fb2" by blast
    note i = ap [unfolded appended_def tot, THEN conjunct1] and e2 = ap [unfolded appended_def tot, THEN conjunct2]
    have "iappend_loop (Suc k) p (of_nat ?off) (D j) m = iappend_loop k p2 (of_nat (?off + n1)) di ?m2"
      unfolding p2_def by (rule iappend_loop_step [OF False lt n1_def r rs]) (use ws in \<open>simp add: p1_def\<close>)
    also have "\<dots> = Ok (of_nat (?off + length p), di2) (m\<lparr>image := g2, freeblock := of_nat fb2\<rparr>)"
      using i p(2) by simp
    finally have run: "iappend_loop (Suc k) p (of_nat ?off) (D j) m =
      Ok (of_nat (?off + length p), di2) (m\<lparr>image := g2, freeblock := of_nat fb2\<rparr>)" .
    have e3: "extended ?m2 fb' N ?D ?nb ?c j (bcount (?off + length p)) (c j @ p) g2 di2 fb2"
      using e2 p(1) by simp
    have "extended m fb N D nb c j (bcount (?off + length p)) (c j @ p) g2 di2 fb2"
      by (rule extended_trans [where m' = ?m2 and g' = ?g and c' = ?c, OF e])
        (use w(2) e3 in simp_all)
    with run have "appended (Suc k) m fb N D nb c j p g2 di2 fb2" unfolding appended_def by simp
    then show ?thesis by blast
  qed
qed simp

section \<open>The table of inodes\<close>

definition dino :: "uchar list \<Rightarrow> nat \<Rightarrow> dinode" where
  "dino f i = decode_dinode (sector f (32 + i div 8)) (64 * (i mod 8))"

lemma mk_superblock_vals: "mk_superblock = \<lparr>sb_size = 1000, nblocks = 941, ninodes = 200, nlog = 30, logstart = 2, inodestart = 32, bmapstart = 58\<rparr>"
  by (simp add: mk_superblock_def mk_nums)

lemma iblock: "i < NINODES \<Longrightarrow> IBLOCK (of_nat i) mk_superblock = of_nat (32 + i div 8)"
proof -
  assume "i < NINODES"
  then have "unat (of_nat i div 8 :: uint) = i div 8" using unat_small [of i] by (simp add: unat_div mk_nums)
  then have "(of_nat i div 8 :: uint) = of_nat (i div 8)" by (metis of_nat_unat ucast_id)
  then show ?thesis by (simp add: IBLOCK_def mk_superblock_vals mk_nums)
qed

lemma length_encode_dinode: "length (di_addrs di) = NDIRECT + 1 \<Longrightarrow> length (encode_dinode di) = 64"
  by (simp add: encode_dinode_def mk_nums)

lemma get_splice_in:
  assumes "k + length xs \<le> length d"
  shows "j + 4 \<le> length xs \<Longrightarrow> get32l (splice d k xs) (k + j) = get32l xs j"
    "j + 2 \<le> length xs \<Longrightarrow> get16l (splice d k xs) (k + j) = get16l xs j"
  using assms by (simp_all add: splice_def)

lemma get_splice_out:
  assumes "k + length xs \<le> length d" and "j + n \<le> length d" and "j + n \<le> k \<or> k + length xs \<le> j"
  shows "n = 4 \<Longrightarrow> get32l (splice d k xs) j = get32l d j" "n = 2 \<Longrightarrow> get16l (splice d k xs) j = get16l d j"
  using assms by (auto simp: get32l_def get16l_def nth_splice)

lemma decode_encode_dinode:
  assumes "length (di_addrs di) = NDIRECT + 1" and "k + 64 \<le> length d"
  shows "decode_dinode (splice d k (encode_dinode di)) k = di"
proof -
  let ?e = "encode_dinode di"
  have l: "length ?e = 64" using length_encode_dinode [OF assms(1)] .
  note g = get_splice_in [of k ?e d, unfolded l, OF assms(2)]
  have a: "get32l (splice d k ?e) (k + 12 + 4 * i) = di_addrs di ! i" if "i < NDIRECT + 1" for i
    using g(1) [of "12 + 4 * i"] that assms(1) get32l_concat [of i "di_addrs di" "[]"]
    by (simp add: add.assoc mk_nums) (simp add: encode_dinode_def)
  have "map (\<lambda>i. get32l (splice d k ?e) (k + 12 + 4 * i)) [0..<NDIRECT + 1] = di_addrs di"
    by (rule nth_equalityI) (use assms a in \<open>simp_all del: upt_Suc\<close>)
  moreover have "get16l (splice d k ?e) k = di_type di" "get16l (splice d k ?e) (k + 2) = di_major di"
    "get16l (splice d k ?e) (k + 4) = di_minor di" "get16l (splice d k ?e) (k + 6) = di_nlink di" "get32l (splice d k ?e) (k + 8) = di_size di"
    using g(2) [of 0] g(2) [of 2] g(2) [of 4] g(2) [of 6] g(1) [of 8] by (simp_all add: encode_dinode_def)
  ultimately show ?thesis by (simp add: decode_dinode_def)
qed

lemma decode_dinode_other:
  assumes "length xs = 64" and "k + 64 \<le> length d" and "j + 64 \<le> length d" and "j + 64 \<le> k \<or> k + 64 \<le> j"
  shows "decode_dinode (splice d k xs) j = decode_dinode d j"
proof -
  have a: "get16l (splice d k xs) (j + q) = get16l d (j + q)" if "q + 2 \<le> 64" for q
    by (rule get_splice_out(2) [OF _ _ _ refl]) (use assms that in auto)
  have b: "get32l (splice d k xs) (j + q) = get32l d (j + q)" if "q + 4 \<le> 64" for q
    by (rule get_splice_out(1) [OF _ _ _ refl]) (use assms that in auto)
  have "get32l (splice d k xs) (j + 12 + 4 * i) = get32l d (j + 12 + 4 * i)" if "i < NDIRECT + 1" for i
    using b [of "12 + 4 * i"] that by (simp add: add.assoc mk_nums)
  then show ?thesis using a [of 0] a [of 2] a [of 4] a [of 6] b [of 8] by (simp add: decode_dinode_def del: upt_Suc)
qed

lemma rinode_run:
  assumes "mk_sb m = mk_superblock" and "length (image m) = FSSIZE * BSIZE" and "i < NINODES"
  shows "rinode (of_nat i) m = Ok (dino (image m) i) m"
proof -
  have "unat (of_nat i :: uint) = i" using assms(3) by (intro unat_small) (simp add: mk_nums)
  moreover have "32 + i div 8 < FSSIZE" using assms(3) by (simp add: mk_nums)
  ultimately show ?thesis
    using assms iblock [OF assms(3)] rsect_run [OF assms(2), of "32 + i div 8"] by (simp add: rinode_def dino_def kmonad mk_nums)
qed

lemma winode_run:
  assumes "mk_sb m = mk_superblock" and "length (image m) = FSSIZE * BSIZE" and "i < NINODES" and "length (di_addrs di) = NDIRECT + 1"
  obtains g where "winode (of_nat i) di m = Ok () (m\<lparr>image := g\<rparr>)" and "length g = FSSIZE * BSIZE" and "dino g i = di"
    and "\<And>k. k \<noteq> i \<Longrightarrow> k < NINODES \<Longrightarrow> dino g k = dino (image m) k" and "\<And>b. b < 32 \<or> 58 \<le> b \<Longrightarrow> sector g b = sector (image m) b"
proof -
  let ?b = "32 + i div 8" and ?f = "image m"
  let ?d = "splice (sector ?f ?b) (64 * (i mod 8)) (encode_dinode di)"
  let ?g = "write_at ?f (BSIZE * ?b) ?d"
  have u: "unat (of_nat i :: uint) = i" using assms(3) by (intro unat_small) (simp add: mk_nums)
  have b: "?b < FSSIZE" "?b < 58" using assms(3) by (simp_all add: mk_nums)
  have ls: "length (sector ?f q) = 512" if "q < FSSIZE" for q using length_sector [OF assms(2) that] by (simp add: mk_nums)
  have le: "length (encode_dinode di) = 64" by (rule length_encode_dinode [OF assms(4)])
  have k: "64 * (q mod 8) + 64 \<le> (512 :: nat)" for q using mod_less_divisor [of 8 q] by simp
  have ld: "length ?d = BSIZE" using ls [OF b(1)] le k [of i] by (simp add: mk_nums)
  have sg: "sector ?g q = (if q = ?b then ?d else sector ?f q)" for q by (rule sector_write_at [OF assms(2) b(1) ld])
  show thesis
  proof (rule that [of ?g])
    show "winode (of_nat i) di m = Ok () (m\<lparr>image := ?g\<rparr>)"
      using assms(1) iblock [OF assms(3)] rsect_run [OF assms(2) b(1)] wsect_run [OF b(1)] u
      by (simp add: winode_def kmonad mk_nums Let_def)
    show "length ?g = FSSIZE * BSIZE" using length_write_at [of "BSIZE * ?b" ?d ?f] assms(2) ld b by (simp add: mk_nums)
    show "dino ?g i = di" using sg decode_encode_dinode [OF assms(4), of "64 * (i mod 8)" "sector ?f ?b"] ls [OF b(1)] k [of i] by (simp add: dino_def)
    show "dino ?g q = dino ?f q" if "q \<noteq> i" "q < NINODES" for q
    proof (cases "q div 8 = i div 8")
      case True
      then have "q mod 8 \<noteq> i mod 8" using that(1) by (metis div_mult_mod_eq)
      then have "64 * (q mod 8) + 64 \<le> 64 * (i mod 8) \<or> 64 * (i mod 8) + 64 \<le> 64 * (q mod 8)" by linarith
      then show ?thesis using sg True decode_dinode_other [OF le, of "64 * (i mod 8)" "sector ?f ?b" "64 * (q mod 8)"] ls [OF b(1)] k
        by (simp add: dino_def)
    qed (simp add: dino_def sg)
    show "sector ?g q = sector ?f q" if "q < 32 \<or> 58 \<le> q" for q using sg b that by auto
  qed
qed

section \<open>The invariant of the image\<close>

definition used :: "nat \<Rightarrow> (nat \<Rightarrow> uchar list) \<Rightarrow> nat" where
  "used N c = nmeta + (\<Sum>i \<in> {1..N}. room (bcount (length (c i))))"

definition mk_ok :: "mkfs \<Rightarrow> nat \<Rightarrow> (nat \<Rightarrow> dinode) \<Rightarrow> (nat \<Rightarrow> uchar list) \<Rightarrow> bool" where
  "mk_ok m N D c \<longleftrightarrow> mk_sb m = mk_superblock \<and> freeinode m = of_nat (Suc N) \<and> freeblock m = of_nat (used N c) \<and> N < NINODES \<and>
     alloc_ok (image m) (used N c) N D (\<lambda>i. bcount (length (c i))) c \<and> decode_sb (sector (image m) 1) = mk_superblock \<and>
     (\<forall>i \<in> {1..N}. dino (image m) i = D i \<and> di_size (D i) = of_nat (length (c i)))"

lemma used_upd: "j \<in> {1..N} \<Longrightarrow> used N (c(j := v)) + room (bcount (length (c j))) = used N c + room (bcount (length v))"
proof -
  assume j: "j \<in> {1..N}"
  have "(\<Sum>i \<in> {1..N} - {j}. room (bcount (length ((c(j := v)) i)))) = (\<Sum>i \<in> {1..N} - {j}. room (bcount (length (c i))))"
    by (rule sum.cong) auto
  then show ?thesis using sum.remove [of "{1..N}" j "\<lambda>i. room (bcount (length ((c(j := v)) i)))"]
      sum.remove [of "{1..N}" j "\<lambda>i. room (bcount (length (c i)))"] j by (simp add: used_def)
qed

lemma used_Suc: "used (Suc N) c = used N c + room (bcount (length (c (Suc N))))"
  by (simp add: used_def)

lemma used_cong: "(\<And>i. i \<in> {1..N} \<Longrightarrow> c i = c' i) \<Longrightarrow> used N c = used N c'"
  by (simp add: used_def)

lemma alloc_frame:
  assumes ok: "alloc_ok f fb N D nb c" and "length g = FSSIZE * BSIZE" and s: "\<And>b. nmeta \<le> b \<Longrightarrow> sector g b = sector f b"
  shows "alloc_ok g fb N D nb c"
proof -
  have r: "\<forall>b \<in> set (blocks_of f (D i) (nb i)). sector g b = sector f b" if "i \<in> {1..N}" for i
    using alloc_D(6) [OF ok that] s by auto
  note bl = blocks_frame [OF r] and h = holds_frame [OF r]
  show ?thesis unfolding alloc_ok_def
  proof (intro conjI ballI impI allI)
    fix i assume i: "i \<in> {1..N}"
    show "holds g (D i) (nb i) (c i)" using h [OF i alloc_D(4) [OF ok i]] .
    show "distinct (blocks_of g (D i) (nb i))" "set (blocks_of g (D i) (nb i)) \<subseteq> {nmeta..<fb}"
      using bl [OF i] alloc_D(5,6) [OF ok i] by simp_all
    fix j assume "j \<in> {1..N}" "i \<noteq> j"
    with i ok show "set (blocks_of g (D i) (nb i)) \<inter> set (blocks_of g (D j) (nb j)) = {}"
      using bl unfolding alloc_ok_def by simp
  qed (use ok assms(2) s in \<open>auto simp: alloc_ok_def\<close>)
qed

lemma alloc_D_cong:
  assumes "alloc_ok f fb N D nb c" and "\<And>i. i \<in> {1..N} \<Longrightarrow> di_addrs (D' i) = di_addrs (D i)"
    and "\<And>i. i \<in> {1..N} \<Longrightarrow> nb' i = nb i" and "\<And>i. i \<in> {1..N} \<Longrightarrow> c' i = c i"
  shows "alloc_ok f fb N D' nb' c'"
proof -
  have b: "block_of f (D' i) n = block_of f (D i) n" if "i \<in> {1..N}" for i n using assms(2) [OF that] by (simp add: block_of_def)
  then have bl: "blocks_of f (D' i) n = blocks_of f (D i) n" if "i \<in> {1..N}" for i n
    using that assms(2) [OF that] by (simp add: blocks_of_def)
  have "holds f (D' i) (nb' i) (c' i) = holds f (D i) (nb i) (c i)" if "i \<in> {1..N}" for i
    using b [OF that] assms(2-4) [OF that] by (simp add: holds_def)
  with bl assms(1,3) show ?thesis unfolding alloc_ok_def by simp
qed

lemma iappend_ok:
  assumes ok: "mk_ok m N D c" and j: "j \<in> {1..N}" and len: "length (c j) + length p \<le> MAXFILE * BSIZE"
    and sp: "used N (c(j := c j @ p)) \<le> FSSIZE"
  obtains m' D' where "iappend (of_nat j) p m = Ok () m'" and "mk_ok m' N D' (c(j := c j @ p))"
    and "\<And>i. di_type (D' i) = di_type (D i) \<and> di_nlink (D' i) = di_nlink (D i)"
proof -
  let ?nb = "\<lambda>i. bcount (length (c i))" and ?c = "c(j := c j @ p)"
  have a: "alloc_ok (image m) (used N c) N D ?nb c" and fr: "freeblock m = of_nat (used N c)" and sb: "mk_sb m = mk_superblock"
    and fi: "freeinode m = of_nat (Suc N)" and N: "N < NINODES" and d1: "decode_sb (sector (image m) 1) = mk_superblock"
    and dj: "\<And>i. i \<in> {1..N} \<Longrightarrow> dino (image m) i = D i" "\<And>i. i \<in> {1..N} \<Longrightarrow> di_size (D i) = of_nat (length (c i))"
    using ok by (auto simp: mk_ok_def)
  have jn: "j < NINODES" using j N by simp
  have u: "used N ?c + room (?nb j) = used N c + room (bcount (length (c j) + length p))" using used_upd [OF j, of c "c j @ p"] by simp
  then have "used N c + room (bcount (length (c j) + length p)) \<le> FSSIZE + room (?nb j)" using sp by linarith
  then obtain g di fb' where ap: "appended (Suc (length p)) m (used N c) N D ?nb c j p g di fb'"
    using iappend_loop_run [OF a j fr refl len] by blast
  let ?m = "m\<lparr>image := g, freeblock := of_nat fb'\<rparr>"
  have run: "iappend_loop (Suc (length p)) p (di_size (D j)) (D j) m = Ok (of_nat (length (c j) + length p), di) ?m"
    and e: "extended m (used N c) N D ?nb c j (bcount (length (c j) + length p)) (c j @ p) g di fb'"
    using ap dj(2) [OF j] by (simp_all add: appended_def)
  have fb': "fb' = used N ?c" using e u by (simp add: extended_def)
  have ga: "alloc_ok g (used N ?c) N (D(j := di)) (?nb(j := bcount (length (c j) + length p))) ?c"
    and meta: "\<And>b. b < nmeta \<Longrightarrow> sector g b = sector (image m) b" using e fb' by (simp_all add: extended_def)
  obtain as where as: "di = (D j)\<lparr>di_addrs := as\<rparr>" using e by (auto simp: extended_def)
  let ?di = "di\<lparr>di_size := of_nat (length (c j) + length p)\<rparr>"
  have la: "length (di_addrs ?di) = NDIRECT + 1" using alloc_D(4) [OF ga j] by (simp add: holds_def)
  obtain h where w: "winode (of_nat j) ?di ?m = Ok () (?m\<lparr>image := h\<rparr>)" and lh: "length h = FSSIZE * BSIZE" and hj: "dino h j = ?di"
    and hk: "\<And>k. k \<noteq> j \<Longrightarrow> k < NINODES \<Longrightarrow> dino h k = dino g k" and hs: "\<And>b. b < 32 \<or> 58 \<le> b \<Longrightarrow> sector h b = sector g b"
    using winode_run [of ?m j ?di] sb alloc_D(1) [OF ga j] jn la by auto
  have dg: "dino g k = dino (image m) k" if "k < NINODES" for k using meta [of "32 + k div 8"] that by (simp add: dino_def mk_nums)
  have ha: "alloc_ok h (used N ?c) N (D(j := ?di)) (\<lambda>i. bcount (length (?c i))) ?c"
    by (rule alloc_D_cong [OF alloc_frame [OF ga lh]]) (use hs in \<open>auto simp: mk_nums\<close>)
  show thesis
  proof (rule that [of "?m\<lparr>image := h\<rparr>" "D(j := ?di)"])
    show "iappend (of_nat j) p m = Ok () (?m\<lparr>image := h\<rparr>)"
      using rinode_run [OF sb alloc_D(1) [OF a j] jn] dj(1) [OF j] run w by (simp add: iappend_def kmonad)
    show "mk_ok (?m\<lparr>image := h\<rparr>) N (D(j := ?di)) ?c"
      using ha sb fi N fb' d1 hs [of 1] meta [of 1] hj hk dg dj by (auto simp: mk_ok_def mk_nums)
  qed (use as in auto)
qed

end
