(* ===== verification/Mkfs_Files.thy ===== *)
theory Mkfs_Files
  imports Mkfs_Image
begin

text \<open>
  The whole run of mkfs.c: the root directory, the files and the bitmap. \<open>mk_fits\<close> says that the files fit on the disk;
  then the program ends with success, the image read back with the decoders of the kernel has exactly the given
  files, and no block belongs to two of them.
\<close>

section \<open>The contents that are written\<close>

definition host_bytes :: "host_file \<Rightarrow> uchar list" where
  "host_bytes f = concat (takeWhile (\<lambda>c. c \<noteq> []) (case snd f of None \<Rightarrow> [] | Some reads \<Rightarrow> reads))"

primrec dirents :: "nat \<Rightarrow> host_file list \<Rightarrow> uchar list" where
  "dirents N [] = []"
| "dirents N (f # fs) = encode_dirent (of_nat (Suc N)) (mk_name (fst f)) @ dirents (Suc N) fs"

definition root_entries :: "host_file list \<Rightarrow> uchar list" where
  "root_entries fs = encode_dirent 1 (ascii ''.'') @ encode_dirent 1 (ascii ''..'') @ dirents 1 fs"

definition mk_fits :: "host_file list \<Rightarrow> bool" where
  "mk_fits fs \<longleftrightarrow> Suc (length fs) < NINODES \<and>
     (\<forall>f \<in> set fs. slash \<notin> set (fst f) \<and> snd f \<noteq> None \<and> length (host_bytes f) \<le> MAXFILE * BSIZE) \<and>
     nmeta + room (bcount (16 * (length fs + 2))) + sum_list (map (\<lambda>f. room (bcount (length (host_bytes f)))) fs) \<le> FSSIZE"

definition add_file :: "nat \<Rightarrow> (nat \<Rightarrow> uchar list) \<Rightarrow> host_file \<Rightarrow> (nat \<Rightarrow> uchar list)" where
  "add_file N c f = c(1 := c 1 @ encode_dirent (of_nat (Suc N)) (mk_name (fst f)), Suc N := host_bytes f)"

primrec add_files :: "nat \<Rightarrow> (nat \<Rightarrow> uchar list) \<Rightarrow> host_file list \<Rightarrow> (nat \<Rightarrow> uchar list)" where
  "add_files N c [] = c"
| "add_files N c (f # fs) = add_files (Suc N) (add_file N c f) fs"

lemma length_encode_dirent [simp]: "length (encode_dirent i n) = 16"
  by (simp add: encode_dirent_def DIRSIZ_def)

lemma length_dirents [simp]: "length (dirents N fs) = 16 * length fs"
  by (induction fs arbitrary: N) simp_all

lemma add_files_eq:
  "1 \<le> N \<Longrightarrow> add_files N c fs i =
    (if i = 1 then c 1 @ dirents N fs else if N < i \<and> i \<le> N + length fs then host_bytes (fs ! (i - Suc N)) else c i)"
proof (induction fs arbitrary: N c)
  case (Cons f fs)
  show ?case
  proof (cases "i = Suc N")
    case False
    then have "i - Suc N = Suc (i - Suc (Suc N))" if "N < i" using that by simp
    with Cons False show ?thesis by (auto simp: add_file_def)
  qed (use Cons in \<open>simp add: add_file_def\<close>)
qed simp

lemma used_mono:
  assumes "N \<le> N'" and "\<And>i. i \<in> {1..N} \<Longrightarrow> length (c i) \<le> length (c' i)"
  shows "used N c \<le> used N' c'"
proof -
  have "(\<Sum>i \<in> {1..N}. room (bcount (length (c i)))) \<le> (\<Sum>i \<in> {1..N}. room (bcount (length (c' i))))"
    by (intro sum_mono room_mono bcount_mono) (use assms(2) in simp)
  also have "\<dots> \<le> (\<Sum>i \<in> {1..N'}. room (bcount (length (c' i))))" by (rule sum_mono2) (use assms(1) in auto)
  finally show ?thesis by (simp add: used_def)
qed

lemma used_add_file:
  "1 \<le> N \<Longrightarrow> used (Suc N) (add_file N c f) + room (bcount (length (c 1))) =
    used N c + room (bcount (length (c 1) + 16)) + room (bcount (length (host_bytes f)))"
proof -
  assume N: "1 \<le> N"
  let ?v = "c 1 @ encode_dirent (of_nat (Suc N)) (mk_name (fst f))"
  have "used (Suc N) (add_file N c f) = used N (c(1 := ?v)) + room (bcount (length (host_bytes f)))"
    using N used_cong [of N "add_file N c f" "c(1 := ?v)"] by (auto simp: used_Suc add_file_def)
  then show ?thesis using used_upd [of 1 N c ?v] N by simp
qed

lemma used_add_files:
  "1 \<le> N \<Longrightarrow> used (N + length fs) (add_files N c fs) + room (bcount (length (c 1))) =
    used N c + room (bcount (length (c 1) + 16 * length fs)) + sum_list (map (\<lambda>f. room (bcount (length (host_bytes f)))) fs)"
proof (induction fs arbitrary: N c)
  case (Cons f fs)
  have "length (add_file N c f 1) = length (c 1) + 16" using Cons.prems by (simp add: add_file_def)
  then show ?case using Cons.IH [of "Suc N" "add_file N c f"] used_add_file [OF Cons.prems, of c f] Cons.prems by (simp add: algebra_simps)
qed simp

section \<open>Creating the files\<close>

lemma alloc_new:
  assumes ok: "alloc_ok f fb N D nb c" and di: "di_addrs di = replicate (NDIRECT + 1) 0"
  shows "alloc_ok f fb (Suc N) (D(Suc N := di)) (nb(Suc N := 0)) (c(Suc N := []))"
proof -
  have h: "holds f di 0 []" using di by (simp add: holds_def mk_nums nth_Cons')
  have b: "blocks_of f di 0 = []" by (simp add: blocks_of_def)
  show ?thesis unfolding alloc_ok_def
  proof (intro conjI ballI impI allI)
    fix i assume i: "i \<in> {1..Suc N}"
    show "holds f ((D(Suc N := di)) i) ((nb(Suc N := 0)) i) ((c(Suc N := [])) i)"
      "distinct (blocks_of f ((D(Suc N := di)) i) ((nb(Suc N := 0)) i))"
      "set (blocks_of f ((D(Suc N := di)) i) ((nb(Suc N := 0)) i)) \<subseteq> {nmeta..<fb}"
      using i h b alloc_D [OF ok, of i] by (cases "i = Suc N"; simp)+
    fix j assume "j \<in> {1..Suc N}" "i \<noteq> j"
    then show "set (blocks_of f ((D(Suc N := di)) i) ((nb(Suc N := 0)) i)) \<inter>
        set (blocks_of f ((D(Suc N := di)) j) ((nb(Suc N := 0)) j)) = {}"
      using i ok b by (cases "i = Suc N"; cases "j = Suc N") (auto simp: alloc_ok_def)
  qed (use ok in \<open>auto simp: alloc_ok_def\<close>)
qed

lemma bcount_0 [simp]: "bcount 0 = 0" "room 0 = 0"
  by (simp_all add: bcount_def room_def mk_nums)

lemma ialloc_ok:
  assumes ok: "mk_ok m N D c" and N: "Suc N < NINODES"
  obtains m' di where "mk_ialloc ty m = Ok (of_nat (Suc N)) m'" and "mk_ok m' (Suc N) (D(Suc N := di)) (c(Suc N := []))"
    and "di_type di = ty" and "di_nlink di = 1"
proof -
  let ?di = "\<lparr>di_type = ty, di_major = 0, di_minor = 0, di_nlink = 1, di_size = 0, di_addrs = replicate (NDIRECT + 1) 0\<rparr> :: dinode"
  let ?m = "m\<lparr>freeinode := of_nat (Suc N) + 1\<rparr>"
  have a: "alloc_ok (image m) (used N c) N D (\<lambda>i. bcount (length (c i))) c" and sb: "mk_sb m = mk_superblock"
    and fi: "freeinode m = of_nat (Suc N)" and fb: "freeblock m = of_nat (used N c)"
    and d1: "decode_sb (sector (image m) 1) = mk_superblock"
    and dj: "\<And>i. i \<in> {1..N} \<Longrightarrow> dino (image m) i = D i \<and> di_size (D i) = of_nat (length (c i))"
    using ok by (auto simp: mk_ok_def)
  obtain g where w: "winode (of_nat (Suc N)) ?di ?m = Ok () (?m\<lparr>image := g\<rparr>)" and lg: "length g = FSSIZE * BSIZE" and gn: "dino g (Suc N) = ?di"
    and gk: "\<And>k. k \<noteq> Suc N \<Longrightarrow> k < NINODES \<Longrightarrow> dino g k = dino (image m) k"
    and gs: "\<And>b. b < 32 \<or> 58 \<le> b \<Longrightarrow> sector g b = sector (image m) b"
    using winode_run [of ?m "Suc N" ?di] sb a N by (auto simp: alloc_ok_def)
  have u: "used (Suc N) (c(Suc N := [])) = used N c" using used_cong [of N "c(Suc N := [])" c] by (simp add: used_Suc)
  have "alloc_ok g (used N c) (Suc N) (D(Suc N := ?di)) ((\<lambda>i. bcount (length (c i)))(Suc N := 0)) (c(Suc N := []))"
    by (rule alloc_new [OF alloc_frame [OF a lg]]) (use gs in \<open>simp_all add: mk_nums\<close>)
  then have ga: "alloc_ok g (used N c) (Suc N) (D(Suc N := ?di)) (\<lambda>i. bcount (length ((c(Suc N := [])) i))) (c(Suc N := []))"
    by (rule alloc_D_cong) auto
  show thesis
  proof (rule that [of "?m\<lparr>image := g\<rparr>" ?di])
    show "mk_ialloc ty m = Ok (of_nat (Suc N)) (?m\<lparr>image := g\<rparr>)" using w fi by (simp add: mk_ialloc_def kmonad)
    show "mk_ok (?m\<lparr>image := g\<rparr>) (Suc N) (D(Suc N := ?di)) (c(Suc N := []))"
      using ga sb fb N d1 dj gs [of 1] gn gk u unfolding mk_ok_def by (auto simp: le_Suc_eq)
  qed simp_all
qed

lemma iappends_ok:
  assumes "mk_ok m N D c" and j: "j \<in> {1..N}" and "length (c j) + length (concat cs) \<le> MAXFILE * BSIZE"
    and "used N (c(j := c j @ concat cs)) \<le> FSSIZE"
  shows "\<exists>m' D'. kfor cs (iappend (of_nat j)) m = Ok () m' \<and> mk_ok m' N D' (c(j := c j @ concat cs)) \<and>
    (\<forall>i. di_type (D' i) = di_type (D i) \<and> di_nlink (D' i) = di_nlink (D i))"
  using assms(1,3,4)
proof (induction cs arbitrary: m D c)
  case (Cons x cs)
  have "used N (c(j := c j @ x)) \<le> used N (c(j := c j @ concat (x # cs)))" by (rule used_mono) auto
  then have sp: "used N (c(j := c j @ x)) \<le> FSSIZE" using Cons.prems(3) by linarith
  obtain m1 D1 where r: "iappend (of_nat j) x m = Ok () m1" and o: "mk_ok m1 N D1 (c(j := c j @ x))"
    and ty: "\<And>i. di_type (D1 i) = di_type (D i) \<and> di_nlink (D1 i) = di_nlink (D i)"
    by (rule iappend_ok [OF Cons.prems(1) j _ sp]) (use Cons.prems(2) in auto)
  have e: "(c(j := c j @ x))(j := (c(j := c j @ x)) j @ concat cs) = c(j := c j @ concat (x # cs))" by simp
  show ?case using Cons.IH [OF o, unfolded e] Cons.prems(2,3) ty by (simp add: kthen_Ok [of "iappend (of_nat j) x", OF r])
qed (use assms in auto)

lemma mk_file_ok:
  assumes ok: "mk_ok m N D c" and N: "1 \<le> N" "Suc N < NINODES" and f: "slash \<notin> set (fst f)" "snd f = Some reads"
    and len: "length (host_bytes f) \<le> MAXFILE * BSIZE" "length (c 1) + 16 \<le> MAXFILE * BSIZE"
    and sp: "used (Suc N) (add_file N c f) \<le> FSSIZE"
  shows "\<exists>m' D'. mk_file f m = Ok () m' \<and> mk_ok m' (Suc N) D' (add_file N c f) \<and>
    (\<forall>i \<in> {1..N}. di_type (D' i) = di_type (D i) \<and> di_nlink (D' i) = di_nlink (D i)) \<and>
    di_type (D' (Suc N)) = T_FILE \<and> di_nlink (D' (Suc N)) = 1"
proof -
  let ?e = "encode_dirent (of_nat (Suc N)) (mk_name (fst f))" and ?cs = "takeWhile (\<lambda>c. c \<noteq> []) reads"
  have hb: "host_bytes f = concat ?cs" using f by (simp add: host_bytes_def)
  obtain m1 di where i: "mk_ialloc T_FILE m = Ok (of_nat (Suc N)) m1" and o1: "mk_ok m1 (Suc N) (D(Suc N := di)) (c(Suc N := []))"
    and ty: "di_type di = T_FILE" "di_nlink di = 1" by (rule ialloc_ok [OF ok N(2)])
  let ?c1 = "c(Suc N := [])"
  let ?c2 = "?c1(1 := ?c1 1 @ ?e)"
  have c3: "?c2(Suc N := ?c2 (Suc N) @ concat ?cs) = add_file N c f" using N(1) hb by (auto simp: add_file_def fun_eq_iff)
  have "used (Suc N) ?c2 \<le> used (Suc N) (add_file N c f)" unfolding c3 [symmetric] by (rule used_mono) auto
  with sp have sp2: "used (Suc N) ?c2 \<le> FSSIZE" by linarith
  obtain m2 D2 where a: "iappend (of_nat 1) ?e m1 = Ok () m2" and o2: "mk_ok m2 (Suc N) D2 ?c2"
    and ty2: "\<And>i. di_type (D2 i) = di_type ((D(Suc N := di)) i) \<and> di_nlink (D2 i) = di_nlink ((D(Suc N := di)) i)"
    by (rule iappend_ok [OF o1 _ _ sp2]) (use N(1) len(2) in auto)
  have "\<exists>m' D'. kfor ?cs (iappend (of_nat (Suc N))) m2 = Ok () m' \<and> mk_ok m' (Suc N) D' (add_file N c f) \<and>
      (\<forall>i. di_type (D' i) = di_type (D2 i) \<and> di_nlink (D' i) = di_nlink (D2 i))"
    unfolding c3 [symmetric] by (rule iappends_ok [OF o2]) (use N(1) len(1) hb sp c3 in auto)
  then obtain m3 D3 where k: "kfor ?cs (iappend (of_nat (Suc N))) m2 = Ok () m3" and o3: "mk_ok m3 (Suc N) D3 (add_file N c f)"
    and ty3: "\<And>i. di_type (D3 i) = di_type (D2 i) \<and> di_nlink (D3 i) = di_nlink (D2 i)" by blast
  have "mk_file f m = kbind (mk_ialloc T_FILE) (\<lambda>inum. kthen (iappend ROOTINO (encode_dirent inum (mk_name (fst f)))) (kfor ?cs (iappend inum))) m"
    using f by (simp add: mk_file_def)
  also have "\<dots> = kthen (iappend ROOTINO ?e) (kfor ?cs (iappend (of_nat (Suc N)))) m1" by (rule kbind_Ok [of "mk_ialloc T_FILE", OF i])
  also have "\<dots> = Ok () m3" using a k by (subst kthen_Ok) (auto simp: ROOTINO_def)
  finally show ?thesis using o3 ty ty2 ty3 by auto
qed

lemma files_ok:
  assumes "mk_ok m N D c" and "1 \<le> N" and "N + length fs < NINODES"
    and "\<forall>f \<in> set fs. slash \<notin> set (fst f) \<and> snd f \<noteq> None \<and> length (host_bytes f) \<le> MAXFILE * BSIZE"
    and "length (c 1) + 16 * length fs \<le> MAXFILE * BSIZE" and "used (N + length fs) (add_files N c fs) \<le> FSSIZE"
  shows "\<exists>m' D'. kfor fs mk_file m = Ok () m' \<and> mk_ok m' (N + length fs) D' (add_files N c fs) \<and>
    (\<forall>i \<in> {1..N}. di_type (D' i) = di_type (D i) \<and> di_nlink (D' i) = di_nlink (D i)) \<and>
    (\<forall>i \<in> {Suc N..N + length fs}. di_type (D' i) = T_FILE \<and> di_nlink (D' i) = 1)"
  using assms
proof (induction fs arbitrary: m N D c)
  case (Cons f fs)
  have N: "1 \<le> N" "Suc N < NINODES" using Cons.prems(2,3) by simp_all
  obtain reads where f: "slash \<notin> set (fst f)" "snd f = Some reads" "length (host_bytes f) \<le> MAXFILE * BSIZE" using Cons.prems(4) by auto
  have "used (Suc N) (add_file N c f) \<le> used (N + length (f # fs)) (add_files N c (f # fs))"
    by (rule used_mono) (auto simp: add_files_eq)
  then have sp: "used (Suc N) (add_file N c f) \<le> FSSIZE" using Cons.prems(6) by linarith
  obtain m1 D1 where r: "mk_file f m = Ok () m1" and o: "mk_ok m1 (Suc N) D1 (add_file N c f)"
    and ty: "\<forall>i \<in> {1..N}. di_type (D1 i) = di_type (D i) \<and> di_nlink (D1 i) = di_nlink (D i)" "di_type (D1 (Suc N)) = T_FILE" "di_nlink (D1 (Suc N)) = 1"
    using mk_file_ok [OF Cons.prems(1) N f(1,2,3) _ sp] Cons.prems(5) by auto
  have l1: "length (add_file N c f 1) = length (c 1) + 16" using N by (simp add: add_file_def)
  have "\<exists>m' D'. kfor fs mk_file m1 = Ok () m' \<and> mk_ok m' (Suc N + length fs) D' (add_files (Suc N) (add_file N c f) fs) \<and>
      (\<forall>i \<in> {1..Suc N}. di_type (D' i) = di_type (D1 i) \<and> di_nlink (D' i) = di_nlink (D1 i)) \<and>
      (\<forall>i \<in> {Suc (Suc N)..Suc N + length fs}. di_type (D' i) = T_FILE \<and> di_nlink (D' i) = 1)"
    by (rule Cons.IH [OF o]) (use Cons.prems(3-6) l1 in auto)
  then obtain m2 D2 where k: "kfor fs mk_file m1 = Ok () m2" "mk_ok m2 (Suc N + length fs) D2 (add_files (Suc N) (add_file N c f) fs)"
    and ty2: "\<forall>i \<in> {1..Suc N}. di_type (D2 i) = di_type (D1 i) \<and> di_nlink (D2 i) = di_nlink (D1 i)"
      "\<forall>i \<in> {Suc (Suc N)..Suc N + length fs}. di_type (D2 i) = T_FILE \<and> di_nlink (D2 i) = 1" by blast
  have "di_type (D2 i) = T_FILE \<and> di_nlink (D2 i) = 1" if "i \<in> {Suc N..N + length (f # fs)}" for i
    using that ty ty2 by (cases "i = Suc N") auto
  with k ty ty2(1) show ?case by (intro exI [of _ m2] exI [of _ D2]) (auto simp: kthen_Ok [of "mk_file f", OF r])
qed auto

section \<open>The first and the last steps\<close>

lemma zero_sectors:
  "n \<le> FSSIZE \<Longrightarrow> image m = [] \<Longrightarrow>
    kfor [0..<n] (\<lambda>i. wsect (of_nat i) (replicate BSIZE 0)) m = Ok () (m\<lparr>image := replicate (BSIZE * n) 0\<rparr>)"
proof (induction n)
  case 0
  then show ?case by (cases m) simp
next
  case (Suc n)
  have "write_at (replicate (BSIZE * n) 0) (BSIZE * n) (replicate BSIZE 0) = replicate (BSIZE * Suc n) 0"
    by (simp add: write_at_def splice_def replicate_add [symmetric] add.commute)
  then show ?case using Suc wsect_run [of n "replicate BSIZE 0"] by (simp add: kfor_append kmonad)
qed

lemma decode_encode_sb: "decode_sb (encode_sb s @ r) = s"
  by (simp add: decode_sb_def encode_sb_def)

definition mk_initial :: "superblock \<Rightarrow> mkfs" where
  "mk_initial s = (mkfs_start s)\<lparr>mk_sb := mk_superblock, freeblock := of_nat nmeta,
     image := write_at (replicate (BSIZE * FSSIZE) 0) BSIZE (splice (replicate BSIZE 0) 0 (encode_sb mk_superblock))\<rparr>"

lemma mk_initial_ok: "mk_ok (mk_initial s) 0 D c"
proof -
  let ?z = "replicate (BSIZE * FSSIZE) (0 :: uchar)" and ?d = "splice (replicate BSIZE 0) 0 (encode_sb mk_superblock)"
  have ls: "length (encode_sb mk_superblock) = 28" by (simp add: encode_sb_def)
  have ld: "length ?d = BSIZE" using ls by (simp add: mk_nums)
  have lz: "length ?z = FSSIZE * BSIZE" by simp
  have s: "sector (write_at ?z BSIZE ?d) b = (if b = 1 then ?d else sector ?z b)" for b
    using sector_write_at [OF lz, of 1 ?d b] ld by (simp add: mk_nums)
  have z: "sector ?z b = replicate BSIZE 0" if "b < FSSIZE" for b using that by (simp add: sector_def mk_nums)
  have "decode_sb ?d = mk_superblock" by (simp add: splice_def decode_encode_sb)
  moreover have "length (write_at ?z BSIZE ?d) = FSSIZE * BSIZE" using length_write_at [of BSIZE ?d ?z] ld by (simp add: mk_nums)
  ultimately show ?thesis using s z
    by (simp add: mk_ok_def mk_initial_def mkfs_start_def used_def alloc_ok_def) (simp add: mk_nums)
qed

lemma bit_clear_iff: "bit_clear d b \<longleftrightarrow> \<not> bit (d ! (b div 8)) (b mod 8)"
  by (simp add: bit_clear_def bit_mask_def push_bit_eq_mult and_exp_eq_0_iff_not_bit)

lemma bitmap_bits:
  "n \<le> 4096 \<Longrightarrow> b < 4096 \<Longrightarrow>
    length (foldl (\<lambda>buf i. buf[i div 8 := buf ! (i div 8) OR bit_mask i]) (replicate 512 0) [0..<n]) = 512 \<and>
    (bit_clear (foldl (\<lambda>buf i. buf[i div 8 := buf ! (i div 8) OR bit_mask i]) (replicate 512 0) [0..<n]) b \<longleftrightarrow> n \<le> b)"
proof (induction n)
  case 0
  then show ?case by (simp add: bit_clear_iff)
next
  case (Suc n)
  let ?d = "foldl (\<lambda>buf i. buf[i div 8 := buf ! (i div 8) OR bit_mask i]) (replicate 512 0) [0..<n]"
  have l: "length ?d = 512" and i: "bit (?d ! (b div 8)) (b mod 8) \<longleftrightarrow> b < n" using Suc by (auto simp: bit_clear_iff)
  have "b = n \<longleftrightarrow> b div 8 = n div 8 \<and> b mod 8 = n mod 8" by (metis div_mult_mod_eq)
  moreover have "n mod 8 < 8" by simp
  ultimately have "bit (?d[n div 8 := ?d ! (n div 8) OR bit_mask n] ! (b div 8)) (b mod 8) \<longleftrightarrow> b < n \<or> b = n"
    using l i Suc.prems by (cases "b div 8 = n div 8") (auto simp: bit_mask_def bit_simps)
  then show ?case using l by (auto simp: bit_clear_iff)
qed

section \<open>Reading the files back\<close>

lemma inode_of_dino: "decode_sb (sector f 1) = mk_superblock \<Longrightarrow> i < NINODES \<Longrightarrow> inode_of f i = dino f i"
proof -
  assume "decode_sb (sector f 1) = mk_superblock" and i: "i < NINODES"
  moreover have "unat (of_nat (32 + i div 8) :: uint) = 32 + i div 8" using i by (intro unat_small) (simp add: mk_nums)
  ultimately show ?thesis using iblock [OF i] unfolding inode_of_def dino_def by (simp add: mk_nums)
qed

lemma holds_bytes:
  assumes "holds f di nb c" and "unat (di_size di) = n" and "length c \<le> n"
  shows "take (length c) (file_bytes f di) = c"
  by (rule nth_equalityI) (use assms in \<open>auto simp: file_bytes_def holds_def\<close>)

lemma holds_size:
  assumes "holds f di nb c"
  shows "unat (of_nat (length c) :: uint) = length c" "length c \<le> MAXFILE * BSIZE"
proof -
  have l: "length c \<le> nb * BSIZE" "nb \<le> MAXFILE" using assms by (simp_all add: holds_def)
  then show m: "length c \<le> MAXFILE * BSIZE" using mult_le_mono1 order_trans by blast
  then show "unat (of_nat (length c) :: uint) = length c" by (intro unat_small) (simp add: mk_nums)
qed

lemma round_up: "n \<le> MAXFILE * BSIZE \<Longrightarrow> n \<le> unat ((of_nat n div of_nat BSIZE + 1) * of_nat BSIZE :: uint)"
proof -
  assume n: "n \<le> MAXFILE * BSIZE"
  have le: "n \<le> (n div BSIZE + 1) * BSIZE" using close_le [of n 0 "n div BSIZE + 1"] by (simp add: mk_nums)
  have "(n div BSIZE + 1) * BSIZE \<le> n + BSIZE" by simp
  then have "unat (of_nat ((n div BSIZE + 1) * BSIZE) :: uint) = (n div BSIZE + 1) * BSIZE"
    using n by (intro unat_small) (simp add: mk_nums)
  moreover have "(of_nat n div of_nat BSIZE + 1) * of_nat BSIZE = (of_nat ((n div BSIZE + 1) * BSIZE) :: uint)"
    using word_div_bsize [of n] n by (simp add: mk_nums algebra_simps)
  ultimately show ?thesis using le by (simp only:)
qed

text \<open>The size of the root directory is rounded up, and the bitmap is written.\<close>

lemma finish_ok:
  assumes ok: "mk_ok m N D c" and N: "1 \<le> N"
  obtains m' D' where
    "kbind (rinode 1) (\<lambda>din. let off = (xint (di_size din) div of_nat BSIZE + 1) * of_nat BSIZE in
       kthen (winode 1 (din\<lparr>di_size := xint off\<rparr>)) (kbind (kgets freeblock) (\<lambda>used. mk_balloc (sint used)))) m = Ok () m'"
    "mk_sb m' = mk_superblock" "decode_sb (sector (image m') 1) = mk_superblock"
    "alloc_ok (image m') (used N c) N D' (\<lambda>i. bcount (length (c i))) c" "\<And>i. i \<in> {1..N} \<Longrightarrow> inode_of (image m') i = D' i"
    "\<And>i. i \<noteq> 1 \<Longrightarrow> D' i = D i" "di_type (D' 1) = di_type (D 1)" "length (c 1) \<le> unat (di_size (D' 1))"
    "\<And>b. b < FSSIZE \<Longrightarrow> bit_clear (sector (image m') 58) b \<longleftrightarrow> used N c \<le> b"
proof -
  have a: "alloc_ok (image m) (used N c) N D (\<lambda>i. bcount (length (c i))) c" and sb: "mk_sb m = mk_superblock" and NN: "N < NINODES"
    and fb: "freeblock m = of_nat (used N c)" and d1: "decode_sb (sector (image m) 1) = mk_superblock"
    and dj: "\<And>i. i \<in> {1..N} \<Longrightarrow> dino (image m) i = D i \<and> di_size (D i) = of_nat (length (c i))"
    using ok by (auto simp: mk_ok_def)
  have r1: "1 \<in> {1..N}" using N by simp
  note h = alloc_D(4) [OF a r1] and lf = alloc_D(1) [OF a r1]
  let ?off = "(of_nat (length (c 1)) div of_nat BSIZE + 1) * of_nat BSIZE :: uint"
  let ?di = "(D 1)\<lparr>di_size := ?off\<rparr>"
  obtain g where w: "winode (of_nat 1) ?di m = Ok () (m\<lparr>image := g\<rparr>)" and lg: "length g = FSSIZE * BSIZE" and g1: "dino g 1 = ?di"
    and gk: "\<And>k. k \<noteq> 1 \<Longrightarrow> k < NINODES \<Longrightarrow> dino g k = dino (image m) k"
    and gs: "\<And>b. b < 32 \<or> 58 \<le> b \<Longrightarrow> sector g b = sector (image m) b"
    by (rule winode_run [OF sb lf, of 1 ?di]) (use h in \<open>simp_all add: holds_def mk_nums\<close>)
  let ?bm = "foldl (\<lambda>buf i. buf[i div 8 := buf ! (i div 8) OR bit_mask i]) (replicate 512 0) [0..<used N c] :: uchar list"
  let ?h = "write_at g (BSIZE * 58) ?bm"
  have us: "used N c \<le> 1000" using alloc_D(3) [OF a r1] by (simp add: mk_nums)
  have bm: "length ?bm = 512" "\<And>b. b < 4096 \<Longrightarrow> bit_clear ?bm b \<longleftrightarrow> used N c \<le> b" using bitmap_bits [of "used N c" 0] bitmap_bits [of "used N c"] us by auto
  have hs: "sector ?h b = (if b = 58 then ?bm else sector g b)" for b
    by (rule sector_write_at [OF lg]) (use bm in \<open>simp_all add: mk_nums\<close>)
  have lh: "length ?h = FSSIZE * BSIZE" using length_write_at [of "BSIZE * 58" ?bm g] lg bm by (simp add: mk_nums)
  have ss: "sint (of_nat (used N c) :: uint) = int (used N c)" using us by (simp add: signed_of_nat signed_take_bit_int_eq_self)
  have dh: "dino ?h k = dino g k" if "k < NINODES" for k using hs that by (simp add: dino_def mk_nums)
  show thesis
  proof (rule that [of "m\<lparr>image := ?h\<rparr>" "D(1 := ?di)"])
    have "rinode 1 m = Ok (D 1) m" using rinode_run [OF sb lf, of 1] dj [OF r1] by (simp add: mk_nums)
    moreover have "mk_balloc (int (used N c)) (m\<lparr>image := g\<rparr>) = Ok () (m\<lparr>image := ?h\<rparr>)"
      using us sb wsect_run [of 58 ?bm "m\<lparr>image := g\<rparr>"] by (simp add: mk_balloc_def mk_nums mk_superblock_vals)
    ultimately show "kbind (rinode 1) (\<lambda>din. let off = (xint (di_size din) div of_nat BSIZE + 1) * of_nat BSIZE in
       kthen (winode 1 (din\<lparr>di_size := xint off\<rparr>)) (kbind (kgets freeblock) (\<lambda>used. mk_balloc (sint used)))) m = Ok () (m\<lparr>image := ?h\<rparr>)"
      using w fb ss dj [OF r1] by (simp add: kmonad Let_def)
    show "decode_sb (sector (image (m\<lparr>image := ?h\<rparr>)) 1) = mk_superblock" using hs gs [of 1] d1 by simp
    then show "inode_of (image (m\<lparr>image := ?h\<rparr>)) i = (D(1 := ?di)) i" if "i \<in> {1..N}" for i
      using inode_of_dino [of ?h i] dh gk g1 dj [OF that] that NN by (cases "i = 1") auto
    show "alloc_ok (image (m\<lparr>image := ?h\<rparr>)) (used N c) N (D(1 := ?di)) (\<lambda>i. bcount (length (c i))) c"
      by (rule alloc_D_cong [OF alloc_frame [OF a]]) (use hs gs lh in \<open>auto simp: mk_nums\<close>)
    show "length (c 1) \<le> unat (di_size ((D(1 := ?di)) 1))" using round_up [OF holds_size(2) [OF h]] by simp
  qed (use sb bm hs in \<open>auto simp: mk_nums\<close>)
qed

section \<open>The image\<close>

lemma bblock_58: "b < FSSIZE \<Longrightarrow> unat (BBLOCK (of_nat b) mk_superblock) = 58"
proof -
  assume "b < FSSIZE"
  then have "unat (of_nat b :: uint) = b" by (intro unat_small) (simp add: mk_nums)
  then have "(of_nat b div 4096 :: uint) = 0" using \<open>b < FSSIZE\<close> by (simp add: word_arith_nat_div mk_nums)
  then show ?thesis by (simp add: BBLOCK_def BPB_def mk_superblock_vals mk_nums)
qed

lemma mkfs_steps:
  assumes i: "mk_ialloc T_DIR (mk_initial s) = Ok (of_nat (Suc 0)) m1"
    and a1: "iappend (of_nat 1) (encode_dirent 1 (ascii ''.'')) m1 = Ok () m2"
    and a2: "iappend (of_nat 1) (encode_dirent 1 (ascii ''..'')) m2 = Ok () m3" and k: "kfor fs mk_file m3 = Ok () m4"
    and fin: "kbind (rinode 1) (\<lambda>din. let off = (xint (di_size din) div of_nat BSIZE + 1) * of_nat BSIZE in
       kthen (winode 1 (din\<lparr>di_size := xint off\<rparr>)) (kbind (kgets freeblock) (\<lambda>used. mk_balloc (sint used)))) m4 = Ok () m5"
  shows "mkfs_main fs (mkfs_start s) = Ok () m5"
proof -
  let ?m0 = "(mkfs_start s)\<lparr>image := [], mk_sb := mk_superblock, freeblock := of_nat nmeta\<rparr>"
  have z: "kfor [0..<FSSIZE] (\<lambda>i. wsect (of_nat i) (replicate BSIZE 0)) ?m0 = Ok () (?m0\<lparr>image := replicate (BSIZE * FSSIZE) 0\<rparr>)"
    by (rule zero_sectors) simp_all
  have w: "wsect 1 (splice (replicate BSIZE 0) 0 (encode_sb mk_superblock)) (?m0\<lparr>image := replicate (BSIZE * FSSIZE) 0\<rparr>) =
      Ok () (mk_initial s)"
    using wsect_run [of 1 _ "?m0\<lparr>image := replicate (BSIZE * FSSIZE) 0\<rparr>"] by (simp add: mk_nums mk_initial_def)
  show ?thesis unfolding mkfs_main_def
    using fin a1 a2 i by (simp add: kthen_modify kthen_Ok [of "kfor [0..<FSSIZE] (\<lambda>i. wsect (of_nat i) (replicate BSIZE 0))", OF z]
      kthen_Ok [of "wsect 1 (splice (replicate BSIZE 0) 0 (encode_sb mk_superblock))", OF w [simplified]]
      kbind_Ok [of "mk_ialloc T_DIR", OF i] ROOTINO_def kthen_Ok [of "iappend 1 (encode_dirent 1 (ascii ''.''))", OF a1 [simplified]]
      kthen_Ok [of "iappend 1 (encode_dirent 1 (ascii ''..''))", OF a2 [simplified]] kthen_Ok [of "kfor fs mk_file", OF k])
qed

lemma mkfs_run:
  assumes "mk_fits fs"
  obtains m D c where "mkfs_main fs (mkfs_start s) = Ok () m" "decode_sb (sector (image m) 1) = mk_superblock"
    "alloc_ok (image m) (used (Suc (length fs)) c) (Suc (length fs)) D (\<lambda>i. bcount (length (c i))) c"
    "\<And>i. i \<in> {1..Suc (length fs)} \<Longrightarrow> inode_of (image m) i = D i" "di_type (D 1) = T_DIR" "length (c 1) \<le> unat (di_size (D 1))"
    "\<And>i. i \<in> {2..Suc (length fs)} \<Longrightarrow> di_type (D i) = T_FILE \<and> di_nlink (D i) = 1 \<and> di_size (D i) = of_nat (length (c i))"
    "c 1 = root_entries fs" "\<And>k. k < length fs \<Longrightarrow> c (k + 2) = host_bytes (fs ! k)"
    "\<And>b. b < FSSIZE \<Longrightarrow> bit_clear (sector (image m) 58) b \<longleftrightarrow> used (Suc (length fs)) c \<le> b"
proof -
  let ?ea = "encode_dirent 1 (ascii ''.'')" and ?eb = "encode_dirent 1 (ascii ''..'')" and ?nil = "\<lambda>i. [] :: uchar list"
  let ?cr = "?nil(1 := ?ea @ ?eb)"
  let ?c = "add_files 1 ?cr fs" and ?N = "Suc (length fs)"
  have fit: "?N < NINODES" "\<forall>f \<in> set fs. slash \<notin> set (fst f) \<and> snd f \<noteq> None \<and> length (host_bytes f) \<le> MAXFILE * BSIZE"
    "nmeta + room (bcount (16 * (length fs + 2))) + sum_list (map (\<lambda>f. room (bcount (length (host_bytes f)))) fs) \<le> FSSIZE"
    using assms by (simp_all add: mk_fits_def)
  have ufin: "used ?N ?c \<le> FSSIZE" using used_add_files [of 1 fs ?cr] fit(3) by (simp add: used_def algebra_simps)
  have u2: "used 1 ?cr \<le> FSSIZE" by (rule order_trans [OF used_mono ufin]) (auto simp: add_files_eq)
  obtain m1 d1 where i: "mk_ialloc T_DIR (mk_initial s) = Ok (of_nat (Suc 0)) m1"
    and o1: "mk_ok m1 (Suc 0) ((\<lambda>_. undefined)(Suc 0 := d1)) (?nil(Suc 0 := []))" and t1: "di_type d1 = T_DIR"
    by (rule ialloc_ok [OF mk_initial_ok [of s "\<lambda>_. undefined" ?nil]]) (simp add: mk_nums)
  let ?Da = "(\<lambda>_. undefined)(Suc 0 := d1)" and ?ca = "?nil(Suc 0 := [])"
  have ua: "used (Suc 0) (?ca(1 := ?ca 1 @ ?ea)) \<le> FSSIZE" by (rule order_trans [OF used_mono u2]) auto
  obtain m2 D2 where a1: "iappend (of_nat 1) ?ea m1 = Ok () m2" and o2: "mk_ok m2 (Suc 0) D2 (?ca(1 := ?ca 1 @ ?ea))"
    and t2: "\<And>i. di_type (D2 i) = di_type (?Da i) \<and> di_nlink (D2 i) = di_nlink (?Da i)"
    by (rule iappend_ok [OF o1 _ _ ua]) (auto simp: mk_nums)
  let ?cb = "?ca(1 := ?ca 1 @ ?ea)"
  have cb: "?cb(1 := ?cb 1 @ ?eb) = ?cr" by auto
  obtain m3 D3 where a2: "iappend (of_nat 1) ?eb m2 = Ok () m3" and o3: "mk_ok m3 (Suc 0) D3 ?cr"
    and t3: "\<And>i. di_type (D3 i) = di_type (D2 i) \<and> di_nlink (D3 i) = di_nlink (D2 i)"
    by (rule iappend_ok [OF o2, of 1 ?eb, unfolded cb]) (use u2 in \<open>auto simp: mk_nums\<close>)
  have "\<exists>m' D'. kfor fs mk_file m3 = Ok () m' \<and> mk_ok m' (1 + length fs) D' ?c \<and>
      (\<forall>i \<in> {1..1}. di_type (D' i) = di_type (D3 i) \<and> di_nlink (D' i) = di_nlink (D3 i)) \<and>
      (\<forall>i \<in> {Suc 1..1 + length fs}. di_type (D' i) = T_FILE \<and> di_nlink (D' i) = 1)"
    by (rule files_ok) (use o3 fit ufin in \<open>auto simp: mk_nums\<close>)
  then obtain m4 D4 where k: "kfor fs mk_file m3 = Ok () m4" and o4: "mk_ok m4 ?N D4 ?c" and t4: "di_type (D4 1) = di_type (D3 1)"
    "\<And>i. i \<in> {2..?N} \<Longrightarrow> di_type (D4 i) = T_FILE \<and> di_nlink (D4 i) = 1" by auto
  have n1: "1 \<le> ?N" by simp
  obtain m5 D5 where fin: "kbind (rinode 1) (\<lambda>din. let off = (xint (di_size din) div of_nat BSIZE + 1) * of_nat BSIZE in
       kthen (winode 1 (din\<lparr>di_size := xint off\<rparr>)) (kbind (kgets freeblock) (\<lambda>used. mk_balloc (sint used)))) m4 = Ok () m5"
    and "mk_sb m5 = mk_superblock" and r: "decode_sb (sector (image m5) 1) = mk_superblock" "alloc_ok (image m5) (used ?N ?c) ?N D5 (\<lambda>i. bcount (length (?c i))) ?c"
      "\<And>i. i \<in> {1..?N} \<Longrightarrow> inode_of (image m5) i = D5 i" "\<And>i. i \<noteq> 1 \<Longrightarrow> D5 i = D4 i" "di_type (D5 1) = di_type (D4 1)"
      "length (?c 1) \<le> unat (di_size (D5 1))" "\<And>b. b < FSSIZE \<Longrightarrow> bit_clear (sector (image m5) 58) b \<longleftrightarrow> used ?N ?c \<le> b"
    by (rule finish_ok [OF o4 n1]) (rule that)
  have "mkfs_main fs (mkfs_start s) = Ok () m5" by (rule mkfs_steps [OF i a1 a2 k fin])
  then show thesis
    by (rule that [of m5 ?c D5]) (use r t1 t2 t3 t4 o4 in \<open>auto simp: add_files_eq root_entries_def mk_ok_def\<close>)
qed

text \<open>
  C21. The image mkfs builds holds the files it was given. When they fit on the disk, mkfs ends with success, and
  the image, read with the kernel's own layouts of superblock, inodes and block maps, has the superblock the program
  announces, a root directory that starts with the entries of ".", ".." and of every file, and
  for every file an inode of type T_FILE with one link whose blocks hold exactly the bytes of the file.
\<close>

theorem mkfs_files_roundtrip:
  assumes "mk_fits fs"
  shows "\<exists>m. mkfs_main fs (mkfs_start s) = Ok () m \<and> decode_sb (sector (image m) 1) = mk_superblock \<and>
    di_type (inode_of (image m) 1) = T_DIR \<and>
    take (length (root_entries fs)) (file_bytes (image m) (inode_of (image m) 1)) = root_entries fs \<and>
    (\<forall>k < length fs. di_type (inode_of (image m) (k + 2)) = T_FILE \<and> di_nlink (inode_of (image m) (k + 2)) = 1 \<and>
      file_bytes (image m) (inode_of (image m) (k + 2)) = host_bytes (fs ! k))"
proof -
  let ?N = "Suc (length fs)"
  obtain m D c where run: "mkfs_main fs (mkfs_start s) = Ok () m" and sb: "decode_sb (sector (image m) 1) = mk_superblock"
    and a: "alloc_ok (image m) (used ?N c) ?N D (\<lambda>i. bcount (length (c i))) c"
    and io: "\<And>i. i \<in> {1..?N} \<Longrightarrow> inode_of (image m) i = D i" and d1: "di_type (D 1) = T_DIR" "length (c 1) \<le> unat (di_size (D 1))"
    and di: "\<And>i. i \<in> {2..?N} \<Longrightarrow> di_type (D i) = T_FILE \<and> di_nlink (D i) = 1 \<and> di_size (D i) = of_nat (length (c i))"
    and c1: "c 1 = root_entries fs" and ck: "\<And>k. k < length fs \<Longrightarrow> c (k + 2) = host_bytes (fs ! k)"
    and "\<And>b. b < FSSIZE \<Longrightarrow> bit_clear (sector (image m) 58) b \<longleftrightarrow> used ?N c \<le> b"
    by (rule mkfs_run [OF assms, of s]) (rule that)
  have root: "take (length (c 1)) (file_bytes (image m) (inode_of (image m) 1)) = c 1"
    using holds_bytes [OF alloc_D(4) [OF a, of 1] refl] d1(2) io [of 1] by simp
  have fb: "file_bytes (image m) (D (k + 2)) = c (k + 2)" if "k < length fs" for k
  proof -
    note h = alloc_D(4) [OF a, of "k + 2"]
    have "unat (di_size (D (k + 2))) = length (c (k + 2))" using di [of "k + 2"] holds_size(1) [OF h] that by simp
    then show ?thesis using holds_bytes [OF h] that by (simp add: file_bytes_def)
  qed
  show ?thesis using run sb d1 root fb di io ck c1 by (intro exI [of _ m]) auto
qed

definition ex_files :: "host_file list" where
  "ex_files = [(ascii ''_cat'', Some [[1, 2, 3], [4]]), (ascii ''README'', Some [])]"

lemma ex_files_fit: "mk_fits ex_files"
  by (simp add: mk_fits_def ex_files_def host_bytes_def ascii_def slash_def mk_nums bcount_def room_def)

lemma ex_files_bytes: "length ex_files = 2" "host_bytes (ex_files ! 0) = [1, 2, 3, 4]"
  by (simp_all add: ex_files_def host_bytes_def)

theorem mkfs_files_roundtrip_witness:
  "\<exists>m. mkfs_main ex_files (mkfs_start mk_superblock) = Ok () m \<and> file_bytes (image m) (inode_of (image m) 2) = [1, 2, 3, 4]"
proof -
  obtain m where r: "mkfs_main ex_files (mkfs_start mk_superblock) = Ok () m"
    and k: "\<forall>k < length ex_files. file_bytes (image m) (inode_of (image m) (k + 2)) = host_bytes (ex_files ! k)"
    using mkfs_files_roundtrip [OF ex_files_fit, of mk_superblock] by blast
  have "file_bytes (image m) (inode_of (image m) 2) = [1, 2, 3, 4]" using k [rule_format, of 0] ex_files_bytes by (simp add: numeral_2_eq_2)
  with r show ?thesis by (intro exI [of _ m] conjI)
qed

text \<open>The numbers of the blocks of the root directory and of the files, the indirect blocks included.\<close>

definition mk_blocks :: "host_file list \<Rightarrow> uchar list \<Rightarrow> nat \<Rightarrow> nat list" where
  "mk_blocks fs f i =
     blocks_of f (inode_of f i) (bcount (length (if i = 1 then root_entries fs else host_bytes (fs ! (i - 2)))))"

lemma length_blocks_of: "length (blocks_of f di n) = room n"
  by (simp add: blocks_of_def room_def)

text \<open>The blocks of an allocation fill the range of blocks given out, since their numbers add up.\<close>

lemma alloc_fills:
  assumes "alloc_ok f (used N c) N D (\<lambda>i. bcount (length (c i))) c" and "1 \<le> N"
  shows "(\<Union>i \<in> {1..N}. set (blocks_of f (D i) (bcount (length (c i))))) = {nmeta..<used N c}"
proof (rule card_subset_eq)
  let ?B = "\<lambda>i. set (blocks_of f (D i) (bcount (length (c i))))"
  show "(\<Union>i \<in> {1..N}. ?B i) \<subseteq> {nmeta..<used N c}" using alloc_D(6) [OF assms(1)] by blast
  have "card (?B i) = room (bcount (length (c i)))" if "i \<in> {1..N}" for i
    using distinct_card [OF alloc_D(5) [OF assms(1) that]] by (simp add: length_blocks_of)
  moreover have "card (\<Union>i \<in> {1..N}. ?B i) = (\<Sum>i \<in> {1..N}. card (?B i))"
    using assms(1) by (intro card_UN_disjoint) (auto simp: alloc_ok_def)
  ultimately show "card (\<Union>i \<in> {1..N}. ?B i) = card {nmeta..<used N c}" by (simp add: used_def)
qed simp

text \<open>
  C22. mkfs gives out every block once and accounts for it. When the files fit on the disk, mkfs ends
  with success; the blocks of the root directory and of every file, the indirect blocks included, are distinct and shared by
  no two of them; and the bitmap it leaves marks exactly these blocks and the blocks of boot sector, superblock, log,
  inodes and bitmap, so that balloc() of the kernel can hand out every other block and
  none of these.
\<close>

theorem mkfs_blocks_disjoint:
  assumes "mk_fits fs"
  shows "\<exists>m. mkfs_main fs (mkfs_start s) = Ok () m \<and>
    (\<forall>i \<in> {1..Suc (length fs)}. distinct (mk_blocks fs (image m) i) \<and> set (mk_blocks fs (image m) i) \<subseteq> {nmeta..<FSSIZE}) \<and>
    (\<forall>i \<in> {1..Suc (length fs)}. \<forall>j \<in> {1..Suc (length fs)}. i \<noteq> j \<longrightarrow>
      set (mk_blocks fs (image m) i) \<inter> set (mk_blocks fs (image m) j) = {}) \<and>
    (\<forall>b < FSSIZE. bit_clear (sector (image m) (unat (BBLOCK (of_nat b) mk_superblock))) b \<longleftrightarrow>
      nmeta \<le> b \<and> (\<forall>i \<in> {1..Suc (length fs)}. b \<notin> set (mk_blocks fs (image m) i)))"
proof -
  let ?N = "Suc (length fs)"
  obtain m D c where run: "mkfs_main fs (mkfs_start s) = Ok () m" and "decode_sb (sector (image m) 1) = mk_superblock"
    and a: "alloc_ok (image m) (used ?N c) ?N D (\<lambda>i. bcount (length (c i))) c"
    and io: "\<And>i. i \<in> {1..?N} \<Longrightarrow> inode_of (image m) i = D i" and "di_type (D 1) = T_DIR" "length (c 1) \<le> unat (di_size (D 1))"
    and "\<And>i. i \<in> {2..?N} \<Longrightarrow> di_type (D i) = T_FILE \<and> di_nlink (D i) = 1 \<and> di_size (D i) = of_nat (length (c i))"
    and c1: "c 1 = root_entries fs" and ck: "\<And>k. k < length fs \<Longrightarrow> c (k + 2) = host_bytes (fs ! k)"
    and bm: "\<And>b. b < FSSIZE \<Longrightarrow> bit_clear (sector (image m) 58) b \<longleftrightarrow> used ?N c \<le> b"
    by (rule mkfs_run [OF assms, of s]) (rule that)
  have mb: "mk_blocks fs (image m) i = blocks_of (image m) (D i) (bcount (length (c i)))" if "i \<in> {1..?N}" for i
  proof (cases "i = 1")
    case False
    with that have "i = (i - 2) + 2" "i - 2 < length fs" by auto
    then have "c i = host_bytes (fs ! (i - 2))" using ck [of "i - 2"] by metis
    with False io [OF that] show ?thesis by (simp add: mk_blocks_def)
  qed (use io [OF that] c1 in \<open>simp add: mk_blocks_def\<close>)
  have own: "distinct (mk_blocks fs (image m) i) \<and> set (mk_blocks fs (image m) i) \<subseteq> {nmeta..<FSSIZE}" if "i \<in> {1..?N}" for i
    using alloc_D(3,5,6) [OF a that] mb [OF that] by fastforce
  have apart: "set (mk_blocks fs (image m) i) \<inter> set (mk_blocks fs (image m) j) = {}"
    if "i \<in> {1..?N}" "j \<in> {1..?N}" "i \<noteq> j" for i j
    using a mb [OF that(1)] mb [OF that(2)] that unfolding alloc_ok_def by simp
  have "nmeta \<le> used ?N c" using alloc_D(2) [OF a, of 1] by simp
  then have "used ?N c \<le> b \<longleftrightarrow> nmeta \<le> b \<and> b \<notin> {nmeta..<used ?N c}" for b by auto
  then have rng: "used ?N c \<le> b \<longleftrightarrow> nmeta \<le> b \<and> (\<forall>i \<in> {1..?N}. b \<notin> set (mk_blocks fs (image m) i))" for b
    using mb by (simp only: alloc_fills [OF a, symmetric]) simp
  have bits: "bit_clear (sector (image m) (unat (BBLOCK (of_nat b) mk_superblock))) b \<longleftrightarrow>
      nmeta \<le> b \<and> (\<forall>i \<in> {1..?N}. b \<notin> set (mk_blocks fs (image m) i))" if "b < FSSIZE" for b
    using bm [OF that] bblock_58 [OF that] rng by simp
  show ?thesis using run own apart bits by (intro exI [of _ m]) blast
qed

theorem mkfs_blocks_disjoint_witness:
  "\<exists>m. mkfs_main ex_files (mkfs_start mk_superblock) = Ok () m \<and>
    set (mk_blocks ex_files (image m) 1) \<inter> set (mk_blocks ex_files (image m) 2) = {} \<and>
    (bit_clear (sector (image m) (unat (BBLOCK (of_nat 100) mk_superblock))) 100 \<longleftrightarrow>
      (\<forall>i \<in> {1..3}. 100 \<notin> set (mk_blocks ex_files (image m) i)))"
proof -
  have three: "Suc (length ex_files) = 3" using ex_files_bytes(1) by simp
  obtain m where "mkfs_main ex_files (mkfs_start mk_superblock) = Ok () m"
    and d: "\<forall>i \<in> {1..Suc (length ex_files)}. \<forall>j \<in> {1..Suc (length ex_files)}. i \<noteq> j \<longrightarrow>
      set (mk_blocks ex_files (image m) i) \<inter> set (mk_blocks ex_files (image m) j) = {}"
    and b: "\<forall>b < FSSIZE. bit_clear (sector (image m) (unat (BBLOCK (of_nat b) mk_superblock))) b \<longleftrightarrow>
      nmeta \<le> b \<and> (\<forall>i \<in> {1..Suc (length ex_files)}. b \<notin> set (mk_blocks ex_files (image m) i))"
    using mkfs_blocks_disjoint [OF ex_files_fit, of mk_superblock] by blast
  moreover have "set (mk_blocks ex_files (image m) 1) \<inter> set (mk_blocks ex_files (image m) 2) = {}"
    using d ex_files_bytes(1) by simp
  moreover have "bit_clear (sector (image m) (unat (BBLOCK (of_nat 100) mk_superblock))) 100 \<longleftrightarrow>
      (\<forall>i \<in> {1..3}. 100 \<notin> set (mk_blocks ex_files (image m) i))"
    using b [unfolded three, rule_format, of 100] by (simp add: mk_nums del: atLeastAtMost_iff)
  ultimately show ?thesis by (intro exI [of _ m] conjI)
qed

end
