(* ===== verification/Umalloc.thy ===== *)
theory Umalloc
  imports Usys
begin

text \<open>
  umalloc.c, the storage allocator of user programs: a circular list of free blocks in the order of their
  addresses, each with a header of 8 bytes in front of it that holds the next block and the size in units of
  headers. The headers are the maps \<open>h_ptr\<close> and \<open>h_size\<close> from addresses; the address of the variable base is
  an argument. \<open>fuel\<close> bounds the turns of the two loops.

  Here are the operations, the free memory as a sorted list, and the search and the joins of free(). Umalloc_Heap.thy shows that
  free() refines a sorted insertion and that malloc() takes its block out of the free memory; Umalloc_Calls.thy
  runs malloc() against a kernel and shows that any sequence of calls keeps the blocks in use apart.
\<close>

section \<open>State and operations\<close>

record uheap =
  h_ptr :: "uint \<Rightarrow> uint"
  h_size :: "uint \<Rightarrow> uint"
  freep :: uint

definition set_ptr :: "uint \<Rightarrow> uint \<Rightarrow> uheap \<Rightarrow> uheap" where
  "set_ptr a v h = h\<lparr>h_ptr := (h_ptr h)(a := v)\<rparr>"

definition set_size :: "uint \<Rightarrow> uint \<Rightarrow> uheap \<Rightarrow> uheap" where
  "set_size a v h = h\<lparr>h_size := (h_size h)(a := v)\<rparr>"

text \<open>The loop of free() that looks for the block behind which \<open>bp\<close> belongs.\<close>

primrec free_scan :: "nat \<Rightarrow> uheap \<Rightarrow> uint \<Rightarrow> uint \<Rightarrow> uint option" where
  "free_scan 0 h bp p = None"
| "free_scan (Suc k) h bp p =
     (if bp > p \<and> bp < h_ptr h p then Some p
      else if p \<ge> h_ptr h p \<and> (bp > p \<or> bp < h_ptr h p) then Some p
      else free_scan k h bp (h_ptr h p))"

definition free_link :: "uheap \<Rightarrow> uint \<Rightarrow> uint \<Rightarrow> uheap" where
  "free_link h bp p =
     (let n = h_ptr h p;
          h = (if bp + 8 * h_size h bp = n
               then set_ptr bp (h_ptr h n) (set_size bp (h_size h bp + h_size h n) h)
               else set_ptr bp n h);
          h = (if p + 8 * h_size h p = bp
               then set_ptr p (h_ptr h bp) (set_size p (h_size h p + h_size h bp) h)
               else set_ptr p bp h)
      in h\<lparr>freep := p\<rparr>)"

definition u_free :: "nat \<Rightarrow> uint \<Rightarrow> uheap \<Rightarrow> uheap uprog" where
  "u_free k ap h =
     (if freep h = 0 then UWrong
      else case free_scan k h (ap - 8) (freep h) of
        None \<Rightarrow> UFuel
      | Some p \<Rightarrow> UDone (free_link h (ap - 8) p))"

definition morecore :: "nat \<Rightarrow> uint \<Rightarrow> uheap \<Rightarrow> (uint \<times> uheap) uprog" where
  "morecore k nu h =
     (let nu = (if nu < 4096 then 4096 else nu) in
      ubind (usys (CSbrk (sint (nu * 8)))) (\<lambda>p.
      if p = -1 then UDone (0, h)
      else
        let hp = of_int p in
        ubind (u_free k (hp + 8) (set_size hp nu h)) (\<lambda>h.
        UDone (freep h, h))))"

primrec malloc_loop :: "nat \<Rightarrow> uint \<Rightarrow> uint \<Rightarrow> uint \<Rightarrow> uheap \<Rightarrow> (uint \<times> uheap) uprog" where
  "malloc_loop 0 nunits prevp p h = UFuel"
| "malloc_loop (Suc k) nunits prevp p h =
     (if h_size h p \<ge> nunits then
        if h_size h p = nunits then UDone (p + 8, (set_ptr prevp (h_ptr h p) h)\<lparr>freep := prevp\<rparr>)
        else
          let h = set_size p (h_size h p - nunits) h;
              p = p + 8 * h_size h p;
              h = set_size p nunits h
          in UDone (p + 8, h\<lparr>freep := prevp\<rparr>)
      else if p = freep h then
        ubind (morecore k nunits h) (\<lambda>(p, h).
        if p = 0 then UDone (0, h) else malloc_loop k nunits p (h_ptr h p) h)
      else malloc_loop k nunits p (h_ptr h p) h)"

definition malloc_units :: "uint \<Rightarrow> uint" where
  "malloc_units nbytes = (nbytes + 8 - 1) div 8 + 1"

definition u_malloc :: "nat \<Rightarrow> uint \<Rightarrow> uint \<Rightarrow> uheap \<Rightarrow> (uint \<times> uheap) uprog" where
  "u_malloc k base nbytes h =
     (let h = (if freep h = 0 then set_size base 0 ((set_ptr base base h)\<lparr>freep := base\<rparr>) else h)
      in malloc_loop k (malloc_units nbytes) (freep h) (h_ptr h (freep h)) h)"

section \<open>The free memory as a sorted list\<close>

text \<open>
  A block is a pair of an address and a number of units. \<open>spaced lo ss hi\<close>: the blocks \<open>ss\<close> lie between \<open>lo\<close> and \<open>hi\<close>,
  in order, none of them empty, and no two of them touch. \<open>insert_block\<close> puts a block in its place and joins
  it with its neighbours; it is the specification of free().
\<close>

type_synonym block = "nat \<times> nat"

definition span :: "block \<Rightarrow> nat set" where
  "span s = {fst s..<fst s + 8 * snd s}"

definition cover :: "block list \<Rightarrow> nat set" where
  "cover ss = (\<Union>s \<in> set ss. span s)"

fun spaced :: "nat \<Rightarrow> block list \<Rightarrow> nat \<Rightarrow> bool" where
  "spaced lo [] hi \<longleftrightarrow> True"
| "spaced lo ((a, n) # ss) hi \<longleftrightarrow> lo < a \<and> 0 < n \<and> a + 8 * n \<le> hi \<and> spaced (a + 8 * n) ss hi"

definition join_right :: "nat \<Rightarrow> nat \<Rightarrow> block list \<Rightarrow> block list" where
  "join_right a n ss = (case ss of (c, m) # ss' \<Rightarrow> if a + 8 * n = c then (a, n + m) # ss' else (a, n) # ss | [] \<Rightarrow> [(a, n)])"

fun insert_block :: "nat \<Rightarrow> nat \<Rightarrow> block list \<Rightarrow> block list" where
  "insert_block a n [] = [(a, n)]"
| "insert_block a n ((c, m) # ss) =
     (if a < c then join_right a n ((c, m) # ss)
      else if c + 8 * m = a then join_right c (m + n) ss
      else (c, m) # insert_block a n ss)"

lemma cover_simps [simp]: "cover [] = {}" "cover (s # ss) = span s \<union> cover ss" "cover (ss @ ts) = cover ss \<union> cover ts"
  by (auto simp: cover_def)

lemma spaced_mono: "spaced lo ss hi \<Longrightarrow> lo' \<le> lo \<Longrightarrow> hi \<le> hi' \<Longrightarrow> spaced lo' ss hi'"
  by (induction lo ss hi arbitrary: lo' rule: spaced.induct) auto

lemma spaced_cover: "spaced lo ss hi \<Longrightarrow> x \<in> cover ss \<Longrightarrow> lo < x \<and> x < hi"
  by (induction lo ss hi rule: spaced.induct) (auto simp: span_def)

fun block_end :: "nat \<Rightarrow> block list \<Rightarrow> nat" where
  "block_end lo [] = lo"
| "block_end lo ((a, n) # ss) = block_end (a + 8 * n) ss"

lemma spaced_append: "spaced lo (ss @ ts) hi \<longleftrightarrow> spaced lo ss hi \<and> spaced (block_end lo ss) ts hi"
  by (induction lo ss hi rule: spaced.induct) auto

lemma block_end_le: "spaced lo ss hi \<Longrightarrow> lo \<le> block_end lo ss \<and> (lo \<le> hi \<longrightarrow> block_end lo ss \<le> hi)"
  by (induction lo ss hi rule: spaced.induct) auto

lemma block_end_append [simp]: "block_end lo (ss @ [(a, n)]) = a + 8 * n"
  by (induction lo ss rule: block_end.induct) auto

lemma block_end_less: "spaced lo ss hi \<Longrightarrow> ss \<noteq> [] \<Longrightarrow> lo < block_end lo ss"
proof (cases ss)
  case (Cons s ts)
  obtain a n where s: "s = (a, n)" by fastforce
  assume "spaced lo ss hi"
  with block_end_le [of "a + 8 * n" ts hi] Cons s show ?thesis by simp
qed simp

lemma insert_block_front: "(vs \<noteq> [] \<Longrightarrow> a < fst (hd vs)) \<Longrightarrow> insert_block a n vs = join_right a n vs"
  by (cases vs; cases "hd vs") (simp_all add: join_right_def)

lemma insert_block_split:
  assumes "spaced lo (us @ vs) hi" and "block_end lo us \<le> a" and "vs \<noteq> [] \<Longrightarrow> a < fst (hd vs)"
  shows "insert_block a n (us @ vs) =
    (if us \<noteq> [] \<and> block_end lo us = a then butlast us @ join_right (fst (last us)) (snd (last us) + n) vs
     else us @ join_right a n vs)"
  using assms
proof (induction lo us rule: block_end.induct)
  case (1 lo)
  then show ?case by (simp add: insert_block_front)
next
  case (2 lo c m us)
  have sp: "spaced (c + 8 * m) us hi" using 2(2) by (simp add: spaced_append)
  have e: "c + 8 * m \<le> block_end (c + 8 * m) us" "us \<noteq> [] \<Longrightarrow> c + 8 * m < block_end (c + 8 * m) us"
    using block_end_le [OF sp] block_end_less [OF sp] by simp_all
  show ?case
  proof (cases "us = []")
    case True
    with 2 show ?thesis by (simp add: insert_block_front)
  next
    case False
    with 2 e show ?thesis by simp
  qed
qed

lemma span_add: "span (a, n + m) = span (a, n) \<union> span (a + 8 * n, m)"
  by (auto simp: span_def)

lemma join_right_ok:
  assumes "spaced (a + 8 * n - 1) vs hi" and "lo < a" and "0 < n" and "a + 8 * n \<le> hi"
  shows "spaced lo (join_right a n vs) hi" "cover (join_right a n vs) = span (a, n) \<union> cover vs"
proof -
  have "spaced lo (join_right a n vs) hi \<and> cover (join_right a n vs) = span (a, n) \<union> cover vs"
  proof (cases vs)
    case Nil
    with assms show ?thesis by (simp add: join_right_def)
  next
    case (Cons s ss)
    obtain c m where s: "s = (c, m)" by fastforce
    have "a + 8 * n - 1 < c" and sp: "0 < m" "c + 8 * m \<le> hi" "spaced (c + 8 * m) ss hi" using assms(1) Cons s by simp_all
    then have le: "a + 8 * n \<le> c" using assms(3) by linarith
    show ?thesis
    proof (cases "a + 8 * n = c")
      case True
      then have e: "a + 8 * (n + m) = c + 8 * m" "span (a, n + m) = span (a, n) \<union> span (c, m)" using span_add [of a n m] by simp_all
      have "join_right a n vs = (a, n + m) # ss" using True Cons s by (simp add: join_right_def)
      moreover have "spaced (a + 8 * (n + m)) ss hi" "a + 8 * (n + m) \<le> hi" using sp(2,3) unfolding e(1) by simp_all
      ultimately show ?thesis using e(2) assms(2,3) Cons s by (simp add: Un_assoc)
    next
      case False
      then have "join_right a n vs = (a, n) # vs" using Cons s by (simp add: join_right_def)
      then show ?thesis using sp le False assms(2-) Cons s by simp
    qed
  qed
  then show "spaced lo (join_right a n vs) hi" "cover (join_right a n vs) = span (a, n) \<union> cover vs" by simp_all
qed

lemma span_apart:
  assumes "span (a, n) \<inter> span (c, m) = {}" and "0 < n" and "0 < m"
  shows "a + 8 * n \<le> c \<or> c + 8 * m \<le> a"
proof (rule ccontr)
  assume "\<not> ?thesis"
  then have "max a c \<in> span (a, n) \<inter> span (c, m)" using assms(2,3) by (auto simp: span_def)
  with assms(1) show False by simp
qed

text \<open>A block can be given back when it lies in \<open>{lo<..<hi}\<close> and touches no free memory.\<close>

lemma insert_block_ok:
  assumes "spaced lo ss hi" and "lo < a" and n: "0 < n" and "a + 8 * n \<le> hi" and "span (a, n) \<inter> cover ss = {}"
  shows "spaced lo (insert_block a n ss) hi \<and> cover (insert_block a n ss) = span (a, n) \<union> cover ss"
  using assms(1,2,4,5)
proof (induction lo ss hi rule: spaced.induct)
  case (2 lo c m ss hi)
  have sp: "lo < c" "0 < m" "c + 8 * m \<le> hi" "spaced (c + 8 * m) ss hi" using 2(2) by simp_all
  have dj: "span (a, n) \<inter> span (c, m) = {}" "span (a, n) \<inter> cover ss = {}" using 2(5) by auto
  note apart = span_apart [OF dj(1) n sp(2)]
  show ?case
  proof (cases "a < c")
    case True
    with apart sp(2) have "a + 8 * n \<le> c" by linarith
    then have "spaced (a + 8 * n - 1) ((c, m) # ss) hi" using sp n by simp
    from join_right_ok [OF this 2(3) n 2(4)] True show ?thesis by simp
  next
    case False
    with apart n have ca: "c + 8 * m \<le> a" by linarith
    show ?thesis
    proof (cases "c + 8 * m = a")
      case True
      have "spaced (c + 8 * (m + n) - 1) ss hi"
      proof (cases ss)
        case (Cons s ts)
        obtain d k where s: "s = (d, k)" by fastforce
        have dk: "c + 8 * m < d" "0 < k" "span (a, n) \<inter> span (d, k) = {}" using sp(4) dj(2) Cons s by auto
        have "a + 8 * n \<le> d" using span_apart [OF dk(3) n dk(2)] dk(1) True by linarith
        with sp(4) Cons s True n show ?thesis by simp
      qed simp
      then have "spaced lo (join_right c (m + n) ss) hi" "cover (join_right c (m + n) ss) = span (c, m + n) \<union> cover ss"
        using join_right_ok [of c "m + n" ss hi lo] sp(1) 2(4) n True by simp_all
      moreover have "span (c, m + n) = span (c, m) \<union> span (a, n)" using span_add [of c m n] True by simp
      moreover have "insert_block a n ((c, m) # ss) = join_right c (m + n) ss" using True False by simp
      ultimately show ?thesis by (simp add: Un_assoc Un_left_commute)
    next
      case ne: False
      with ca have "c + 8 * m < a" by simp
      note ih = 2(1) [OF sp(4) this 2(4) dj(2)]
      have "insert_block a n ((c, m) # ss) = (c, m) # insert_block a n ss" using ne False by simp
      then show ?thesis using ih sp by (simp add: Un_left_commute)
    qed
  qed
qed (use n in auto)

section \<open>The list in memory\<close>

primrec chain :: "uheap \<Rightarrow> uint \<Rightarrow> uint list \<Rightarrow> uint \<Rightarrow> bool" where
  "chain h p [] q \<longleftrightarrow> h_ptr h p = q"
| "chain h p (x # xs) q \<longleftrightarrow> h_ptr h p = x \<and> chain h x xs q"

definition seg :: "uheap \<Rightarrow> uint \<Rightarrow> block" where
  "seg h x = (unat x, unat (h_size h x))"

definition heap_inv :: "uint \<Rightarrow> uheap \<Rightarrow> uint list \<Rightarrow> nat \<Rightarrow> bool" where
  "heap_inv base h xs hi \<longleftrightarrow> chain h base xs base \<and> h_size h base = 0 \<and> base \<noteq> 0 \<and> freep h \<in> set (base # xs) \<and>
     spaced (unat base) (map (seg h) xs) hi \<and> unat base < hi \<and> hi < 2 ^ 31"

lemma heap_upd [simp]:
  "h_ptr (set_ptr a v h) = (h_ptr h)(a := v)" "h_size (set_ptr a v h) = h_size h" "freep (set_ptr a v h) = freep h"
  "h_ptr (set_size a v h) = h_ptr h" "h_size (set_size a v h) = (h_size h)(a := v)" "freep (set_size a v h) = freep h"
  by (simp_all add: set_ptr_def set_size_def)

lemma chain_cong: "(\<And>x. x \<in> set (p # xs) \<Longrightarrow> h_ptr h x = h_ptr g x) \<Longrightarrow> chain h p xs q = chain g p xs q"
  by (induction xs arbitrary: p) auto

lemma chain_append: "chain h p (us @ x # vs) q \<longleftrightarrow> chain h p us x \<and> chain h x vs q"
  by (induction us arbitrary: p) auto

lemma chain_relink:
  assumes "chain h p us q" and "distinct (p # us)" and "\<And>x. x \<in> set (p # us) \<Longrightarrow> x \<noteq> last (p # us) \<Longrightarrow> h_ptr g x = h_ptr h x"
    and "h_ptr g (last (p # us)) = q'"
  shows "chain g p us q'"
  using assms
proof (induction us arbitrary: p)
  case (Cons x us)
  have "p \<noteq> last (p # x # us)" using Cons.prems(2) by (metis distinct.simps(2) last.simps last_in_set list.distinct(1))
  then have "h_ptr g p = x" using Cons.prems(1,3) by simp
  moreover have "chain g x us q'" by (rule Cons.IH) (use Cons.prems in \<open>auto split: if_splits\<close>)
  ultimately show ?case by simp
qed simp

lemma seg_cong: "h_size g x = h_size h x \<Longrightarrow> seg g x = seg h x"
  by (simp add: seg_def)

lemma spaced_sorted: "spaced lo (map (seg h) xs) hi \<Longrightarrow> sorted_wrt (<) (lo # map unat xs)"
proof (induction xs arbitrary: lo)
  case (Cons x xs)
  have "sorted_wrt (<) ((unat x + 8 * unat (h_size h x)) # map unat xs)" by (rule Cons.IH) (use Cons.prems in \<open>simp add: seg_def\<close>)
  then show ?case using Cons.prems by (force simp: seg_def)
qed simp

lemma heap_nodes:
  assumes "heap_inv base h xs hi"
  shows "sorted_wrt (<) (base # xs)" "distinct (base # xs)" "\<And>i j. i < j \<Longrightarrow> j \<le> length xs \<Longrightarrow> (base # xs) ! i < (base # xs) ! j"
proof -
  have "sorted_wrt (<) (map unat (base # xs))" using spaced_sorted [of "unat base" h xs hi] assms by (simp add: heap_inv_def)
  moreover have "(\<lambda>x y :: uint. unat x < unat y) = (<)" by (simp add: fun_eq_iff word_less_nat_alt)
  ultimately show s: "sorted_wrt (<) (base # xs)" by (simp only: sorted_wrt_map)
  then show "distinct (base # xs)" using strict_sorted_iff by blast
  show "i < j \<Longrightarrow> j \<le> length xs \<Longrightarrow> (base # xs) ! i < (base # xs) ! j" for i j using sorted_wrt_nth_less [OF s, of i j] by simp
qed

lemma unat_units: "unat p + 8 * unat n < 2 ^ 32 \<Longrightarrow> unat (p + 8 * n :: uint) = unat p + 8 * unat n"
  by (simp add: unat_word_ariths)

section \<open>free\<close>

text \<open>The search goes round the list, and the block it looks for is the last one below \<open>bp\<close>.\<close>

lemma chain_next: "chain h p xs q \<Longrightarrow> i \<le> length xs \<Longrightarrow> h_ptr h ((p # xs) ! i) = (xs @ [q]) ! i"
proof (induction xs arbitrary: p i)
  case (Cons x xs)
  then show ?case by (cases i) auto
qed simp

lemma free_scan_stop:
  assumes "heap_inv base h (us @ vs) hi" and "last (base # us) < bp" and "vs \<noteq> [] \<Longrightarrow> bp < hd vs"
  shows "free_scan (Suc k) h bp (last (base # us)) = Some (last (base # us))"
proof -
  let ?p = "last (base # us)"
  have c: "chain h base (us @ vs) base" using assms(1) by (simp add: heap_inv_def)
  have n: "h_ptr h ?p = hd (vs @ [base])"
    using chain_next [OF c, of "length us"] by (cases vs) (auto simp: last_conv_nth nth_append nth_Cons')
  show ?thesis
  proof (cases vs)
    case Nil
    have "base \<le> ?p" using heap_nodes(1) [OF assms(1)] Nil by (cases us rule: rev_cases) (auto simp: sorted_wrt_append less_imp_le)
    then show ?thesis using n Nil assms(2) by simp
  qed (use n assms in simp)
qed

lemma free_scan_step:
  assumes inv: "heap_inv base h xs hi" and i: "i \<le> length xs" and bp: "base < bp"
    and no: "\<not> ((base # xs) ! i < bp \<and> (i < length xs \<longrightarrow> bp < xs ! i))" and ne: "bp \<notin> set xs"
  shows "free_scan (Suc k) h bp ((base # xs) ! i) = free_scan k h bp ((xs @ [base]) ! i)"
proof -
  let ?p = "(base # xs) ! i"
  have n: "h_ptr h ?p = (xs @ [base]) ! i" using chain_next i inv by (simp add: heap_inv_def)
  show ?thesis
  proof (cases "i < length xs")
    case True
    have lt: "?p < xs ! i" using heap_nodes(3) [OF inv, of i "Suc i"] True by simp
    then show ?thesis using n True no by (auto simp: nth_append)
  next
    case False
    with i have "i = length xs" by simp
    then show ?thesis using n no bp by auto
  qed
qed

lemma free_scan_walk:
  assumes inv: "heap_inv base h (us @ vs) hi" and p: "last (base # us) < bp" "vs \<noteq> [] \<Longrightarrow> bp < hd vs" and bp: "base < bp" "bp \<notin> set (us @ vs)"
  shows "i \<le> length us \<Longrightarrow> length us - i < k \<Longrightarrow> free_scan k h bp ((base # us @ vs) ! i) = Some (last (base # us))"
    and "i \<le> length (us @ vs) \<Longrightarrow> length us + length (us @ vs) + 1 - i < k \<Longrightarrow> free_scan k h bp ((base # us @ vs) ! i) = Some (last (base # us))"
proof -
  let ?xs = "us @ vs"
  note lt = heap_nodes(3) [OF inv]
  have at: "(base # ?xs) ! length us = last (base # us)" by (simp add: last_conv_nth nth_append nth_Cons')
  have no: "\<not> ((base # ?xs) ! j < bp \<and> (j < length ?xs \<longrightarrow> bp < ?xs ! j))" if j: "j \<le> length ?xs" "j \<noteq> length us" for j
  proof (cases "j < length us")
    case True
    have "(base # ?xs) ! Suc j \<le> (base # ?xs) ! length us"
      using lt [of "Suc j" "length us"] True by (cases "Suc j = length us") (simp_all del: nth_Cons_Suc add: less_imp_le)
    then have "?xs ! j < bp" using p(1) unfolding at by simp
    with True show ?thesis by auto
  next
    case False
    then have "length us < j" using j by simp
    then obtain v vs' where v: "vs = v # vs'" "length us < j" using j by (cases vs) auto
    have "(base # ?xs) ! Suc (length us) \<le> (base # ?xs) ! j"
      using lt [of "Suc (length us)" j] j v by (cases "j = Suc (length us)") (simp_all del: nth_Cons_Suc add: less_imp_le)
    moreover have "(base # ?xs) ! Suc (length us) = v" using v by (simp add: nth_append)
    moreover have "bp < v" using p(2) v(1) by simp
    ultimately have "bp < (base # ?xs) ! j" by (simp only: less_le_trans)
    then show ?thesis by auto
  qed
  show first: "i \<le> length us \<Longrightarrow> length us - i < k \<Longrightarrow> free_scan k h bp ((base # ?xs) ! i) = Some (last (base # us))" for i k
  proof (induction k arbitrary: i)
    case (Suc k)
    show ?case
    proof (cases "i = length us")
      case True
      then show ?thesis unfolding True at by (intro free_scan_stop [OF inv p])
    next
      case False
      then have "free_scan (Suc k) h bp ((base # ?xs) ! i) = free_scan k h bp ((base # ?xs) ! Suc i)"
        using free_scan_step [OF inv, of i bp k] no [of i] Suc.prems bp by (simp add: nth_append)
      then show ?thesis using Suc.IH [of "Suc i"] Suc.prems False by simp
    qed
  qed simp
  show "i \<le> length ?xs \<Longrightarrow> length us + length ?xs + 1 - i < k \<Longrightarrow> free_scan k h bp ((base # ?xs) ! i) = Some (last (base # us))"
  proof (induction k arbitrary: i)
    case (Suc k)
    show ?case
    proof (cases "i \<le> length us")
      case True
      then show ?thesis by (rule first) (use Suc.prems in simp)
    next
      case False
      then have s: "free_scan (Suc k) h bp ((base # ?xs) ! i) = free_scan k h bp ((?xs @ [base]) ! i)"
        using free_scan_step [OF inv, of i bp k] no [of i] Suc.prems bp by simp
      show ?thesis
      proof (cases "i = length ?xs")
        case True
        then show ?thesis using s first [of 0 k] Suc.prems by simp
      next
        case ne: False
        then have "i < length ?xs" using Suc.prems by simp
        then have e: "(?xs @ [base]) ! i = (base # ?xs) ! Suc i" by (simp only: nth_append if_True nth_Cons_Suc)
        show ?thesis unfolding s e by (rule Suc.IH) (use Suc.prems ne False in auto)
      qed
    qed
  qed simp
qed

text \<open>The two joins of free(), on a block that lies between its neighbours.\<close>

lemma chain_hd: "chain h p xs q \<longleftrightarrow> h_ptr h p = hd (xs @ [q]) \<and> (xs \<noteq> [] \<longrightarrow> chain h (hd xs) (tl xs) q)"
  by (cases xs) auto

lemma chain_last: "chain h p xs q \<Longrightarrow> h_ptr h (last (p # xs)) = q"
  by (induction xs arbitrary: p) auto

lemma chain_glue: "chain h p (us @ vs) q \<longleftrightarrow> chain h p us (hd (vs @ [q])) \<and> (vs \<noteq> [] \<longrightarrow> chain h (hd vs) (tl vs) q)"
  by (cases vs) (auto simp: chain_append)

lemma join_right_left: "c + 8 * m = a \<Longrightarrow> join_right a n vs = (a, s) # ts \<Longrightarrow> join_right c (m + n) vs = (c, m + s) # ts"
  by (auto simp: join_right_def split: list.splits if_splits)

lemma block_end_last: "us \<noteq> [] \<Longrightarrow> block_end lo (map (seg h) us) = unat (last us) + 8 * unat (h_size h (last us))"
  by (cases us rule: rev_cases) (simp_all add: seg_def)

definition link_right :: "uheap \<Rightarrow> uint \<Rightarrow> uint \<Rightarrow> uheap" where
  "link_right h bp n = (if bp + 8 * h_size h bp = n then set_ptr bp (h_ptr h n) (set_size bp (h_size h bp + h_size h n) h) else set_ptr bp n h)"

definition link_left :: "uheap \<Rightarrow> uint \<Rightarrow> uint \<Rightarrow> uheap" where
  "link_left h bp p = (if p + 8 * h_size h p = bp then set_ptr p (h_ptr h bp) (set_size p (h_size h p + h_size h bp) h) else set_ptr p bp h)"

lemma free_link_parts: "free_link h bp p = (link_left (link_right h bp (h_ptr h p)) bp p)\<lparr>freep := p\<rparr>"
  by (simp add: free_link_def link_right_def link_left_def Let_def)

lemma unat_eq_iff: "(x :: uint) = y \<longleftrightarrow> unat x = unat y"
  by (simp add: word_unat_eq_iff)

lemma link_right_ok:
  assumes c: "vs \<noteq> [] \<Longrightarrow> chain h (hd vs) (tl vs) base" and bp: "base < bp" "bp \<notin> set vs"
    and sp: "spaced lo (map (seg h) vs) hi" "unat bp + 8 * unat (h_size h bp) \<le> hi" "hi < 2 ^ 31"
    and v: "vs \<noteq> [] \<Longrightarrow> unat bp + 8 * unat (h_size h bp) \<le> unat (hd vs)"
  obtains ws where "chain (link_right h bp (hd (vs @ [base]))) bp ws base" "set ws \<subseteq> set vs"
    "map (seg (link_right h bp (hd (vs @ [base])))) (bp # ws) = join_right (unat bp) (unat (h_size h bp)) (map (seg h) vs)"
proof -
  let ?g = "link_right h bp (hd (vs @ [base]))"
  have e: "unat (bp + 8 * h_size h bp) = unat bp + 8 * unat (h_size h bp)" by (rule unat_units) (use sp(2,3) in simp)
  have sg: "map (seg ?g) xs = map (seg h) xs" if "bp \<notin> set xs" for xs
    using that by (auto simp: link_right_def seg_def)
  have cg: "chain ?g x xs q = chain h x xs q" if "bp \<notin> set (x # xs)" for x xs q
    by (rule chain_cong) (use that in \<open>auto simp: link_right_def\<close>)
  show thesis
  proof (cases "vs = []")
    case True
    have "bp + 8 * h_size h bp \<noteq> base" using e bp(1) by (auto simp: word_less_nat_alt)
    then show thesis by (intro that [of "[]"]) (use True in \<open>simp_all add: link_right_def join_right_def seg_def\<close>)
  next
    case False
    then obtain x xs where x: "vs = x # xs" by (cases vs) auto
    have xs: "bp \<notin> set xs" "x \<noteq> bp" "chain h x xs base" using bp x c by auto
    show thesis
    proof (cases "bp + 8 * h_size h bp = x")
      case True
      then have u: "unat bp + 8 * unat (h_size h bp) = unat x" using e by simp
      have "unat x + 8 * unat (h_size h x) \<le> hi" using sp(1) x by (simp add: seg_def)
      then have "unat (h_size h bp) + unat (h_size h x) < 2 ^ 32" using u sp(3) by simp
      then have s: "unat (h_size h bp + h_size h x) = unat (h_size h bp) + unat (h_size h x)" by (simp add: unat_word_ariths)
      have "chain ?g bp xs base"
      proof (cases xs)
        case (Cons y ys)
        then show ?thesis using xs True x cg [of y ys base] by (auto simp: link_right_def)
      qed (use xs True x in \<open>simp add: link_right_def\<close>)
      then show thesis by (rule that) (use x True u s sg [OF xs(1)] in \<open>auto simp: join_right_def seg_def link_right_def\<close>)
    next
      case ne: False
      then have "unat bp + 8 * unat (h_size h bp) \<noteq> unat x" using e by (simp add: unat_eq_iff)
      moreover have "chain ?g bp vs base" using xs cg [of x xs base] x ne by (simp add: link_right_def)
      ultimately show thesis using x ne sg [OF bp(2)] by (intro that [of vs]) (auto simp: join_right_def seg_def link_right_def)
    qed
  qed
qed

lemma spaced_tight:
  assumes "spaced lo (map (seg h) vs) hi" and "vs \<noteq> [] \<Longrightarrow> lo' < unat (hd vs)"
  shows "spaced lo' (map (seg h) vs) hi"
  using assms by (cases vs) (auto simp: seg_def)

end
