(* ===== verification/Umalloc_Heap.thy ===== *)
theory Umalloc_Heap
  imports Umalloc
begin

text \<open>
  The theorems on free() and malloc(): the relinking of the list refines \<open>insert_block\<close>, and the allocator keeps its
  blocks apart from everything the program holds.
\<close>

section \<open>free\<close>

lemma free_link_ok:
  assumes inv: "heap_inv base h (us @ vs) hi" and bp: "base < bp" "bp \<notin> set (us @ vs)" "0 < h_size h bp"
    and p: "block_end (unat base) (map (seg h) us) \<le> unat bp" "unat bp + 8 * unat (h_size h bp) \<le> hi"
    and v: "vs \<noteq> [] \<Longrightarrow> unat bp + 8 * unat (h_size h bp) \<le> unat (hd vs)"
  obtains ys where "chain (free_link h bp (last (base # us))) base ys base" "set ys \<subseteq> set (bp # us @ vs)"
    "map (seg (free_link h bp (last (base # us)))) ys = insert_block (unat bp) (unat (h_size h bp)) (map (seg h) (us @ vs))"
    "last (base # us) \<in> set (base # ys)"
proof -
  let ?p = "last (base # us)" and ?n = "hd (vs @ [base])" and ?s = "unat (h_size h bp)"
  let ?g = "link_right h bp ?n" and ?f = "free_link h bp (last (base # us))"
  have ch: "chain h base us ?n" "vs \<noteq> [] \<Longrightarrow> chain h (hd vs) (tl vs) base"
    using inv by (auto simp: heap_inv_def chain_glue)
  have dis: "distinct (base # us)" and bpn: "bp \<notin> set (base # us @ vs)" using heap_nodes(2) [OF inv] bp by auto
  have hi: "hi < 2 ^ 31" and sp: "spaced (unat base) (map (seg h) (us @ vs)) hi" using inv by (simp_all add: heap_inv_def)
  have np: "h_ptr h ?p = ?n" by (rule chain_last [OF ch(1)])
  have f: "?f = (link_left ?g bp ?p)\<lparr>freep := ?p\<rparr>" unfolding free_link_parts np ..
  obtain ws where w: "chain ?g bp ws base" "set ws \<subseteq> set vs" "map (seg ?g) (bp # ws) = join_right (unat bp) ?s (map (seg h) vs)"
    by (rule link_right_ok [OF ch(2) bp(1), of "block_end (unat base) (map (seg h) us)" hi]) (use bp sp p v hi in \<open>auto simp: spaced_append\<close>)
  have g: "h_ptr ?g x = h_ptr h x" "h_size ?g x = h_size h x" if "x \<noteq> bp" for x using that by (auto simp: link_right_def)
  have pin: "?p \<in> set (base # us)" by (rule last_in_set) simp
  have "set (base # us) \<inter> set vs = {}" using heap_nodes(2) [OF inv] by auto
  then have "?p \<notin> set vs" using pin by (rule disjoint_iff [THEN iffD1, rule_format])
  then have pbp: "?p \<notin> set ws" using w(2) by (rule contra_subsetD [rotated])
  have "bp \<notin> set (base # us)" using bpn by simp
  then have "?p \<noteq> bp" using pin by metis
  note pbp = this pbp
  let ?left = "us \<noteq> [] \<and> block_end (unat base) (map (seg h) us) = unat bp"
  have left: "?p + 8 * h_size ?g ?p = bp \<longleftrightarrow> ?left"
  proof (cases "us = []")
    case True
    then show ?thesis using g [of base] inv bp(1) by (auto simp: heap_inv_def)
  next
    case False
    have "unat (last us) + 8 * unat (h_size h (last us)) \<le> unat bp" using p(1) block_end_last [OF False] by simp
    then have "unat (last us + 8 * h_size h (last us)) = unat (last us) + 8 * unat (h_size h (last us))"
      by (intro unat_units) (use p(2) hi in simp)
    then have "last us + 8 * h_size h (last us) = bp \<longleftrightarrow> ?left" using False block_end_last [OF False] by (simp add: unat_eq_iff)
    then show ?thesis using False g(2) [of "last us"] pbp(1) by simp
  qed
  have s0: "0 < ?s" using bp(3) by (simp add: word_less_nat_alt)
  have ins: "insert_block (unat bp) ?s (map (seg h) (us @ vs)) = (if ?left then butlast (map (seg h) us) @
      join_right (fst (last (map (seg h) us))) (snd (last (map (seg h) us)) + ?s) (map (seg h) vs)
    else map (seg h) us @ join_right (unat bp) ?s (map (seg h) vs))"
  proof -
    have "unat bp < fst (hd (map (seg h) vs))" if "map (seg h) vs \<noteq> []"
      using v that bp(3) by (cases vs) (auto simp: seg_def word_less_nat_alt)
    then show ?thesis using insert_block_split [of "unat base" "map (seg h) us" "map (seg h) vs" hi "unat bp" ?s] sp p(1) by simp
  qed
  have hw: "h_ptr ?g bp = hd (ws @ [base])" "ws \<noteq> [] \<Longrightarrow> chain ?g (hd ws) (tl ws) base" using w(1) chain_hd [of ?g bp ws base] by auto
  have fx: "h_ptr ?f x = h_ptr h x" "h_size ?f x = h_size h x" if "x \<noteq> ?p" "x \<noteq> bp" for x
    using that g unfolding f by (auto simp: link_left_def)
  have fg: "h_ptr ?f x = h_ptr ?g x" "h_size ?f x = h_size ?g x" if "x \<noteq> ?p" for x using that unfolding f by (auto simp: link_left_def)
  have fw: "x \<noteq> ?p" if "x \<in> set ws" for x using that pbp(2) by metis
  have cw: "chain ?f (hd ws) (tl ws) base" if "ws \<noteq> []"
  proof -
    have "chain ?f (hd ws) (tl ws) base = chain ?g (hd ws) (tl ws) base"
      by (intro chain_cong fg(1) fw) (simp only: list.collapse [OF that])
    with hw(2) [OF that] show ?thesis by (simp only:)
  qed
  have sw: "map (seg ?f) ws = map (seg ?g) ws" by (intro map_cong refl seg_cong fg(2) fw)
  have bu: "x \<noteq> bp" if "x \<in> set (base # us)" for x using that bpn by auto
  have cu: "chain ?f base us q" if "h_ptr ?f ?p = q" for q
    by (rule chain_relink [OF ch(1) dis _ that]) (erule fx(1), erule bu)
  show thesis
  proof (cases ?left)
    case True
    then obtain us' q where us: "us = us' @ [q]" by (cases us rule: rev_cases) auto
    then have lp: "?p = q" by simp
    have l: "?p + 8 * h_size ?g ?p = bp" using left True by simp
    have fp: "h_ptr ?f ?p = hd (ws @ [base])" "h_size ?f ?p = h_size h ?p + h_size ?g bp"
      using l hw(1) g(2) [OF pbp(1)] unfolding f by (simp_all add: link_left_def)
    have ends: "unat ?p + 8 * unat (h_size h ?p) = unat bp" using True block_end_last [of us "unat base" h] by simp
    have sv: "spaced (unat bp + 8 * ?s - 1) (map (seg h) vs) hi"
      by (rule spaced_tight [OF conjunct2 [OF sp [unfolded map_append spaced_append]]]) (use v s0 in linarith)
    have "0 < unat bp" using bp(1) by (simp add: word_less_nat_alt)
    then have "spaced (unat bp - 1) (map (seg ?g) (bp # ws)) hi" unfolding w(3)
      by (intro join_right_ok(1) [OF sv _ s0 p(2)]) simp
    then have "unat bp + 8 * unat (h_size ?g bp) \<le> hi" by (simp add: seg_def)
    then have "unat (h_size h ?p) + unat (h_size ?g bp) < 2 ^ 32" using ends hi by simp
    then have s: "unat (h_size h ?p + h_size ?g bp) = unat (h_size h ?p) + unat (h_size ?g bp)" by (simp add: unat_word_ariths)
    have "map (seg ?f) us' = map (seg h) us'" by (intro map_cong refl seg_cong fx(2)) (use us dis bpn in auto)
    moreover have "join_right (unat ?p) (unat (h_size h ?p) + ?s) (map (seg h) vs) = (unat ?p, unat (h_size h ?p) + unat (h_size ?g bp)) # map (seg ?g) ws"
      by (rule join_right_left [OF ends]) (simp add: w(3) [symmetric] seg_def)
    ultimately have "map (seg ?f) (us @ ws) = insert_block (unat bp) ?s (map (seg h) (us @ vs))"
      unfolding ins using True us fp(2) s sw unfolding lp by (simp add: seg_def)
    moreover have "chain ?f base (us @ ws) base" unfolding chain_glue using cu [OF fp(1)] cw by blast
    ultimately show thesis by (intro that [of "us @ ws"]) (use w(2) us in auto)
  next
    case False
    then have fp: "h_ptr ?f ?p = bp" "h_size ?f ?p = h_size h ?p" using left g(2) [OF pbp(1)] unfolding f by (auto simp: link_left_def)
    have "h_ptr ?f bp = hd (ws @ [base])" using hw(1) fg(1) [OF pbp(1) [symmetric]] by (simp only:)
    then have "chain ?f bp ws base" unfolding chain_hd [of ?f bp] using cw by blast
    then have c: "chain ?f base (us @ bp # ws) base" unfolding chain_append using cu [OF fp(1)] by blast
    have "h_size ?f x = h_size h x" if "x \<in> set (base # us)" for x using fx(2) [OF _ bu [OF that]] fp(2) by metis
    then have "map (seg ?f) us = map (seg h) us" by (intro map_cong refl seg_cong) simp
    moreover have "seg ?f bp = seg ?g bp" by (rule seg_cong [OF fg(2) [OF pbp(1) [symmetric]]])
    moreover have "insert_block (unat bp) ?s (map (seg h) (us @ vs)) = map (seg h) us @ map (seg ?g) (bp # ws)"
      unfolding ins w(3) using False by (simp only: if_False)
    ultimately have "map (seg ?f) (us @ bp # ws) = insert_block (unat bp) ?s (map (seg h) (us @ vs))" using sw by simp
    then show thesis by (intro that [OF c]) (use w(2) in auto)
  qed
qed

lemma chain_split:
  assumes "spaced lo (map (seg h) xs) hi" and "lo \<le> unat bp" and "span (unat bp, s) \<inter> cover (map (seg h) xs) = {}" and "0 < s"
  obtains us vs where "xs = us @ vs" "block_end lo (map (seg h) us) \<le> unat bp" "vs \<noteq> [] \<Longrightarrow> unat bp + 8 * s \<le> unat (hd vs)"
  using assms
proof (induction xs arbitrary: lo thesis)
  case Nil
  then show ?case by (intro Nil(1) [of "[]" "[]"]) simp_all
next
  case (Cons x xs)
  let ?m = "unat (h_size h x)"
  have sp: "0 < ?m" "spaced (unat x + 8 * ?m) (map (seg h) xs) hi" using Cons.prems(2) by (simp_all add: seg_def [of h x])
  have dj: "span (unat bp, s) \<inter> span (unat x, ?m) = {}" "span (unat bp, s) \<inter> cover (map (seg h) xs) = {}"
    using Cons.prems(4) by (auto simp: seg_def [of h x])
  show ?case
  proof (cases "unat bp + 8 * s \<le> unat x")
    case True
    then show ?thesis by (intro Cons.prems(1) [of "[]" "x # xs"]) (use Cons.prems(3) in simp_all)
  next
    case False
    then have "unat x + 8 * ?m \<le> unat bp" using span_apart [OF dj(1) Cons.prems(5) sp(1)] by simp
    from Cons.IH [OF _ sp(2) this dj(2) Cons.prems(5)] obtain us vs where
      "xs = us @ vs" "block_end (unat x + 8 * ?m) (map (seg h) us) \<le> unat bp" "vs \<noteq> [] \<Longrightarrow> unat bp + 8 * s \<le> unat (hd vs)" by metis
    then show ?thesis by (intro Cons.prems(1) [of "x # us" vs]) (simp_all add: seg_def [of h x])
  qed
qed

lemma last_below:
  assumes "spaced (unat base) (map (seg h) us) hi" and "block_end (unat base) (map (seg h) us) \<le> unat bp" and "base < bp"
  shows "last (base # us) < bp"
proof (cases "us = []")
  case False
  then have "0 < unat (h_size h (last us))"
    using assms(1) by (cases us rule: rev_cases) (simp_all add: spaced_append seg_def)
  with False assms(2) show ?thesis by (simp add: block_end_last word_less_nat_alt)
qed (use assms(3) in simp)

lemma free_link_outside:
  "x \<noteq> bp \<Longrightarrow> x \<noteq> p \<Longrightarrow> h_ptr (free_link h bp p) x = h_ptr h x \<and> h_size (free_link h bp p) x = h_size h x"
  by (simp add: free_link_parts link_right_def link_left_def)

lemma free_link_base: "h_size h base = 0 \<Longrightarrow> base \<noteq> bp \<Longrightarrow> h_size (free_link h bp p) base = 0"
  by (cases "p = base") (simp_all add: free_link_parts link_right_def link_left_def)

lemma block_notin: "span (unat bp, s) \<inter> cover (map (seg h) xs) = {} \<Longrightarrow> spaced lo (map (seg h) xs) hi \<Longrightarrow> 0 < s \<Longrightarrow> bp \<notin> set xs"
proof
  assume d: "span (unat bp, s) \<inter> cover (map (seg h) xs) = {}" and sp: "spaced lo (map (seg h) xs) hi" and s: "0 < s" and "bp \<in> set xs"
  then obtain us vs where x: "xs = us @ bp # vs" by (metis split_list)
  then have "0 < unat (h_size h bp)" using sp by (simp add: spaced_append seg_def)
  then have "unat bp \<in> span (unat bp, s) \<inter> cover (map (seg h) xs)" using x s by (simp add: span_def seg_def)
  with d show False by simp
qed

text \<open>free() of a block that touches no free memory: the list is the sorted insertion of the block.\<close>

lemma u_free_list:
  assumes inv: "heap_inv base h xs hi" and b: "base < bp" "0 < h_size h bp" "unat bp + 8 * unat (h_size h bp) \<le> hi"
    and d: "span (seg h bp) \<inter> cover (map (seg h) xs) = {}" and k: "2 * length xs + 1 < k"
  obtains g ys where "u_free k (bp + 8) h = UDone g" "heap_inv base g ys hi" "length ys \<le> length xs + 1"
    "map (seg g) ys = insert_block (unat bp) (unat (h_size h bp)) (map (seg h) xs)" "set ys \<subseteq> set (bp # xs)"
    "\<And>x. x \<notin> set (bp # base # xs) \<Longrightarrow> h_size g x = h_size h x"
proof -
  let ?s = "unat (h_size h bp)"
  have sp: "spaced (unat base) (map (seg h) xs) hi" and hi: "hi < 2 ^ 31" "unat base < hi" and bs: "base \<noteq> 0" "h_size h base = 0"
    and fp: "freep h \<in> set (base # xs)" using inv by (simp_all add: heap_inv_def)
  have s: "0 < ?s" and lo: "unat base \<le> unat bp" "unat base < unat bp" using b(1,2) by (simp_all add: word_less_nat_alt)
  have d': "span (unat bp, ?s) \<inter> cover (map (seg h) xs) = {}" using d by (simp add: seg_def)
  obtain us vs where x: "xs = us @ vs" "block_end (unat base) (map (seg h) us) \<le> unat bp" "vs \<noteq> [] \<Longrightarrow> unat bp + 8 * ?s \<le> unat (hd vs)"
    by (rule chain_split [OF sp lo(1) d' s]) (rule that)
  note inv' = inv [unfolded x(1)]
  have ni: "bp \<notin> set xs" by (rule block_notin [OF d' sp s])
  have "spaced (unat base) (map (seg h) us) hi" using sp x(1) by (simp add: spaced_append)
  note lst = last_below [OF this x(2) b(1)]
  have hv: "bp < hd vs" if "vs \<noteq> []" using x(3) [OF that] s by (simp add: word_less_nat_alt)
  let ?p = "last (base # us)" and ?g = "free_link h bp (last (base # us))"
  obtain i where i: "i \<le> length xs" "freep h = (base # xs) ! i" using fp by (metis in_set_conv_nth length_Cons less_Suc_eq_le)
  have "free_scan k h bp (freep h) = Some ?p" unfolding i(2) x(1)
    by (rule free_scan_walk(2) [OF inv' lst hv b(1)]) (use ni x(1) i k in simp_all)
  moreover have "freep h \<noteq> 0" using fp bs heap_nodes(1) [OF inv] by (auto simp: word_less_nat_alt)
  ultimately have u: "u_free k (bp + 8) h = UDone ?g" by (simp add: u_free_def del: last.simps)
  obtain ys where y: "chain ?g base ys base" "set ys \<subseteq> set (bp # us @ vs)"
    "map (seg ?g) ys = insert_block (unat bp) ?s (map (seg h) (us @ vs))" "?p \<in> set (base # ys)"
    by (rule free_link_ok [OF inv' b(1) ni [unfolded x(1)] b(2) x(2) b(3)]; (erule x(3))?) (rule that)
  note ok = insert_block_ok [OF sp lo(2) s b(3) d']
  have "base \<noteq> bp" using b(1) by simp
  note free_link_base [OF bs(2) this, of ?p]
  moreover have "spaced (unat base) (map (seg ?g) ys) hi" unfolding y(3) using ok x(1) by simp
  moreover have "freep ?g = ?p" unfolding free_link_parts by simp
  ultimately have g: "heap_inv base ?g ys hi" unfolding heap_inv_def using y(1,4) bs(1) hi by (simp only: simp_thms)
  have "length ys = card (set ys)" using heap_nodes(2) [OF g] by (simp add: distinct_card)
  also have "\<dots> \<le> card (set (bp # xs))" using y(2) x(1) by (intro card_mono) auto
  also have "\<dots> \<le> length xs + 1" using card_length [of "bp # xs"] by simp
  finally have n: "length ys \<le> length xs + 1" .
  have "?p \<in> set (base # us)" by (rule last_in_set) simp
  moreover have "set (base # us) \<subseteq> set (base # xs)" using x(1) by auto
  ultimately have pin: "?p \<in> set (base # xs)" by (rule rev_subsetD)
  have out: "h_size ?g z = h_size h z" if "z \<notin> set (bp # base # xs)" for z
    using that pin free_link_outside [of z bp ?p h] by (metis list.set_intros)
  show thesis by (rule that [OF u g n]) (use y(2,3) x(1) out in \<open>simp_all only:\<close>)
qed

section \<open>malloc\<close>

text \<open>Cutting a block out of the free memory: all of it, or its tail.\<close>

lemma spaced_self: "spaced lo ss hi \<Longrightarrow> spaced lo ss (block_end lo ss)"
proof (induction lo ss hi rule: spaced.induct)
  case (2 lo a n ss hi)
  then show ?case using block_end_le [of "a + 8 * n" ss hi] by simp
qed simp

lemma spaced_middle:
  assumes "spaced lo (us @ (c, m) # vs) hi"
  shows "span (c, m) \<inter> cover (us @ vs) = {}" "spaced lo (us @ vs) hi"
proof -
  have sp: "spaced lo us hi" "block_end lo us < c" "spaced (c + 8 * m) vs hi" using assms by (simp_all add: spaced_append)
  have "x < c" if "x \<in> cover us" for x using spaced_cover [OF spaced_self [OF sp(1)] that] sp(2) by simp
  moreover have "c + 8 * m < x" if "x \<in> cover vs" for x using spaced_cover [OF sp(3) that] by simp
  ultimately show "span (c, m) \<inter> cover (us @ vs) = {}" by (fastforce simp: span_def)
  have "spaced (block_end lo us) vs hi" by (rule spaced_mono [OF sp(3)]) (use sp(2) in simp_all)
  with sp(1) show "spaced lo (us @ vs) hi" by (simp add: spaced_append)
qed

lemma spaced_cut:
  assumes "spaced lo (us @ (c, m + n) # vs) hi" and "0 < m"
  shows "spaced lo (us @ (c, m) # vs) hi" "cover (us @ (c, m + n) # vs) = span (c + 8 * m, n) \<union> cover (us @ (c, m) # vs)"
    "span (c + 8 * m, n) \<inter> cover (us @ (c, m) # vs) = {}"
proof -
  have sp: "block_end lo us < c" "c + 8 * (m + n) \<le> hi" "spaced (c + 8 * (m + n)) vs hi" "spaced lo us hi"
    using assms(1) by (simp_all add: spaced_append)
  have "spaced (c + 8 * m) vs hi" by (rule spaced_mono [OF sp(3)]) simp_all
  then show "spaced lo (us @ (c, m) # vs) hi" using sp assms(2) by (simp add: spaced_append)
  show "cover (us @ (c, m + n) # vs) = span (c + 8 * m, n) \<union> cover (us @ (c, m) # vs)" by (auto simp: span_add)
  have "span (c, m + n) \<inter> cover (us @ vs) = {}" by (rule spaced_middle(1) [OF assms(1)])
  then show "span (c + 8 * m, n) \<inter> cover (us @ (c, m) # vs) = {}" by (auto simp: span_add) (simp add: span_def)
qed

lemma join_right_big: "k \<le> n \<Longrightarrow> \<exists>s \<in> set (join_right a n ss). k \<le> snd s"
  by (cases ss) (force simp: join_right_def)+

lemma insert_block_big: "\<exists>s \<in> set (insert_block a n ss). n \<le> snd s"
  by (induction a n ss rule: insert_block.induct) (simp_all add: join_right_big disjI2)

lemma cover_node: "x \<in> set xs \<Longrightarrow> spaced lo (map (seg h) xs) hi \<Longrightarrow> unat x \<in> cover (map (seg h) xs)"
proof -
  assume "x \<in> set xs" and sp: "spaced lo (map (seg h) xs) hi"
  then obtain us vs where "xs = us @ x # vs" by (metis split_list)
  with sp show ?thesis by (simp add: spaced_append seg_def [of h x]) (simp add: span_def)
qed

text \<open>What malloc() does to the free memory when it takes the block at \<open>a\<close>.\<close>

definition took :: "uint \<Rightarrow> nat \<Rightarrow> nat set \<Rightarrow> nat \<Rightarrow> uheap \<Rightarrow> uint \<Rightarrow> uint \<Rightarrow> uheap \<Rightarrow> uint list \<Rightarrow> bool" where
  "took base hi F l h n a g ys \<longleftrightarrow> heap_inv base g ys hi \<and> h_size g a = n \<and> length ys \<le> l \<and>
     F = span (unat a, unat n) \<union> cover (map (seg g) ys) \<and> span (unat a, unat n) \<inter> cover (map (seg g) ys) = {} \<and>
     (\<forall>x. unat x \<notin> F \<longrightarrow> h_size g x = h_size h x)"

lemma took_widen:
  "took base hi F l g n a f vs \<Longrightarrow> l \<le> l' \<Longrightarrow> (\<And>x. unat x \<notin> F \<Longrightarrow> h_size g x = h_size h x) \<Longrightarrow> took base hi F l' h n a f vs"
  by (simp add: took_def)

lemma chain_pred:
  assumes inv: "heap_inv base h xs hi" and "prevp \<in> set (base # xs)" and "h_ptr h prevp = p" and "p \<noteq> base"
  obtains us vs where "xs = us @ p # vs" "prevp = last (base # us)"
proof -
  obtain i where i: "i \<le> length xs" "prevp = (base # xs) ! i" using assms(2) by (metis in_set_conv_nth length_Cons less_Suc_eq_le)
  have "chain h base xs base" using inv by (simp add: heap_inv_def)
  from chain_next [OF this i(1)] have n: "(xs @ [base]) ! i = p" using i(2) assms(3) by simp
  then have lt: "i < length xs" using i(1) assms(4) by (cases "i = length xs") simp_all
  then have "xs = take i xs @ p # drop (Suc i) xs" using n id_take_nth_drop [OF lt] by (simp add: nth_append)
  moreover have "prevp = last (base # take i xs)" using i lt by (cases i) (auto simp: last_conv_nth)
  ultimately show thesis by (rule that)
qed

lemma malloc_exact:
  assumes inv: "heap_inv base h (us @ p # vs) hi"
  shows "took base hi (cover (map (seg h) (us @ p # vs))) (length (us @ p # vs)) h (h_size h p) p
    ((set_ptr (last (base # us)) (h_ptr h p) h)\<lparr>freep := last (base # us)\<rparr>) (us @ vs)"
proof -
  let ?q = "last (base # us)"
  let ?g = "(set_ptr ?q (h_ptr h p) h)\<lparr>freep := ?q\<rparr>"
  have sg: "seg ?g = seg h" by (simp add: fun_eq_iff seg_def)
  have ch: "chain h base us p" "chain h p vs base" and sp: "spaced (unat base) (map (seg h) us @ (unat p, unat (h_size h p)) # map (seg h) vs) hi"
    using inv by (simp_all add: heap_inv_def chain_append seg_def [of h p])
  have q: "?q \<in> set (base # us)" by (rule last_in_set) simp
  have dis: "distinct (base # us)" "set (base # us) \<inter> set (p # vs) = {}" using heap_nodes(2) [OF inv] by auto
  have "chain ?g base us (h_ptr h p)" by (rule chain_relink [OF ch(1) dis(1)]) (simp_all del: last.simps)
  moreover have "chain ?g (hd vs) (tl vs) base" if "vs \<noteq> []"
  proof -
    have "chain h (hd vs) (tl vs) base" using ch(2) that chain_hd [of h p vs base] by simp
    moreover have "x \<noteq> ?q" if "x \<in> set vs" for x using that q dis(2) by (metis IntI empty_iff list.set_intros(2))
    ultimately show ?thesis using that by (subst chain_cong [where g = h]) (simp_all del: last.simps add: list.set_sel)
  qed
  ultimately have "chain ?g base (us @ vs) base" unfolding chain_glue using ch(2) chain_hd [of h p vs base] by metis
  moreover have "?q \<in> set (base # us @ vs)" using q by auto
  ultimately have "heap_inv base ?g (us @ vs) hi"
    using inv spaced_middle(2) [OF sp] unfolding heap_inv_def sg by (simp del: last.simps)
  then show ?thesis unfolding took_def sg using spaced_middle(1) [OF sp] by (auto simp: seg_def [of h p] simp del: last.simps)
qed

lemma malloc_tail:
  assumes inv: "heap_inv base h (us @ p # vs) hi" and n: "0 < n" "n < h_size h p" and q: "q \<in> set (base # us @ p # vs)"
  defines "g \<equiv> set_size p (h_size h p - n) h" and "a \<equiv> p + 8 * (h_size h p - n)"
  shows "took base hi (cover (map (seg h) (us @ p # vs))) (length (us @ p # vs)) h n a ((set_size a n g)\<lparr>freep := q\<rparr>) (us @ p # vs)"
proof -
  let ?f = "(set_size a n g)\<lparr>freep := q\<rparr>" and ?m = "unat (h_size h p) - unat n"
  have m: "unat (h_size h p - n) = ?m" using n(2) by (simp add: unat_sub word_less_nat_alt word_le_nat_alt)
  have n': "0 < unat n" "unat n < unat (h_size h p)" using n by (simp_all add: word_less_nat_alt)
  then have sum: "unat (h_size h p) = ?m + unat n" "0 < ?m" by simp_all
  have hi: "hi < 2 ^ 31" and sp: "spaced (unat base) (map (seg h) us @ (unat p, ?m + unat n) # map (seg h) vs) hi"
    using inv sum(1) by (simp_all add: heap_inv_def seg_def [of h p])
  have "unat p + 8 * (?m + unat n) \<le> hi" using sp by (simp add: spaced_append)
  then have a: "unat a = unat p + 8 * ?m" unfolding a_def m [symmetric] by (intro unat_units) (use hi m in simp)
  note cut = spaced_cut [OF sp sum(2), folded a]
  have dis: "p \<notin> set (us @ vs)" "base \<noteq> p" using heap_nodes(2) [OF inv] by auto
  have "unat a \<in> span (unat a, unat n)" using n' by (simp add: span_def)
  then have "unat a \<notin> cover (map (seg h) (us @ vs))" "unat a \<notin> span (unat p, ?m)" using cut(3) by auto
  moreover have "spaced (unat base) (map (seg h) (us @ vs)) hi" using spaced_middle(2) [OF sp] by simp
  ultimately have na: "a \<notin> set (us @ vs)" "a \<noteq> p" using cover_node sum(2) by (blast, auto simp: span_def)
  have "base \<noteq> a" using a sp block_end_le [of "unat base" "map (seg h) us" hi] by (auto simp: spaced_append)
  have sg: "map (seg ?f) xs = map (seg h) xs" if "set xs \<subseteq> set (us @ vs)" for xs
    using that na(1) dis(1) by (intro map_cong refl seg_cong) (auto simp: g_def)
  have sf: "map (seg ?f) (us @ p # vs) = map (seg h) us @ (unat p, ?m) # map (seg h) vs"
    using na(2) m sg [of us] sg [of vs] by (simp add: g_def seg_def [of _ p])
  have "chain ?f base (us @ p # vs) base = chain h base (us @ p # vs) base" by (rule chain_cong) (simp add: g_def)
  then have inv': "heap_inv base ?f (us @ p # vs) hi"
    using inv cut(1) dis(2) \<open>base \<noteq> a\<close> q unfolding heap_inv_def sf by (simp add: g_def)
  have old: "map (seg h) (us @ p # vs) = map (seg h) us @ (unat p, ?m + unat n) # map (seg h) vs" using sum(1) by (simp add: seg_def [of h p])
  have out: "h_size ?f x = h_size h x" if "unat x \<notin> cover (map (seg h) (us @ p # vs))" for x
  proof -
    have "x \<noteq> p" using that n' unfolding old by (auto simp: span_def)
    moreover have "x \<noteq> a" using that \<open>unat a \<in> span (unat a, unat n)\<close> unfolding old cut(2) by auto
    ultimately show ?thesis by (simp add: g_def)
  qed
  show ?thesis unfolding took_def sf
    by (intro conjI allI impI inv' cut(3) out; (simp add: old cut(2); fail)?) (simp only: old cut(2))
qed

lemma heap_freep: "heap_inv base h xs hi \<Longrightarrow> freep h \<noteq> 0"
  using heap_nodes(1) [of base h xs hi] by (auto simp: heap_inv_def word_less_nat_alt)

text \<open>The search of malloc() goes once round the list, from the block behind \<open>freep\<close> to \<open>freep\<close> itself.\<close>

lemma heap_ring:
  assumes "heap_inv base h xs hi"
  obtains zs where "chain h (freep h) zs (freep h)" "set (freep h # zs) = set (base # xs)" "length zs = length xs" "freep h \<notin> set zs"
proof -
  have c: "chain h base xs base" and f: "freep h \<in> set (base # xs)" using assms by (simp_all add: heap_inv_def)
  show thesis
  proof (cases "freep h = base")
    case True
    then show thesis using c heap_nodes(2) [OF assms] by (intro that [of xs]) simp_all
  next
    case False
    then obtain us vs where x: "xs = us @ freep h # vs" using f by (metis set_ConsD split_list)
    then have "chain h (freep h) (vs @ base # us) (freep h)" using c chain_append [of h base us "freep h" vs base] chain_append [of h "freep h" vs base us "freep h"] by metis
    then show thesis
    proof (rule that)
      show "set (freep h # vs @ base # us) = set (base # xs)" by (subst x) auto
      show "length (vs @ base # us) = length xs" by (subst x) simp
      show "freep h \<notin> set (vs @ base # us)" using heap_nodes(2) [OF assms] False x by (metis Un_iff distinct.simps(2) distinct_append not_distinct_conv_prefix set_ConsD set_append distinct_append disjoint_iff list.set_intros(1))
    qed
  qed
qed

lemma malloc_loop_turn:
  "n < h_size h p \<Longrightarrow> malloc_loop (Suc k) n prevp p h = (let a = p + 8 * (h_size h p - n)
     in UDone (a + 8, (set_size a n (set_size p (h_size h p - n) h))\<lparr>freep := prevp\<rparr>))"
  "\<not> n \<le> h_size h p \<Longrightarrow> p \<noteq> freep h \<Longrightarrow> malloc_loop (Suc k) n prevp p h = malloc_loop k n p (h_ptr h p) h"
  "\<not> n \<le> h_size h (freep h) \<Longrightarrow> malloc_loop (Suc k) n prevp (freep h) h =
     ubind (morecore k n h) (\<lambda>(p, h). if p = 0 then UDone (0, h) else malloc_loop k n p (h_ptr h p) h)"
  by (auto simp: Let_def)

definition found :: "uint \<Rightarrow> nat \<Rightarrow> uheap \<Rightarrow> uint list \<Rightarrow> uint \<Rightarrow> (uint \<times> uheap) uprog \<Rightarrow> bool" where
  "found base hi h xs n r \<longleftrightarrow> (\<exists>a g ys. r = UDone (a + 8, g) \<and> took base hi (cover (map (seg h) xs)) (length xs) h n a g ys)"

lemma malloc_fits:
  assumes inv: "heap_inv base h xs hi" and "prevp \<in> set (base # xs)" and "h_ptr h prevp = p" and n: "0 < n" "n \<le> h_size h p"
  shows "found base hi h xs n (malloc_loop (Suc k) n prevp p h)"
proof -
  have "p \<noteq> base" using n inv by (auto simp: heap_inv_def)
  from chain_pred [OF inv assms(2,3) this] obtain us vs where x: "xs = us @ p # vs" "prevp = last (base # us)" by metis
  show ?thesis
  proof (cases "n = h_size h p")
    case True
    then have "malloc_loop (Suc k) n prevp p h = UDone (p + 8, (set_ptr prevp (h_ptr h p) h)\<lparr>freep := prevp\<rparr>)" by simp
    with malloc_exact [OF inv [unfolded x(1)], folded x] True show ?thesis unfolding found_def by blast
  next
    case False
    with n(2) have lt: "n < h_size h p" by simp
    let ?g = "set_size p (h_size h p - n) h" and ?a = "p + 8 * (h_size h p - n)"
    have "malloc_loop (Suc k) n prevp p h = UDone (?a + 8, (set_size ?a n ?g)\<lparr>freep := prevp\<rparr>)" unfolding malloc_loop_turn(1) [OF lt] Let_def ..
    with malloc_tail [OF inv [unfolded x(1)] n(1) lt assms(2) [unfolded x(1)], folded x(1)] show ?thesis unfolding found_def by blast
  qed
qed

lemma malloc_walk:
  assumes inv: "heap_inv base h xs hi" and "0 < n"
  shows "chain h prevp zs (freep h) \<Longrightarrow> set (prevp # zs) \<subseteq> set (base # xs) \<Longrightarrow> freep h \<notin> set zs \<Longrightarrow>
    if \<exists>x \<in> set (freep h # zs). n \<le> h_size h x
    then found base hi h xs n (malloc_loop (Suc (length zs + k)) n prevp (hd (zs @ [freep h])) h)
    else malloc_loop (Suc (length zs + k)) n prevp (hd (zs @ [freep h])) h =
      ubind (morecore k n h) (\<lambda>(p, h). if p = 0 then UDone (0, h) else malloc_loop k n p (h_ptr h p) h)"
proof (induction zs arbitrary: prevp)
  case Nil
  show ?case
  proof (cases "n \<le> h_size h (freep h)")
    case True
    then show ?thesis using malloc_fits [OF inv _ _ assms(2) True, of prevp k] Nil by (simp del: malloc_loop.simps)
  next
    case False
    then show ?thesis using malloc_loop_turn(3) [OF False, of k prevp] by (simp del: malloc_loop.simps)
  qed
next
  case (Cons z zs)
  show ?case
  proof (cases "n \<le> h_size h z")
    case True
    then show ?thesis using malloc_fits [OF inv _ _ assms(2) True, of prevp "length (z # zs) + k"] Cons.prems by (simp del: malloc_loop.simps)
  next
    case False
    have "h_ptr h z = hd (zs @ [freep h])" using Cons.prems(1) chain_hd [of h z zs "freep h"] by simp
    then have "malloc_loop (Suc (length (z # zs) + k)) n prevp z h = malloc_loop (Suc (length zs + k)) n z (hd (zs @ [freep h])) h"
      using malloc_loop_turn(2) [OF False, of "Suc (length zs + k)" prevp] Cons.prems(3) by (auto simp del: malloc_loop.simps)
    with Cons.IH [of z] Cons.prems False show ?thesis by (simp del: malloc_loop.simps)
  qed
qed

text \<open>
  What malloc() relies on of sbrk(n) for n not negative: it fails with -1, or returns the old break and moves the
  break up by n, below KERNBASE.
\<close>

definition sbrk_ok :: "'w os \<Rightarrow> ('w \<Rightarrow> nat) \<Rightarrow> bool" where
  "sbrk_ok k brk \<longleftrightarrow> (\<forall>n w. case os_sys k (CSbrk (int n)) w of (r, w') \<Rightarrow>
     r = -1 \<and> brk w' = brk w \<or> r = int (brk w) \<and> brk w' = brk w + n \<and> brk w' < 2 ^ 31)"

lemma heap_inv_extend:
  assumes inv: "heap_inv base h xs hi" and "hi \<le> unat bp" and "unat bp \<le> hi'" and "hi' < 2 ^ 31"
  shows "heap_inv base (set_size bp n h) xs hi'" "map (seg (set_size bp n h)) xs = map (seg h) xs" "bp \<notin> set (base # xs)" "base < bp"
proof -
  let ?h = "set_size bp n h"
  have sp: "spaced (unat base) (map (seg h) xs) hi" and hi: "unat base < hi" using inv by (simp_all add: heap_inv_def)
  have "unat x < hi" if "x \<in> set xs" for x using spaced_cover [OF sp cover_node [OF that sp]] by simp
  then show ni: "bp \<notin> set (base # xs)" using assms(2) hi by fastforce
  show sg: "map (seg ?h) xs = map (seg h) xs" using ni by (intro map_cong refl seg_cong) auto
  show "base < bp" using hi assms(2) by (simp add: word_less_nat_alt)
  have "spaced (unat base) (map (seg h) xs) hi'" by (rule spaced_mono [OF sp]) (use assms(2,3) in simp_all)
  moreover have "chain ?h base xs base = chain h base xs base" by (rule chain_cong) simp
  ultimately show "heap_inv base ?h xs hi'" using inv ni assms(2-4) unfolding heap_inv_def sg by auto
qed

lemma insert_block_node:
  assumes "map (seg g) ys = insert_block a (unat n) ss"
  shows "\<exists>y \<in> set ys. n \<le> h_size g y"
proof -
  have "\<exists>s \<in> set (map (seg g) ys). unat n \<le> snd s" unfolding assms by (rule insert_block_big)
  then show ?thesis by (auto simp: seg_def word_le_nat_alt)
qed

text \<open>\<open>grown\<close>: the free memory after morecore(), which is the old one and the memory between the breaks.\<close>

definition grown :: "uint \<Rightarrow> uheap \<Rightarrow> uint list \<Rightarrow> nat \<Rightarrow> nat \<Rightarrow> uint \<Rightarrow> uheap \<Rightarrow> uint list \<Rightarrow> bool" where
  "grown base h xs b b' n g ys \<longleftrightarrow> heap_inv base g ys b' \<and> b \<le> b' \<and> length ys \<le> length xs + 1 \<and> (\<exists>y \<in> set ys. n \<le> h_size g y) \<and>
     cover (map (seg g) ys) = {b..<b'} \<union> cover (map (seg h) xs) \<and>
     (\<forall>x. unat x \<notin> {b..<b'} \<union> cover (map (seg h) xs) \<longrightarrow> h_size g x = h_size h x)"

lemma morecore_free:
  assumes inv: "heap_inv base h xs hi" and hi: "hi \<le> b" "b + 8 * unat nu < 2 ^ 31" and nu: "0 < nu" "n \<le> nu" and k: "2 * length xs + 1 < k"
  obtains g ys where "u_free k (of_nat b + 8) (set_size (of_nat b) nu h) = UDone g" "grown base h xs b (b + 8 * unat nu) n g ys"
proof -
  let ?b = "of_nat b :: uint" and ?hi = "b + 8 * unat nu"
  let ?h = "set_size ?b nu h"
  have ub: "unat ?b = b" using hi(2) by (simp add: unat_of_nat)
  have ext: "heap_inv base ?h xs ?hi" "map (seg ?h) xs = map (seg h) xs" "?b \<notin> set (base # xs)" "base < ?b"
    by (rule heap_inv_extend [OF inv, of ?b ?hi]; use hi ub in simp)+
  have sp: "spaced (unat base) (map (seg h) xs) hi" and b0: "h_size h base = 0" "unat base < hi" using inv by (simp_all add: heap_inv_def)
  have sg: "seg ?h ?b = (b, unat nu)" by (simp add: seg_def ub)
  have dj: "span (seg ?h ?b) \<inter> cover (map (seg ?h) xs) = {}"
    unfolding sg ext(2) using spaced_cover [OF sp] hi(1) by (fastforce simp: span_def)
  obtain g ys where g: "u_free k (?b + 8) ?h = UDone g" "heap_inv base g ys ?hi" "length ys \<le> length xs + 1"
    "map (seg g) ys = insert_block (unat ?b) (unat (h_size ?h ?b)) (map (seg ?h) xs)" "set ys \<subseteq> set (?b # xs)"
    "\<And>x. x \<notin> set (?b # base # xs) \<Longrightarrow> h_size g x = h_size ?h x"
    by (rule u_free_list [OF ext(1,4) _ _ dj k]) (use nu ub in \<open>simp_all add: that\<close>)
  have s: "0 < unat nu" "unat base < b" using nu(1) ext(4) ub by (simp_all add: word_less_nat_alt)
  have "spaced (unat base) (map (seg h) xs) ?hi" by (rule spaced_mono [OF sp]) (use hi(1) in simp_all)
  from insert_block_ok [OF this s(2,1) _ dj [unfolded sg ext(2)]]
  have cov: "cover (map (seg g) ys) = {b..<?hi} \<union> cover (map (seg h) xs)" unfolding g(4) ext(2) by (simp add: ub) (simp add: span_def)
  have "\<exists>y \<in> set ys. nu \<le> h_size g y" by (rule insert_block_node [of g ys b nu "map (seg h) xs"]) (use g(4) ext(2) ub in simp)
  then have big: "\<exists>y \<in> set ys. n \<le> h_size g y" using nu(2) order_trans by blast
  have "h_size g x = h_size h x" if "unat x \<notin> {b..<?hi} \<union> cover (map (seg h) xs)" for x
  proof (cases "x = base")
    case True
    then show ?thesis using g(2) b0(1) by (simp add: heap_inv_def)
  next
    case False
    have "x \<noteq> ?b" using that s(1) ub by auto
    moreover have "x \<notin> set xs" using that cover_node [OF _ sp] by auto
    ultimately show ?thesis using g(6) [of x] False by simp
  qed
  with g(1,2,3) cov big show thesis by (intro that [of g ys]) (simp_all add: grown_def)
qed

lemma sint_of_nat_small: "m < 2 ^ 31 \<Longrightarrow> sint (of_nat m :: uint) = int m"
  by (simp only: signed_of_nat of_int_eq_id id_apply) (rule signed_take_bit_int_eq_self; simp)

lemma sint_units: "8 * unat nu < 2 ^ 31 \<Longrightarrow> sint (nu * 8 :: uint) = int (8 * unat nu)"
  using sint_of_nat_small [of "8 * unat nu"] by (simp add: mult.commute)


end
