(* ===== verification/Umalloc_Calls.thy ===== *)
theory Umalloc_Calls
  imports Umalloc_Heap
begin

text \<open>
  malloc() against a kernel, and a program that calls malloc() and free() in any order: every call returns, and
  the memory the program holds is never handed out twice.
\<close>

section \<open>One call of malloc\<close>

lemma morecore_run:
  assumes sb: "sbrk_ok os brk" and inv: "heap_inv base h xs hi" "hi \<le> brk w" and n: "0 < n" "8 * unat n < 2 ^ 31" and k: "2 * length xs + 1 < k"
  obtains w' where "urun os (morecore k n h) w = (Returned (0, h), w')" "brk w' = brk w"
  | w' g ys where "urun os (morecore k n h) w = (Returned (freep g, g), w')" "grown base h xs (brk w) (brk w') n g ys"
proof -
  define nu where "nu = (if n < 4096 then 4096 else n)"
  have nu: "0 < nu" "n \<le> nu" "8 * unat nu < 2 ^ 31" using n by (auto simp: nu_def)
  obtain r w' where rw: "os_sys os (CSbrk (int (8 * unat nu))) w = (r, w')" by fastforce
  have m: "urun os (morecore k n h) w = urun os (if r = -1 then UDone (0, h) else
      ubind (u_free k (of_int r + 8) (set_size (of_int r) nu h)) (\<lambda>h. UDone (freep h, h))) w'"
    unfolding morecore_def Let_def nu_def [symmetric] usys_def sint_units [OF nu(3)] by (simp only: ubind.simps urun.simps rw prod.case)
  note sb [unfolded sbrk_ok_def, THEN spec [of _ "8 * unat nu"], THEN spec [of _ w], unfolded rw prod.case]
  then consider "r = -1" "brk w' = brk w" | "r = int (brk w)" "brk w' = brk w + 8 * unat nu" "brk w' < 2 ^ 31" by auto
  then show thesis
  proof cases
    case 1
    then show thesis using m by (intro that(1) [of w']) simp_all
  next
    case 2
    obtain g ys where g: "u_free k (of_nat (brk w) + 8) (set_size (of_nat (brk w)) nu h) = UDone g"
      "grown base h xs (brk w) (brk w + 8 * unat nu) n g ys"
      by (rule morecore_free [OF inv(1,2) 2(3) [unfolded 2(2)] nu(1,2) k]) (rule that)
    then show thesis using m 2 by (intro that(2) [of g w' ys]) simp_all
  qed
qed

text \<open>The search of malloc(), with one call of morecore() at most.\<close>

lemma malloc_search:
  assumes inv: "heap_inv base h xs hi" and n: "0 < n" and k: "length xs < k" and fit: "\<exists>x \<in> set xs. n \<le> h_size h x"
  shows "found base hi h xs n (malloc_loop k n (freep h) (h_ptr h (freep h)) h)"
proof -
  obtain zs where z: "chain h (freep h) zs (freep h)" "set (freep h # zs) = set (base # xs)" "length zs = length xs" "freep h \<notin> set zs"
    by (rule heap_ring [OF inv]) (rule that)
  have "h_ptr h (freep h) = hd (zs @ [freep h])" using z(1) chain_hd [of h "freep h" zs "freep h"] by simp
  moreover have "k = Suc (length zs + (k - Suc (length zs)))" using k z(3) by simp
  moreover have "\<exists>x \<in> set (freep h # zs). n \<le> h_size h x" unfolding z(2) using fit by auto
  ultimately show ?thesis using malloc_walk [OF inv n z(1) eq_refl [OF z(2)] z(4), of "k - Suc (length zs)"] by (metis (no_types, lifting))
qed

lemma malloc_run:
  assumes sb: "sbrk_ok os brk" and inv: "heap_inv base h xs hi" "hi \<le> brk w" and n: "0 < n" "8 * unat n < 2 ^ 31" and k: "3 * length xs + 4 < k"
  obtains w' where "urun os (malloc_loop k n (freep h) (h_ptr h (freep h)) h) w = (Returned (0, h), w')" "brk w' = brk w"
  | w' a g ys hi' where "urun os (malloc_loop k n (freep h) (h_ptr h (freep h)) h) w = (Returned (a + 8, g), w')" "hi' \<le> brk w'" "brk w \<le> brk w'" "hi \<le> hi'" "{brk w..<brk w'} \<subseteq> {..<hi'}"
      "took base hi' ({brk w..<brk w'} \<union> cover (map (seg h) xs)) (length xs + 1) h n a g ys"
proof (cases "\<exists>x \<in> set xs. n \<le> h_size h x")
  case True
  have "length xs < k" using k by simp
  from malloc_search [OF inv(1) n(1) this True] obtain a g ys where
    "malloc_loop k n (freep h) (h_ptr h (freep h)) h = UDone (a + 8, g)" "took base hi (cover (map (seg h) xs)) (length xs) h n a g ys"
    unfolding found_def by blast
  then show thesis using inv(2) by (intro that(2) [of a g w hi ys]) (simp_all add: took_def)
next
  case False
  let ?k = "k - Suc (length xs)"
  obtain zs where z: "chain h (freep h) zs (freep h)" "set (freep h # zs) = set (base # xs)" "length zs = length xs" "freep h \<notin> set zs"
    by (rule heap_ring [OF inv(1)]) (rule that)
  have hd: "h_ptr h (freep h) = hd (zs @ [freep h])" using z(1) chain_hd [of h "freep h" zs "freep h"] by simp
  have ke: "Suc (length zs + ?k) = k" "2 * length xs + 1 < ?k" using k z(3) by simp_all
  have "h_size h base = 0" using inv(1) by (simp add: heap_inv_def)
  then have no: "\<not> (\<exists>x \<in> set (freep h # zs). n \<le> h_size h x)" unfolding z(2) using False n(1) by auto
  have m: "malloc_loop k n (freep h) (h_ptr h (freep h)) h =
      ubind (morecore ?k n h) (\<lambda>(p, h). if p = 0 then UDone (0, h) else malloc_loop ?k n p (h_ptr h p) h)"
    using malloc_walk [OF inv(1) n(1) z(1) eq_refl [OF z(2)] z(4), of ?k] unfolding if_not_P [OF no] ke(1) hd by blast
  show thesis
  proof (rule morecore_run [OF sb inv n ke(2)])
    fix w' assume "urun os (morecore ?k n h) w = (Returned (0, h), w')" "brk w' = brk w"
    then show thesis by (intro that(1) [of w']) (simp_all add: m urun_ubind)
  next
    fix w' g ys assume u: "urun os (morecore ?k n h) w = (Returned (freep g, g), w')" and gr: "grown base h xs (brk w) (brk w') n g ys"
    have g: "heap_inv base g ys (brk w')" "brk w \<le> brk w'" "length ys \<le> length xs + 1" "\<exists>y \<in> set ys. n \<le> h_size g y"
      "cover (map (seg g) ys) = {brk w..<brk w'} \<union> cover (map (seg h) xs)"
      "\<And>x. unat x \<notin> {brk w..<brk w'} \<union> cover (map (seg h) xs) \<Longrightarrow> h_size g x = h_size h x"
      using gr unfolding grown_def by blast+
    have "length ys < ?k" using g(3) k by linarith
    from malloc_search [OF g(1) n(1) this g(4)] obtain a f vs where
      f: "malloc_loop ?k n (freep g) (h_ptr g (freep g)) g = UDone (a + 8, f)" "took base (brk w') (cover (map (seg g) ys)) (length ys) g n a f vs"
      unfolding found_def by blast
    have "urun os (malloc_loop k n (freep h) (h_ptr h (freep h)) h) w = (Returned (a + 8, f), w')"
      using f(1) heap_freep [OF g(1)] by (simp add: m urun_ubind u)
    moreover have "took base (brk w') ({brk w..<brk w'} \<union> cover (map (seg h) xs)) (length xs + 1) h n a f vs"
      by (rule took_widen [OF f(2) [unfolded g(5)] g(3,6)])
    moreover have "{brk w..<brk w'} \<subseteq> {..<brk w'}" by auto
    ultimately show thesis by (intro that(2) [OF _ order_refl g(2) order_trans [OF inv(2) g(2)]])
  qed
qed

section \<open>Sequences of calls\<close>

text \<open>
  A program that calls malloc() and free(). It holds the blocks it got and has not given back, as pairs of the address
  malloc() returned and the number of bytes asked for; \<open>Free i\<close> gives the block at position \<open>i\<close> back.
\<close>

datatype heap_call = Malloc uint | Free nat

fun session :: "nat \<Rightarrow> uint \<Rightarrow> heap_call list \<Rightarrow> (uint \<times> uint) list \<Rightarrow> uheap \<Rightarrow> ((uint \<times> uint) list \<times> uheap) uprog" where
  "session k base [] held h = UDone (held, h)"
| "session k base (Malloc nb # cs) held h =
     ubind (u_malloc k base nb h) (\<lambda>(ap, g). session k base cs (if ap = 0 then held else (ap, nb) # held) g)"
| "session k base (Free i # cs) held h =
     (if i < length held
      then ubind (u_free k (fst (held ! i)) h) (\<lambda>g. session k base cs (take i held @ drop (Suc i) held) g)
      else session k base cs held h)"

definition held_bytes :: "uint \<times> uint \<Rightarrow> nat set" where
  "held_bytes s = {unat (fst s)..<unat (fst s) + unat (snd s)}"

definition held_block :: "uint \<times> uint \<Rightarrow> block" where
  "held_block s = (unat (fst s) - 8, unat (malloc_units (snd s)))"

definition held_ok :: "nat \<Rightarrow> nat \<Rightarrow> uheap \<Rightarrow> nat set \<Rightarrow> uint \<times> uint \<Rightarrow> bool" where
  "held_ok lo hi h F s \<longleftrightarrow> 8 \<le> unat (fst s) \<and> unat (snd s) + 15 < 2 ^ 31 \<and> h_size h (fst s - 8) = malloc_units (snd s) \<and>
     span (held_block s) \<subseteq> {lo..<hi} \<and> span (held_block s) \<inter> F = {}"

definition arena :: "uint \<Rightarrow> nat \<Rightarrow> nat \<Rightarrow> uheap \<Rightarrow> uint list \<Rightarrow> (uint \<times> uint) list \<Rightarrow> bool" where
  "arena base lo hi h xs held \<longleftrightarrow> heap_inv base h xs hi \<and> unat base + 8 \<le> lo \<and> lo \<le> hi \<and> cover (map (seg h) xs) \<subseteq> {lo..} \<and>
     sorted_wrt (\<lambda>s t. span (held_block s) \<inter> span (held_block t) = {}) held \<and>
     (\<forall>s \<in> set held. held_ok lo hi h (cover (map (seg h) xs)) s)"

lemma unat_malloc_units: "unat nb + 15 < 2 ^ 31 \<Longrightarrow> unat (malloc_units nb) = (unat nb + 7) div 8 + 1"
proof -
  assume *: "unat nb + 15 < 2 ^ 31"
  have "unat (nb + 7) = unat nb + 7" using * by (simp add: unat_word_ariths)
  then have d: "unat ((nb + 7) div 8) = (unat nb + 7) div 8" by (simp add: unat_div)
  also have "\<dots> < 2 ^ 31" using * by simp
  finally have "unat ((nb + 7) div 8 + 1) = (unat nb + 7) div 8 + 1" using d by (simp add: unat_word_ariths)
  then show ?thesis by (simp add: malloc_units_def add.commute)
qed

lemma held_bytes_block:
  assumes "held_ok lo hi h F s"
  shows "held_bytes s \<subseteq> span (held_block s)" "0 < snd (held_block s)" "8 * unat (malloc_units (snd s)) < 2 ^ 31"
proof -
  have s: "unat (snd s) + 15 < 2 ^ 31" "8 \<le> unat (fst s)" using assms by (simp_all add: held_ok_def)
  note u = unat_malloc_units [OF s(1)]
  then have "unat (snd s) + 8 \<le> 8 * unat (malloc_units (snd s))" "8 * unat (malloc_units (snd s)) \<le> unat (snd s) + 15" by linarith+
  then show "held_bytes s \<subseteq> span (held_block s)" "8 * unat (malloc_units (snd s)) < 2 ^ 31"
    using s by (auto simp: held_bytes_def held_block_def span_def)
  show "0 < snd (held_block s)" unfolding held_block_def snd_conv u by simp
qed

lemma held_node:
  assumes "held_ok lo hi h F s" and "hi < 2 ^ 31"
  shows "unat (fst s - 8) = unat (fst s) - 8" "seg h (fst s - 8) = held_block s" "unat (fst s - 8) \<in> span (held_block s)"
proof -
  have "8 \<le> unat (fst s)" "h_size h (fst s - 8) = malloc_units (snd s)" using assms by (simp_all add: held_ok_def)
  then show "unat (fst s - 8) = unat (fst s) - 8" "seg h (fst s - 8) = held_block s"
    by (simp_all add: seg_def held_block_def unat_sub word_le_nat_alt)
  then show "unat (fst s - 8) \<in> span (held_block s)" using held_bytes_block(2) [OF assms(1)] by (simp add: span_def held_block_def)
qed

lemma held_keep:
  assumes "held_ok lo hi h F s" and "hi < 2 ^ 31" and "span (held_block s) \<inter> F' = {}" and "hi \<le> hi'"
    and "h_size g (fst s - 8) = h_size h (fst s - 8)"
  shows "held_ok lo hi' g F' s"
  using assms unfolding held_ok_def by auto

lemma arena_free:
  assumes a: "arena base lo hi h xs held" and i: "i < length held" and k: "2 * length xs + 1 < k"
  obtains g ys where "u_free k (fst (held ! i)) h = UDone g" "arena base lo hi g ys (take i held @ drop (Suc i) held)" "length ys \<le> length xs + 1"
proof -
  let ?s = "held ! i" and ?us = "take i held" and ?vs = "drop (Suc i) held" and ?F = "cover (map (seg h) xs)"
  let ?bp = "fst ?s - 8"
  have held: "held = ?us @ ?s # ?vs" using i by (rule id_take_nth_drop)
  have inv: "heap_inv base h xs hi" and lo: "unat base + 8 \<le> lo" "?F \<subseteq> {lo..}" "lo \<le> hi" and ok: "\<And>s. s \<in> set held \<Longrightarrow> held_ok lo hi h ?F s"
    and srt: "sorted_wrt (\<lambda>s t. span (held_block s) \<inter> span (held_block t) = {}) (?us @ ?s # ?vs)"
    using a held by (auto simp: arena_def)
  have hi: "hi < 2 ^ 31" and sp: "spaced (unat base) (map (seg h) xs) hi" using inv by (simp_all add: heap_inv_def)
  have sok: "held_ok lo hi h ?F ?s" using ok i by simp
  note node = held_node [OF sok hi] and blk = held_bytes_block [OF sok]
  have sub: "span (held_block ?s) \<subseteq> {lo..<hi}" and dj: "span (held_block ?s) \<inter> ?F = {}" using sok by (simp_all add: held_ok_def)
  have sz: "unat (h_size h ?bp) = snd (held_block ?s)" "unat ?bp = fst (held_block ?s)" by (simp_all add: node(2) [symmetric] seg_def)
  have b: "base < ?bp" using sub node(3) lo(1) by (auto simp: word_less_nat_alt)
  have pos: "0 < h_size h ?bp" using blk(2) sz by (simp add: word_less_nat_alt)
  have le: "unat ?bp + 8 * unat (h_size h ?bp) \<le> hi" using sub blk(2) unfolding sz span_def by (simp add: atLeastLessThan_subset_iff)
  obtain g ys where g: "u_free k (?bp + 8) h = UDone g" "heap_inv base g ys hi" "length ys \<le> length xs + 1"
    "map (seg g) ys = insert_block (unat ?bp) (unat (h_size h ?bp)) (map (seg h) xs)" "set ys \<subseteq> set (?bp # xs)"
    "\<And>x. x \<notin> set (?bp # base # xs) \<Longrightarrow> h_size g x = h_size h x"
    by (rule u_free_list [OF inv b pos le _ k]) (use dj node(2) in \<open>simp_all add: that\<close>)
  have cov: "cover (map (seg g) ys) = span (held_block ?s) \<union> ?F"
    unfolding g(4) using insert_block_ok [OF sp _ _ le, of] b pos dj node(2) by (simp add: word_less_nat_alt seg_def)
  have keep: "held_ok lo hi g (cover (map (seg g) ys)) t" if "t \<in> set (?us @ ?vs)" for t
  proof -
    have tok: "held_ok lo hi h ?F t" by (rule ok) (subst held, use that in auto)
    have st: "span (held_block t) \<inter> span (held_block ?s) = {}" using srt that by (auto simp: sorted_wrt_append)
    note tn = held_node(3) [OF tok hi]
    have tF: "span (held_block t) \<subseteq> {lo..<hi}" "span (held_block t) \<inter> ?F = {}" using tok by (simp_all add: held_ok_def)
    have "fst t - 8 \<notin> set xs" using cover_node [OF _ sp] tn tF(2) by blast
    moreover have "unat (fst t - 8) \<noteq> unat ?bp" using tn node(3) st by (metis IntI empty_iff)
    moreover have "unat (fst t - 8) \<noteq> unat base" using subsetD [OF tF(1) tn] lo(1) by auto
    ultimately have "h_size g (fst t - 8) = h_size h (fst t - 8)" by (intro g(6)) auto
    with tok hi st tF(2) show ?thesis by (intro held_keep [OF tok hi]) (auto simp: cov)
  qed
  have "arena base lo hi g ys (?us @ ?vs)" unfolding arena_def
    using g(2) lo sub keep srt by (auto simp: cov sorted_wrt_append)
  with g(1,3) show thesis by (intro that) simp_all
qed

lemma arena_malloc:
  assumes sb: "sbrk_ok os brk" and a: "arena base lo hi h xs held" "hi \<le> brk w" and nb: "unat nb + 15 < 2 ^ 31" and k: "3 * length xs + 4 < k"
  obtains w' ap g ys hi' where "urun os (u_malloc k base nb h) w = (Returned (ap, g), w')" "hi' \<le> brk w'" "brk w \<le> brk w'"
    "arena base lo hi' g ys (if ap = 0 then held else (ap, nb) # held)" "length ys \<le> length xs + 1"
proof -
  let ?F = "cover (map (seg h) xs)" and ?n = "malloc_units nb"
  have inv: "heap_inv base h xs hi" and lo: "unat base + 8 \<le> lo" "?F \<subseteq> {lo..}" "lo \<le> hi" and ok: "\<And>s. s \<in> set held \<Longrightarrow> held_ok lo hi h ?F s"
    and srt: "sorted_wrt (\<lambda>s t. span (held_block s) \<inter> span (held_block t) = {}) held" using a(1) by (auto simp: arena_def)
  have hi: "hi < 2 ^ 31" and sp: "spaced (unat base) (map (seg h) xs) hi" using inv by (simp_all add: heap_inv_def)
  have n: "0 < ?n" "8 * unat ?n < 2 ^ 31" using unat_malloc_units [OF nb] nb by (simp_all add: word_less_nat_alt)
  have u: "u_malloc k base nb h = malloc_loop k ?n (freep h) (h_ptr h (freep h)) h"
    using heap_freep [OF inv] by (simp add: u_malloc_def Let_def)
  show thesis
  proof (rule malloc_run [OF sb inv a(2) n k], fold u)
    fix w' assume "urun os (u_malloc k base nb h) w = (Returned (0, h), w')" "brk w' = brk w"
    then show thesis using a by (intro that [of 0 h w' hi xs]) simp_all
  next
    fix w' p g ys hi'
    assume r: "urun os (u_malloc k base nb h) w = (Returned (p + 8, g), w')" and b: "hi' \<le> brk w'" "brk w \<le> brk w'" "hi \<le> hi'" "{brk w..<brk w'} \<subseteq> {..<hi'}"
      and "took base hi' ({brk w..<brk w'} \<union> ?F) (length xs + 1) h ?n p g ys"
    then have g: "heap_inv base g ys hi'" "h_size g p = ?n" "length ys \<le> length xs + 1" "{brk w..<brk w'} \<union> ?F = span (unat p, unat ?n) \<union> cover (map (seg g) ys)"
      "span (unat p, unat ?n) \<inter> cover (map (seg g) ys) = {}" "\<And>x. unat x \<notin> {brk w..<brk w'} \<union> ?F \<Longrightarrow> h_size g x = h_size h x"
      by (auto simp: took_def)
    have "?F \<subseteq> {lo..<hi'}" using lo(2) spaced_cover [OF sp] b(3) by fastforce
    moreover have "x \<in> {lo..<hi'}" if "x \<in> {brk w..<brk w'}" for x using subsetD [OF b(4) that] that a(2) lo(3) by simp
    ultimately have sub: "span (unat p, unat ?n) \<subseteq> {lo..<hi'}" "cover (map (seg g) ys) \<subseteq> {lo..<hi'}" using g(4) by blast+
    have hi': "hi' < 2 ^ 31" using g(1) by (simp add: heap_inv_def)
    have "unat p \<in> span (unat p, unat ?n)" using n(1) by (simp add: span_def word_less_nat_alt)
    then have "unat p < hi'" using sub(1) by auto
    then have p: "unat (p + 8) = unat p + 8" using hi' by (simp add: unat_word_ariths)
    then have p0: "p + 8 \<noteq> 0" by auto
    have hb: "held_block (p + 8, nb) = (unat p, unat ?n)" using p by (simp add: held_block_def)
    have new: "held_ok lo hi' g (cover (map (seg g) ys)) (p + 8, nb)" unfolding held_ok_def hb using p g(2,5) sub(1) nb by simp
    have old: "held_ok lo hi' g (cover (map (seg g) ys)) t \<and> span (unat p, unat ?n) \<inter> span (held_block t) = {}" if "t \<in> set held" for t
    proof -
      have tok: "held_ok lo hi h ?F t" using ok that .
      have "span (held_block t) \<subseteq> {lo..<hi}" "span (held_block t) \<inter> ?F = {}" using tok by (simp_all add: held_ok_def)
      then have dj: "span (held_block t) \<inter> ({brk w..<brk w'} \<union> ?F) = {}" using a(2) by fastforce
      have "h_size g (fst t - 8) = h_size h (fst t - 8)" by (rule g(6)) (use dj held_node(3) [OF tok hi] in blast)
      moreover have "span (held_block t) \<inter> cover (map (seg g) ys) = {}" "span (held_block t) \<inter> span (unat p, unat ?n) = {}" using dj unfolding g(4) by auto
      ultimately show ?thesis using held_keep [OF tok hi _ b(3)] by (simp add: Int_commute)
    qed
    have "arena base lo hi' g ys ((p + 8, nb) # held)" unfolding arena_def
      using g(1) lo b(3) sub(2) new old srt hb by auto
    with r b(1,2) g(3) p0 show thesis by (intro that [of "p + 8" g w' hi' ys]) simp_all
  qed
qed

definition apart :: "(uint \<times> uint) list \<Rightarrow> nat \<Rightarrow> nat \<Rightarrow> bool" where
  "apart held lo hi \<longleftrightarrow> sorted_wrt (\<lambda>s t. held_bytes s \<inter> held_bytes t = {}) held \<and> (\<forall>s \<in> set held. held_bytes s \<subseteq> {lo..<hi})"

lemma arena_apart:
  assumes "arena base lo hi h xs held" and "hi \<le> hi'"
  shows "apart held lo hi'"
proof -
  have ok: "held_ok lo hi h (cover (map (seg h) xs)) s" if "s \<in> set held" for s using assms(1) that by (simp add: arena_def)
  have "sorted_wrt (\<lambda>s t. span (held_block s) \<inter> span (held_block t) = {}) held" using assms(1) by (simp add: arena_def)
  then have "sorted_wrt (\<lambda>s t. held_bytes s \<inter> held_bytes t = {}) held"
    by (rule sorted_wrt_mono_rel [rotated]) (use held_bytes_block(1) [OF ok] in blast)
  moreover have "held_bytes s \<subseteq> {lo..<hi'}" if "s \<in> set held" for s
  proof -
    have "span (held_block s) \<subseteq> {lo..<hi}" using ok [OF that] by (simp add: held_ok_def)
    with held_bytes_block(1) [OF ok [OF that]] assms(2) show ?thesis by fastforce
  qed
  ultimately show ?thesis by (simp add: apart_def)
qed

lemma session_run:
  assumes sb: "sbrk_ok os brk"
  shows "arena base lo hi h xs held \<Longrightarrow> hi \<le> brk w \<Longrightarrow> (\<And>nb. Malloc nb \<in> set cs \<Longrightarrow> unat nb + 15 < 2 ^ 31) \<Longrightarrow>
    3 * (length xs + length cs) + 4 < k \<Longrightarrow>
    \<exists>held' g w'. urun os (session k base cs held h) w = (Returned (held', g), w') \<and> apart held' lo (brk w')"
proof (induction cs arbitrary: h xs hi held w)
  case Nil
  then show ?case using arena_apart by auto
next
  case (Cons c cs)
  note a = Cons.prems(1,2) and size = Cons.prems(3) and k = Cons.prems(4)
  have rest: "unat nb + 15 < 2 ^ 31" if "Malloc nb \<in> set cs" for nb by (rule size) (use that in simp)
  show ?case
  proof (cases c)
    case (Malloc nb)
    have nb: "unat nb + 15 < 2 ^ 31" using size Malloc by simp
    have "3 * length xs + 4 < k" using k by simp
    from arena_malloc [OF sb a nb this] obtain w' ap g ys hi' where m:
      "urun os (u_malloc k base nb h) w = (Returned (ap, g), w')" "hi' \<le> brk w'" "arena base lo hi' g ys (if ap = 0 then held else (ap, nb) # held)"
      "length ys \<le> length xs + 1" by metis
    have "3 * (length ys + length cs) + 4 < k" using k m(4) by simp
    from Cons.IH [OF m(3,2) rest this] show ?thesis using m(1) Malloc by (simp add: urun_ubind)
  next
    case (Free i)
    have less: "3 * (length xs + length cs) + 4 < k" "2 * length xs + 1 < k" using k by simp_all
    show ?thesis
    proof (cases "i < length held")
      case True
      obtain g ys where f: "u_free k (fst (held ! i)) h = UDone g" "arena base lo hi g ys (take i held @ drop (Suc i) held)" "length ys \<le> length xs + 1"
        by (rule arena_free [OF a(1) True less(2)]) (rule that)
      have "3 * (length ys + length cs) + 4 < k" using k f(3) by simp
      from Cons.IH [OF f(2) a(2) rest this] show ?thesis using f(1) Free True by simp
    next
      case False
      then show ?thesis using Cons.IH [OF a rest less(1)] Free by simp
    qed
  qed
qed

text \<open>The first call finds \<open>freep\<close> zero and sets the list up.\<close>

definition first_heap :: "uint \<Rightarrow> uheap \<Rightarrow> uheap" where
  "first_heap base h = set_size base 0 ((set_ptr base base h)\<lparr>freep := base\<rparr>)"

lemma first_heap_ok: "base \<noteq> 0 \<Longrightarrow> unat base + 8 \<le> b \<Longrightarrow> b < 2 ^ 31 \<Longrightarrow> arena base b b (first_heap base h) [] []"
  by (simp add: arena_def heap_inv_def first_heap_def)

lemma u_malloc_first: "freep h = 0 \<Longrightarrow> base \<noteq> 0 \<Longrightarrow> u_malloc k base nb h = u_malloc k base nb (first_heap base h)"
  by (simp add: u_malloc_def first_heap_def Let_def)

lemma session_first:
  assumes "freep h = 0" and "base \<noteq> 0"
  shows "session k base cs [] h = UDone ([], h) \<or> session k base cs [] h = session k base cs [] (first_heap base h)"
proof (induction cs)
  case (Cons c cs)
  then show ?case by (cases c) (simp_all add: u_malloc_first [OF assms])
qed simp

text \<open>The bound on a request is needed: the largest ones wrap around to one unit, which is the header alone.\<close>

lemma malloc_units_wraps: "unat nb + 7 \<ge> 2 ^ 32 \<Longrightarrow> malloc_units nb = 1"
proof -
  assume *: "unat nb + 7 \<ge> 2 ^ 32"
  have "unat nb < 2 ^ 32" by (rule order_less_le_trans [OF unsigned_less]) simp
  with * have "unat (nb + 7) = unat nb + 7 - 2 ^ 32" by (simp add: unat_word_ariths mod_if)
  then have "unat (nb + 7) < 8" using \<open>unat nb < 2 ^ 32\<close> by simp
  then have "(nb + 7) div 8 = 0" by (simp add: word_unat_eq_iff unat_div)
  then show ?thesis by (simp add: malloc_units_def add.commute)
qed

section \<open>Properties\<close>

text \<open>
  C24. free() refines the sorted insertion: given a block of the heap that touches no free memory, it returns, the list
  is again a sorted circular list of separate blocks, these are what inserting the block and joining it with
  its neighbours gives, and the free memory has grown by exactly the bytes of the block.
\<close>

theorem free_refines_insert:
  assumes "heap_inv base h xs hi" and "base < bp" and "0 < h_size h bp" and "unat bp + 8 * unat (h_size h bp) \<le> hi"
    and "span (seg h bp) \<inter> cover (map (seg h) xs) = {}" and "2 * length xs + 1 < k"
  shows "\<exists>g ys. u_free k (bp + 8) h = UDone g \<and> heap_inv base g ys hi \<and>
    map (seg g) ys = insert_block (unat bp) (unat (h_size h bp)) (map (seg h) xs) \<and>
    cover (map (seg g) ys) = span (seg h bp) \<union> cover (map (seg h) xs)"
proof -
  obtain g ys where g: "u_free k (bp + 8) h = UDone g" "heap_inv base g ys hi"
    "map (seg g) ys = insert_block (unat bp) (unat (h_size h bp)) (map (seg h) xs)"
    by (rule u_free_list [OF assms]) (rule that)
  moreover have "cover (map (seg g) ys) = span (seg h bp) \<union> cover (map (seg h) xs)"
    unfolding g(3) using insert_block_ok [of "unat base" "map (seg h) xs" hi "unat bp" "unat (h_size h bp)"] assms
    by (simp add: heap_inv_def word_less_nat_alt seg_def [of h bp])
  ultimately show ?thesis by blast
qed

definition ex_uheap :: uheap where
  "ex_uheap = \<lparr>h_ptr = (\<lambda>_. 0)(0x1000 := 0x2000, 0x2000 := 0x1000), h_size = (\<lambda>_. 0)(0x2000 := 4, 0x2020 := 2), freep = 0x1000\<rparr>"

theorem free_refines_insert_witness:
  "\<exists>g ys. u_free 9 (0x2020 + 8) ex_uheap = UDone g \<and> heap_inv 0x1000 g ys 0x3000 \<and> map (seg g) ys = [(0x2000, 6)] \<and>
    cover (map (seg g) ys) = span (0x2020, 2) \<union> span (0x2000, 4)"
proof -
  have h: "heap_inv 0x1000 ex_uheap [0x2000] 0x3000" by (simp add: ex_uheap_def heap_inv_def seg_def)
  have s: "h_size ex_uheap 0x2020 = 2" "seg ex_uheap 0x2000 = (0x2000, 4)" "seg ex_uheap 0x2020 = (0x2020, 2)"
    by (simp_all add: ex_uheap_def seg_def)
  have d: "span (seg ex_uheap 0x2020) \<inter> cover (map (seg ex_uheap) [0x2000]) = {}" by (simp add: s span_def)
  have i: "insert_block (unat (0x2020 :: uint)) (unat (h_size ex_uheap 0x2020)) (map (seg ex_uheap) [0x2000]) = [(0x2000, 6)]"
    by (simp add: s join_right_def)
  show ?thesis using free_refines_insert [OF h _ _ _ d, of 9] unfolding i by (simp add: s)
qed

text \<open>
  C23. Whatever a program does with malloc() and free(), the calls return, and the bytes of the blocks it holds at the
  end do not overlap and lie between the break it started with and the present one. The kernel is any that
  answers sbrk() as \<open>sbrk_ok\<close> says, and may refuse it at any time; the fuel is linear in the number of calls, and
  a request is below 2 GB.
\<close>

theorem malloc_blocks_apart:
  assumes "sbrk_ok os brk" and "freep h = 0" and "base \<noteq> 0" and "unat base + 8 \<le> brk w" and "brk w < 2 ^ 31"
    and "\<And>nb. Malloc nb \<in> set cs \<Longrightarrow> unat nb + 15 < 2 ^ 31" and "3 * length cs + 4 < k"
  shows "\<exists>held g w'. urun os (session k base cs [] h) w = (Returned (held, g), w') \<and> apart held (brk w) (brk w')"
  using session_first [OF assms(2,3), of k cs]
proof
  assume "session k base cs [] h = UDone ([], h)"
  then show ?thesis by (simp add: apart_def)
next
  assume "session k base cs [] h = session k base cs [] (first_heap base h)"
  then show ?thesis
    using session_run [OF assms(1) first_heap_ok [OF assms(3,4,5), of h] order_refl assms(6), of cs k] assms(7) by simp
qed

definition ex_sbrk :: "nat os" where
  "ex_sbrk = \<lparr>os_sys = (\<lambda>c b. case c of CSbrk n \<Rightarrow> if int b + n < 2 ^ 31 then (int b, nat (int b + n)) else (-1, b) | _ \<Rightarrow> (0, b)),
     os_read = (\<lambda>fd n b. ((0, []), b)), os_stat = (\<lambda>fd b. ((-1, undefined), b)), os_pipe = (\<lambda>b. ((-1, 0, 0), b))\<rparr>"

definition ex_calls :: "heap_call list" where
  "ex_calls = [Malloc 10, Malloc 100, Free 1, Malloc 40000, Malloc 0, Free 0]"

theorem malloc_blocks_apart_witness:
  "\<exists>held g w'. urun ex_sbrk (session 30 0x1000 ex_calls [] (ex_uheap\<lparr>freep := 0\<rparr>)) 0x4000 = (Returned (held, g), w') \<and> apart held 0x4000 w'"
proof -
  have "sbrk_ok ex_sbrk id" by (auto simp: sbrk_ok_def ex_sbrk_def nat_int_add)
  moreover have "unat nb + 15 < 2 ^ 31" if "Malloc nb \<in> set ex_calls" for nb using that by (auto simp: ex_calls_def)
  ultimately show ?thesis
    using malloc_blocks_apart [of ex_sbrk id "ex_uheap\<lparr>freep := 0\<rparr>" "0x1000" "0x4000" ex_calls 30] by (simp add: ex_calls_def)
qed

end
