(* ===== verification/Asm.thy ===== *)
theory Asm
  imports Proc
begin

text \<open>
  The assembly of the kernel: swtch.S, trapasm.S, the entry points vectors.pl prints, and the start-up code entry.S,
  entryother.S and bootasm.S. A file is a list of the instructions it uses, with the labels it refers to as
  arguments; \<open>assembled\<close> says where a list lies in the code, whatever the lengths of the encodings. The
  addresses are those the program uses: the n-th input instruction from now on that addresses port \<open>p\<close> reads \<open>ports_in n p\<close>; segments are flat, and paging keeps the low memory where it is.

  Here are the processor, the files and the execution of straight-line code; shown with them in Switch.thy and Startup.thy: swtch() comes back to its caller with the callee-saved registers and the stack of the call; every vector
  builds the same trap frame, and trapret gives the interrupted code its registers back; the start-up code reaches
  main() and mpenter() in protected mode.
\<close>

section \<open>Processor\<close>

datatype reg = EAX | ECX | EDX | EBX | ESP | EBP | ESI | EDI
datatype sreg = CS | DS | ES | FS | GS | SS
datatype creg = CR0 | CR3 | CR4

record xcpu =
  regs :: "reg \<Rightarrow> uint"
  sregs :: "sreg \<Rightarrow> ushort"
  cregs :: "creg \<Rightarrow> uint"
  xeip :: uint
  xflags :: uint
  gdtr :: uint
  xmem :: "uint \<Rightarrow> uchar"
  ports_in :: "nat \<Rightarrow> uint \<Rightarrow> uchar"
  ports_out :: "(uint \<times> uint) list"

datatype insn =
    Movl_imm uint reg
  | Movl reg reg
  | Movl_load uint reg reg
  | Movl_store reg reg
  | Movl_abs uint reg
  | Movl_from_cr creg reg
  | Movl_to_cr reg creg
  | Movw_imm ushort reg
  | Movb_imm uchar reg
  | Movw reg reg
  | Movw_seg reg sreg
  | Xorw reg reg
  | Addl_imm uint reg
  | Orl_imm uint reg
  | Testb_imm uchar reg
  | Pushl reg
  | Pushl_imm uint
  | Pushl_seg sreg
  | Pushal
  | Popl reg
  | Popl_seg sreg
  | Popal
  | Inb uint
  | Outb uint
  | Outw
  | Cli
  | Lgdt uint
  | Jmp uint
  | Jmp_reg reg
  | Jnz uint
  | Ljmp ushort uint
  | Call uint
  | Call_mem uint
  | Ret
  | Iret

definition setr :: "reg \<Rightarrow> uint \<Rightarrow> xcpu \<Rightarrow> xcpu" where
  "setr r v s = s\<lparr>regs := (regs s)(r := v)\<rparr>"

definition sets :: "sreg \<Rightarrow> ushort \<Rightarrow> xcpu \<Rightarrow> xcpu" where
  "sets r v s = s\<lparr>sregs := (sregs s)(r := v)\<rparr>"

definition push :: "uint \<Rightarrow> xcpu \<Rightarrow> xcpu" where
  "push v s = setr ESP (regs s ESP - 4) (s\<lparr>xmem := store32 (xmem s) (regs s ESP - 4) v\<rparr>)"

definition stack_top :: "xcpu \<Rightarrow> uint" where
  "stack_top s = load32 (xmem s) (regs s ESP)"

definition drop4 :: "xcpu \<Rightarrow> xcpu" where
  "drop4 s = setr ESP (regs s ESP + 4) s"

definition popr :: "reg \<Rightarrow> xcpu \<Rightarrow> xcpu" where
  "popr r s = setr r (stack_top s) (drop4 s)"

definition pops :: "sreg \<Rightarrow> xcpu \<Rightarrow> xcpu" where
  "pops r s = sets r (ucast (stack_top s)) (drop4 s)"

text \<open>The zero flag is bit 6 of the flags, the interrupt flag bit 9.\<close>

definition FL_ZF :: uint where "FL_ZF = 0x40"

definition setzf :: "bool \<Rightarrow> xcpu \<Rightarrow> xcpu" where
  "setzf z s = s\<lparr>xflags := (if z then xflags s OR FL_ZF else xflags s AND NOT FL_ZF)\<rparr>"

definition low16 :: "uint \<Rightarrow> ushort \<Rightarrow> uint" where
  "low16 r v = (r AND 0xFFFF0000) OR ucast v"

definition low8 :: "uint \<Rightarrow> uchar \<Rightarrow> uint" where
  "low8 r v = (r AND 0xFFFFFF00) OR ucast v"

text \<open>pushal saves the stack pointer as it was before, and popal skips it.\<close>

definition pushal :: "xcpu \<Rightarrow> xcpu" where
  "pushal s = (let e = regs s ESP in
     push (regs s EDI) (push (regs s ESI) (push (regs s EBP) (push e (push (regs s EBX) (push (regs s EDX) (push (regs s ECX) (push (regs s EAX) s))))))))"

definition popal :: "xcpu \<Rightarrow> xcpu" where
  "popal s = popr EAX (popr ECX (popr EDX (popr EBX (drop4 (popr EBP (popr ESI (popr EDI s)))))))"

text \<open>iret to an outer ring also takes the stack of the interrupted code; the ring is in the low bits of a selector.\<close>

definition ring :: "ushort \<Rightarrow> ushort" where
  "ring sel = sel AND 3"

definition iret :: "xcpu \<Rightarrow> xcpu" where
  "iret s =
     (let a = drop4 s; b = drop4 a; c = drop4 b; cs = ucast (stack_top a);
          t = (sets CS cs c)\<lparr>xeip := stack_top s, xflags := stack_top b\<rparr>
      in if ring cs = ring (sregs s CS) then t
         else setr ESP (stack_top c) (sets SS (ucast (stack_top (drop4 c))) t))"

definition inp :: "uint \<Rightarrow> xcpu \<Rightarrow> uchar \<times> xcpu" where
  "inp p s = (ports_in s 0 p, s\<lparr>ports_in := (\<lambda>i. ports_in s (Suc i))\<rparr>)"

definition outp :: "uint \<Rightarrow> uint \<Rightarrow> xcpu \<Rightarrow> xcpu" where
  "outp p v s = s\<lparr>ports_out := ports_out s @ [(p, v)]\<rparr>"

primrec exec_insn :: "insn \<Rightarrow> xcpu \<Rightarrow> xcpu" where
  "exec_insn (Movl_imm v r) s = setr r v s"
| "exec_insn (Movl q r) s = setr r (regs s q) s"
| "exec_insn (Movl_load d q r) s = setr r (load32 (xmem s) (regs s q + d)) s"
| "exec_insn (Movl_store q r) s = s\<lparr>xmem := store32 (xmem s) (regs s r) (regs s q)\<rparr>"
| "exec_insn (Movl_abs a r) s = setr r (load32 (xmem s) a) s"
| "exec_insn (Movl_from_cr c r) s = setr r (cregs s c) s"
| "exec_insn (Movl_to_cr r c) s = s\<lparr>cregs := (cregs s)(c := regs s r)\<rparr>"
| "exec_insn (Movw_imm v r) s = setr r (low16 (regs s r) v) s"
| "exec_insn (Movb_imm v r) s = setr r (low8 (regs s r) v) s"
| "exec_insn (Movw q r) s = setr r (low16 (regs s r) (ucast (regs s q))) s"
| "exec_insn (Movw_seg r q) s = sets q (ucast (regs s r)) s"
| "exec_insn (Xorw q r) s = (let v = ucast (regs s q) XOR ucast (regs s r) in setzf (v = 0) (setr r (low16 (regs s r) v) s))"
| "exec_insn (Addl_imm v r) s = setzf (regs s r + v = 0) (setr r (regs s r + v) s)"
| "exec_insn (Orl_imm v r) s = setzf (regs s r OR v = 0) (setr r (regs s r OR v) s)"
| "exec_insn (Testb_imm v r) s = setzf (ucast (regs s r) AND v = 0) s"
| "exec_insn (Pushl r) s = push (regs s r) s"
| "exec_insn (Pushl_imm v) s = push v s"
| "exec_insn (Pushl_seg q) s = push (ucast (sregs s q)) s"
| "exec_insn Pushal s = pushal s"
| "exec_insn (Popl r) s = popr r s"
| "exec_insn (Popl_seg q) s = pops q s"
| "exec_insn Popal s = popal s"
| "exec_insn (Inb p) s = (case inp p s of (v, t) \<Rightarrow> setr EAX (low8 (regs t EAX) v) t)"
| "exec_insn (Outb p) s = outp p (regs s EAX AND 0xFF) s"
| "exec_insn Outw s = outp (regs s EDX AND 0xFFFF) (regs s EAX AND 0xFFFF) s"
| "exec_insn Cli s = s\<lparr>xflags := xflags s AND NOT FL_IF\<rparr>"
| "exec_insn (Lgdt a) s = s\<lparr>gdtr := a\<rparr>"
| "exec_insn (Jmp a) s = s\<lparr>xeip := a\<rparr>"
| "exec_insn (Jmp_reg r) s = s\<lparr>xeip := regs s r\<rparr>"
| "exec_insn (Jnz a) s = (if xflags s AND FL_ZF = 0 then s\<lparr>xeip := a\<rparr> else s)"
| "exec_insn (Ljmp c a) s = (sets CS c s)\<lparr>xeip := a\<rparr>"
| "exec_insn (Call a) s = (push (xeip s) s)\<lparr>xeip := a\<rparr>"
| "exec_insn (Call_mem a) s = (push (xeip s) s)\<lparr>xeip := load32 (xmem s) a\<rparr>"
| "exec_insn Ret s = (drop4 s)\<lparr>xeip := stack_top s\<rparr>"
| "exec_insn Iret s = iret s"

text \<open>The code gives the instruction at an address and the address behind it.\<close>

type_synonym code = "uint \<Rightarrow> (insn \<times> uint) option"

definition xstep :: "code \<Rightarrow> xcpu \<Rightarrow> xcpu option" where
  "xstep code s = (case code (xeip s) of None \<Rightarrow> None | Some (i, n) \<Rightarrow> Some (exec_insn i (s\<lparr>xeip := n\<rparr>)))"

primrec xsteps :: "code \<Rightarrow> nat \<Rightarrow> xcpu \<Rightarrow> xcpu option" where
  "xsteps code 0 s = Some s"
| "xsteps code (Suc n) s = (case xstep code s of None \<Rightarrow> None | Some t \<Rightarrow> xsteps code n t)"

fun assembled :: "code \<Rightarrow> uint \<Rightarrow> insn list \<Rightarrow> uint \<Rightarrow> bool" where
  "assembled code a [] b \<longleftrightarrow> a = b"
| "assembled code a (i # is) b \<longleftrightarrow> (case code a of Some (j, n) \<Rightarrow> j = i \<and> assembled code n is b | None \<Rightarrow> False)"

section \<open>The files\<close>

definition swtch :: "insn list" where
  "swtch =
     [Movl_load 4 ESP EAX, Movl_load 8 ESP EDX,
      Pushl EBP, Pushl EBX, Pushl ESI, Pushl EDI,
      Movl_store ESP EAX, Movl EDX ESP,
      Popl EDI, Popl ESI, Popl EBX, Popl EBP, Ret]"

definition KDATA_SEL :: ushort where "KDATA_SEL = push_bit 3 (of_nat SEG_KDATA)"
definition KCODE_SEL :: ushort where "KCODE_SEL = push_bit 3 (of_nat SEG_KCODE)"

definition has_errcode :: "nat \<Rightarrow> bool" where
  "has_errcode i \<longleftrightarrow> i = 8 \<or> (i \<ge> 10 \<and> i \<le> 14) \<or> i = 17"

definition vector :: "nat \<Rightarrow> uint \<Rightarrow> insn list" where
  "vector i alltraps = (if \<not> has_errcode i then [Pushl_imm 0] else []) @ [Pushl_imm (of_nat i), Jmp alltraps]"

definition alltraps :: "uint \<Rightarrow> insn list" where
  "alltraps trap =
     [Pushl_seg DS, Pushl_seg ES, Pushl_seg FS, Pushl_seg GS, Pushal,
      Movw_imm KDATA_SEL EAX, Movw_seg EAX DS, Movw_seg EAX ES,
      Pushl ESP, Call trap, Addl_imm 4 ESP]"

definition trapret :: "insn list" where
  "trapret = [Popal, Popl_seg GS, Popl_seg FS, Popl_seg ES, Popl_seg DS, Addl_imm 8 ESP, Iret]"

text \<open>entry.S, on the boot CPU, and the two files that start in real mode. The labels are arguments.\<close>

definition CR0_PE :: uint where "CR0_PE = 1"
definition CR0_WP :: uint where "CR0_WP = 0x10000"
definition CR0_PG :: uint where "CR0_PG = 0x80000000"
definition CR4_PSE :: uint where "CR4_PSE = 0x10"

definition entry :: "uint \<Rightarrow> uint \<Rightarrow> uint \<Rightarrow> insn list" where
  "entry entrypgdir stack main =
     [Movl_from_cr CR4 EAX, Orl_imm CR4_PSE EAX, Movl_to_cr EAX CR4,
      Movl_imm (V2P entrypgdir) EAX, Movl_to_cr EAX CR3,
      Movl_from_cr CR0 EAX, Orl_imm (CR0_PG OR CR0_WP) EAX, Movl_to_cr EAX CR0,
      Movl_imm (stack + KSTACKSIZE) ESP,
      Movl_imm main EAX, Jmp_reg EAX]"

definition real_mode :: "insn list" where
  "real_mode = [Cli, Xorw EAX EAX, Movw_seg EAX DS, Movw_seg EAX ES, Movw_seg EAX SS]"

definition protect :: "uint \<Rightarrow> uint \<Rightarrow> insn list" where
  "protect gdtdesc start32 =
     [Lgdt gdtdesc, Movl_from_cr CR0 EAX, Orl_imm CR0_PE EAX, Movl_to_cr EAX CR0, Ljmp KCODE_SEL start32]"

definition load_segments :: "insn list" where
  "load_segments =
     [Movw_imm KDATA_SEL EAX, Movw_seg EAX DS, Movw_seg EAX ES, Movw_seg EAX SS,
      Movw_imm 0 EAX, Movw_seg EAX FS, Movw_seg EAX GS]"

definition bochs_spin :: "uint \<Rightarrow> insn list" where
  "bochs_spin spin = [Movw_imm 0x8a00 EAX, Movw EAX EDX, Outw, Movw_imm 0x8ae0 EAX, Outw, Jmp spin]"

definition entryother_start :: "uint \<Rightarrow> uint \<Rightarrow> insn list" where
  "entryother_start gdtdesc start32 = real_mode @ protect gdtdesc start32"

definition entryother_start32 :: "uint \<Rightarrow> uint \<Rightarrow> insn list" where
  "entryother_start32 start spin = load_segments @
     [Movl_from_cr CR4 EAX, Orl_imm CR4_PSE EAX, Movl_to_cr EAX CR4,
      Movl_abs (start - 12) EAX, Movl_to_cr EAX CR3,
      Movl_from_cr CR0 EAX, Orl_imm (CR0_PE OR CR0_PG OR CR0_WP) EAX, Movl_to_cr EAX CR0,
      Movl_abs (start - 4) ESP, Call_mem (start - 8)] @ bochs_spin spin"

text \<open>bootasm.S waits for the keyboard controller before each of the two bytes that open address line A20.\<close>

definition wait_kbc :: "uint \<Rightarrow> insn list" where
  "wait_kbc here = [Inb 0x64, Testb_imm 2 EAX, Jnz here]"

definition bootasm_start :: "uint \<Rightarrow> uint \<Rightarrow> uint \<Rightarrow> uint \<Rightarrow> insn list" where
  "bootasm_start seta20_1 seta20_2 gdtdesc start32 =
     real_mode @ wait_kbc seta20_1 @ [Movb_imm 0xd1 EAX, Outb 0x64] @
     wait_kbc seta20_2 @ [Movb_imm 0xdf EAX, Outb 0x60] @ protect gdtdesc start32"

definition bootasm_start32 :: "uint \<Rightarrow> uint \<Rightarrow> uint \<Rightarrow> insn list" where
  "bootasm_start32 start bootmain spin = load_segments @ [Movl_imm start ESP, Call bootmain] @ bochs_spin spin"

section \<open>Straight-line code\<close>

definition straight :: "insn \<Rightarrow> bool" where
  "straight i \<longleftrightarrow> (case i of Jmp _ \<Rightarrow> False | Jmp_reg _ \<Rightarrow> False | Jnz _ \<Rightarrow> False | Ljmp _ _ \<Rightarrow> False | Call _ \<Rightarrow> False
     | Call_mem _ \<Rightarrow> False | Ret \<Rightarrow> False | Iret \<Rightarrow> False | _ \<Rightarrow> True)"

lemmas xops = setr_def sets_def push_def stack_top_def drop4_def popr_def pops_def setzf_def pushal_def popal_def inp_def outp_def

lemma exec_insn_eip: "straight i \<Longrightarrow> exec_insn i (s\<lparr>xeip := n\<rparr>) = (exec_insn i s)\<lparr>xeip := n\<rparr>"
  by (cases i) (simp_all add: straight_def xops Let_def)

lemma xsteps_add: "xsteps code (m + n) s = (case xsteps code m s of None \<Rightarrow> None | Some t \<Rightarrow> xsteps code n t)"
  by (induction m arbitrary: s) (simp_all split: option.split)

lemma assembled_append: "assembled code a (is @ js) b \<longleftrightarrow> (\<exists>n. assembled code a is n \<and> assembled code n js b)"
  by (induction "is" arbitrary: a) (auto split: option.splits)

lemma fold_eip: "list_all straight is \<Longrightarrow> fold exec_insn is (s\<lparr>xeip := n\<rparr>) = (fold exec_insn is s)\<lparr>xeip := n\<rparr>"
  by (induction "is" arbitrary: s) (simp_all add: exec_insn_eip)

lemma straight_run:
  assumes "list_all straight is" and "assembled code (xeip s) is b"
  shows "xsteps code (length is) s = Some ((fold exec_insn is s)\<lparr>xeip := b\<rparr>)"
  using assms
proof (induction "is" arbitrary: s)
  case (Cons i "is")
  from Cons.prems(2) obtain n where n: "code (xeip s) = Some (i, n)" "assembled code n is b" by (auto split: option.splits)
  have "assembled code (xeip (exec_insn i s\<lparr>xeip := n\<rparr>)) is b" using n(2) by simp
  from Cons.IH [OF _ this] Cons.prems(1) n(1) show ?case by (simp add: xstep_def exec_insn_eip fold_eip)
qed simp

lemma straight_then:
  assumes "list_all straight is" and "assembled code (xeip s) (is @ [j]) b"
  shows "xsteps code (length is + 1) s = Some (exec_insn j ((fold exec_insn is s)\<lparr>xeip := b\<rparr>))"
proof -
  from assms(2) obtain n where n: "assembled code (xeip s) is n" "code n = Some (j, b)"
    by (auto simp: assembled_append split: option.splits)
  show ?thesis unfolding xsteps_add straight_run [OF assms(1) n(1)] by (simp add: xstep_def n(2))
qed

lemma byte_apart:
  assumes "j < 4" and "k < 4" and "4 \<le> unat (a - b)" and "4 \<le> unat (b - a)"
  shows "b + of_nat j \<noteq> a + (of_nat k :: uint)"
proof
  assume e: "b + of_nat j = a + (of_nat k :: uint)"
  show False
  proof (cases "j \<le> k")
    case True
    have "b - a = of_nat (k - j)" using e by (simp add: of_nat_diff [OF True] algebra_simps)
    with assms show False by (simp add: unat_of_nat)
  next
    case False
    then have "a - b = of_nat (j - k)" using e by (simp add: of_nat_diff algebra_simps)
    with assms show False by (simp add: unat_of_nat)
  qed
qed

lemma load32_apart: "4 \<le> unat (a - b) \<Longrightarrow> 4 \<le> unat (b - a) \<Longrightarrow> load32 (store32 m a w) b = load32 m b"
proof -
  assume *: "4 \<le> unat (a - b)" "4 \<le> unat (b - a)"
  have "store32 m a w (b + of_nat j) = m (b + of_nat j)" if "j < 4" for j
    using byte_apart [OF that _ *, of 0] byte_apart [OF that _ *, of 1] byte_apart [OF that _ *, of 2] byte_apart [OF that _ *, of 3]
    by (intro store32_other) simp_all
  from this [of 0] this [of 1] this [of 2] this [of 3] show ?thesis by (simp add: load32_def)
qed

end
