(* ===== verification/Switch.thy ===== *)
theory Switch
  imports Asm
begin

text \<open>
  What the assembly does to the registers: the context switch of swtch.S, and the way from an interrupt through a vector and
  alltraps to trap() and back through trapret.
\<close>

section \<open>swtch\<close>

text \<open>struct context of proc.h, as it lies on a kernel stack.\<close>

record kcontext =
  c_edi :: uint
  c_esi :: uint
  c_ebx :: uint
  c_ebp :: uint
  c_eip :: uint

definition context_of :: "(uint \<Rightarrow> uchar) \<Rightarrow> uint \<Rightarrow> kcontext" where
  "context_of m a = \<lparr>c_edi = load32 m a, c_esi = load32 m (a + 4), c_ebx = load32 m (a + 8), c_ebp = load32 m (a + 12), c_eip = load32 m (a + 16)\<rparr>"

text \<open>The callee-saved registers and the return address of a call, and the same of a running processor.\<close>

definition caller_of :: "xcpu \<Rightarrow> kcontext" where
  "caller_of s = \<lparr>c_edi = regs s EDI, c_esi = regs s ESI, c_ebx = regs s EBX, c_ebp = regs s EBP, c_eip = stack_top s\<rparr>"

definition resumed :: "xcpu \<Rightarrow> kcontext" where
  "resumed s = \<lparr>c_edi = regs s EDI, c_esi = regs s ESI, c_ebx = regs s EBX, c_ebp = regs s EBP, c_eip = xeip s\<rparr>"

definition save_context :: "xcpu \<Rightarrow> uint \<Rightarrow> uchar" where
  "save_context s = (let e = regs s ESP in
     store32 (store32 (store32 (store32 (store32 (xmem s) (e - 4) (regs s EBP)) (e - 8) (regs s EBX)) (e - 12) (regs s ESI)) (e - 16) (regs s EDI))
       (load32 (xmem s) (e + 4)) (e - 16))"

lemma swtch_run:
  assumes "assembled code (xeip s) swtch b"
  obtains t where "xsteps code 13 s = Some t" "xmem t = save_context s" "regs t ESP = load32 (xmem s) (regs s ESP + 8) + 20"
    "resumed t = context_of (save_context s) (load32 (xmem s) (regs s ESP + 8))"
proof -
  have "swtch = butlast swtch @ [Ret]" "list_all straight (butlast swtch)" "length (butlast swtch) + 1 = 13"
    by (simp_all add: swtch_def straight_def)
  with straight_then [of "butlast swtch" code s Ret b] assms
  have r: "xsteps code 13 s = Some (exec_insn Ret ((fold exec_insn (butlast swtch) s)\<lparr>xeip := b\<rparr>))" by metis
  show thesis
    by (rule that [OF r]) (simp_all add: swtch_def xops save_context_def resumed_def context_of_def Let_def add.commute)
qed

text \<open>The word at \<open>b\<close> does not meet the \<open>n\<close> bytes at \<open>a\<close>.\<close>

definition word_outside :: "uint \<Rightarrow> nat \<Rightarrow> uint \<Rightarrow> bool" where
  "word_outside a n b \<longleftrightarrow> (\<forall>i < n. \<forall>j < 4. a + of_nat i \<noteq> b + of_nat j)"

lemma store32_outside: "word_outside a n b \<Longrightarrow> i < n \<Longrightarrow> store32 m b w (a + of_nat i) = m (a + of_nat i)"
  unfolding word_outside_def by (intro store32_other) (force dest: spec [of _ 0] spec [of _ 1] spec [of _ 2] spec [of _ 3])+

lemma load32_bytes:
  assumes "\<And>i. i < n \<Longrightarrow> m (a + of_nat i) = l (a + of_nat i)" and "k + 4 \<le> n"
  shows "load32 m (a + of_nat k) = load32 l (a + of_nat k)"
  using assms(1) [of k] assms(1) [of "k + 1"] assms(1) [of "k + 2"] assms(1) [of "k + 3"] assms(2)
  by (simp add: load32_def ac_simps)

lemma context_of_bytes:
  assumes "\<And>i. i < 20 \<Longrightarrow> m (a + of_nat i) = l (a + of_nat i)"
  shows "context_of m a = context_of l a"
  using load32_bytes [of 20 m a l 0, OF assms] load32_bytes [of 20 m a l 4, OF assms] load32_bytes [of 20 m a l 8, OF assms]
    load32_bytes [of 20 m a l 12, OF assms] load32_bytes [of 20 m a l 16, OF assms]
  by (simp add: context_of_def)

lemma context_of_saved:
  assumes "word_outside (regs s ESP - 16) 20 (load32 (xmem s) (regs s ESP + 4))"
  shows "context_of (save_context s) (regs s ESP - 16) = caller_of s"
    "load32 (save_context s) (load32 (xmem s) (regs s ESP + 4)) = regs s ESP - 16"
proof -
  let ?e = "regs s ESP"
  let ?m = "store32 (store32 (store32 (store32 (xmem s) (?e - 4) (regs s EBP)) (?e - 8) (regs s EBX)) (?e - 12) (regs s ESI)) (?e - 16) (regs s EDI)"
  have "context_of (save_context s) (?e - 16) = context_of ?m (?e - 16)"
    by (rule context_of_bytes) (simp add: save_context_def Let_def store32_outside [OF assms])
  also have "\<dots> = caller_of s" by (simp add: context_of_def caller_of_def stack_top_def load32_apart)
  finally show "context_of (save_context s) (?e - 16) = caller_of s" .
  show "load32 (save_context s) (load32 (xmem s) (?e + 4)) = ?e - 16" by (simp add: save_context_def Let_def)
qed

text \<open>
  C8. swtch() is, for its caller, a function that returns: when a processor calls swtch() to leave a stack and any processor
  later calls swtch() with the context pointer that was saved, the second call returns from the first one: to the return
  address of the first call, with the stack pointer behind it and with its ebp, ebx, esi and edi. In between
  the 20 bytes of the saved context must be left alone, and the two calls must not store their own pointers and
  registers there.
\<close>

theorem swtch_comes_back:
  assumes code: "assembled code (xeip s) swtch b" "assembled code (xeip u) swtch b'"
    and old: "word_outside (regs s ESP - 16) 20 (load32 (xmem s) (regs s ESP + 4))"
    and new: "load32 (xmem u) (regs u ESP + 8) = load32 (save_context s) (load32 (xmem s) (regs s ESP + 4))"
    and kept: "\<And>i. i < 20 \<Longrightarrow> save_context u (regs s ESP - 16 + of_nat i) = save_context s (regs s ESP - 16 + of_nat i)"
  shows "\<exists>s' t. xsteps code 13 s = Some s' \<and> xmem s' = save_context s \<and>
    xsteps code 13 u = Some t \<and> resumed t = caller_of s \<and> regs t ESP = regs s ESP + 4"
proof -
  obtain s' where s': "xsteps code 13 s = Some s'" "xmem s' = save_context s" by (rule swtch_run [OF code(1)])
  obtain t where t: "xsteps code 13 u = Some t" "regs t ESP = load32 (xmem u) (regs u ESP + 8) + 20"
    "resumed t = context_of (save_context u) (load32 (xmem u) (regs u ESP + 8))" by (rule swtch_run [OF code(2)])
  have "resumed t = context_of (save_context s) (regs s ESP - 16)"
    unfolding t(3) new context_of_saved(2) [OF old] by (rule context_of_bytes) (rule kept)
  moreover have "regs t ESP = regs s ESP + 4" unfolding t(2) new context_of_saved(2) [OF old] by simp
  ultimately show ?thesis using s' t(1) context_of_saved(1) [OF old] by simp
qed

section \<open>Traps\<close>

text \<open>The struct trapframe at an address: 16-bit fields are the low halves of their words.\<close>

definition trapframe_of :: "(uint \<Rightarrow> uchar) \<Rightarrow> uint \<Rightarrow> trapframe" where
  "trapframe_of m a =
     \<lparr>tf_edi = load32 m a, tf_esi = load32 m (a + 4), tf_ebp = load32 m (a + 8), tf_oesp = load32 m (a + 12),
      tf_ebx = load32 m (a + 16), tf_edx = load32 m (a + 20), tf_ecx = load32 m (a + 24), tf_eax = load32 m (a + 28),
      tf_gs = ucast (load32 m (a + 32)), tf_fs = ucast (load32 m (a + 36)), tf_es = ucast (load32 m (a + 40)), tf_ds = ucast (load32 m (a + 44)),
      tf_trapno = load32 m (a + 48), tf_err = load32 m (a + 52), tf_eip = load32 m (a + 56), tf_cs = ucast (load32 m (a + 60)),
      tf_eflags = load32 m (a + 64), tf_esp = load32 m (a + 68), tf_ss = ucast (load32 m (a + 72))\<rparr>"

text \<open>
  The processor's part of a trap that comes from user mode: it switches to the stack of the task state, saves the
  interrupted code there, and pushes an error code for the exceptions that have one (8, 10 to 14 and 17).
\<close>

definition interrupted :: "uint \<Rightarrow> ushort \<Rightarrow> ushort \<Rightarrow> uint \<Rightarrow> xcpu \<Rightarrow> xcpu" where
  "interrupted kesp kss kcs kfl s =
     (sets CS kcs (push (xeip s) (push (ucast (sregs s CS)) (push (xflags s) (push (regs s ESP) (push (ucast (sregs s SS))
       (sets SS kss (setr ESP kesp s))))))))\<lparr>xflags := kfl\<rparr>"

definition interrupt :: "nat \<Rightarrow> uint \<Rightarrow> uint \<Rightarrow> xcpu \<Rightarrow> xcpu" where
  "interrupt i err handler t = (if i \<in> {8, 10, 11, 12, 13, 14, 17} then push err t else t)\<lparr>xeip := handler\<rparr>"

text \<open>The interrupted code as a trap frame at \<open>f\<close>, and a processor whose registers are those of a frame.\<close>

definition frame_of :: "nat \<Rightarrow> uint \<Rightarrow> uint \<Rightarrow> xcpu \<Rightarrow> trapframe" where
  "frame_of i err f s =
     \<lparr>tf_edi = regs s EDI, tf_esi = regs s ESI, tf_ebp = regs s EBP, tf_oesp = f + 32, tf_ebx = regs s EBX, tf_edx = regs s EDX,
      tf_ecx = regs s ECX, tf_eax = regs s EAX, tf_gs = sregs s GS, tf_fs = sregs s FS, tf_es = sregs s ES, tf_ds = sregs s DS,
      tf_trapno = of_nat i, tf_err = (if has_errcode i then err else 0), tf_eip = xeip s, tf_cs = sregs s CS,
      tf_eflags = xflags s, tf_esp = regs s ESP, tf_ss = sregs s SS\<rparr>"

definition runs_frame :: "xcpu \<Rightarrow> trapframe \<Rightarrow> bool" where
  "runs_frame s F \<longleftrightarrow> regs s EDI = tf_edi F \<and> regs s ESI = tf_esi F \<and> regs s EBP = tf_ebp F \<and> regs s EBX = tf_ebx F \<and>
     regs s EDX = tf_edx F \<and> regs s ECX = tf_ecx F \<and> regs s EAX = tf_eax F \<and> regs s ESP = tf_esp F \<and>
     sregs s GS = tf_gs F \<and> sregs s FS = tf_fs F \<and> sregs s ES = tf_es F \<and> sregs s DS = tf_ds F \<and>
     sregs s CS = tf_cs F \<and> sregs s SS = tf_ss F \<and> xeip s = tf_eip F \<and> xflags s = tf_eflags F"

lemma ucast_selector [simp]: "ucast (ucast (v :: ushort) :: uint) = v"
  by (rule bit_word_eqI) (auto simp: bit_simps)

lemma has_errcode_set: "has_errcode i \<longleftrightarrow> i \<in> {8, 10, 11, 12, 13, 14, 17}"
  by (auto simp: has_errcode_def)

lemma vector_run:
  assumes "assembled code h (vector i a) b"
  obtains n where "xsteps code n (interrupt i err h t) = Some ((push (of_nat i) (push (if has_errcode i then err else 0) t))\<lparr>xeip := a\<rparr>)"
proof -
  let ?is = "(if \<not> has_errcode i then [Pushl_imm 0] else []) @ [Pushl_imm (of_nat i)]"
  have "list_all straight ?is" by (simp add: straight_def)
  moreover have "assembled code (xeip (interrupt i err h t)) (?is @ [Jmp a]) b" using assms by (simp add: interrupt_def vector_def)
  ultimately have "xsteps code (length ?is + 1) (interrupt i err h t) = Some (exec_insn (Jmp a) ((fold exec_insn ?is (interrupt i err h t))\<lparr>xeip := b\<rparr>))"
    by (rule straight_then)
  also have "\<dots> = Some ((push (of_nat i) (push (if has_errcode i then err else 0) t))\<lparr>xeip := a\<rparr>)"
    by (simp add: interrupt_def has_errcode_set xops)
  finally show thesis by (rule that)
qed

text \<open>
  alltraps as far as the call of trap(): \<open>f\<close> is the address of the frame and the argument of the call.
\<close>

lemma alltraps_run:
  assumes "assembled code (xeip t) (butlast (alltraps trap)) r"
  obtains n u where "xsteps code n t = Some u" "xeip u = trap" "regs u ESP = regs t ESP - 56" "load32 (xmem u) (regs u ESP) = r"
    "load32 (xmem u) (regs u ESP + 4) = regs t ESP - 48" "sregs u CS = sregs t CS"
    "trapframe_of (xmem u) (regs t ESP - 48) = (trapframe_of (xmem t) (regs t ESP - 48))
      \<lparr>tf_edi := regs t EDI, tf_esi := regs t ESI, tf_ebp := regs t EBP, tf_oesp := regs t ESP - 16, tf_ebx := regs t EBX, tf_edx := regs t EDX,
       tf_ecx := regs t ECX, tf_eax := regs t EAX, tf_gs := sregs t GS, tf_fs := sregs t FS, tf_es := sregs t ES, tf_ds := sregs t DS\<rparr>"
proof -
  let ?is = "butlast (butlast (alltraps trap))"
  have sl: "butlast (alltraps trap) = ?is @ [Call trap]" "list_all straight ?is" by (simp_all add: alltraps_def straight_def)
  from straight_then [OF sl(2), of code t "Call trap" r] assms sl(1)
  have r: "xsteps code (length ?is + 1) t = Some (exec_insn (Call trap) ((fold exec_insn ?is t)\<lparr>xeip := r\<rparr>))" by simp
  show thesis
    by (rule that [OF r]) (simp_all add: alltraps_def xops Let_def trapframe_of_def load32_apart)
qed

lemma trapret_run:
  assumes "assembled code (xeip v) (last (alltraps trap) # trapret) b" and "ring (tf_cs (trapframe_of (xmem v) (regs v ESP + 4))) \<noteq> ring (sregs v CS)"
  obtains n w where "xsteps code n v = Some w" "runs_frame w (trapframe_of (xmem v) (regs v ESP + 4))" "xmem w = xmem v"
proof -
  let ?is = "last (alltraps trap) # butlast trapret"
  have sl: "last (alltraps trap) # trapret = ?is @ [Iret]" "list_all straight ?is" by (simp_all add: alltraps_def trapret_def straight_def)
  from straight_then [OF sl(2), of code v Iret b] assms(1) sl(1)
  have r: "xsteps code (length ?is + 1) v = Some (exec_insn Iret ((fold exec_insn ?is v)\<lparr>xeip := b\<rparr>))" by simp
  show thesis
    by (rule that [OF r]) (use assms(2) in \<open>simp_all add: alltraps_def trapret_def xops iret_def Let_def trapframe_of_def runs_frame_def add.commute\<close>)
qed

lemma trapframe_interrupted:
  "trapframe_of (xmem (push (of_nat i) (push (if has_errcode i then err else 0) (interrupted kesp kss kcs kfl s)))) (kesp - 76)
    \<lparr>tf_edi := regs s EDI, tf_esi := regs s ESI, tf_ebp := regs s EBP, tf_oesp := kesp - 44, tf_ebx := regs s EBX, tf_edx := regs s EDX,
     tf_ecx := regs s ECX, tf_eax := regs s EAX, tf_gs := sregs s GS, tf_fs := sregs s FS, tf_es := sregs s ES, tf_ds := sregs s DS\<rparr> =
   frame_of i err (kesp - 76) s"
  by (simp add: interrupted_def trapframe_of_def frame_of_def xops load32_apart)

text \<open>
  C9. A trap from user mode through any vector reaches trap() with a pointer to a frame that holds the trap number, the error
  code or 0 where the processor pushes none, and all registers of the interrupted code. When trap() returns, with
  whatever it has written to the frame, the code goes on in user mode with exactly the registers the frame
  then holds; so if trap() leaves the frame alone the interrupted code does not notice.
\<close>

theorem trap_enters_and_returns:
  assumes code: "assembled code h (vector i a) b" "assembled code a (alltraps trap @ trapret) b'" and kcs: "ring kcs = 0"
  shows "\<exists>n u. xsteps code n (interrupt i err h (interrupted kesp kss kcs kfl s)) = Some u \<and> xeip u = trap \<and>
    load32 (xmem u) (regs u ESP + 4) = kesp - 76 \<and> trapframe_of (xmem u) (kesp - 76) = frame_of i err (kesp - 76) s \<and>
    (\<forall>v. xeip v = stack_top u \<and> regs v ESP = regs u ESP + 4 \<and> sregs v CS = sregs u CS \<and> ring (tf_cs (trapframe_of (xmem v) (kesp - 76))) = 3 \<longrightarrow>
      (\<exists>k w. xsteps code k v = Some w \<and> runs_frame w (trapframe_of (xmem v) (kesp - 76)) \<and> xmem w = xmem v))"
proof -
  let ?t = "(push (of_nat i) (push (if has_errcode i then err else 0) (interrupted kesp kss kcs kfl s)))\<lparr>xeip := a\<rparr>"
  have t: "regs ?t ESP = kesp - 28" "sregs ?t CS = kcs" "regs ?t EDI = regs s EDI" "regs ?t ESI = regs s ESI" "regs ?t EBP = regs s EBP"
    "regs ?t EBX = regs s EBX" "regs ?t EDX = regs s EDX" "regs ?t ECX = regs s ECX" "regs ?t EAX = regs s EAX"
    "sregs ?t GS = sregs s GS" "sregs ?t FS = sregs s FS" "sregs ?t ES = sregs s ES" "sregs ?t DS = sregs s DS"
    "xmem ?t = xmem (push (of_nat i) (push (if has_errcode i then err else 0) (interrupted kesp kss kcs kfl s)))"
    by (simp_all add: interrupted_def xops)
  have ar: "kesp - 28 - 48 = kesp - 76" "kesp - 28 - 16 = kesp - 44" "kesp - 28 - 56 = kesp - 84" by simp_all
  obtain n where n: "xsteps code n (interrupt i err h (interrupted kesp kss kcs kfl s)) = Some ?t" by (rule vector_run [OF code(1)])
  have "alltraps trap @ trapret = butlast (alltraps trap) @ last (alltraps trap) # trapret" by (simp add: alltraps_def)
  with code(2) obtain r where r: "assembled code a (butlast (alltraps trap)) r" "assembled code r (last (alltraps trap) # trapret) b'"
    by (metis assembled_append)
  then have "assembled code (xeip ?t) (butlast (alltraps trap)) r" by simp
  then obtain m u where u: "xsteps code m ?t = Some u" "xeip u = trap" "regs u ESP = kesp - 84" "load32 (xmem u) (regs u ESP) = r"
    "load32 (xmem u) (regs u ESP + 4) = kesp - 76" "sregs u CS = kcs" "trapframe_of (xmem u) (kesp - 76) = frame_of i err (kesp - 76) s"
    by (rule alltraps_run [of code ?t, unfolded t ar trapframe_interrupted])
  have "xsteps code (n + m) (interrupt i err h (interrupted kesp kss kcs kfl s)) = Some u" using n u(1) by (simp add: xsteps_add)
  moreover have "\<exists>k w. xsteps code k v = Some w \<and> runs_frame w (trapframe_of (xmem v) (kesp - 76)) \<and> xmem w = xmem v"
    if v: "xeip v = stack_top u" "regs v ESP = regs u ESP + 4" "sregs v CS = sregs u CS" "ring (tf_cs (trapframe_of (xmem v) (kesp - 76))) = 3" for v
  proof -
    have e: "regs v ESP + 4 = kesp - 76" using v(2) u(3) by simp
    have "assembled code (xeip v) (last (alltraps trap) # trapret) b'" using r(2) v(1) u(4) by (simp add: stack_top_def)
    from trapret_run [OF this, unfolded e] show ?thesis using v(3,4) u(6) kcs by fastforce
  qed
  ultimately show ?thesis using u(2,5,7) by blast
qed

section \<open>Examples\<close>

text \<open>Code with an instruction at every address of a stretch.\<close>

definition place :: "uint \<Rightarrow> insn list \<Rightarrow> code" where
  "place a is x = (if unat (x - a) < length is then Some (is ! unat (x - a), x + 1) else None)"

definition ex_code :: code where
  "ex_code = place 0x100 swtch ++ place 0x200 (vector 3 0x300) ++ place 0x300 (alltraps 0x400 @ trapret)"

definition ex_xcpu :: xcpu where
  "ex_xcpu = \<lparr>regs = (\<lambda>_. 7)(ESP := 0x5000), sregs = (\<lambda>_. 0x1B), cregs = (\<lambda>_. 0), xeip = 0x100, xflags = 0x202, gdtr = 0,
     xmem = store32 (store32 (\<lambda>_. 0) 0x5004 0x6000) 0x5008 0x7000, ports_in = (\<lambda>_ _. 0), ports_out = []\<rparr>"

definition ex_back :: xcpu where
  "ex_back = ex_xcpu\<lparr>regs := (\<lambda>_. 9)(ESP := 0x8000),
     xmem := store32 (store32 (save_context ex_xcpu) 0x8004 0x6010) 0x8008 0x4FF0\<rparr>"

lemma ex_code_assembled:
  "assembled ex_code 0x100 swtch 0x10D" "assembled ex_code 0x200 (vector 3 0x300) 0x203" "assembled ex_code 0x300 (alltraps 0x400 @ trapret) 0x312"
  by (simp_all add: ex_code_def place_def map_add_def swtch_def vector_def has_errcode_def alltraps_def trapret_def)

lemma word_outside_far:
  assumes "unat a + n \<le> unat b \<or> unat b + 4 \<le> unat a" and "unat a + n \<le> 2 ^ 32" and "unat b + 4 \<le> 2 ^ 32"
  shows "word_outside a n b"
  unfolding word_outside_def
proof (intro allI impI)
  fix i j :: nat assume ij: "i < n" "j < 4"
  have "unat (a + of_nat i) = unat a + i" "unat (b + of_nat j) = unat b + j"
    using ij assms(2,3) by (simp_all add: unat_word_ariths unat_of_nat)
  then show "a + of_nat i \<noteq> b + of_nat j" using assms(1) ij by auto
qed

theorem swtch_comes_back_witness:
  "\<exists>s' t. xsteps ex_code 13 ex_xcpu = Some s' \<and> xmem s' = save_context ex_xcpu \<and>
    xsteps ex_code 13 ex_back = Some t \<and> resumed t = caller_of ex_xcpu \<and> regs t ESP = 0x5004"
proof -
  have e: "regs ex_xcpu ESP = 0x5000" "xeip ex_xcpu = 0x100" "xeip ex_back = 0x100" "regs ex_back ESP = 0x8000"
    "load32 (xmem ex_xcpu) 0x5004 = 0x6000" "load32 (xmem ex_back) 0x8004 = 0x6010" "load32 (xmem ex_back) 0x8008 = 0x4FF0"
    by (simp_all add: ex_xcpu_def ex_back_def load32_apart)
  have o: "word_outside 0x4FF0 20 b" if "b \<in> {0x6000, 0x6010, 0x7FF0, 0x7FF4, 0x7FF8, 0x7FFC, 0x8004, 0x8008}" for b
    using that by (auto intro!: word_outside_far)
  have k: "save_context ex_back (0x4FF0 + of_nat i) = save_context ex_xcpu (0x4FF0 + of_nat i)" if "i < 20" for i
  proof -
    have "save_context ex_back (0x4FF0 + of_nat i) = xmem ex_back (0x4FF0 + of_nat i)"
      using that by (simp add: save_context_def Let_def e store32_outside [OF o])
    also have "\<dots> = save_context ex_xcpu (0x4FF0 + of_nat i)" using that by (simp add: ex_back_def store32_outside [OF o])
    finally show ?thesis .
  qed
  have "load32 (save_context ex_xcpu) 0x6000 = 0x4FF0" using context_of_saved(2) [of ex_xcpu] o by (simp add: e)
  then show ?thesis using swtch_comes_back [of ex_code ex_xcpu "0x10D" ex_back "0x10D"] ex_code_assembled(1) o k by (simp add: e)
qed

theorem trap_enters_and_returns_witness:
  "\<exists>n u. xsteps ex_code n (interrupt 3 0 0x200 (interrupted 0x9000 0x10 0x8 2 ex_xcpu)) = Some u \<and> xeip u = 0x400 \<and>
    trapframe_of (xmem u) 0x8FB4 = frame_of 3 0 0x8FB4 ex_xcpu \<and>
    (\<exists>k w. xsteps ex_code k (u\<lparr>xeip := stack_top u, regs := (regs u)(ESP := regs u ESP + 4)\<rparr>) = Some w \<and> runs_frame w (frame_of 3 0 0x8FB4 ex_xcpu))"
proof -
  have "ring 0x8 = 0" by (simp add: ring_def)
  from trap_enters_and_returns [OF ex_code_assembled(2,3) this, of 0 "0x9000" "0x10" 2 ex_xcpu] obtain n u where
    u: "xsteps ex_code n (interrupt 3 0 0x200 (interrupted 0x9000 0x10 0x8 2 ex_xcpu)) = Some u" "xeip u = 0x400"
      "trapframe_of (xmem u) 0x8FB4 = frame_of 3 0 0x8FB4 ex_xcpu"
    and ret: "\<forall>v. xeip v = stack_top u \<and> regs v ESP = regs u ESP + 4 \<and> sregs v CS = sregs u CS \<and> ring (tf_cs (trapframe_of (xmem v) 0x8FB4)) = 3 \<longrightarrow>
      (\<exists>k w. xsteps ex_code k v = Some w \<and> runs_frame w (trapframe_of (xmem v) 0x8FB4) \<and> xmem w = xmem v)"
    by auto
  have "ring (tf_cs (frame_of 3 0 0x8FB4 ex_xcpu)) = 3" by (simp add: frame_of_def ring_def ex_xcpu_def)
  with spec [OF ret, of "u\<lparr>xeip := stack_top u, regs := (regs u)(ESP := regs u ESP + 4)\<rparr>"] u show ?thesis by auto
qed

end
