(* ===== verification/Startup.thy ===== *)
theory Startup
  imports Switch Boot Examples_Io
begin

text \<open>
  The start-up code of Asm.thy up to the C functions it calls: bootasm.S to bootmain(), entry.S to main(), and
  entryother.S to mpenter() with the stack that startothers() of main.c has left for the new CPU.
\<close>

section \<open>The boot CPU\<close>

text \<open>Protected mode with flat segments, as the C code expects it.\<close>

definition flat_mode :: "xcpu \<Rightarrow> bool" where
  "flat_mode s \<longleftrightarrow> cregs s CR0 AND CR0_PE \<noteq> 0 \<and> sregs s CS = KCODE_SEL \<and> sregs s DS = KDATA_SEL \<and> sregs s ES = KDATA_SEL \<and>
     sregs s SS = KDATA_SEL \<and> sregs s FS = 0 \<and> sregs s GS = 0 \<and> xflags s AND FL_IF = 0"

definition paging_on :: "uint \<Rightarrow> xcpu \<Rightarrow> bool" where
  "paging_on dir s \<longleftrightarrow> cregs s CR0 AND CR0_PG \<noteq> 0 \<and> cregs s CR0 AND CR0_WP \<noteq> 0 \<and> cregs s CR4 AND CR4_PSE \<noteq> 0 \<and> cregs s CR3 = V2P dir"

definition reach :: "code \<Rightarrow> xcpu \<Rightarrow> xcpu \<Rightarrow> bool" where
  "reach code s t \<longleftrightarrow> (\<exists>n. xsteps code n s = Some t)"

lemma reach_trans: "reach code s t \<Longrightarrow> reach code t u \<Longrightarrow> reach code s u"
  unfolding reach_def by (metis option.simps(5) xsteps_add)

lemma reach_straight: "list_all straight is \<Longrightarrow> assembled code (xeip s) is b \<Longrightarrow> reach code s ((fold exec_insn is s)\<lparr>xeip := b\<rparr>)"
  unfolding reach_def using straight_run by blast

lemma reach_then:
  "list_all straight is \<Longrightarrow> assembled code (xeip s) (is @ [j]) b \<Longrightarrow> reach code s (exec_insn j ((fold exec_insn is s)\<lparr>xeip := b\<rparr>))"
  unfolding reach_def using straight_then by blast

lemma assembled_end: "assembled code a is b \<Longrightarrow> assembled code a is c \<Longrightarrow> b = c"
  by (induction "is" arbitrary: a) (auto split: option.splits)

lemma assembled_mid:
  assumes "assembled code a (xs @ ys @ zs) b"
  obtains d e where "assembled code a xs d" "assembled code d ys e"
  using assms unfolding assembled_append by blast

lemma or_and_mask [simp]:
  "(w OR m) AND m = (m :: uint)" "(w OR m OR n) AND m = (m :: uint)" "(w OR n OR m) AND m = (m :: uint)" "(w OR k OR n OR m) AND m = (m :: uint)"
  "(w OR k OR m OR n) AND m = (m :: uint)"
  by (rule bit_word_eqI; auto simp: bit_simps)+

lemma cr_masks [simp]: "CR0_PE \<noteq> 0" "CR0_PG \<noteq> 0" "CR0_WP \<noteq> 0" "CR4_PSE \<noteq> 0"
  by (simp_all add: CR0_PE_def CR0_PG_def CR0_WP_def CR4_PSE_def)

lemma flags_exp: "FL_IF = 2 ^ 9" "FL_ZF = 2 ^ 6"
  by (simp_all add: FL_IF_def FL_ZF_def)

lemma flag_masks [simp]:
  "(w OR FL_ZF) AND FL_IF = w AND FL_IF" "(w AND NOT FL_ZF) AND FL_IF = w AND FL_IF" "(w AND NOT FL_IF) AND FL_IF = 0"
  by (rule bit_word_eqI; auto simp: bit_simps flags_exp simp del: power_numeral)+

lemma setzf_flag [simp]: "xflags (setzf z s) AND FL_ZF = 0 \<longleftrightarrow> \<not> z" "xflags (setzf z s) AND FL_IF = xflags s AND FL_IF"
  by (simp_all add: setzf_def) (auto simp: flags_exp and_exp_eq_0_iff_not_bit bit_simps simp del: power_numeral)

lemma low_masks: "0xFFFFFF00 = NOT (mask 8 :: uint)" "0xFFFF0000 = NOT (mask 16 :: uint)"
  by (simp_all add: mask_eq_exp_minus_1)

lemma ucast_low [simp]: "ucast (low8 r v) = v" "ucast (low16 r u) = u"
  unfolding low8_def low16_def low_masks by (rule bit_word_eqI; auto simp: bit_simps)+

text \<open>What the wait for the keyboard controller leaves as it was.\<close>

definition quiet :: "xcpu \<Rightarrow> xcpu \<Rightarrow> bool" where
  "quiet s t \<longleftrightarrow> sregs t = sregs s \<and> cregs t = cregs s \<and> gdtr t = gdtr s \<and> xmem t = xmem s \<and> ports_out t = ports_out s \<and>
     xflags t AND FL_IF = xflags s AND FL_IF \<and> (\<forall>r. r \<noteq> EAX \<longrightarrow> regs t r = regs s r)"

lemma quiet_trans: "quiet s t \<Longrightarrow> quiet t u \<Longrightarrow> quiet s u"
  by (simp add: quiet_def)

lemma wait_turn:
  assumes "assembled code a (wait_kbc a) b" and "xeip s = a"
  obtains t where "reach code s t" "quiet s t" "xeip t = (if ports_in s 0 0x64 AND 2 = 0 then b else a)" "ports_in t = (\<lambda>i. ports_in s (Suc i))"
proof -
  have "reach code s (exec_insn (Jnz a) ((fold exec_insn [Inb 0x64, Testb_imm 2 EAX] s)\<lparr>xeip := b\<rparr>))"
    by (rule reach_then) (use assms in \<open>simp_all add: wait_kbc_def straight_def\<close>)
  moreover have "exec_insn (Jnz a) ((fold exec_insn [Inb 0x64, Testb_imm 2 EAX] s)\<lparr>xeip := b\<rparr>) =
    (setzf (ports_in s 0 0x64 AND 2 = 0) (setr EAX (low8 (regs s EAX) (ports_in s 0 0x64)) (s\<lparr>ports_in := (\<lambda>i. ports_in s (Suc i))\<rparr>)))
      \<lparr>xeip := if ports_in s 0 0x64 AND 2 = 0 then b else a\<rparr>"
    by (simp add: inp_def setr_def)
  ultimately show thesis
    by (intro that) (simp_all add: quiet_def, simp_all add: setr_def setzf_def)
qed

lemma wait_run:
  assumes "assembled code a (wait_kbc a) b"
  shows "xeip s = a \<Longrightarrow> ports_in s k 0x64 AND 2 = 0 \<Longrightarrow>
    \<exists>t m. reach code s t \<and> quiet s t \<and> xeip t = b \<and> ports_in t = (\<lambda>i. ports_in s (i + m))"
proof (induction k arbitrary: s)
  case 0
  obtain t where "reach code s t" "quiet s t" "xeip t = b" "ports_in t = (\<lambda>i. ports_in s (Suc i))"
    by (rule wait_turn [OF assms 0(1)]) (use 0 in simp)
  then show ?case by (intro exI [of _ t] exI [of _ 1]) simp
next
  case (Suc k)
  obtain t where t: "reach code s t" "quiet s t" "xeip t = (if ports_in s 0 0x64 AND 2 = 0 then b else a)" "ports_in t = (\<lambda>i. ports_in s (Suc i))"
    by (rule wait_turn [OF assms Suc.prems(1)])
  show ?case
  proof (cases "ports_in s 0 0x64 AND 2 = 0")
    case True
    with t show ?thesis by (intro exI [of _ t] exI [of _ 1]) simp
  next
    case False
    then have "xeip t = a" "ports_in t k 0x64 AND 2 = 0" using t(3,4) Suc.prems(2) by simp_all
    from Suc.IH [OF this] obtain u m where u: "reach code t u" "quiet t u" "xeip u = b" "ports_in u = (\<lambda>i. ports_in t (i + m))" by blast
    show ?thesis
      using reach_trans [OF t(1) u(1)] quiet_trans [OF t(2) u(2)] u(3,4) t(4) by (intro exI [of _ u] exI [of _ "Suc m"]) simp
  qed
qed

lemma low8_byte [simp]: "low8 r v AND 0xFF = ucast v"
proof -
  have e: "0xFF = (mask 8 :: uint)" by (simp add: mask_eq_exp_minus_1)
  show ?thesis unfolding e low8_def low_masks by (rule bit_word_eqI) (auto simp: bit_simps dest: bit_imp_le_length)
qed

lemma a20_run:
  assumes "assembled code a (wait_kbc a @ [Movb_imm v EAX, Outb p]) b" and "xeip s = a" and "\<And>n. \<exists>k. ports_in s (k + n) 0x64 AND 2 = 0"
  obtains t where "reach code s t" "xeip t = b" "\<And>n. \<exists>k. ports_in t (k + n) 0x64 AND 2 = 0" "quiet (s\<lparr>ports_out := ports_out s @ [(p, ucast v)]\<rparr>) t"
proof -
  from assms(1) obtain c where c: "assembled code a (wait_kbc a) c" "assembled code c [Movb_imm v EAX, Outb p] b" by (auto simp only: assembled_append)
  obtain k where "ports_in s k 0x64 AND 2 = 0" using assms(3) [of 0] by auto
  from wait_run [OF c(1) assms(2) this] obtain t m where t: "reach code s t" "quiet s t" "xeip t = c" "ports_in t = (\<lambda>i. ports_in s (i + m))" by blast
  let ?u = "(fold exec_insn [Movb_imm v EAX, Outb p] t)\<lparr>xeip := b\<rparr>"
  have "reach code t ?u" by (rule reach_straight) (use c(2) t(3) in \<open>simp_all add: straight_def\<close>)
  moreover have "quiet (s\<lparr>ports_out := ports_out s @ [(p, ucast v)]\<rparr>) ?u" using t(2) by (simp add: quiet_def outp_def setr_def)
  moreover have "\<exists>k. ports_in ?u (k + n) 0x64 AND 2 = 0" for n
    using assms(3) [of "n + m"] by (simp add: t(4) outp_def setr_def add.assoc)
  ultimately show thesis by (intro that [of ?u]) (use reach_trans [OF t(1)] in simp_all)
qed

lemma protect_run:
  assumes "assembled code (xeip s) (protect gdtdesc start32) b" and "xflags s AND FL_IF = 0"
  obtains t where "reach code s t" "xeip t = start32" "gdtr t = gdtdesc" "cregs t CR0 AND CR0_PE \<noteq> 0" "sregs t CS = KCODE_SEL"
    "xflags t AND FL_IF = 0" "ports_out t = ports_out s" "xmem t = xmem s"
proof -
  let ?is = "butlast (protect gdtdesc start32)"
  have "protect gdtdesc start32 = ?is @ [Ljmp KCODE_SEL start32]" "list_all straight ?is" by (simp_all add: protect_def straight_def)
  with reach_then [of ?is code s "Ljmp KCODE_SEL start32" b] assms(1)
  have r: "reach code s (exec_insn (Ljmp KCODE_SEL start32) ((fold exec_insn ?is s)\<lparr>xeip := b\<rparr>))" by simp
  show thesis by (rule that [OF r]) (use assms(2) in \<open>simp_all add: protect_def sets_def, simp_all add: setr_def setzf_def\<close>)
qed

lemma segments_run:
  assumes "assembled code (xeip s) load_segments b" and "cregs s CR0 AND CR0_PE \<noteq> 0" "sregs s CS = KCODE_SEL" "xflags s AND FL_IF = 0"
  obtains t where "reach code s t" "xeip t = b" "flat_mode t" "gdtr t = gdtr s" "ports_out t = ports_out s" "xmem t = xmem s" "cregs t = cregs s"
proof -
  have r: "reach code s ((fold exec_insn load_segments s)\<lparr>xeip := b\<rparr>)"
    by (rule reach_straight) (use assms(1) in \<open>simp_all add: load_segments_def straight_def\<close>)
  show thesis by (rule that [OF r]) (use assms(2-) in \<open>simp_all add: load_segments_def flat_mode_def setr_def sets_def\<close>)
qed

text \<open>
  C12. The boot sector: from its first instruction, in real mode, bootasm.S reaches bootmain() once the keyboard controller has
  been ready, with the two bytes that open address line A20 sent in order, in protected mode with flat
  segments and interrupts off, and with the stack growing down from the sector.
\<close>

theorem boot_reaches_bootmain:
  assumes code: "assembled code start (bootasm_start seta20_1 seta20_2 gdtdesc start32) b" "assembled code start32 (bootasm_start32 start bootmain spin) b'"
    and labels: "assembled code start real_mode seta20_1" "assembled code seta20_1 (wait_kbc seta20_1 @ [Movb_imm 0xd1 EAX, Outb 0x64]) seta20_2"
    and s: "xeip s = start" and ready: "\<And>n. \<exists>k. ports_in s (k + n) 0x64 AND 2 = 0"
  shows "\<exists>t. reach code s t \<and> xeip t = bootmain \<and> flat_mode t \<and> regs t ESP = start - 4 \<and> gdtr t = gdtdesc \<and>
    ports_out t = ports_out s @ [(0x64, 0xd1), (0x60, 0xdf)]"
proof -
  from code(1) obtain c where c: "assembled code seta20_2 (wait_kbc seta20_2 @ [Movb_imm 0xdf EAX, Outb 0x60]) c" "assembled code c (protect gdtdesc start32) b"
    unfolding bootasm_start_def assembled_append using labels unfolding assembled_append by (metis assembled_end)
  have r1: "reach code s ((fold exec_insn real_mode s)\<lparr>xeip := seta20_1\<rparr>)" (is "reach code s ?t1")
    by (rule reach_straight) (use labels(1) s in \<open>simp_all add: real_mode_def straight_def\<close>)
  have t1: "xeip ?t1 = seta20_1" "ports_in ?t1 = ports_in s" "ports_out ?t1 = ports_out s" "xflags ?t1 AND FL_IF = 0"
    by (simp_all add: real_mode_def sets_def Let_def, simp_all add: setr_def setzf_def)
  have "\<exists>k. ports_in ?t1 (k + n) 0x64 AND 2 = 0" for n using ready t1(2) by simp
  from a20_run [OF labels(2) t1(1) this] obtain t2 where t2: "reach code ?t1 t2" "xeip t2 = seta20_2" "\<And>n. \<exists>k. ports_in t2 (k + n) 0x64 AND 2 = 0"
    "quiet (?t1\<lparr>ports_out := ports_out ?t1 @ [(0x64, ucast (0xd1 :: uchar))]\<rparr>) t2" by metis
  from a20_run [OF c(1) t2(2,3)] obtain t3 where t3: "reach code t2 t3" "xeip t3 = c" "quiet (t2\<lparr>ports_out := ports_out t2 @ [(0x60, ucast (0xdf :: uchar))]\<rparr>) t3" by metis
  have q: "xflags t3 AND FL_IF = 0" "ports_out t3 = ports_out s @ [(0x64, 0xd1), (0x60, 0xdf)]" using t1 t2(4) t3(3) by (simp_all add: quiet_def)
  have "assembled code (xeip t3) (protect gdtdesc start32) b" using c(2) t3(2) by simp
  from protect_run [OF this q(1)] obtain t4 where t4: "reach code t3 t4" "xeip t4 = start32" "gdtr t4 = gdtdesc" "cregs t4 CR0 AND CR0_PE \<noteq> 0" "sregs t4 CS = KCODE_SEL"
    "xflags t4 AND FL_IF = 0" "ports_out t4 = ports_out t3" by metis
  from code(2) obtain d e where d: "assembled code start32 load_segments d" "assembled code d [Movl_imm start ESP, Call bootmain] e"
    unfolding bootasm_start32_def assembled_append by blast
  have "assembled code (xeip t4) load_segments d" using d(1) t4(2) by simp
  from segments_run [OF this t4(4-6)] obtain t5 where t5: "reach code t4 t5" "xeip t5 = d" "flat_mode t5" "gdtr t5 = gdtr t4" "ports_out t5 = ports_out t4" by metis
  have r6: "reach code t5 (exec_insn (Call bootmain) ((fold exec_insn [Movl_imm start ESP] t5)\<lparr>xeip := e\<rparr>))" (is "reach code t5 ?t6")
    by (rule reach_then) (use d(2) t5(2) in \<open>simp_all add: straight_def\<close>)
  have "xeip ?t6 = bootmain" "flat_mode ?t6" "regs ?t6 ESP = start - 4" "gdtr ?t6 = gdtdesc" "ports_out ?t6 = ports_out s @ [(0x64, 0xd1), (0x60, 0xdf)]"
    using t5 t4(3,7) q(2) by (simp_all add: xops flat_mode_def)
  moreover have "reach code s ?t6" by (rule reach_trans [OF r1 reach_trans [OF t2(1) reach_trans [OF t3(1) reach_trans [OF t4(1) reach_trans [OF t5(1) r6]]]]])
  ultimately show ?thesis by blast
qed

lemma entry_reaches_main:
  assumes "assembled code (xeip s) (entry pgd stack kmain) b"
  shows "\<exists>t. reach code s t \<and> xeip t = kmain \<and> regs t ESP = stack + KSTACKSIZE \<and> paging_on pgd t"
proof -
  let ?is = "butlast (entry pgd stack kmain)"
  have "entry pgd stack kmain = ?is @ [Jmp_reg EAX]" "list_all straight ?is" by (simp_all add: entry_def straight_def)
  with reach_then [of ?is code s "Jmp_reg EAX" b] assms
  have r: "reach code s (exec_insn (Jmp_reg EAX) ((fold exec_insn ?is s)\<lparr>xeip := b\<rparr>))" by simp
  show ?thesis
    by (intro exI conjI, rule r) (simp_all add: entry_def paging_on_def, simp_all add: xops)
qed

section \<open>The other CPUs\<close>

text \<open>The three words startothers() leaves below the code at 0x7000.\<close>

definition mailbox :: "boot_image \<Rightarrow> uint \<Rightarrow> (uint \<Rightarrow> uchar) \<Rightarrow> uint \<Rightarrow> uchar" where
  "mailbox img stack m = (let c = P2V 0x7000 in
     store32 (store32 (store32 m (c - 4) (stack + KSTACKSIZE)) (c - 8) (sym_mpenter img)) (c - 12) (V2P (sym_entrypgdir img)))"

lemma mailbox_words:
  "load32 (\<lambda>a. mailbox img stack m (P2V a)) 0x6FFC = stack + KSTACKSIZE"
  "load32 (\<lambda>a. mailbox img stack m (P2V a)) 0x6FF8 = sym_mpenter img"
  "load32 (\<lambda>a. mailbox img stack m (P2V a)) 0x6FF4 = V2P (sym_entrypgdir img)"
proof -
  have p: "load32 (\<lambda>a. l (P2V a)) b = load32 l (P2V b)" for l b by (simp add: load32_def P2V_def algebra_simps)
  show "load32 (\<lambda>a. mailbox img stack m (P2V a)) 0x6FFC = stack + KSTACKSIZE" "load32 (\<lambda>a. mailbox img stack m (P2V a)) 0x6FF8 = sym_mpenter img"
    "load32 (\<lambda>a. mailbox img stack m (P2V a)) 0x6FF4 = V2P (sym_entrypgdir img)"
    unfolding p by (simp_all add: mailbox_def P2V_def KERNBASE_def load32_apart)
qed

text \<open>start_cpu() leaves its words in memory before it tells the local APIC to start the CPU and waits for it.\<close>

definition launch :: "nat \<Rightarrow> ('z dev_state_scheme, unit) kM" where
  "launch c = kbind (kgets (\<lambda>s. apicid (cpus s ! c))) (\<lambda>a. kthen (lapicstartap a 0x7000) (kbind (kgets patience) (\<lambda>k. await_started (Suc k) c)))"

lemma start_cpu_mailbox:
  assumes "kmem_ready s" and "\<not> cur_IF s" and "c \<noteq> me s"
  obtains s' where "start_cpu img (P2V 0x7000) c s = launch c s'" "mem s' = mailbox img (freelist s) (mem s)"
proof -
  obtain i where i: "cpu_at s = Some i" "me s = i" using assms(1) by (auto simp: kmem_ready_def cpu_ok_def me_def)
  have m: "mycpu s = Ok (me s) s" using i assms(2) by (simp add: mycpu_run)
  let ?t = "if freelist s = 0 then settled s else (settled s)\<lparr>freelist := load32 (mem s) (freelist s)\<rparr>"
  have "mem ?t = mem s" by (simp add: settled_def)
  then show thesis
    using assms(3)
    by (intro that [of "?t\<lparr>mem := mailbox img (freelist s) (mem s)\<rparr>"])
      (simp_all add: start_cpu_def launch_def kbind_Ok [of mycpu, OF m] kbind_Ok [of kalloc, OF kalloc_run [OF assms(1)]]
        put32_def mailbox_def Let_def kmonad V2P_def P2V_def)
qed

lemma entryother_run:
  assumes code: "assembled code start (entryother_start gdtdesc start32) b" "assembled code start32 (entryother_start32 start spin) b'" and s: "xeip s = start"
  obtains t where "reach code s t" "xeip t = load32 (xmem s) (start - 8)" "regs t ESP = load32 (xmem s) (start - 4) - 4" "flat_mode t"
    "cregs t CR3 = load32 (xmem s) (start - 12)" "cregs t CR0 AND CR0_PG \<noteq> 0" "cregs t CR0 AND CR0_WP \<noteq> 0" "cregs t CR4 AND CR4_PSE \<noteq> 0"
proof -
  from code(1) obtain a where a: "assembled code start real_mode a" "assembled code a (protect gdtdesc start32) b"
    unfolding entryother_start_def assembled_append by blast
  have r1: "reach code s ((fold exec_insn real_mode s)\<lparr>xeip := a\<rparr>)" (is "reach code s ?t1")
    by (rule reach_straight) (use a(1) s in \<open>simp_all add: real_mode_def straight_def\<close>)
  have t1: "xeip ?t1 = a" "xmem ?t1 = xmem s" "xflags ?t1 AND FL_IF = 0"
    by (simp_all add: real_mode_def sets_def Let_def, simp_all add: setr_def setzf_def)
  have "assembled code (xeip ?t1) (protect gdtdesc start32) b" using a(2) t1(1) by simp
  from protect_run [OF this t1(3)] obtain t2 where t2: "reach code ?t1 t2" "xeip t2 = start32" "cregs t2 CR0 AND CR0_PE \<noteq> 0" "sregs t2 CS = KCODE_SEL"
    "xflags t2 AND FL_IF = 0" "xmem t2 = xmem s" using t1(2) by metis
  let ?is = "[Movl_from_cr CR4 EAX, Orl_imm CR4_PSE EAX, Movl_to_cr EAX CR4, Movl_abs (start - 12) EAX, Movl_to_cr EAX CR3,
      Movl_from_cr CR0 EAX, Orl_imm (CR0_PE OR CR0_PG OR CR0_WP) EAX, Movl_to_cr EAX CR0, Movl_abs (start - 4) ESP]"
  have full: "entryother_start32 start spin = load_segments @ (?is @ [Call_mem (start - 8)]) @ bochs_spin spin" by (simp add: entryother_start32_def)
  obtain d e where d: "assembled code start32 load_segments d" "assembled code d (?is @ [Call_mem (start - 8)]) e"
    by (rule assembled_mid [OF code(2) [unfolded full]]) (rule that)
  have "assembled code (xeip t2) load_segments d" using d(1) t2(2) by simp
  from segments_run [OF this t2(3-5)] obtain t3 where t3: "reach code t2 t3" "xeip t3 = d" "flat_mode t3" "xmem t3 = xmem s" using t2(6) by metis
  have r4: "reach code t3 (exec_insn (Call_mem (start - 8)) ((fold exec_insn ?is t3)\<lparr>xeip := e\<rparr>))" (is "reach code t3 ?t4")
    by (rule reach_then) (use d(2) t3(2) in \<open>simp_all add: straight_def\<close>)
  have "reach code s ?t4" by (rule reach_trans [OF r1 reach_trans [OF t2(1) reach_trans [OF t3(1) r4]]])
  then show thesis by (rule that) (use t3(3,4) in \<open>simp_all add: flat_mode_def, simp_all add: xops\<close>)
qed

text \<open>
  C11. startothers() and entryother.S fit together: start_cpu() takes a page for the stack of the new CPU and leaves the address of its end,
  of mpenter() and of the page directory below the code at 0x7000, and only then starts the CPU; a processor that starts
  at 0x7000 with this memory calls mpenter() on that stack, in protected mode with flat segments, with paging on
  and the page directory loaded. The processor sees physical memory, which the kernel sees at \<open>P2V\<close>.
\<close>

theorem ap_starts_at_mpenter:
  assumes code: "assembled code 0x7000 (entryother_start gdtdesc start32) b" "assembled code start32 (entryother_start32 0x7000 spin) b'"
    and s: "kmem_ready s" "\<not> cur_IF s" "c \<noteq> me s"
  shows "\<exists>s'. start_cpu img (P2V 0x7000) c s = launch c s' \<and>
    (\<forall>u. xeip u = 0x7000 \<and> xmem u = (\<lambda>a. mem s' (P2V a)) \<longrightarrow>
      (\<exists>t. reach code u t \<and> xeip t = sym_mpenter img \<and> regs t ESP = freelist s + KSTACKSIZE - 4 \<and> flat_mode t \<and> paging_on (sym_entrypgdir img) t))"
proof -
  obtain s' where s': "start_cpu img (P2V 0x7000) c s = launch c s'" "mem s' = mailbox img (freelist s) (mem s)"
    by (rule start_cpu_mailbox [OF s])
  have "\<exists>t. reach code u t \<and> xeip t = sym_mpenter img \<and> regs t ESP = freelist s + KSTACKSIZE - 4 \<and> flat_mode t \<and> paging_on (sym_entrypgdir img) t"
    if u: "xeip u = 0x7000" "xmem u = (\<lambda>a. mem s' (P2V a))" for u
  proof -
    have wd: "load32 (xmem u) (0x7000 - 4) = freelist s + KSTACKSIZE" "load32 (xmem u) (0x7000 - 8) = sym_mpenter img"
      "load32 (xmem u) (0x7000 - 12) = V2P (sym_entrypgdir img)" unfolding u(2) s'(2) using mailbox_words [of img "freelist s" "mem s"] by simp_all
    obtain t where "reach code u t" "xeip t = sym_mpenter img" "regs t ESP = freelist s + KSTACKSIZE - 4" "flat_mode t"
      "cregs t CR3 = V2P (sym_entrypgdir img)" "cregs t CR0 AND CR0_PG \<noteq> 0" "cregs t CR0 AND CR0_WP \<noteq> 0" "cregs t CR4 AND CR4_PSE \<noteq> 0"
      by (rule entryother_run [OF code u(1), unfolded wd])
    then show ?thesis unfolding paging_on_def by blast
  qed
  with s'(1) show ?thesis by blast
qed

section \<open>Examples\<close>

definition ex_boot_code :: code where
  "ex_boot_code = place 0x7c00 (bootasm_start 0x7c05 0x7c0a 0x7d00 0x7c20) ++ place 0x7c20 (bootasm_start32 0x7c00 0x7e00 0x7c2e)"

lemmas boot_code_defs = bootasm_start_def bootasm_start32_def real_mode_def wait_kbc_def protect_def load_segments_def bochs_spin_def

theorem boot_reaches_bootmain_witness:
  "\<exists>t. reach ex_boot_code (ex_xcpu\<lparr>xeip := 0x7c00\<rparr>) t \<and> xeip t = 0x7e00 \<and> flat_mode t \<and> regs t ESP = 0x7bfc \<and> gdtr t = 0x7d00 \<and>
    ports_out t = [(0x64, 0xd1), (0x60, 0xdf)]"
proof -
  have "assembled ex_boot_code 0x7c00 (bootasm_start 0x7c05 0x7c0a 0x7d00 0x7c20) 0x7c14" "assembled ex_boot_code 0x7c20 (bootasm_start32 0x7c00 0x7e00 0x7c2e) 0x7c2f"
    "assembled ex_boot_code 0x7c00 real_mode 0x7c05" "assembled ex_boot_code 0x7c05 (wait_kbc 0x7c05 @ [Movb_imm 0xd1 EAX, Outb 0x64]) 0x7c0a"
    by (simp_all add: ex_boot_code_def place_def map_add_def boot_code_defs)
  from boot_reaches_bootmain [OF this, of "ex_xcpu\<lparr>xeip := 0x7c00\<rparr>"] show ?thesis by (simp add: ex_xcpu_def)
qed

definition ex_ap_code :: code where
  "ex_ap_code = place 0x7000 (entryother_start 0x7100 0x7020) ++ place 0x7020 (entryother_start32 0x7000 0x7036)"

definition ex_image :: boot_image where
  "ex_image = \<lparr>initcode = [], entryother = [], fs_img = (\<lambda>_. []), fs_img_size = 0, sym_mpenter = 0x80103400, sym_entrypgdir = 0x80109000\<rparr>"

definition ex_two_cpus :: log_state where
  "ex_two_cpus = ex_commit\<lparr>cpus := [ex_cpu, ex_cpu\<lparr>apicid := 1\<rparr>], eflags_IF := (\<lambda>_. False)\<rparr>"

theorem ap_starts_at_mpenter_witness:
  "\<exists>s'. start_cpu ex_image (P2V 0x7000) 1 ex_two_cpus = launch 1 s' \<and>
    (\<exists>t. reach ex_ap_code (ex_xcpu\<lparr>xeip := 0x7000, xmem := (\<lambda>a. mem s' (P2V a))\<rparr>) t \<and> xeip t = 0x80103400 \<and> regs t ESP = 0x80200FFC \<and>
      flat_mode t \<and> paging_on 0x80109000 t)"
proof -
  have "assembled ex_ap_code 0x7000 (entryother_start 0x7100 0x7020) 0x700a" "assembled ex_ap_code 0x7020 (entryother_start32 0x7000 0x7036) 0x7037"
    by (simp_all add: ex_ap_code_def place_def map_add_def boot_code_defs entryother_start_def entryother_start32_def)
  moreover have "kmem_ready ex_two_cpus" "\<not> cur_IF ex_two_cpus" "1 \<noteq> me ex_two_cpus" "freelist ex_two_cpus = ex_page"
    by (simp_all add: ex_two_cpus_def ex_commit_def ex_io_def frame_defs kmem_ready_def ex_cpu_def ex_lock_def)
  ultimately show ?thesis
    using ap_starts_at_mpenter [of ex_ap_code "0x7100" "0x7020" "0x700a" "0x7036" "0x7037" ex_two_cpus 1 ex_image]
    by (fastforce simp: ex_page_def KSTACKSIZE_def ex_image_def)
qed

end
