(* ===== verification/Bootmain.thy ===== *)
theory Bootmain
  imports Exec
begin

text \<open>
  bootmain.c, the second half of the boot sector: it reads the kernel, an ELF file that starts at sector 1 of the disk, sector by
  sector through the ports of the disk controller and jumps to its entry. The controller is modelled as far as the
  code uses it: the task-file registers, the command that reads one sector, and a number of polls for which it is busy.

  Shown here: reading a sector and reading a segment return whatever the delays are; when the segments of the kernel keep clear
  of one another and of the scratch page, bootmain() jumps to the entry of the kernel and the memory holds all of
  them, with zeroes behind their file parts.
\<close>

section \<open>The disk controller\<close>

record bootm =
  bm :: "uint \<Rightarrow> uchar"
  bdisk :: "nat \<Rightarrow> uchar list"
  breg :: "ushort \<Rightarrow> uchar"
  bbuf :: "uchar list"
  bbusy :: nat
  bdelay :: "nat \<Rightarrow> nat"

definition lba :: "bootm \<Rightarrow> nat" where
  "lba s = unat (breg s 0x1F3) + 256 * unat (breg s 0x1F4) + 65536 * unat (breg s 0x1F5) + 16777216 * unat (breg s 0x1F6 AND 0xF)"

definition boot_outb :: "ushort \<Rightarrow> uchar \<Rightarrow> bootm \<Rightarrow> bootm" where
  "boot_outb p v s =
     (let t = s\<lparr>breg := (breg s)(p := v)\<rparr> in
      if p = 0x1F7 \<and> v = 0x20 then t\<lparr>bbuf := bdisk s (lba t), bbusy := bdelay s 0, bdelay := (\<lambda>i. bdelay s (Suc i))\<rparr> else t)"

definition boot_status :: "bootm \<Rightarrow> uchar \<times> bootm" where
  "boot_status s = (if bbusy s = 0 then (0x40, s) else (0x80, s\<lparr>bbusy := bbusy s - 1\<rparr>))"

section \<open>bootmain.c\<close>

definition SECTSIZE :: uint where "SECTSIZE = 512"

partial_function (option) waitdisk :: "bootm \<Rightarrow> bootm option" where
  "waitdisk s = (case boot_status s of (v, t) \<Rightarrow> if v AND 0xC0 \<noteq> 0x40 then waitdisk t else Some t)"

definition boot_insl :: "uint \<Rightarrow> bootm \<Rightarrow> bootm" where
  "boot_insl dst s = s\<lparr>bm := (\<lambda>x. if unat (x - dst) < 512 then bbuf s ! unat (x - dst) else bm s x)\<rparr>"

definition readsect :: "uint \<Rightarrow> uint \<Rightarrow> bootm \<Rightarrow> bootm option" where
  "readsect dst offset s =
     Option.bind (waitdisk s) (\<lambda>s.
     let s = boot_outb 0x1F2 1 s;
         s = boot_outb 0x1F3 (ucast offset) s;
         s = boot_outb 0x1F4 (ucast (drop_bit 8 offset)) s;
         s = boot_outb 0x1F5 (ucast (drop_bit 16 offset)) s;
         s = boot_outb 0x1F6 (ucast (drop_bit 24 offset OR 0xE0)) s;
         s = boot_outb 0x1F7 0x20 s
     in Option.bind (waitdisk s) (\<lambda>s. Some (boot_insl dst s)))"

partial_function (option) readseg_loop :: "uint \<Rightarrow> uint \<Rightarrow> uint \<Rightarrow> bootm \<Rightarrow> bootm option" where
  "readseg_loop pa epa offset s =
     (if pa < epa then Option.bind (readsect pa offset s) (\<lambda>s. readseg_loop (pa + SECTSIZE) epa (offset + 1) s) else Some s)"

definition readseg :: "uint \<Rightarrow> uint \<Rightarrow> uint \<Rightarrow> bootm \<Rightarrow> bootm option" where
  "readseg pa count offset s = readseg_loop (pa - offset mod SECTSIZE) (pa + count) (offset div SECTSIZE + 1) s"

definition boot_bytes :: "(uint \<Rightarrow> uchar) \<Rightarrow> uint \<Rightarrow> nat \<Rightarrow> uchar list" where
  "boot_bytes m a n = map (\<lambda>i. m (a + of_nat i)) [0..<n]"

text \<open>The physical address in a program header, which exec() does not use.\<close>

definition ph_paddr :: "uchar list \<Rightarrow> uint" where
  "ph_paddr d = get32l d 12"

text \<open>The header lies in memory and is read again after the segment.\<close>

definition boot_segment :: "uint \<Rightarrow> bootm \<Rightarrow> bootm option" where
  "boot_segment ph s =
     (let d = boot_bytes (bm s) ph 32; pa = ph_paddr d in
      Option.bind (readseg pa (ph_filesz (decode_proghdr d)) (ph_off (decode_proghdr d)) s) (\<lambda>s.
      let d = boot_bytes (bm s) ph 32; filesz = ph_filesz (decode_proghdr d); memsz = ph_memsz (decode_proghdr d) in
      Some (if memsz > filesz then s\<lparr>bm := stosb (bm s) (pa + filesz) 0 (unat (memsz - filesz))\<rparr> else s)))"

primrec boot_segments :: "nat \<Rightarrow> uint \<Rightarrow> bootm \<Rightarrow> bootm option" where
  "boot_segments 0 ph s = Some s"
| "boot_segments (Suc n) ph s = Option.bind (boot_segment ph s) (boot_segments n (ph + 32))"

text \<open>The result is the machine and the address it jumps to, or \<open>None\<close> when bootmain() returns.\<close>

definition bootmain :: "bootm \<Rightarrow> (uint option \<times> bootm) option" where
  "bootmain s =
     (let elf = 0x10000 in
      Option.bind (readseg elf 4096 0 s) (\<lambda>s.
      let h = decode_elfhdr (boot_bytes (bm s) elf 52) in
      if e_magic h \<noteq> ELF_MAGIC then Some (None, s)
      else Option.bind (boot_segments (unat (e_phnum h)) (elf + e_phoff h) s) (\<lambda>s.
        Some (Some (e_entry (decode_elfhdr (boot_bytes (bm s) elf 52))), s))))"

section \<open>Reading sectors\<close>

text \<open>The bytes of the kernel file, which starts at sector 1.\<close>

definition kimage :: "(nat \<Rightarrow> uchar list) \<Rightarrow> nat \<Rightarrow> uchar" where
  "kimage d j = d (j div 512 + 1) ! (j mod 512)"

lemma waitdisk_ready: "waitdisk s = Some (s\<lparr>bbusy := 0\<rparr>)"
proof (induction "bbusy s" arbitrary: s)
  case 0
  then show ?case by (subst waitdisk.simps) (simp add: boot_status_def)
next
  case (Suc n)
  have "waitdisk (s\<lparr>bbusy := n\<rparr>) = Some (s\<lparr>bbusy := 0\<rparr>)" using Suc(1) [of "s\<lparr>bbusy := n\<rparr>"] by simp
  with Suc(2) [symmetric] show ?case by (subst waitdisk.simps) (simp add: boot_status_def)
qed

lemma unat_byte: "unat (ucast (drop_bit n w :: uint) :: uchar) = unat w div 2 ^ n mod 256"
  unfolding unsigned_ucast_eq unat_drop_bit_eq by (simp add: take_bit_eq_mod drop_bit_eq_div)

lemma lba_top: "unat (ucast (drop_bit 24 (w :: uint) OR 0xE0) AND 0xF :: uchar) = unat w div 2 ^ 24 mod 16"
proof -
  have m: "0xF = (mask 4 :: uchar)" by (simp add: mask_eq_exp_minus_1)
  have z: "\<not> bit (0xE0 :: nat) n" "\<not> bit (0xE0 :: int) n" "\<not> bit (0xE0 :: uint) n" if "n < 4" for n
  proof -
    from that have "n = 0 \<or> n = 1 \<or> n = 2 \<or> n = 3" by auto
    then show "\<not> bit (0xE0 :: nat) n" "\<not> bit (0xE0 :: int) n" "\<not> bit (0xE0 :: uint) n" by (auto simp: bit_0)
  qed
  have "(ucast (drop_bit 24 w OR 0xE0) AND 0xF :: uchar) = take_bit 4 (ucast (drop_bit 24 w))"
    unfolding m by (rule bit_word_eqI) (auto simp: bit_simps z)
  then have "unat (ucast (drop_bit 24 w OR 0xE0) AND 0xF :: uchar) = take_bit 4 (unat (ucast (drop_bit 24 w) :: uchar))"
    by (simp only: unsigned_take_bit_eq)
  then show ?thesis unfolding unat_byte take_bit_eq_mod by (simp add: mod_mod_cancel)
qed

lemma lba_bytes: "n < 2 ^ 28 \<Longrightarrow> n mod 256 + 256 * (n div 256 mod 256) + 65536 * (n div 65536 mod 256) + 16777216 * (n div 16777216 mod 16) = (n :: nat)"
proof -
  assume n: "n < 2 ^ 28"
  have a: "n mod 256 + 256 * (n div 256) = n" "n div 256 mod 256 + 256 * (n div 65536) = n div 256" "n div 65536 mod 256 + 256 * (n div 16777216) = n div 65536"
    using mod_mult_div_eq [of n 256] mod_mult_div_eq [of "n div 256" 256] mod_mult_div_eq [of "n div 65536" 256] by (simp_all add: div_mult2_eq [symmetric])
  have "n div 16777216 mod 16 = n div 16777216" using n by (intro mod_less) simp
  with a show ?thesis by linarith
qed

lemma readsect_ok:
  assumes "unat off < 2 ^ 28"
  obtains t where "readsect dst off s = Some t" "bdisk t = bdisk s"
    "bm t = (\<lambda>x. if unat (x - dst) < 512 then bdisk s (unat off) ! unat (x - dst) else bm s x)"
proof -
  have b: "unat (ucast off :: uchar) = unat off mod 256" "(2 :: nat) ^ 8 = 256" "(2 :: nat) ^ 16 = 65536" "(2 :: nat) ^ 24 = 16777216"
    using unat_byte [of 0 off] by simp_all
  have l: "unat (ucast off :: uchar) + 256 * unat (ucast (drop_bit 8 off) :: uchar) + 65536 * unat (ucast (drop_bit 16 off) :: uchar) +
    16777216 * unat (ucast (drop_bit 24 off OR 0xE0) AND 0xF :: uchar) = unat off"
    unfolding lba_top unat_byte b by (rule lba_bytes [OF assms])
  have "\<exists>t. readsect dst off s = Some t \<and> bdisk t = bdisk s \<and> bm t = (\<lambda>x. if unat (x - dst) < 512 then bdisk s (unat off) ! unat (x - dst) else bm s x)"
    by (simp add: readsect_def waitdisk_ready boot_outb_def boot_insl_def lba_def Let_def l cong: if_cong)
  with that show thesis by blast
qed

lemma split_sector:
  assumes "unat pa + 512 * Suc n < 2 ^ 32"
  shows "unat (x - pa) < 512 * Suc n \<Longrightarrow> \<not> unat (x - pa) < 512 \<Longrightarrow> unat (x - pa) = 512 + unat (x - (pa + 512 :: uint))"
    "unat (x - (pa + 512)) < 512 * n \<Longrightarrow> \<not> unat (x - pa) < 512 \<Longrightarrow> unat (x - pa) < 512 * Suc n"
    "unat (x - pa) < 512 \<Longrightarrow> \<not> unat (x - (pa + 512)) < 512 * n"
proof -
  let ?d = "unat (x - pa)"
  have a: "x - (pa + 512) = (x - pa) - 512" by simp
  have b: "\<not> ?d < 512 \<Longrightarrow> unat (x - (pa + 512)) = ?d - 512" unfolding a by (subst unat_sub) (simp_all add: word_le_nat_alt)
  then show "?d < 512 * Suc n \<Longrightarrow> \<not> ?d < 512 \<Longrightarrow> ?d = 512 + unat (x - (pa + 512))" "unat (x - (pa + 512)) < 512 * n \<Longrightarrow> \<not> ?d < 512 \<Longrightarrow> ?d < 512 * Suc n"
    by simp_all
  assume d: "?d < 512"
  have "unat (x - (pa + 512)) = 2 ^ 32 - 512 + ?d" using unat_sub_if' [of "x - pa" 512] d unfolding a by simp
  with assms show "\<not> unat (x - (pa + 512)) < 512 * n" by simp
qed

lemma readseg_loop_ok:
  assumes "unat pa + 512 * n < 2 ^ 32" and "unat epa \<le> unat pa + 512 * n" and "n \<noteq> 0 \<Longrightarrow> unat pa + 512 * (n - 1) < unat epa" and "unat off + n < 2 ^ 28"
  shows "\<exists>t. readseg_loop pa epa off s = Some t \<and> bdisk t = bdisk s \<and>
    bm t = (\<lambda>x. if unat (x - pa) < 512 * n then bdisk s (unat off + unat (x - pa) div 512) ! (unat (x - pa) mod 512) else bm s x)"
  using assms
proof (induction n arbitrary: pa off s)
  case 0
  then have "\<not> pa < epa" by (simp add: word_less_nat_alt)
  then show ?case by (subst readseg_loop.simps) simp
next
  case (Suc n)
  have lt: "pa < epa" using Suc.prems(3) by (simp add: word_less_nat_alt)
  have u: "unat (pa + 512) = unat pa + 512" "unat (off + 1) = unat off + 1" using Suc.prems(1,4) by (simp_all add: unat_word_ariths)
  have "unat off < 2 ^ 28" using Suc.prems(4) by simp
  then obtain r where r: "readsect pa off s = Some r" "bdisk r = bdisk s"
    "bm r = (\<lambda>x. if unat (x - pa) < 512 then bdisk s (unat off) ! unat (x - pa) else bm s x)" by (rule readsect_ok)
  have "\<exists>t. readseg_loop (pa + 512) epa (off + 1) r = Some t \<and> bdisk t = bdisk r \<and>
    bm t = (\<lambda>x. if unat (x - (pa + 512)) < 512 * n then bdisk r (unat (off + 1) + unat (x - (pa + 512)) div 512) ! (unat (x - (pa + 512)) mod 512) else bm r x)"
    by (rule Suc.IH) (use Suc.prems u in auto)
  then obtain t where t: "readseg_loop (pa + 512) epa (off + 1) r = Some t" "bdisk t = bdisk s"
    "bm t = (\<lambda>x. if unat (x - (pa + 512)) < 512 * n then bdisk s (unat off + 1 + unat (x - (pa + 512)) div 512) ! (unat (x - (pa + 512)) mod 512) else bm r x)"
    unfolding r(2) u(2) by blast
  note sp = split_sector [OF Suc.prems(1)]
  have "bm t x = (if unat (x - pa) < 512 * Suc n then bdisk s (unat off + unat (x - pa) div 512) ! (unat (x - pa) mod 512) else bm s x)" for x
  proof (cases "unat (x - pa) < 512")
    case True
    then show ?thesis using sp(3) [OF True] t(3) r(3) by simp
  next
    case False
    show ?thesis
    proof (cases "unat (x - pa) < 512 * Suc n")
      case True
      note e = sp(1) [OF True False]
      then have "unat (x - (pa + 512)) < 512 * n" using True by simp
      moreover have "(512 + y) div 512 = Suc (y div 512)" for y :: nat by simp
      ultimately show ?thesis using True t(3) unfolding e by simp
    next
      case no: False
      then show ?thesis using sp(2) [OF _ False] False t(3) r(3) by auto
    qed
  qed
  then show ?case using t(1,2) r(1) lt by (subst readseg_loop.simps) (auto simp: SECTSIZE_def)
qed

lemma region_nat:
  assumes "unat a + m \<le> 2 ^ 32"
  shows "unat (x - a) < m \<longleftrightarrow> unat a \<le> unat x \<and> unat x < unat (a :: uint) + m"
    "unat a \<le> unat x \<Longrightarrow> unat (x - a) = unat x - unat a"
proof -
  have x: "unat x < 2 ^ 32" by (rule order_less_le_trans [OF unsigned_less]) simp
  show "unat (x - a) < m \<longleftrightarrow> unat a \<le> unat x \<and> unat x < unat a + m" using assms unat_sub_if' [of x a] by (auto split: if_splits)
  show "unat a \<le> unat x \<Longrightarrow> unat (x - a) = unat x - unat a" using unat_sub_if' [of x a] by simp
qed

definition sectors :: "nat \<Rightarrow> nat \<Rightarrow> nat" where
  "sectors off count = (off mod 512 + count + 511) div 512"

lemma sectors_bounds: "off mod 512 + count \<le> 512 * sectors off count" "sectors off count \<noteq> 0 \<Longrightarrow> 512 * (sectors off count - 1) < off mod 512 + count"
proof -
  let ?a = "off mod 512 + count + 511"
  have d: "512 * (?a div 512) + ?a mod 512 = ?a" "?a mod 512 < 512" by simp_all
  then show "off mod 512 + count \<le> 512 * sectors off count" unfolding sectors_def by linarith
  assume "sectors off count \<noteq> 0"
  then have "512 * (sectors off count - 1) + 512 = 512 * (?a div 512)" unfolding sectors_def by (cases "?a div 512") simp_all
  with d show "512 * (sectors off count - 1) < off mod 512 + count" by linarith
qed

lemma readseg_ok:
  fixes pa count off :: uint
  defines "lo \<equiv> unat pa - unat off mod 512" and "n \<equiv> sectors (unat off) (unat count)"
  assumes r: "unat off mod 512 \<le> unat pa" and n: "lo + 512 * n < 2 ^ 32"
  obtains t where "readseg pa count off s = Some t" "bdisk t = bdisk s"
    "\<forall>x. bm t x = (if lo \<le> unat x \<and> unat x < lo + 512 * n then kimage (bdisk s) (unat off - unat off mod 512 + (unat x - lo)) else bm s x)"
proof -
  let ?r = "unat off mod 512"
  have ur: "unat (off mod 512) = ?r" by (simp add: unat_mod)
  then have base: "unat (pa - off mod 512) = lo" using r by (simp add: unat_sub word_le_nat_alt lo_def)
  have lp: "lo + ?r = unat pa" using r by (simp add: lo_def)
  note sb = sectors_bounds [of "unat off" "unat count", folded n_def]
  have "unat pa + unat count < 2 ^ 32" using sb(1) n lp by linarith
  then have epa: "unat (pa + count) = unat pa + unat count" by (simp add: unat_word_ariths)
  have "unat off < 2 ^ 32" by (rule order_less_le_trans [OF unsigned_less]) simp
  then have o: "unat (off div 512) = unat off div 512" "unat off div 512 < 2 ^ 23" by (simp_all add: unat_div)
  then have o1: "unat (off div 512 + 1) = unat off div 512 + 1" by (simp add: unat_word_ariths)
  have nb: "unat (off div 512 + 1) + n < 2 ^ 28" using o(2) o1 n by simp
  have "\<exists>t. readseg_loop (pa - off mod 512) (pa + count) (off div 512 + 1) s = Some t \<and> bdisk t = bdisk s \<and>
    bm t = (\<lambda>x. if unat (x - (pa - off mod 512)) < 512 * n then bdisk s (unat (off div 512 + 1) + unat (x - (pa - off mod 512)) div 512) !
      (unat (x - (pa - off mod 512)) mod 512) else bm s x)"
    by (rule readseg_loop_ok) (use base n epa lp sb nb in linarith)+
  then obtain t where t: "readseg pa count off s = Some t" "bdisk t = bdisk s" "bm t = (\<lambda>x. if unat (x - (pa - off mod 512)) < 512 * n
      then bdisk s (unat off div 512 + 1 + unat (x - (pa - off mod 512)) div 512) ! (unat (x - (pa - off mod 512)) mod 512) else bm s x)"
    unfolding readseg_def SECTSIZE_def o1 by blast
  have "bm t x = (if lo \<le> unat x \<and> unat x < lo + 512 * n then kimage (bdisk s) (unat off - ?r + (unat x - lo)) else bm s x)" for x
  proof -
    have reg: "unat (x - (pa - off mod 512)) < 512 * n \<longleftrightarrow> lo \<le> unat x \<and> unat x < lo + 512 * n"
      "lo \<le> unat x \<Longrightarrow> unat (x - (pa - off mod 512)) = unat x - lo" using region_nat [of "pa - off mod 512" "512 * n" x] base n by simp_all
    have q: "unat off - ?r = 512 * (unat off div 512)" by (simp add: minus_mod_eq_mult_div)
    have im: "kimage (bdisk s) (unat off - ?r + d) = bdisk s (unat off div 512 + 1 + d div 512) ! (d mod 512)" for d
      unfolding q kimage_def by simp
    show ?thesis unfolding t(3) reg(1) im by (cases "lo \<le> unat x \<and> unat x < lo + 512 * n") (simp_all only: reg(2) if_True if_False simp_thms)
  qed
  with t(1,2) show thesis by (intro that [of t]) blast+
qed

section \<open>Loading the kernel\<close>

text \<open>
  The memory a segment touches: from the sector boundary below it to the end of its last sector or of its zeroes. A segment
  may be loaded when this is not past the end of memory and clear of the scratch page.
\<close>

definition seg_lo :: "uchar list \<Rightarrow> nat" where
  "seg_lo d = unat (ph_paddr d) - unat (ph_off (decode_proghdr d)) mod 512"

definition seg_hi :: "uchar list \<Rightarrow> nat" where
  "seg_hi d = max (unat (ph_paddr d) + unat (ph_memsz (decode_proghdr d)))
     (seg_lo d + 512 * sectors (unat (ph_off (decode_proghdr d))) (unat (ph_filesz (decode_proghdr d))))"

definition seg_end :: "uchar list \<Rightarrow> nat" where
  "seg_end d = unat (ph_paddr d) + max (unat (ph_filesz (decode_proghdr d))) (unat (ph_memsz (decode_proghdr d)))"

definition seg_ok :: "uchar list \<Rightarrow> bool" where
  "seg_ok d \<longleftrightarrow> unat (ph_off (decode_proghdr d)) mod 512 \<le> unat (ph_paddr d) \<and> seg_hi d < 2 ^ 32 \<and> (seg_hi d \<le> 0x10000 \<or> 0x11000 \<le> seg_lo d)"

definition seg_loaded :: "(nat \<Rightarrow> uchar list) \<Rightarrow> uchar list \<Rightarrow> (uint \<Rightarrow> uchar) \<Rightarrow> bool" where
  "seg_loaded disk d m \<longleftrightarrow> (\<forall>x. unat (ph_paddr d) \<le> unat x \<longrightarrow>
     (let i = unat x - unat (ph_paddr d) in
      (i < unat (ph_filesz (decode_proghdr d)) \<longrightarrow> m x = kimage disk (unat (ph_off (decode_proghdr d)) + i)) \<and>
      (unat (ph_filesz (decode_proghdr d)) \<le> i \<and> i < unat (ph_memsz (decode_proghdr d)) \<longrightarrow> m x = 0)))"

lemma boot_bytes_same:
  assumes "\<And>x. 0x10000 \<le> unat x \<and> unat x < 0x11000 \<Longrightarrow> m x = l x" and "0x10000 \<le> unat a" and "unat a + n \<le> 0x11000"
  shows "boot_bytes m a n = boot_bytes l a n"
proof -
  have "m (a + of_nat i) = l (a + of_nat i)" if "i < n" for i
  proof (rule assms(1))
    have "unat (a + of_nat i) = unat a + i" using that assms(2,3) by (simp add: unat_word_ariths unat_of_nat)
    then show "0x10000 \<le> unat (a + of_nat i) \<and> unat (a + of_nat i) < 0x11000" using that assms(2,3) by simp
  qed
  then show ?thesis by (simp add: boot_bytes_def)
qed

lemma seg_bounds:
  assumes "seg_ok d"
  shows "seg_lo d + unat (ph_off (decode_proghdr d)) mod 512 = unat (ph_paddr d)" "seg_end d \<le> seg_hi d"
    "seg_lo d + 512 * sectors (unat (ph_off (decode_proghdr d))) (unat (ph_filesz (decode_proghdr d))) \<le> seg_hi d" "seg_hi d < 2 ^ 32"
proof -
  show l: "seg_lo d + unat (ph_off (decode_proghdr d)) mod 512 = unat (ph_paddr d)" using assms by (simp add: seg_ok_def seg_lo_def)
  show h: "seg_lo d + 512 * sectors (unat (ph_off (decode_proghdr d))) (unat (ph_filesz (decode_proghdr d))) \<le> seg_hi d" by (simp add: seg_hi_def)
  show "seg_hi d < 2 ^ 32" using assms by (simp add: seg_ok_def)
  have "unat (ph_paddr d) + unat (ph_filesz (decode_proghdr d)) \<le> seg_hi d"
    using h l sectors_bounds(1) [of "unat (ph_off (decode_proghdr d))" "unat (ph_filesz (decode_proghdr d))"] by linarith
  then show "seg_end d \<le> seg_hi d" by (simp add: seg_end_def seg_hi_def)
qed

lemma boot_segment_ok:
  fixes ph :: uint and s :: bootm
  defines "d \<equiv> boot_bytes (bm s) ph 32"
  assumes ok: "seg_ok d" and ph: "0x10000 \<le> unat ph" "unat ph + 32 \<le> 0x11000"
  obtains t where "boot_segment ph s = Some t" "bdisk t = bdisk s" "seg_loaded (bdisk s) d (bm t)"
    "\<And>x. unat x < seg_lo d \<or> seg_hi d \<le> unat x \<Longrightarrow> bm t x = bm s x"
proof -
  let ?h = "decode_proghdr d"
  note sb = seg_bounds [OF ok]
  have r: "unat (ph_off ?h) mod 512 \<le> unat (ph_paddr d)" using ok by (simp add: seg_ok_def)
  have n: "seg_lo d + 512 * sectors (unat (ph_off ?h)) (unat (ph_filesz ?h)) < 2 ^ 32" using sb(3,4) by simp
  obtain t where t: "readseg (ph_paddr d) (ph_filesz ?h) (ph_off ?h) s = Some t" "bdisk t = bdisk s"
    "\<forall>x. bm t x = (if seg_lo d \<le> unat x \<and> unat x < seg_lo d + 512 * sectors (unat (ph_off ?h)) (unat (ph_filesz ?h))
       then kimage (bdisk s) (unat (ph_off ?h) - unat (ph_off ?h) mod 512 + (unat x - seg_lo d)) else bm s x)"
    by (rule readseg_ok [OF r n [unfolded seg_lo_def], folded seg_lo_def]) (rule that)
  note rd = t(3) [rule_format]
  have "boot_bytes (bm t) ph 32 = d" unfolding d_def
    by (rule boot_bytes_same [OF _ ph]) (use ok sb(3) in \<open>auto simp: rd seg_ok_def\<close>)
  then have b: "boot_segment ph s = Some (if ph_memsz ?h > ph_filesz ?h
      then t\<lparr>bm := stosb (bm t) (ph_paddr d + ph_filesz ?h) 0 (unat (ph_memsz ?h - ph_filesz ?h))\<rparr> else t)"
    unfolding boot_segment_def d_def [symmetric] using t(1) by (simp add: Let_def)
  let ?f = "unat (ph_filesz ?h)" and ?m = "unat (ph_memsz ?h)" and ?pa = "unat (ph_paddr d)" and ?o = "unat (ph_off ?h)"
  obtain u where u: "boot_segment ph s = Some u" "bdisk u = bdisk s" "\<And>x. bm u x = (if ?pa + ?f \<le> unat x \<and> unat x < ?pa + ?m then 0 else bm t x)"
  proof (cases "ph_memsz ?h > ph_filesz ?h")
    case True
    then have lt: "?f < ?m" by (simp add: word_less_nat_alt)
    have "?pa + ?m \<le> seg_hi d" by (simp add: seg_hi_def)
    then have hi: "?pa + ?m < 2 ^ 32" using sb(4) by simp
    then have a: "unat (ph_paddr d + ph_filesz ?h) = ?pa + ?f" using lt by (simp add: unat_word_ariths)
    have l: "unat (ph_memsz ?h - ph_filesz ?h) = ?m - ?f" using lt by (simp add: unat_sub word_le_nat_alt)
    have "in_region (ph_paddr d + ph_filesz ?h) (?m - ?f) x \<longleftrightarrow> ?pa + ?f \<le> unat x \<and> unat x < ?pa + ?m" for x
      unfolding in_region_def using region_nat(1) [of "ph_paddr d + ph_filesz ?h" "?m - ?f" x] a hi lt by simp
    then show thesis using b True t(2) l by (intro that [of "t\<lparr>bm := stosb (bm t) (ph_paddr d + ph_filesz ?h) 0 (?m - ?f)\<rparr>"]) (simp_all add: stosb_eq)
  next
    case False
    then have "?m \<le> ?f" by (simp add: word_less_nat_alt)
    then show thesis using b False t(2) by (intro that [of t]) auto
  qed
  have "bm u x = bm s x" if "unat x < seg_lo d \<or> seg_hi d \<le> unat x" for x
    using that sb(1,3) u(3) [of x] rd [of x] unfolding seg_hi_def by (auto split: if_splits)
  moreover have "seg_loaded (bdisk s) d (bm u)"
    unfolding seg_loaded_def Let_def
  proof (intro allI impI conjI)
    fix x :: uint assume x: "?pa \<le> unat x"
    show "unat x - ?pa < ?f \<Longrightarrow> bm u x = kimage (bdisk s) (?o + (unat x - ?pa))"
    proof -
      assume lt: "unat x - ?pa < ?f"
      have "?o mod 512 \<le> ?o" by simp
      then have e: "?o - ?o mod 512 + (unat x - seg_lo d) = ?o + (unat x - ?pa)" using sb(1) x by linarith
      have i: "seg_lo d \<le> unat x \<and> unat x < seg_lo d + 512 * sectors ?o ?f" using sb(1) x lt sectors_bounds(1) [of ?o ?f] by linarith
      have "\<not> ?pa + ?f \<le> unat x" using lt x by linarith
      then have "bm u x = bm t x" using u(3) [of x] by simp
      then show ?thesis unfolding rd [of x] if_P [OF i] e .
    qed
    show "?f \<le> unat x - ?pa \<and> unat x - ?pa < ?m \<Longrightarrow> bm u x = 0" using u(3) [of x] x by auto
  qed
  ultimately show thesis using u(1,2) by (intro that [of u])
qed

text \<open>The program headers of the kernel, as they lie in the scratch page, in order.\<close>

definition in_order :: "(nat \<Rightarrow> uchar list) \<Rightarrow> nat \<Rightarrow> bool" where
  "in_order H n \<longleftrightarrow> (\<forall>k < n. seg_ok (H k)) \<and> (\<forall>k < n. \<forall>j < k. seg_end (H j) \<le> seg_lo (H k))"

lemma seg_loaded_keep:
  assumes "seg_loaded disk d m" and "\<And>x. unat x < seg_end d \<Longrightarrow> l x = m x"
  shows "seg_loaded disk d l"
proof -
  let ?f = "unat (ph_filesz (decode_proghdr d))" and ?m = "unat (ph_memsz (decode_proghdr d))" and ?pa = "unat (ph_paddr d)"
  have "l x = m x" if "?pa \<le> unat x" "unat x - ?pa < ?f \<or> unat x - ?pa < ?m" for x
    by (rule assms(2)) (use that in \<open>auto simp: seg_end_def\<close>)
  then show ?thesis using assms(1) unfolding seg_loaded_def Let_def by metis
qed

lemma boot_segments_ok:
  assumes "in_order H n" and "0x10000 \<le> unat ph" and "unat ph + 32 * n \<le> 0x11000"
    and "\<And>k. k < n \<Longrightarrow> boot_bytes (bm s) (ph + of_nat (32 * k)) 32 = H k"
  shows "\<exists>t. boot_segments n ph s = Some t \<and> bdisk t = bdisk s \<and> (\<forall>k < n. seg_loaded (bdisk s) (H k) (bm t)) \<and>
    (\<forall>x. (\<forall>k < n. unat x < seg_lo (H k) \<or> seg_hi (H k) \<le> unat x) \<longrightarrow> bm t x = bm s x)"
  using assms
proof (induction n arbitrary: H ph s)
  case (Suc n)
  have h0: "boot_bytes (bm s) ph 32 = H 0" using Suc.prems(4) [of 0] by simp
  have ok: "seg_ok (boot_bytes (bm s) ph 32)" using Suc.prems(1) unfolding h0 in_order_def by simp
  have p32: "unat ph + 32 \<le> 0x11000" using Suc.prems(3) by simp
  obtain u where u: "boot_segment ph s = Some u" "bdisk u = bdisk s" "seg_loaded (bdisk s) (H 0) (bm u)"
    "\<forall>x. unat x < seg_lo (H 0) \<or> seg_hi (H 0) \<le> unat x \<longrightarrow> bm u x = bm s x"
    using boot_segment_ok [OF ok Suc.prems(2) p32] unfolding h0 by metis
  have scratch: "bm u x = bm s x" if "0x10000 \<le> unat x \<and> unat x < 0x11000" for x
    using u(4) ok that unfolding h0 seg_ok_def by (metis le_trans not_le)
  have un: "unat (ph + 32) = unat ph + 32" using p32 by (simp add: unat_word_ariths)
  have hdr: "boot_bytes (bm u) (ph + 32 + of_nat (32 * k)) 32 = H (Suc k)" if "k < n" for k
  proof -
    let ?a = "ph + of_nat (32 * Suc k)"
    have "unat ?a = unat ph + 32 * Suc k" using that Suc.prems(3) by (simp add: unat_word_ariths unat_of_nat)
    then have "boot_bytes (bm u) ?a 32 = boot_bytes (bm s) ?a 32" by (intro boot_bytes_same scratch) (use Suc.prems(2,3) that in auto)
    then show ?thesis using Suc.prems(4) [of "Suc k"] that by (simp add: add.assoc)
  qed
  have ord: "in_order (\<lambda>k. H (Suc k)) n" using Suc.prems(1) by (simp add: in_order_def)
  have "\<exists>t. boot_segments n (ph + 32) u = Some t \<and> bdisk t = bdisk u \<and> (\<forall>k < n. seg_loaded (bdisk u) (H (Suc k)) (bm t)) \<and>
    (\<forall>x. (\<forall>k < n. unat x < seg_lo (H (Suc k)) \<or> seg_hi (H (Suc k)) \<le> unat x) \<longrightarrow> bm t x = bm u x)"
    by (rule Suc.IH [OF ord]) (use un Suc.prems(2,3) hdr in auto)
  then obtain t where t: "boot_segments n (ph + 32) u = Some t" "bdisk t = bdisk u" "\<forall>k < n. seg_loaded (bdisk u) (H (Suc k)) (bm t)"
    "\<forall>x. (\<forall>k < n. unat x < seg_lo (H (Suc k)) \<or> seg_hi (H (Suc k)) \<le> unat x) \<longrightarrow> bm t x = bm u x" by blast
  have "bm t x = bm u x" if "unat x < seg_end (H 0)" for x
  proof -
    have "unat x < seg_lo (H (Suc k))" if "k < n" for k
      using Suc.prems(1) \<open>unat x < seg_end (H 0)\<close> that unfolding in_order_def by (meson Suc_less_eq less_le_trans zero_less_Suc)
    then show ?thesis using t(4) by blast
  qed
  then have "seg_loaded (bdisk s) (H 0) (bm t)" by (rule seg_loaded_keep [OF u(3)])
  then have all: "seg_loaded (bdisk s) (H k) (bm t)" if "k < Suc n" for k using t(3) u(2) that by (cases k) simp_all
  have "bm t x = bm s x" if "\<forall>k < Suc n. unat x < seg_lo (H k) \<or> seg_hi (H k) \<le> unat x" for x
  proof -
    have "bm t x = bm u x" using t(4) that by blast
    also have "\<dots> = bm s x" using u(4) that by blast
    finally show ?thesis .
  qed
  with all show ?case using t(1,2) u(1,2) by simp
qed simp

definition kbytes :: "(nat \<Rightarrow> uchar list) \<Rightarrow> nat \<Rightarrow> nat \<Rightarrow> uchar list" where
  "kbytes disk a n = map (\<lambda>i. kimage disk (a + i)) [0..<n]"

lemma first_page:
  obtains t where "readseg 0x10000 4096 0 s = Some t" "bdisk t = bdisk s"
    "\<forall>a n. a + n \<le> 4096 \<longrightarrow> boot_bytes (bm t) (0x10000 + of_nat a) n = kbytes (bdisk s) a n"
proof -
  have n: "sectors (unat (0 :: uint)) (unat (4096 :: uint)) = 8" by (simp add: sectors_def)
  obtain t where t: "readseg 0x10000 4096 0 s = Some t" "bdisk t = bdisk s"
    "\<forall>x. bm t x = (if 0x10000 \<le> unat x \<and> unat x < 0x11000 then kimage (bdisk s) (unat x - 0x10000) else bm s x)"
  proof (rule readseg_ok [of 0 "0x10000" 4096 s, unfolded n])
    fix t assume "readseg 0x10000 4096 0 s = Some t" "bdisk t = bdisk s"
      "\<forall>x. bm t x = (if unat (0x10000 :: uint) - unat (0 :: uint) mod 512 \<le> unat x \<and> unat x < unat (0x10000 :: uint) - unat (0 :: uint) mod 512 + 512 * 8
         then kimage (bdisk s) (unat (0 :: uint) - unat (0 :: uint) mod 512 + (unat x - (unat (0x10000 :: uint) - unat (0 :: uint) mod 512))) else bm s x)"
    then show thesis by (intro that [of t]) simp_all
  qed simp_all
  have "bm t (0x10000 + of_nat a + of_nat i) = kimage (bdisk s) (a + i)" if "a + i < 4096" for a i
  proof -
    have "0x10000 + of_nat a + of_nat i = (of_nat (0x10000 + a + i) :: uint)" by simp
    then have "unat (0x10000 + of_nat a + of_nat i :: uint) = 0x10000 + a + i" using that by (simp only: unat_of_nat) simp
    then show ?thesis using t(3) that by simp
  qed
  then have "boot_bytes (bm t) (0x10000 + of_nat a) n = kbytes (bdisk s) a n" if "a + n \<le> 4096" for a n
    using that by (simp add: boot_bytes_def kbytes_def)
  with t(1,2) show thesis by (intro that [of t]) blast+
qed

text \<open>
  C10. bootmain() loads the kernel: when the file on the disk has the ELF magic, its program headers lie in its first page, and its
  segments come in the order of their addresses and keep clear of the scratch page, bootmain() jumps to the entry
  of the ELF header, however long the disk is busy, and the memory then holds each segment: the bytes of the file,
  and zeroes up to the size in memory. Each later segment is read in whole sectors from the boundary below it,
  which is why it may not begin in the last sector of an earlier one.
\<close>

theorem bootmain_loads_kernel:
  fixes s :: bootm
  defines "h \<equiv> decode_elfhdr (kbytes (bdisk s) 0 52)"
  defines "H \<equiv> \<lambda>k. kbytes (bdisk s) (unat (e_phoff h) + 32 * k) 32"
  assumes magic: "e_magic h = ELF_MAGIC" and fits: "unat (e_phoff h) + 32 * unat (e_phnum h) \<le> 4096" and ord: "in_order H (unat (e_phnum h))"
  shows "\<exists>t. bootmain s = Some (Some (e_entry h), t) \<and> (\<forall>k < unat (e_phnum h). seg_loaded (bdisk s) (H k) (bm t))"
proof -
  let ?n = "unat (e_phnum h)" and ?ph = "0x10000 + e_phoff h"
  obtain u where u: "readseg 0x10000 4096 0 s = Some u" "bdisk u = bdisk s"
    and page: "\<forall>a n. a + n \<le> 4096 \<longrightarrow> boot_bytes (bm u) (0x10000 + of_nat a) n = kbytes (bdisk s) a n" by (rule first_page [of s])
  have h: "decode_elfhdr (boot_bytes (bm u) 0x10000 52) = h" using spec [OF spec [OF page, of 0], of 52] by (simp add: h_def)
  have un: "unat ?ph = 0x10000 + unat (e_phoff h)" using fits by (simp add: unat_word_ariths)
  have hdr: "boot_bytes (bm u) (?ph + of_nat (32 * k)) 32 = H k" if "k < ?n" for k
    using spec [OF spec [OF page, of "unat (e_phoff h) + 32 * k"], of 32] fits that by (simp add: H_def add.assoc)
  have "\<exists>t. boot_segments ?n ?ph u = Some t \<and> bdisk t = bdisk u \<and> (\<forall>k < ?n. seg_loaded (bdisk u) (H k) (bm t)) \<and>
    (\<forall>x. (\<forall>k < ?n. unat x < seg_lo (H k) \<or> seg_hi (H k) \<le> unat x) \<longrightarrow> bm t x = bm u x)"
    by (rule boot_segments_ok [OF ord]) (use un fits hdr in auto)
  then obtain t where t: "boot_segments ?n ?ph u = Some t" "\<forall>k < ?n. seg_loaded (bdisk s) (H k) (bm t)"
    "\<forall>x. (\<forall>k < ?n. unat x < seg_lo (H k) \<or> seg_hi (H k) \<le> unat x) \<longrightarrow> bm t x = bm u x" unfolding u(2) by blast
  have "bm t x = bm u x" if "0x10000 \<le> unat x \<and> unat x < 0x11000" for x
    using t(3) ord that unfolding in_order_def seg_ok_def by (meson le_trans not_le)
  then have "boot_bytes (bm t) 0x10000 52 = boot_bytes (bm u) 0x10000 52" by (rule boot_bytes_same) simp_all
  then have "bootmain s = Some (Some (e_entry h), t)" using u(1) t(1) magic h by (simp add: bootmain_def Let_def)
  with t(2) show ?thesis by blast
qed

text \<open>A kernel of five bytes of memory, three of them from the file, to try it on.\<close>

definition ex_elfhdr :: "uchar list" where
  "ex_elfhdr = [0x7f, 0x45, 0x4c, 0x46, 0, 0, 0, 0, 0, 0, 0, 0, 0, 0, 0, 0, 0, 0, 0, 0, 0, 0, 0, 0, 0xc, 0, 0x10, 0, 0x34, 0, 0, 0, 0, 0, 0, 0, 0, 0, 0, 0, 0, 0, 0, 0, 1, 0, 0, 0, 0, 0, 0, 0]"

definition ex_proghdr :: "uchar list" where
  "ex_proghdr = [1, 0, 0, 0, 0, 0x10, 0, 0, 0, 0, 0, 0, 0, 0, 0x10, 0, 3, 0, 0, 0, 5, 0, 0, 0, 0, 0, 0, 0, 0, 0, 0, 0]"

definition ex_kernel :: "nat \<Rightarrow> uchar list" where
  "ex_kernel n = (if n = 1 then ex_elfhdr @ ex_proghdr @ replicate 428 0 else if n = 9 then [0xA1, 0xA2, 0xA3] @ replicate 509 0x77 else replicate 512 0)"

definition ex_bootm :: bootm where
  "ex_bootm = \<lparr>bm = (\<lambda>_. 0x55), bdisk = ex_kernel, breg = (\<lambda>_. 0), bbuf = [], bbusy = 3, bdelay = (\<lambda>i. i)\<rparr>"

lemma ex_headers: "kbytes ex_kernel 0 52 = ex_elfhdr" "kbytes ex_kernel 52 32 = ex_proghdr"
proof -
  have l: "length ex_elfhdr = 52" "length ex_proghdr = 32" by (simp_all add: ex_elfhdr_def ex_proghdr_def)
  then show "kbytes ex_kernel 0 52 = ex_elfhdr" "kbytes ex_kernel 52 32 = ex_proghdr"
    by (auto intro!: nth_equalityI simp: kbytes_def kimage_def ex_kernel_def nth_append)
qed

lemma ex_decoded:
  "decode_elfhdr ex_elfhdr = \<lparr>e_magic = ELF_MAGIC, e_entry = 0x10000C, e_phoff = 52, e_phnum = 1\<rparr>"
  "decode_proghdr ex_proghdr = \<lparr>ph_type = 1, ph_off = 0x1000, ph_vaddr = 0, ph_filesz = 3, ph_memsz = 5\<rparr>"
  "ph_paddr ex_proghdr = 0x100000"
  by (simp_all add: ex_elfhdr_def ex_proghdr_def decode_elfhdr_def decode_proghdr_def ph_paddr_def get32l_def get16l_def ELF_MAGIC_def)

theorem bootmain_loads_kernel_witness:
  "\<exists>t. bootmain ex_bootm = Some (Some 0x10000C, t) \<and> bm t 0x100002 = 0xA3 \<and> bm t 0x100004 = 0"
proof -
  have d: "bdisk ex_bootm = ex_kernel" by (simp add: ex_bootm_def)
  have "seg_lo ex_proghdr = 0x100000" "seg_hi ex_proghdr = 0x100200" by (simp_all add: seg_lo_def seg_hi_def ex_decoded sectors_def)
  then have "seg_ok ex_proghdr" by (simp add: seg_ok_def ex_decoded)
  then have "in_order (\<lambda>k. kbytes ex_kernel (52 + 32 * k) 32) 1" by (simp add: in_order_def ex_headers)
  then obtain t where t: "bootmain ex_bootm = Some (Some 0x10000C, t)" "seg_loaded ex_kernel ex_proghdr (bm t)"
    using bootmain_loads_kernel [of ex_bootm] by (auto simp: d ex_headers ex_decoded)
  have "bm t 0x100002 = kimage ex_kernel 0x1002 \<and> bm t 0x100004 = 0"
    using spec [OF t(2) [unfolded seg_loaded_def], of "0x100002"] spec [OF t(2) [unfolded seg_loaded_def], of "0x100004"] by (simp add: ex_decoded)
  moreover have "kimage ex_kernel 0x1002 = 0xA3" by (simp add: kimage_def ex_kernel_def)
  ultimately show ?thesis using t(1) by auto
qed

end
