(* ===== verification/Spec2Isabelle.thy ===== *)
theory Spec2Isabelle
  imports Examples_Io Boot Grep Shell_Print Programs Mkfs_Files Umalloc_Calls Startup Bootmain
begin

text \<open>
  A verification library for the repository: xv6, a small Unix for x86 multiprocessors, whose
  scheduler was replaced by one with priorities (README.md, src/Final/). This theory imports all
  others; each of them opens with what it holds.

  \<^bold>\<open>The parts of the program.\<close>

  The kernel: CPUs take spin-locks (spinlock.c); physical pages come from kalloc.c and page tables from vm.c; the process
  table (proc.c) is shared by the scheduler, which picks the runnable process with the smallest \<open>prio\<close>, and
  by sleep() and wakeup(); sleep-locks (sleeplock.c) protect long operations. Disk blocks are read and
  written by ide.c or memide.c through the buffer cache (bio.c); the log (log.c) makes groups of
  block writes atomic; fs.c builds inodes, directories and paths on them, file.c and pipe.c open files and
  pipes. A trap (trap.c) is an interrupt of a device (console.c, kbd.c, uart.c, ide.c, the timer of lapic.c) or a
  system call (syscall.c, sysproc.c, sysfile.c, exec.c); main.c starts it all after mp.c has found the CPUs. The boot sector (bootasm.S, bootmain.c) loads the kernel from the disk.
  In user space run init, the shell (sh.c) and small programs on ulib.c and printf.c. The disk image
  they are read from is built on the host by mkfs.c.

  \<^bold>\<open>How the kernel is modelled.\<close>

  The state is one extensible record that grows with the theories, one extension per file of the kernel: \<open>machine\<close>
  (CPUs, locks, byte memory, ports), then the allocator, the process table, sleep-locks, devices, disk and
  buffers, log, file system, console, pipes and files, traps. A C function is a value of type \<open>('s, 'a) kM\<close>
  (Prelude): it returns (\<open>Ok\<close>), faults (\<open>Fail\<close>: panic(), a processor exception, an access out of bounds, a
  spin on a lock that this CPU holds), or gives up the CPU (\<open>Switch\<close>, swtch.S) with the rest of it as a
  continuation. Pointers to table entries are indices, \<open>None\<close> a null pointer; bytes, words, page tables and the
  free list of pages are kept in byte memory as in the source. \<open>hoare G R E P m Q\<close> is the contract of a
  function that may sleep: while it is away, other processes may do what the rely \<open>R\<close> allows.
  \<open>resume_with ts r\<close> runs such a function through the states \<open>ts\<close> in which it is resumed.

  \<^item> Machine, Bytes, Strings: param.h, mmu.h, memlayout.h, x86.h, string.c and little-endian encodings.
  \<^item> Spinlock: spinlock.c and mycpu() of proc.c. Nesting of pushcli and popcli, critical sections as closed
    forms (\<open>enter\<close>, \<open>leave\<close>), and mutual exclusion of several CPUs by rule induction on the interleavings of their
    accesses to a lock, which are shown to be those of the functions.
  \<^item> Kalloc, Vm: kalloc.c and vm.c. No page is lost or handed out twice; freerange() ends.
  \<^item> Rtc: the three copies of the clock reader. A date that is returned was shown by the clock.
  \<^item> Proc, Scheduler, Process: proc.c. The scheduler picks a best process, by the clock among equals, and is
    safe for any number of rounds under a condition on the table; what a round does is stated on every branch, its faults
    included. sleep() loses no wake-up, whatever another CPU does between two of its statements.
  \<^item> Sleeplock, Devices, Ide: sleeplock.c, picirq.c, ioapic.c, lapic.c, uart.c, kbd.c, ide.c, memide.c.
    acquiresleep() takes its lock at the first look at which it is free.
  \<^item> Bio, Block, Blockio, Diskops: bio.c. Block states the invariant of the cache on the memory disk and proves the laws of
    the locale \<open>block_cache\<close> of Blockio, by which the log and Diskops use it; Diskops shows that the
    cache refines a plain disk.
  \<^item> Log, Crash: log.c. After a crash at any block write of commit() recovery leaves all or nothing of a
    transaction.
  \<^item> Inode, Fs, Console, Pipe, Fifo, File: fs.c, console.c, pipe.c, file.c. Fifo has the locale \<open>byte_queue\<close>, interpreted on
    the ring buffer of pipe.c, and what its blocking reader and writer do at each look at it.
  \<^item> Syscall, Sysfile, Exec, Trap, Boot: syscall.c, sysfile.c, exec.c, sysproc.c, trap.c, mp.c, main.c.
  \<^item> Asm, Switch, Startup: swtch.S, trapasm.S, vectors.pl, entry.S, entryother.S and bootasm.S as lists of instructions of a
    processor with registers, segments and byte memory. swtch() returns to its caller when its context is switched to again;
    every vector builds a struct trapframe and trapret undoes it; the start-up code reaches bootmain(), main() and,
    with what startothers() left for it, mpenter().
  \<^item> Bootmain: bootmain.c with a disk controller. The memory holds the segments of the kernel file when it is entered.
  \<^item> Examples, Examples_Io: machines at which the theorems are applied.

  \<^bold>\<open>How user space is modelled.\<close>

  A program is a tree of system calls (\<open>uprog\<close>, Usys): what follows a call depends on the answer. \<open>urun\<close> runs a tree
  against a kernel given as a record of answers, and \<open>ends_in P p\<close> speaks of all kernels at once. Strings are lists of
  bytes without the NUL, pointers into a string are its suffixes.

  \<^item> Usys, Ulib, Ustream: user.h, usys.S, ulib.c, printf.c and a kernel of byte streams. atoi() reads back what
    printf prints.
  \<^item> Umalloc, Umalloc_Heap, Umalloc_Calls: umalloc.c. free() refines a sorted insertion that joins neighbours, and in
    any sequence of calls the blocks a program holds stay apart. The program is taken to keep to its blocks: the
    headers are maps of their own and not bytes of the memory a program writes to.
  \<^item> Grep: grep.c. match() decides the language of a pattern; the loop prints the matching lines.
  \<^item> Shell, Shell_Words, Shell_Print: sh.c. The parser ends on every line, cuts the words out of it, and reads
    back every printed command; runcmd() never returns.
  \<^item> Programs: cat, echo, wc, ln, rm, mkdir, kill, ls, init, zombie, stressfs, forktest, my_prog, my_prog0, my_prog1.
  \<^item> Mkfs, Mkfs_Image, Mkfs_Files: mkfs.c. The image holds the files, read with the decoders of the kernel, and its
    bitmap accounts for exactly their blocks.

  \<^bold>\<open>Fuel and bounds.\<close>

  Loops over a number of bytes or over a table are recursions on that number. The spins of the kernel that wait for a device or for
  another CPU have no bound in the source; they take fuel and end in \<open>NoFuel\<close>, and the theorems state
  how much is enough. The parser of the shell gets 5 levels of recursion per character and 6 more, which is proved
  enough; a program that reads its input gets one turn per read and one more; iappend() of mkfs.c one per byte; malloc() and free()
  three turns per call made so far and five more.

  \<^bold>\<open>What is not modelled.\<close>

  \<^item> The encodings of instructions, and of the processor what the assembly does not use: segment limits, other flags than the
    zero and the interrupt flag, faults. The descriptor tables of bootasm.S and entryother.S are an address
    to load. The switch of the kernel model (\<open>Switch\<close>) and its trap frames are not run through the instructions;
    Switch.thy shows that the instructions do what they stand for. The bytes of initcode.S are an argument of userinit().
  \<^item> The command constructors of sh.c are the constructors of \<open>cmd\<close>, so running out of memory in the shell is left out.
  \<^item> usertests.c is a program of tests; blah.c, cuth, spinp and the files ending in a tilde are not part of the build.
  \<^item> The stack pointer that swtch() saves in \<open>p->context\<close> of a process that gives up the CPU: the field keeps the context
    allocproc() built, so the call stack procdump() prints is that one. \<open>lk->pcs\<close>, which nothing reads.
  \<^item> An exec() of the shell that succeeds, which replaces the program: the tree of runcmd() goes on with the answer
    of the call, that is, after a failure. Its null test and its default branch cannot be reached from a parsed command.
  \<^item> A CPU that waits for a spin-lock: within one CPU's program it is the outcome \<open>Spin\<close>; the waiting itself is in the step
    relation of Spinlock.
  \<^item> Interrupts arrive in the model where a function gives up the CPU or the trap entry is called, not between
    two instructions of the kernel.
\<close>

end
